(* ===== verification/Kernel_Prelude.thy ===== *)
theory Kernel_Prelude
  imports Main "HOL-Library.Word" "HOL-Library.Multiset"
begin

unbundle bit_operations_syntax

text \<open>
  What the component theories share: the names of the machine integers, the fixed-width
  arithmetic of the Rust standard library that the kernel uses (\<open>saturating_add\<close>,
  \<open>checked_add\<close>, \<open>checked_mul\<close>, the casts), counting over lists, and the collections
  of simplification rules the components add to.
\<close>

named_theorems quota_simps \<open>how an operation moves a resource counter\<close>
named_theorems table_simps \<open>unfolding rules of the handle table's operations\<close>
named_theorems chan_simps \<open>unfolding rules of the channel's operations\<close>
named_theorems wf_intros \<open>an operation keeps its component's invariant\<close>

section \<open>Machine integers\<close>

type_synonym u8 = "8 word"
type_synonym u16 = "16 word"
type_synonym u32 = "32 word"
type_synonym u64 = "64 word"

type_synonym koid = nat

text \<open>
  Byte counts, page counts and quota counters are \<open>u64\<close> in the source. They are modelled as
  \<^typ>\<open>nat\<close> with the width written out at every operation that can reach it.
\<close>

definition U64_MAX :: nat where
  "U64_MAX = 18446744073709551615"

definition saturating_add :: "nat \<Rightarrow> nat \<Rightarrow> nat" where
  "saturating_add a b = min (a + b) U64_MAX"

definition checked_add :: "nat \<Rightarrow> nat \<Rightarrow> nat option" where
  "checked_add a b = (if a + b \<le> U64_MAX then Some (a + b) else None)"

definition checked_mul :: "nat \<Rightarrow> nat \<Rightarrow> nat option" where
  "checked_mul a b = (if a * b \<le> U64_MAX then Some (a * b) else None)"

lemma saturating_add_exact [simp]: "a + b \<le> U64_MAX \<Longrightarrow> saturating_add a b = a + b"
  by (simp add: saturating_add_def)

lemma saturating_add_bound: "saturating_add a b \<le> U64_MAX"
  by (simp add: saturating_add_def)

lemma checked_add_Some [simp]: "checked_add a b = Some c \<longleftrightarrow> c = a + b \<and> a + b \<le> U64_MAX"
  by (auto simp: checked_add_def)

lemma checked_mul_Some [simp]: "checked_mul a b = Some c \<longleftrightarrow> c = a * b \<and> a * b \<le> U64_MAX"
  by (auto simp: checked_mul_def)

section \<open>Bounded quantifiers over the positions of a list\<close>

lemma all_less_Suc_split: "(\<forall>k < Suc n. P k) \<longleftrightarrow> P 0 \<and> (\<forall>k < n. P (Suc k))"
  using less_Suc_eq_0_disj by auto

lemma ex_less_Suc_split: "(\<exists>k < Suc n. P k) \<longleftrightarrow> P 0 \<or> (\<exists>k < n. P (Suc k))"
  using less_Suc_eq_0_disj by auto

section \<open>Counting in a list that is updated in place\<close>

definition count_if :: "('a \<Rightarrow> bool) \<Rightarrow> 'a list \<Rightarrow> nat" where
  "count_if P xs = length (filter P xs)"

lemma count_if_simps [simp]:
  "count_if P [] = 0"
  "count_if P (x # xs) = (if P x then Suc (count_if P xs) else count_if P xs)"
  "count_if P (xs @ ys) = count_if P xs + count_if P ys"
  by (simp_all add: count_if_def)

lemma count_if_positive: "i < length xs \<Longrightarrow> P (xs ! i) \<Longrightarrow> 0 < count_if P xs"
  by (auto simp: count_if_def filter_empty_conv intro!: nth_mem)

lemma count_if_update:
  "i < length xs \<Longrightarrow>
    count_if P (xs[i := x]) + of_bool (P (xs ! i)) = count_if P xs + of_bool (P x)"
proof (induction xs arbitrary: i)
  case (Cons y ys)
  then show ?case
  proof (cases i)
    case (Suc j)
    with Cons.prems Cons.IH [of j] show ?thesis by auto
  qed auto
qed simp

lemma count_if_update_same:
  "i < length xs \<Longrightarrow> P (xs ! i) = P x \<Longrightarrow> count_if P (xs[i := x]) = count_if P xs"
  using count_if_update [of i xs P x] by simp

lemma count_if_update_off:
  "i < length xs \<Longrightarrow> P (xs ! i) \<Longrightarrow> \<not> P x \<Longrightarrow> Suc (count_if P (xs[i := x])) = count_if P xs"
  using count_if_update [of i xs P x] by simp

lemma count_if_update_on:
  "i < length xs \<Longrightarrow> \<not> P (xs ! i) \<Longrightarrow> P x \<Longrightarrow> count_if P (xs[i := x]) = Suc (count_if P xs)"
  using count_if_update [of i xs P x] by simp

lemma count_if_card: "count_if P xs = card {k. k < length xs \<and> P (xs ! k)}"
  by (simp add: count_if_def length_filter_conv_card)

section \<open>Positions\<close>

text \<open>The position of the first element that satisfies the predicate.\<close>

fun position :: "('a \<Rightarrow> bool) \<Rightarrow> 'a list \<Rightarrow> nat option" where
  "position P [] = None"
| "position P (x # xs) = (if P x then Some 0 else map_option Suc (position P xs))"

text \<open>
  \<^verbatim>\<open>partition_point\<close> of a slice that is partitioned: the length of the part that satisfies the predicate.
\<close>

definition partition_point :: "('a \<Rightarrow> bool) \<Rightarrow> 'a list \<Rightarrow> nat" where
  "partition_point P xs = length (takeWhile P xs)"

section \<open>Invariants along runs\<close>

lemma run_invariant:
  assumes "r\<^sup>*\<^sup>* x y" and "P x" and "\<And>a b. r a b \<Longrightarrow> P a \<Longrightarrow> P b"
  shows "P y"
  using assms(1,2) by (induction rule: rtranclp_induct) (auto intro: assms(3))

section \<open>Charging loops over a ledger\<close>

text \<open>
  A loop that takes one unit at a time and gives back everything it took when a unit is
  refused. The ledger is whatever the caller charges; the two operations are arguments.
\<close>

fun charge_loop ::
  "('s \<Rightarrow> bool \<times> 's) \<Rightarrow> (nat \<Rightarrow> 's \<Rightarrow> 's) \<Rightarrow> nat \<Rightarrow> nat \<Rightarrow> 's \<Rightarrow> bool \<times> 's" where
  "charge_loop try_one give_back taken 0 s = (True, s)"
| "charge_loop try_one give_back taken (Suc left) s =
     (case try_one s of
        (False, s') \<Rightarrow> (False, give_back taken s')
      | (True, s') \<Rightarrow> charge_loop try_one give_back (Suc taken) left s')"

end
