(* ===== verification/Objects.thy ===== *)
theory Objects
  imports Kernel_Prelude
begin

text \<open>
  Rights, object types, object headers and capabilities
  (\<^verbatim>\<open>src/src/kernel/object/rights.rs\<close>, \<^verbatim>\<open>src/src/kernel/object/mod.rs\<close> and the capability
  half of \<^verbatim>\<open>src/src/kernel/object/handle/mod.rs\<close>).

  An \<^verbatim>\<open>Arc<dyn KernelObject>\<close> is the object's koid; the header it dereferences to is read from
  an object heap, a total function because a counted reference always dereferences.
\<close>

section \<open>Rights\<close>

type_synonym rights = u32

definition RIGHT_READ :: rights where "RIGHT_READ = 1"
definition RIGHT_WRITE :: rights where "RIGHT_WRITE = 2"
definition RIGHT_EXECUTE :: rights where "RIGHT_EXECUTE = 4"
definition RIGHT_MAP :: rights where "RIGHT_MAP = 8"
definition RIGHT_SEND :: rights where "RIGHT_SEND = 16"
definition RIGHT_RECEIVE :: rights where "RIGHT_RECEIVE = 32"
definition RIGHT_DUPLICATE :: rights where "RIGHT_DUPLICATE = 64"
definition RIGHT_TRANSFER :: rights where "RIGHT_TRANSFER = 128"
definition RIGHT_REVOKE :: rights where "RIGHT_REVOKE = 256"
definition RIGHT_GET_INFO :: rights where "RIGHT_GET_INFO = 512"
definition RIGHT_MANAGE :: rights where "RIGHT_MANAGE = 1024"
definition RIGHT_WAIT :: rights where "RIGHT_WAIT = 2048"

definition RIGHTS_ALL :: rights where
  "RIGHTS_ALL = RIGHT_READ OR RIGHT_WRITE OR RIGHT_EXECUTE OR RIGHT_MAP OR RIGHT_SEND OR
     RIGHT_RECEIVE OR RIGHT_DUPLICATE OR RIGHT_TRANSFER OR RIGHT_REVOKE OR RIGHT_GET_INFO OR
     RIGHT_MANAGE OR RIGHT_WAIT"

lemmas right_defs = RIGHT_READ_def RIGHT_WRITE_def RIGHT_EXECUTE_def RIGHT_MAP_def RIGHT_SEND_def
  RIGHT_RECEIVE_def RIGHT_DUPLICATE_def RIGHT_TRANSFER_def RIGHT_REVOKE_def RIGHT_GET_INFO_def
  RIGHT_MANAGE_def RIGHT_WAIT_def

definition rights_from_bits :: "u32 \<Rightarrow> rights" where
  "rights_from_bits bits = bits AND RIGHTS_ALL"

definition rights_contains :: "rights \<Rightarrow> rights \<Rightarrow> bool" where
  "rights_contains self other \<longleftrightarrow> self AND other = other"

lemma rights_contains_bits:
  "rights_contains a b \<longleftrightarrow> (\<forall>n. bit b n \<longrightarrow> bit a n)"
  unfolding rights_contains_def
proof
  assume "a AND b = b"
  then show "\<forall>n. bit b n \<longrightarrow> bit a n" by (metis bit_and_iff)
next
  assume "\<forall>n. bit b n \<longrightarrow> bit a n"
  then show "a AND b = b" by (intro bit_word_eqI) (auto simp: bit_and_iff)
qed

lemma rights_contains_refl [simp]: "rights_contains a a"
  by (simp add: rights_contains_bits)

lemma rights_contains_trans:
  "rights_contains a b \<Longrightarrow> rights_contains b c \<Longrightarrow> rights_contains a c"
  by (simp add: rights_contains_bits)

lemma rights_contains_antisym:
  "rights_contains a b \<Longrightarrow> rights_contains b a \<Longrightarrow> a = b"
  by (auto simp: rights_contains_bits bit_eq_iff)

lemma rights_contains_and [simp]: "rights_contains a (a AND m)"
  by (simp add: rights_contains_bits bit_simps)

lemma rights_contains_zero [simp]: "rights_contains a 0"
  by (simp add: rights_contains_bits)

section \<open>Object types and headers\<close>

datatype object_type =
    Domain | Process | Thread | AddressSpace | MemoryObject | Channel | Event | Timer
  | Interrupt | DeviceMemory | DmaBuffer | Claim | ProcessGroup | Privilege | WaitSet
  | PortRange | ConsoleTap | Registers | LatencyRequest | Balloon | PlugRegion

fun object_type_code :: "object_type \<Rightarrow> u64" where
  "object_type_code Domain = 0"
| "object_type_code Process = 1"
| "object_type_code Thread = 2"
| "object_type_code AddressSpace = 3"
| "object_type_code MemoryObject = 4"
| "object_type_code Channel = 5"
| "object_type_code Event = 6"
| "object_type_code Timer = 7"
| "object_type_code Interrupt = 8"
| "object_type_code DeviceMemory = 9"
| "object_type_code DmaBuffer = 10"
| "object_type_code Claim = 14"
| "object_type_code ProcessGroup = 11"
| "object_type_code Privilege = 12"
| "object_type_code WaitSet = 13"
| "object_type_code PortRange = 15"
| "object_type_code ConsoleTap = 16"
| "object_type_code Registers = 17"
| "object_type_code LatencyRequest = 18"
| "object_type_code Balloon = 19"
| "object_type_code PlugRegion = 20"

lemma object_type_code_inject: "object_type_code a = object_type_code b \<Longrightarrow> a = b"
  by (cases a; cases b; simp)

record object_header =
  oh_type :: object_type
  oh_generation :: u32

type_synonym objects = "koid \<Rightarrow> object_header"

definition object_new :: "object_type \<Rightarrow> object_header" where
  "object_new ty = \<lparr>oh_type = ty, oh_generation = 1\<rparr>"

text \<open>\<^verbatim>\<open>ObjectHeader::revoke\<close>: an atomic \<^verbatim>\<open>fetch_add\<close>, which wraps.\<close>

definition object_revoke :: "objects \<Rightarrow> koid \<Rightarrow> objects" where
  "object_revoke objs k = objs(k := (objs k)\<lparr>oh_generation := oh_generation (objs k) + 1\<rparr>)"

section \<open>Capabilities\<close>

record capability =
  cap_object :: koid
  cap_rights :: rights
  cap_generation :: u32

definition capability_new :: "objects \<Rightarrow> koid \<Rightarrow> rights \<Rightarrow> capability" where
  "capability_new objs obj r =
     \<lparr>cap_object = obj, cap_rights = r, cap_generation = oh_generation (objs obj)\<rparr>"

definition cap_object_type :: "objects \<Rightarrow> capability \<Rightarrow> object_type" where
  "cap_object_type objs cap = oh_type (objs (cap_object cap))"

definition cap_attenuated :: "capability \<Rightarrow> rights \<Rightarrow> capability" where
  "cap_attenuated cap m = cap\<lparr>cap_rights := cap_rights cap AND m\<rparr>"

definition cap_is_valid :: "objects \<Rightarrow> capability \<Rightarrow> bool" where
  "cap_is_valid objs cap \<longleftrightarrow> oh_generation (objs (cap_object cap)) = cap_generation cap"

lemma cap_is_valid_new [simp]: "cap_is_valid objs (capability_new objs obj r)"
  by (simp add: cap_is_valid_def capability_new_def)

lemma capability_new_simps [simp]:
  "cap_object (capability_new objs obj r) = obj"
  "cap_rights (capability_new objs obj r) = r"
  by (simp_all add: capability_new_def)

text \<open>Revoking an object once invalidates every capability minted at its generation.\<close>

lemma cap_revoked_invalid:
  "cap_is_valid objs cap \<Longrightarrow> \<not> cap_is_valid (object_revoke objs (cap_object cap)) cap"
  by (auto simp: cap_is_valid_def object_revoke_def)

lemma cap_revoke_other:
  "cap_object cap \<noteq> k \<Longrightarrow> cap_is_valid (object_revoke objs k) cap = cap_is_valid objs cap"
  by (simp add: cap_is_valid_def object_revoke_def)

record handle_info =
  hi_koid :: koid
  hi_type :: object_type
  hi_rights :: rights
  hi_generation :: u32

definition handle_info_from_cap :: "objects \<Rightarrow> capability \<Rightarrow> handle_info" where
  "handle_info_from_cap objs cap =
     \<lparr>hi_koid = cap_object cap, hi_type = cap_object_type objs cap, hi_rights = cap_rights cap,
      hi_generation = oh_generation (objs (cap_object cap))\<rparr>"

text \<open>
  What one capability may be derived from another: the same object at the same generation,
  with no right the original lacks.
\<close>

definition cap_derives :: "capability \<Rightarrow> capability \<Rightarrow> bool" where
  "cap_derives c d \<longleftrightarrow> cap_object d = cap_object c \<and> cap_generation d = cap_generation c \<and>
     rights_contains (cap_rights c) (cap_rights d)"

lemma cap_derives_refl [simp]: "cap_derives c c"
  by (simp add: cap_derives_def)

lemma cap_derives_trans: "cap_derives a b \<Longrightarrow> cap_derives b c \<Longrightarrow> cap_derives a c"
  by (auto simp: cap_derives_def intro: rights_contains_trans)

lemma cap_derives_attenuated [simp]: "cap_derives c (cap_attenuated c m)"
  by (simp add: cap_derives_def cap_attenuated_def)

section \<open>Handles\<close>

text \<open>\<^verbatim>\<open>Handle(u64)\<close>: the slot's generation in the high half, its index in the low half.\<close>

type_synonym handle = u64

definition handle_new :: "u32 \<Rightarrow> u32 \<Rightarrow> handle" where
  "handle_new generation index = push_bit 32 (ucast generation) OR ucast index"

definition handle_index :: "handle \<Rightarrow> u32" where
  "handle_index h = ucast h"

definition handle_generation :: "handle \<Rightarrow> u32" where
  "handle_generation h = ucast (drop_bit 32 h)"

lemma handle_index_new [simp]: "handle_index (handle_new g i) = i"
  unfolding handle_index_def handle_new_def
  by (rule bit_word_eqI) (simp add: bit_simps)

lemma handle_generation_new [simp]: "handle_generation (handle_new g i) = g"
  unfolding handle_generation_def handle_new_def
  by (rule bit_word_eqI) (auto simp: bit_simps dest: bit_imp_le_length)

lemma handle_new_of_parts: "handle_new (handle_generation h) (handle_index h) = h"
  unfolding handle_generation_def handle_index_def handle_new_def
  by (rule bit_word_eqI) (auto simp: bit_simps)

lemma handle_new_inject [simp]: "handle_new g i = handle_new g' i' \<longleftrightarrow> g = g' \<and> i = i'"
  by (metis handle_generation_new handle_index_new)

lemma handle_eq_iff: "h = h' \<longleftrightarrow> handle_generation h = handle_generation h' \<and> handle_index h = handle_index h'"
  by (metis handle_new_of_parts)

end
