(* ===== verification/Domains.thy ===== *)
theory Domains
  imports Kernel_Prelude
begin

text \<open>
  Domains and resource accounting (\<^verbatim>\<open>src/src/kernel/object/domain/mod.rs\<close>).

  A domain is a node of a tree; it is named by its koid and found in a store of live domains.
  Each counter operation of the source is one compare-and-swap loop that retries until it
  installs the value it computed from what it read, so it is modelled as the single atomic
  update the successful swap performs. A walk over the ancestors is the recursion of the source.
\<close>

section \<open>One counter\<close>

definition UNLIMITED :: nat where
  "UNLIMITED = U64_MAX"

record counter =
  rc_used :: nat
  rc_peak :: nat
  rc_limit :: nat

definition counter_new :: "nat \<Rightarrow> counter" where
  "counter_new l = \<lparr>rc_used = 0, rc_peak = 0, rc_limit = l\<rparr>"

definition counter_set_limit :: "nat \<Rightarrow> counter \<Rightarrow> counter" where
  "counter_set_limit l c = c\<lparr>rc_limit := l\<rparr>"

definition counter_try_charge :: "counter \<Rightarrow> nat \<Rightarrow> counter option" where
  "counter_try_charge c amount =
     (let next = saturating_add (rc_used c) amount
      in if rc_limit c \<noteq> UNLIMITED \<and> rc_limit c < next then None
         else Some (c\<lparr>rc_used := next\<rparr>))"

definition counter_charge :: "nat \<Rightarrow> counter \<Rightarrow> counter" where
  "counter_charge amount c =
     (let next = saturating_add (rc_used c) amount
      in c\<lparr>rc_used := next, rc_peak := max (rc_peak c) next\<rparr>)"

definition counter_observe_peak :: "counter \<Rightarrow> counter" where
  "counter_observe_peak c = c\<lparr>rc_peak := max (rc_peak c) (rc_used c)\<rparr>"

text \<open>\<^verbatim>\<open>saturating_sub\<close> is subtraction on \<^typ>\<open>nat\<close>.\<close>

definition counter_uncharge :: "nat \<Rightarrow> counter \<Rightarrow> counter" where
  "counter_uncharge amount c = c\<lparr>rc_used := rc_used c - amount\<rparr>"

section \<open>The account of a domain\<close>

text \<open>The closures that select one counter of an account are the constructors of \<open>resource\<close>.\<close>

datatype resource = Memory | Handles | Threads | Dma | IpcQueue | WaitRegistrations | Stack

record account =
  ac_memory :: counter
  ac_handles :: counter
  ac_threads :: counter
  ac_dma :: counter
  ac_ipc_queue :: counter
  ac_wait_registrations :: counter
  ac_stack :: counter

definition DEFAULT_STACK_CEILING :: nat where
  "DEFAULT_STACK_CEILING = 8 * 1024 * 1024"

definition DEFAULT_WAIT_REGISTRATIONS :: nat where
  "DEFAULT_WAIT_REGISTRATIONS = 1024"

definition account_new :: "nat \<Rightarrow> nat \<Rightarrow> nat \<Rightarrow> account" where
  "account_new memory_limit handle_limit thread_limit =
     \<lparr>ac_memory = counter_new memory_limit, ac_handles = counter_new handle_limit,
      ac_threads = counter_new thread_limit, ac_dma = counter_new UNLIMITED,
      ac_ipc_queue = counter_new UNLIMITED,
      ac_wait_registrations = counter_new DEFAULT_WAIT_REGISTRATIONS,
      ac_stack = counter_new DEFAULT_STACK_CEILING\<rparr>"

fun account_get :: "resource \<Rightarrow> account \<Rightarrow> counter" where
  "account_get Memory a = ac_memory a"
| "account_get Handles a = ac_handles a"
| "account_get Threads a = ac_threads a"
| "account_get Dma a = ac_dma a"
| "account_get IpcQueue a = ac_ipc_queue a"
| "account_get WaitRegistrations a = ac_wait_registrations a"
| "account_get Stack a = ac_stack a"

fun account_map :: "resource \<Rightarrow> (counter \<Rightarrow> counter) \<Rightarrow> account \<Rightarrow> account" where
  "account_map Memory f a = a\<lparr>ac_memory := f (ac_memory a)\<rparr>"
| "account_map Handles f a = a\<lparr>ac_handles := f (ac_handles a)\<rparr>"
| "account_map Threads f a = a\<lparr>ac_threads := f (ac_threads a)\<rparr>"
| "account_map Dma f a = a\<lparr>ac_dma := f (ac_dma a)\<rparr>"
| "account_map IpcQueue f a = a\<lparr>ac_ipc_queue := f (ac_ipc_queue a)\<rparr>"
| "account_map WaitRegistrations f a = a\<lparr>ac_wait_registrations := f (ac_wait_registrations a)\<rparr>"
| "account_map Stack f a = a\<lparr>ac_stack := f (ac_stack a)\<rparr>"

lemma account_get_map [simp]:
  "account_get r (account_map r' f a) = (if r = r' then f (account_get r a) else account_get r a)"
  by (cases r; cases r'; simp)

lemma account_map_map [simp]: "account_map r f (account_map r g a) = account_map r (f \<circ> g) a"
  by (cases r; simp)

lemma account_map_id [simp]: "account_map r (\<lambda>c. c) a = a"
  by (cases r; simp)

lemma account_map_cong: "f (account_get r a) = g (account_get r a) \<Longrightarrow> account_map r f a = account_map r g a"
  by (cases r; simp)

section \<open>The tree of domains\<close>

type_synonym domain_id = koid
type_synonym process_id = koid

record dnode =
  d_account :: account
  d_parent :: "domain_id option"
  d_children :: "domain_id list"
  d_processes :: "process_id list"
  d_killed :: bool
  d_frozen :: bool

type_synonym domains = "domain_id \<Rightarrow> dnode option"

text \<open>
  \<^verbatim>\<open>Domain::parent\<close> upgrades a weak reference: it answers nothing once the parent is gone. A
  parent's header is built before its child's and koids are handed out in increasing order, so a
  live parent has the smaller koid (\<open>domains_wf\<close> below states it);
  the comparison is what makes the walk over the ancestors terminate.
\<close>

definition domain_parent :: "domains \<Rightarrow> domain_id \<Rightarrow> domain_id option" where
  "domain_parent ds d =
     (case ds d of
        None \<Rightarrow> None
      | Some n \<Rightarrow>
          (case d_parent n of
             None \<Rightarrow> None
           | Some p \<Rightarrow> if ds p \<noteq> None \<and> p < d then Some p else None))"

definition domains_wf :: "domains \<Rightarrow> bool" where
  "domains_wf ds \<longleftrightarrow> (\<forall>d n p. ds d = Some n \<longrightarrow> d_parent n = Some p \<longrightarrow> p < d)"

lemma domain_parent_less: "domain_parent ds d = Some p \<Longrightarrow> p < d"
  by (auto simp: domain_parent_def split: option.splits if_splits)

lemma domain_parent_upgrade:
  "domains_wf ds \<Longrightarrow> ds d = Some n \<Longrightarrow>
     domain_parent ds d = (case d_parent n of None \<Rightarrow> None
                           | Some p \<Rightarrow> if ds p = None then None else Some p)"
  by (auto simp: domain_parent_def domains_wf_def split: option.splits)

definition on_counter :: "domains \<Rightarrow> domain_id \<Rightarrow> resource \<Rightarrow> (counter \<Rightarrow> counter) \<Rightarrow> domains" where
  "on_counter ds d r f =
     (case ds d of
        None \<Rightarrow> ds
      | Some n \<Rightarrow> ds(d \<mapsto> n\<lparr>d_account := account_map r f (d_account n)\<rparr>))"

definition counter_of :: "domains \<Rightarrow> domain_id \<Rightarrow> resource \<Rightarrow> counter" where
  "counter_of ds d r =
     (case ds d of None \<Rightarrow> counter_new 0 | Some n \<Rightarrow> account_get r (d_account n))"

abbreviation used :: "domains \<Rightarrow> resource \<Rightarrow> domain_id \<Rightarrow> nat" where
  "used ds r d \<equiv> rc_used (counter_of ds d r)"

abbreviation limit :: "domains \<Rightarrow> resource \<Rightarrow> domain_id \<Rightarrow> nat" where
  "limit ds r d \<equiv> rc_limit (counter_of ds d r)"

section \<open>Hierarchical charging\<close>

function try_charge_hier :: "domains \<Rightarrow> domain_id \<Rightarrow> nat \<Rightarrow> resource \<Rightarrow> bool \<times> domains" where
  "try_charge_hier ds d amount r =
     (case counter_try_charge (counter_of ds d r) amount of
        None \<Rightarrow> (False, ds)
      | Some c \<Rightarrow>
          (let ds1 = on_counter ds d r (\<lambda>_. c) in
           case domain_parent ds d of
             None \<Rightarrow> (True, on_counter ds1 d r counter_observe_peak)
           | Some p \<Rightarrow>
               (case try_charge_hier ds1 p amount r of
                  (False, ds2) \<Rightarrow> (False, on_counter ds2 d r (counter_uncharge amount))
                | (True, ds2) \<Rightarrow> (True, on_counter ds2 d r counter_observe_peak))))"
  by pat_completeness auto
termination
  by (relation "measure (\<lambda>(ds, d, amount, r). d)") (auto dest: domain_parent_less)

function charge_hier :: "domains \<Rightarrow> domain_id \<Rightarrow> nat \<Rightarrow> resource \<Rightarrow> domains" where
  "charge_hier ds d amount r =
     (let ds1 = on_counter ds d r (counter_charge amount) in
      case domain_parent ds d of
        None \<Rightarrow> ds1
      | Some p \<Rightarrow> charge_hier ds1 p amount r)"
  by pat_completeness auto
termination
  by (relation "measure (\<lambda>(ds, d, amount, r). d)") (auto dest: domain_parent_less)

function uncharge_hier :: "domains \<Rightarrow> domain_id \<Rightarrow> nat \<Rightarrow> resource \<Rightarrow> domains" where
  "uncharge_hier ds d amount r =
     (let ds1 = on_counter ds d r (counter_uncharge amount) in
      case domain_parent ds d of
        None \<Rightarrow> ds1
      | Some p \<Rightarrow> uncharge_hier ds1 p amount r)"
  by pat_completeness auto
termination
  by (relation "measure (\<lambda>(ds, d, amount, r). d)") (auto dest: domain_parent_less)

declare try_charge_hier.simps [simp del] charge_hier.simps [simp del] uncharge_hier.simps [simp del]


text \<open>The per-resource entry points: thin delegates over the three walkers.\<close>

definition try_charge_memory :: "domains \<Rightarrow> domain_id \<Rightarrow> nat \<Rightarrow> bool \<times> domains" where
  "try_charge_memory ds d bytes = try_charge_hier ds d bytes Memory"

definition uncharge_memory :: "domains \<Rightarrow> domain_id \<Rightarrow> nat \<Rightarrow> domains" where
  "uncharge_memory ds d bytes = uncharge_hier ds d bytes Memory"

definition try_charge_dma :: "domains \<Rightarrow> domain_id \<Rightarrow> nat \<Rightarrow> bool \<times> domains" where
  "try_charge_dma ds d bytes = try_charge_hier ds d bytes Dma"

definition uncharge_dma :: "domains \<Rightarrow> domain_id \<Rightarrow> nat \<Rightarrow> domains" where
  "uncharge_dma ds d bytes = uncharge_hier ds d bytes Dma"

definition try_charge_ipc_queue :: "domains \<Rightarrow> domain_id \<Rightarrow> nat \<Rightarrow> bool \<times> domains" where
  "try_charge_ipc_queue ds d bytes = try_charge_hier ds d bytes IpcQueue"

definition uncharge_ipc_queue :: "domains \<Rightarrow> domain_id \<Rightarrow> nat \<Rightarrow> domains" where
  "uncharge_ipc_queue ds d bytes = uncharge_hier ds d bytes IpcQueue"

definition try_charge_handle :: "domains \<Rightarrow> domain_id \<Rightarrow> bool \<times> domains" where
  "try_charge_handle ds d = try_charge_hier ds d 1 Handles"

definition try_charge_wait_registration :: "domains \<Rightarrow> domain_id \<Rightarrow> bool \<times> domains" where
  "try_charge_wait_registration ds d = try_charge_hier ds d 1 WaitRegistrations"

definition uncharge_wait_registrations :: "domains \<Rightarrow> domain_id \<Rightarrow> nat \<Rightarrow> domains" where
  "uncharge_wait_registrations ds d n = uncharge_hier ds d n WaitRegistrations"

definition charge_handle :: "domains \<Rightarrow> domain_id \<Rightarrow> domains" where
  "charge_handle ds d = charge_hier ds d 1 Handles"

definition uncharge_handles :: "domains \<Rightarrow> domain_id \<Rightarrow> nat \<Rightarrow> domains" where
  "uncharge_handles ds d n = uncharge_hier ds d n Handles"

definition try_charge_thread :: "domains \<Rightarrow> domain_id \<Rightarrow> bool \<times> domains" where
  "try_charge_thread ds d = try_charge_hier ds d 1 Threads"

definition charge_thread :: "domains \<Rightarrow> domain_id \<Rightarrow> domains" where
  "charge_thread ds d = charge_hier ds d 1 Threads"

definition uncharge_thread :: "domains \<Rightarrow> domain_id \<Rightarrow> domains" where
  "uncharge_thread ds d = uncharge_hier ds d 1 Threads"

definition charge_stack :: "domains \<Rightarrow> domain_id \<Rightarrow> nat \<Rightarrow> domains" where
  "charge_stack ds d bytes = charge_hier ds d bytes Stack"

definition uncharge_stack :: "domains \<Rightarrow> domain_id \<Rightarrow> nat \<Rightarrow> domains" where
  "uncharge_stack ds d bytes = uncharge_hier ds d bytes Stack"

section \<open>The line of ancestors, and what a walk does to it\<close>

function ancestors :: "domains \<Rightarrow> domain_id \<Rightarrow> domain_id list" where
  "ancestors ds d = d # (case domain_parent ds d of None \<Rightarrow> [] | Some p \<Rightarrow> ancestors ds p)"
  by pat_completeness auto
termination
  by (relation "measure (\<lambda>(ds, d). d)") (auto dest: domain_parent_less)

declare ancestors.simps [simp del]

definition on_line :: "domains \<Rightarrow> domain_id \<Rightarrow> resource \<Rightarrow> (counter \<Rightarrow> counter) \<Rightarrow> domains" where
  "on_line ds d r f = (\<lambda>a. if a \<in> set (ancestors ds d)
     then map_option (\<lambda>n. n\<lparr>d_account := account_map r f (d_account n)\<rparr>) (ds a) else ds a)"

lemma on_counter_map:
  "on_counter ds d r f = ds(d := map_option (\<lambda>n. n\<lparr>d_account := account_map r f (d_account n)\<rparr>) (ds d))"
  by (auto simp: on_counter_def split: option.splits)

lemma domain_parent_on_counter [simp]: "domain_parent (on_counter ds d r f) = domain_parent ds"
  by (rule ext) (auto simp: domain_parent_def on_counter_map split: option.splits)

lemma ancestors_cong: "domain_parent ds = domain_parent ds' \<Longrightarrow> ancestors ds d = ancestors ds' d"
proof (induction ds d rule: ancestors.induct)
  case (1 ds d)
  then show ?case
    by (simp add: ancestors.simps [of ds d] ancestors.simps [of ds' d] split: option.splits)
qed

lemma ancestors_on_counter [simp]: "ancestors (on_counter ds d r f) = ancestors ds"
  by (rule ext) (rule ancestors_cong, simp)

lemma ancestors_le: "a \<in> set (ancestors ds d) \<Longrightarrow> a \<le> d"
proof (induction ds d rule: ancestors.induct)
  case (1 ds d)
  show ?case
  proof (cases "domain_parent ds d")
    case None
    with "1.prems" show ?thesis by (simp add: ancestors.simps [of ds d])
  next
    case (Some p)
    with "1.prems" "1.IH" [OF Some] domain_parent_less [OF Some] show ?thesis
      by (auto simp: ancestors.simps [of ds d])
  qed
qed

lemma self_in_ancestors [simp]: "d \<in> set (ancestors ds d)"
  by (subst ancestors.simps) simp

lemma ancestors_parent:
  "domain_parent ds d = Some p \<Longrightarrow> set (ancestors ds d) = insert d (set (ancestors ds p))"
  by (subst ancestors.simps) simp

lemma ancestors_root: "domain_parent ds d = None \<Longrightarrow> set (ancestors ds d) = {d}"
  by (subst ancestors.simps) simp

lemma child_not_ancestor: "domain_parent ds d = Some p \<Longrightarrow> d \<notin> set (ancestors ds p)"
  using ancestors_le domain_parent_less by fastforce

lemma counter_of_on_counter:
  "counter_of (on_counter ds d r f) d' r' =
     (if d' = d \<and> r' = r \<and> ds d \<noteq> None then f (counter_of ds d r) else counter_of ds d' r')"
  by (auto simp: counter_of_def on_counter_map split: option.splits)

lemma counter_of_on_line:
  "counter_of (on_line ds d r f) d' r' =
     (if d' \<in> set (ancestors ds d) \<and> r' = r \<and> ds d' \<noteq> None
      then f (counter_of ds d' r) else counter_of ds d' r')"
  by (auto simp: counter_of_def on_line_def split: option.splits)

lemma domain_parent_on_line [simp]: "domain_parent (on_line ds d r f) = domain_parent ds"
  by (rule ext) (auto simp: domain_parent_def on_line_def split: option.splits)

lemma ancestors_on_line [simp]: "ancestors (on_line ds d r f) = ancestors ds"
  by (rule ext) (rule ancestors_cong, simp)

lemma on_line_live [simp]: "(on_line ds d r f a = None) = (ds a = None)"
  by (simp add: on_line_def)

lemma on_counter_live [simp]: "(on_counter ds d r f a = None) = (ds a = None)"
  by (simp add: on_counter_map)

lemma on_line_parent:
  "domain_parent ds d = Some p \<Longrightarrow> on_line (on_counter ds d r f) p r f = on_line ds d r f"
  using child_not_ancestor [of ds d p] unfolding on_line_def ancestors_on_counter
  by (auto simp: on_counter_map ancestors_parent fun_eq_iff)

lemma on_line_root: "domain_parent ds d = None \<Longrightarrow> on_counter ds d r f = on_line ds d r f"
  by (auto simp: on_line_def on_counter_map ancestors_root fun_eq_iff)

lemma charge_hier_line: "charge_hier ds d amount r = on_line ds d r (counter_charge amount)"
proof (induction ds d amount r rule: charge_hier.induct)
  case (1 ds d amount r)
  then show ?case
    by (simp add: charge_hier.simps [of ds d] Let_def on_line_parent on_line_root split: option.splits)
qed

lemma uncharge_hier_line: "uncharge_hier ds d amount r = on_line ds d r (counter_uncharge amount)"
proof (induction ds d amount r rule: uncharge_hier.induct)
  case (1 ds d amount r)
  then show ?case
    by (simp add: uncharge_hier.simps [of ds d] Let_def on_line_parent on_line_root split: option.splits)
qed

definition fits :: "domains \<Rightarrow> resource \<Rightarrow> domain_id \<Rightarrow> nat \<Rightarrow> bool" where
  "fits ds r d n \<longleftrightarrow> (\<forall>a \<in> set (ancestors ds d). limit ds r a = UNLIMITED \<or> used ds r a + n \<le> limit ds r a)"

text \<open>No counter of the line would pass the width of the machine's counter.\<close>

definition headroom :: "domains \<Rightarrow> resource \<Rightarrow> domain_id \<Rightarrow> nat \<Rightarrow> bool" where
  "headroom ds r d n \<longleftrightarrow> (\<forall>a \<in> set (ancestors ds d). used ds r a + n \<le> U64_MAX)"

definition counter_taken :: "nat \<Rightarrow> counter \<Rightarrow> counter" where
  "counter_taken n c = c\<lparr>rc_used := rc_used c + n, rc_peak := max (rc_peak c) (rc_used c + n)\<rparr>"

lemma headroom_mono: "headroom ds r d n \<Longrightarrow> m \<le> n \<Longrightarrow> headroom ds r d m"
  unfolding headroom_def by (meson add_left_mono order_trans)

lemma counter_try_charge_exact:
  "rc_used c + n \<le> U64_MAX \<Longrightarrow>
     counter_try_charge c n = (if rc_limit c = UNLIMITED \<or> rc_used c + n \<le> rc_limit c
                               then Some (c\<lparr>rc_used := rc_used c + n\<rparr>) else None)"
  by (auto simp: counter_try_charge_def Let_def)

text \<open>Below the charged domain, the walk sees the counters it would have seen before.\<close>

lemma counter_of_above:
  "domain_parent ds d = Some p \<Longrightarrow> a \<in> set (ancestors ds p) \<Longrightarrow>
     counter_of (on_counter ds d r f) a r = counter_of ds a r"
  using child_not_ancestor [of ds d p] by (auto simp: counter_of_on_counter)

lemma fits_above:
  "domain_parent ds d = Some p \<Longrightarrow>
     fits (on_counter ds d r f) r p n \<longleftrightarrow>
       (\<forall>a \<in> set (ancestors ds p). limit ds r a = UNLIMITED \<or> used ds r a + n \<le> limit ds r a)"
  by (simp add: fits_def counter_of_above)

lemma headroom_above:
  "domain_parent ds d = Some p \<Longrightarrow> headroom ds r d n \<Longrightarrow> headroom (on_counter ds d r f) r p n"
  by (simp add: headroom_def counter_of_above ancestors_parent)

lemma account_taken:
  "account_map r (counter_observe_peak \<circ> (\<lambda>_. (account_get r a)\<lparr>rc_used := rc_used (account_get r a) + n\<rparr>)) a
   = account_map r (counter_taken n) a"
  by (rule account_map_cong) (simp add: counter_taken_def counter_observe_peak_def)

lemma account_rolled_back:
  "account_map r (counter_uncharge n \<circ> (\<lambda>_. (account_get r a)\<lparr>rc_used := rc_used (account_get r a) + n\<rparr>)) a = a"
  (is "?l = a")
proof -
  have "?l = account_map r (\<lambda>c. c) a"
    by (rule account_map_cong) (simp add: counter_uncharge_def)
  then show ?thesis by simp
qed

lemma on_line_success:
  assumes "domain_parent ds d = Some p"
  shows "on_counter (on_line (on_counter ds d r (\<lambda>_. (counter_of ds d r)\<lparr>rc_used := used ds r d + n\<rparr>)) p r
            (counter_taken n)) d r counter_observe_peak = on_line ds d r (counter_taken n)"
  using child_not_ancestor [OF assms] unfolding on_line_def ancestors_on_counter
  by (auto simp: on_counter_map ancestors_parent [OF assms] counter_of_def fun_eq_iff
      account_taken split: option.splits)

lemma on_counter_success:
  "on_counter (on_counter ds d r (\<lambda>_. (counter_of ds d r)\<lparr>rc_used := used ds r d + n\<rparr>)) d r
     counter_observe_peak = on_counter ds d r (counter_taken n)"
  by (auto simp: on_counter_map counter_of_def fun_eq_iff account_taken split: option.splits)

lemma on_counter_rollback:
  "on_counter (on_counter ds d r (\<lambda>_. (counter_of ds d r)\<lparr>rc_used := used ds r d + n\<rparr>)) d r
     (counter_uncharge n) = ds"
  by (auto simp: on_counter_map counter_of_def fun_eq_iff account_rolled_back split: option.splits)

lemma try_charge_hier_spec:
  assumes "ds d \<noteq> None" and "headroom ds r d n"
  shows "try_charge_hier ds d n r =
     (if fits ds r d n then (True, on_line ds d r (counter_taken n)) else (False, ds))"
  using assms
proof (induction ds d n r rule: try_charge_hier.induct)
  case (1 ds d n r)
  let ?c = "(counter_of ds d r)\<lparr>rc_used := used ds r d + n\<rparr>"
  have room: "used ds r d + n \<le> U64_MAX"
    using "1.prems"(2) by (simp add: headroom_def)
  have try_self: "counter_try_charge (counter_of ds d r) n =
      (if limit ds r d = UNLIMITED \<or> used ds r d + n \<le> limit ds r d then Some ?c else None)"
    using room by (simp add: counter_try_charge_exact)
  show ?case
  proof (cases "limit ds r d = UNLIMITED \<or> used ds r d + n \<le> limit ds r d")
    case False
    then have "\<not> fits ds r d n"
      using self_in_ancestors [of d ds] unfolding fits_def by blast
    with False try_self show ?thesis by (simp add: try_charge_hier.simps [of ds d])
  next
    case True
    note this_fits = this
    show ?thesis
    proof (cases "domain_parent ds d")
      case None
      with True have "fits ds r d n" by (simp add: fits_def ancestors_root)
      with None True try_self show ?thesis
        by (simp add: try_charge_hier.simps [of ds d] Let_def on_counter_success flip: on_line_root)
    next
      case (Some p)
      have live: "on_counter ds d r (\<lambda>_. ?c) p \<noteq> None"
        using Some by (auto simp: domain_parent_def split: option.splits if_splits)
      have IH: "try_charge_hier (on_counter ds d r (\<lambda>_. ?c)) p n r =
          (if fits (on_counter ds d r (\<lambda>_. ?c)) r p n
           then (True, on_line (on_counter ds d r (\<lambda>_. ?c)) p r (counter_taken n))
           else (False, on_counter ds d r (\<lambda>_. ?c)))"
        using "1.IH" [OF _ refl Some live] True try_self headroom_above [OF Some "1.prems"(2)]
        by simp
      have same: "fits ds r d n = fits (on_counter ds d r (\<lambda>_. ?c)) r p n"
        unfolding fits_above [OF Some] using this_fits
        by (simp add: fits_def ancestors_parent [OF Some])
      show ?thesis
        using Some True try_self IH same
        by (simp add: try_charge_hier.simps [of ds d] Let_def on_line_success on_counter_rollback)
    qed
  qed
qed

section \<open>The contract of a ledger\<close>

text \<open>
  What the kernel's clients rely on when they charge an account: a unit granted is counted at
  every account of the payer's line and nowhere else, a refusal counts nothing, and giving back
  subtracts exactly what is given. \<open>room\<close> is the precondition under which the count is exact.
\<close>

locale quota_ledger =
  fixes try_take :: "nat \<Rightarrow> 's \<Rightarrow> bool \<times> 's"
    and force_take :: "nat \<Rightarrow> 's \<Rightarrow> 's"
    and give_back :: "nat \<Rightarrow> 's \<Rightarrow> 's"
    and level :: "'s \<Rightarrow> 'a \<Rightarrow> nat"
    and payers :: "'s \<Rightarrow> 'a set"
    and room :: "'s \<Rightarrow> nat \<Rightarrow> bool"
  assumes take_granted:
      "room s n \<Longrightarrow> try_take n s = (True, s') \<Longrightarrow> level s' a = level s a + (if a \<in> payers s then n else 0)"
    and take_payers: "room s n \<Longrightarrow> try_take n s = (b, s') \<Longrightarrow> payers s' = payers s"
    and take_refused: "room s n \<Longrightarrow> try_take n s = (False, s') \<Longrightarrow> s' = s"
    and take_room: "room s (n + m) \<Longrightarrow> try_take n s = (True, s') \<Longrightarrow> room s' m"
    and forced: "room s n \<Longrightarrow> level (force_take n s) a = level s a + (if a \<in> payers s then n else 0)"
    and forced_payers: "payers (force_take n s) = payers s"
    and given_back: "level (give_back n s) a = level s a - (if a \<in> payers s then n else 0)"
    and given_payers: "payers (give_back n s) = payers s"
    and room_less: "room s n \<Longrightarrow> m \<le> n \<Longrightarrow> room s m"
begin

lemma charge_loop_granted:
  "room s left \<Longrightarrow> charge_loop (try_take 1) give_back taken left s = (True, s') \<Longrightarrow>
     payers s' = payers s \<and> level s' a = level s a + (if a \<in> payers s then left else 0)"
proof (induction left arbitrary: s taken)
  case (Suc left)
  obtain b s1 where try1: "try_take 1 s = (b, s1)" by fastforce
  with Suc.prems have "b" by (auto split: bool.splits)
  with try1 have t: "try_take 1 s = (True, s1)" by simp
  have r1: "room s 1" using Suc.prems(1) by (rule room_less) simp
  have "room s1 left" using take_room [of s 1 left s1] Suc.prems(1) t by simp
  with Suc.IH [of s1 "Suc taken"] Suc.prems(2) t take_granted [OF r1 t, of a] take_payers [OF r1 t]
  show ?case by simp
qed simp

lemma charge_loop_refused:
  "room s left \<Longrightarrow> charge_loop (try_take 1) give_back taken left s = (False, s') \<Longrightarrow>
     payers s' = payers s \<and> level s' a = level s a - (if a \<in> payers s then taken else 0)"
proof (induction left arbitrary: s taken)
  case (Suc left)
  obtain b s1 where try1: "try_take 1 s = (b, s1)" by fastforce
  have r1: "room s 1" using Suc.prems(1) by (rule room_less) simp
  show ?case
  proof (cases b)
    case False
    with try1 take_refused [OF r1, of s1] have "s1 = s" by simp
    with False try1 Suc.prems(2) show ?thesis
      by (auto simp: given_back given_payers)
  next
    case True
    with try1 have t: "try_take 1 s = (True, s1)" by simp
    have "room s1 left" using take_room [of s 1 left s1] Suc.prems(1) t by simp
    with Suc.IH [of s1 "Suc taken"] Suc.prems(2) t take_granted [OF r1 t, of a] take_payers [OF r1 t]
    show ?thesis by simp
  qed
qed simp

lemma take_then_give_back:
  "room s n \<Longrightarrow> try_take n s = (True, s') \<Longrightarrow> level (give_back n s') a = level s a"
  by (simp add: given_back take_granted take_payers)

end

lemma counter_uncharge_simps [simp]:
  "rc_used (counter_uncharge n c) = rc_used c - n"
  "rc_limit (counter_uncharge n c) = rc_limit c"
  "rc_peak (counter_uncharge n c) = rc_peak c"
  by (simp_all add: counter_uncharge_def)

lemma counter_taken_simps [simp]:
  "rc_used (counter_taken n c) = rc_used c + n"
  "rc_limit (counter_taken n c) = rc_limit c"
  by (simp_all add: counter_taken_def)

lemma counter_charge_simps [simp]:
  "rc_used (counter_charge n c) = saturating_add (rc_used c) n"
  "rc_limit (counter_charge n c) = rc_limit c"
  by (simp_all add: counter_charge_def Let_def)

lemma ancestors_live: "ds d \<noteq> None \<Longrightarrow> a \<in> set (ancestors ds d) \<Longrightarrow> ds a \<noteq> None"
proof (induction ds d rule: ancestors.induct)
  case (1 ds d)
  show ?case
  proof (cases "domain_parent ds d")
    case None
    with "1.prems" show ?thesis by (simp add: ancestors_root)
  next
    case (Some p)
    then have "ds p \<noteq> None"
      by (auto simp: domain_parent_def split: option.splits if_splits)
    with Some "1.prems" "1.IH" [OF Some] show ?thesis
      by (auto simp: ancestors_parent [OF Some])
  qed
qed

lemma used_on_line:
  "ds d \<noteq> None \<Longrightarrow> used (on_line ds d r f) r' a =
     (if a \<in> set (ancestors ds d) \<and> r' = r then rc_used (f (counter_of ds a r)) else used ds r' a)"
  using ancestors_live [of ds d a] by (auto simp: counter_of_on_line)

text \<open>The accounts a charge of domain \<open>d\<close> is counted at, and when the count is exact.\<close>

definition line :: "domains \<Rightarrow> domain_id \<Rightarrow> domain_id set" where
  "line ds d = {a \<in> set (ancestors ds d). ds a \<noteq> None}"

definition spare :: "domains \<Rightarrow> resource \<Rightarrow> domain_id \<Rightarrow> nat \<Rightarrow> bool" where
  "spare ds r d n \<longleftrightarrow> ds d \<noteq> None \<and> headroom ds r d n"

lemma line_on_line [simp]: "line (on_line ds d r f) d' = line ds d'"
  by (simp add: line_def)

lemma line_ancestors: "ds d \<noteq> None \<Longrightarrow> line ds d = set (ancestors ds d)"
  using ancestors_live [of ds d] by (auto simp: line_def)

interpretation ledger: quota_ledger
  "\<lambda>n ds. try_charge_hier ds d n r" "\<lambda>n ds. charge_hier ds d n r" "\<lambda>n ds. uncharge_hier ds d n r"
  "\<lambda>ds a. used ds r a" "\<lambda>ds. line ds d" "\<lambda>ds n. spare ds r d n"
  for d r
proof (unfold_locales, goal_cases)
  case (1 s n s' a)
  then show ?case by (auto simp: spare_def line_ancestors try_charge_hier_spec used_on_line split: if_splits)
next
  case (2 s n b s')
  then have "s' = s \<or> s' = on_line s d r (counter_taken n)"
    by (auto simp: spare_def try_charge_hier_spec split: if_splits)
  then show ?case by (elim disjE) simp_all
next
  case (3 s n s')
  then show ?case by (auto simp: spare_def try_charge_hier_spec split: if_splits)
next
  case (4 s n m s')
  then have "headroom s r d n" by (auto simp: spare_def intro: headroom_mono)
  with 4 have "s' = on_line s d r (counter_taken n)"
    by (auto simp: spare_def try_charge_hier_spec split: if_splits)
  with 4 show ?case by (simp add: spare_def headroom_def used_on_line algebra_simps)
next
  case (5 s n a)
  then show ?case
    by (auto simp: spare_def line_ancestors charge_hier_line used_on_line headroom_def)
next
  case (6 n s)
  then show ?case by (simp add: charge_hier_line)
next
  case (7 n s a)
  then show ?case by (auto simp: line_def uncharge_hier_line counter_of_on_line)
next
  case (8 n s)
  then show ?case by (simp add: uncharge_hier_line)
next
  case (9 s n m)
  then show ?case by (auto simp: spare_def intro: headroom_mono)
qed

section \<open>What a charge leaves alone\<close>

text \<open>The domains of a store whose lines are those of another.\<close>

definition same_lines :: "domains \<Rightarrow> domains \<Rightarrow> bool" where
  "same_lines ds ds' \<longleftrightarrow> (\<forall>d. line ds' d = line ds d)"

lemma same_lines_refl [simp]: "same_lines ds ds"
  by (simp add: same_lines_def)

lemma same_lines_trans: "same_lines a b \<Longrightarrow> same_lines b c \<Longrightarrow> same_lines a c"
  by (simp add: same_lines_def)

text \<open>A store that differs from another in the counters of one resource at most.\<close>

definition only_counters :: "resource \<Rightarrow> domains \<Rightarrow> domains \<Rightarrow> bool" where
  "only_counters r ds ds' \<longleftrightarrow> same_lines ds ds' \<and> (\<forall>d. (ds' d = None) = (ds d = None)) \<and>
     domain_parent ds' = domain_parent ds \<and>
     (\<forall>r' a. r' \<noteq> r \<longrightarrow> counter_of ds' a r' = counter_of ds a r')"

lemma only_counters_refl [simp]: "only_counters r ds ds"
  by (simp add: only_counters_def)

lemma only_counters_trans: "only_counters r a b \<Longrightarrow> only_counters r b c \<Longrightarrow> only_counters r a c"
  by (auto simp: only_counters_def intro: same_lines_trans)

lemma only_counters_lines: "only_counters r ds ds' \<Longrightarrow> same_lines ds ds'"
  by (simp add: only_counters_def)

lemma only_counters_on_counter: "only_counters r ds (on_counter ds d r f)"
  by (auto simp: only_counters_def same_lines_def line_def counter_of_on_counter)

lemma only_counters_on_line: "only_counters r ds (on_line ds d r f)"
  by (auto simp: only_counters_def same_lines_def line_def counter_of_on_line)

lemma charge_hier_only: "only_counters r ds (charge_hier ds d n r)"
  by (simp add: charge_hier_line only_counters_on_line)

lemma uncharge_hier_only: "only_counters r ds (uncharge_hier ds d n r)"
  by (simp add: uncharge_hier_line only_counters_on_line)

lemma try_charge_hier_only: "try_charge_hier ds d n r = (b, ds') \<Longrightarrow> only_counters r ds ds'"
proof (induction ds d n r arbitrary: b ds' rule: try_charge_hier.induct)
  case (1 ds d n r)
  show ?case
  proof (cases "counter_try_charge (counter_of ds d r) n")
    case None
    with "1.prems" show ?thesis by (simp add: try_charge_hier.simps [of ds d])
  next
    case (Some c)
    let ?ds1 = "on_counter ds d r (\<lambda>_. c)"
    have one: "only_counters r ds ?ds1" by (rule only_counters_on_counter)
    show ?thesis
    proof (cases "domain_parent ds d")
      case None
      with "1.prems" Some have "ds' = on_counter ?ds1 d r counter_observe_peak"
        by (simp add: try_charge_hier.simps [of ds d] Let_def)
      with only_counters_trans [OF one only_counters_on_counter] show ?thesis by simp
    next
      case (Some p)
      obtain b2 ds2 where rest: "try_charge_hier ?ds1 p n r = (b2, ds2)" by fastforce
      have two: "only_counters r ?ds1 ds2"
        by (rule "1.IH" [OF \<open>counter_try_charge (counter_of ds d r) n = Some c\<close> refl Some rest])
      from "1.prems" Some \<open>counter_try_charge (counter_of ds d r) n = Some c\<close> rest
      obtain f where "ds' = on_counter ds2 d r f"
        by (auto simp: try_charge_hier.simps [of ds d] Let_def split: bool.splits)
      with only_counters_trans [OF only_counters_trans [OF one two] only_counters_on_counter] show ?thesis by simp
    qed
  qed
qed

end
