(* ===== verification/Handles.thy ===== *)
theory Handles
  imports Objects Domains
begin

text \<open>
  The per-process handle table (\<^verbatim>\<open>src/src/kernel/object/handle/mod.rs\<close>).

  A table is a vector of slots, a free list, a list of booked slots and a closed flag. The two
  lists are stacks in the source (\<^verbatim>\<open>push\<close>/\<^verbatim>\<open>pop\<close> at the end); here the head of the list is the
  end of the vector. A table charges its domain's handle quota, so every operation that can
  charge takes the store of domains and returns the updated one. The trace calls of the source
  are empty functions in a production build and have no counterpart.

  \<^verbatim>\<open>Vec::try_reserve\<close> answers from the allocator: \<open>heap\<close> says whether a vector may grow to a
  length. Every theorem below holds for any such answers, up to \<open>heap_bounded\<close>: no table has more
  slots than a 32-bit index can name.
\<close>

section \<open>State\<close>

record slot =
  s_cap :: "capability option"
  s_generation :: u32
  s_reserved :: bool

record handle_table =
  ht_slots :: "slot list"
  ht_free :: "u32 list"
  ht_booked :: "u32 list"
  ht_closed :: bool
  ht_domain :: "domain_id option"

record heap =
  slots_fit :: "nat \<Rightarrow> bool"
  free_fit :: "nat \<Rightarrow> bool"
  booked_fit :: "nat \<Rightarrow> bool"

definition heap_bounded :: "heap \<Rightarrow> bool" where
  "heap_bounded hp \<longleftrightarrow> (\<forall>n. slots_fit hp n \<longrightarrow> n \<le> 2 ^ 32)"

datatype handle_error = BadHandle | WrongType | AccessDenied | Revoked | LimitReached

definition ht_new :: handle_table where
  "ht_new = \<lparr>ht_slots = [], ht_free = [], ht_booked = [], ht_closed = False, ht_domain = None\<rparr>"

definition ht_set_domain :: "domain_id \<Rightarrow> handle_table \<Rightarrow> handle_table" where
  "ht_set_domain d t = t\<lparr>ht_domain := Some d\<rparr>"

definition slot_live :: "slot \<Rightarrow> bool" where
  "slot_live s \<longleftrightarrow> s_cap s \<noteq> None"

definition ht_len :: "handle_table \<Rightarrow> nat" where
  "ht_len t = count_if slot_live (ht_slots t)"

text \<open>\<^verbatim>\<open>slots.get(index)\<close>.\<close>

definition slot_at :: "handle_table \<Rightarrow> u32 \<Rightarrow> slot option" where
  "slot_at t i = (if unat i < length (ht_slots t) then Some (ht_slots t ! unat i) else None)"

definition put_slot :: "u32 \<Rightarrow> slot \<Rightarrow> handle_table \<Rightarrow> handle_table" where
  "put_slot i s t = t\<lparr>ht_slots := (ht_slots t)[unat i := s]\<rparr>"

section \<open>Operations\<close>

definition retire_or_recycle :: "slot \<Rightarrow> u32 list \<Rightarrow> u32 \<Rightarrow> slot \<times> u32 list" where
  "retire_or_recycle s free i =
     (if s_generation s = - 1 then (s\<lparr>s_generation := - 1\<rparr>, free)
      else (s\<lparr>s_generation := s_generation s + 1\<rparr>, i # free))"

text \<open>Growing by one fresh slot needs room in the slot vector and in the free list.\<close>

definition can_grow :: "heap \<Rightarrow> handle_table \<Rightarrow> bool" where
  "can_grow hp t \<longleftrightarrow>
     (let wanted = length (ht_slots t) + 1 in slots_fit hp wanted \<and> free_fit hp wanted)"

definition ht_try_place :: "heap \<Rightarrow> capability \<Rightarrow> handle_table \<Rightarrow> (capability + handle) \<times> handle_table" where
  "ht_try_place hp cap t =
     (case ht_free t of
        i # free \<Rightarrow>
          (let s = ht_slots t ! unat i in
           (Inr (handle_new (s_generation s) i),
            (put_slot i (s\<lparr>s_cap := Some cap\<rparr>) t)\<lparr>ht_free := free\<rparr>))
      | [] \<Rightarrow>
          (if \<not> can_grow hp t then (Inl cap, t)
           else
             (let i = word_of_nat (length (ht_slots t)) in
              (Inr (handle_new 1 i),
               t\<lparr>ht_slots := ht_slots t @ [\<lparr>s_cap = Some cap, s_generation = 1, s_reserved = False\<rparr>]\<rparr>))))"

definition ht_place :: "heap \<Rightarrow> capability \<Rightarrow> handle_table \<Rightarrow> handle \<times> handle_table" where
  "ht_place hp cap t =
     (case ht_try_place hp cap t of
        (Inr h, t') \<Rightarrow> (h, t')
      | (Inl _, t') \<Rightarrow> (handle_new 0 0, t'))"

definition charge_table :: "domains \<Rightarrow> handle_table \<Rightarrow> domains" where
  "charge_table ds t = (case ht_domain t of None \<Rightarrow> ds | Some d \<Rightarrow> charge_handle ds d)"

definition try_charge_table :: "domains \<Rightarrow> handle_table \<Rightarrow> bool \<times> domains" where
  "try_charge_table ds t = (case ht_domain t of None \<Rightarrow> (True, ds) | Some d \<Rightarrow> try_charge_handle ds d)"

definition refund_table :: "domains \<Rightarrow> handle_table \<Rightarrow> nat \<Rightarrow> domains" where
  "refund_table ds t n = (case ht_domain t of None \<Rightarrow> ds | Some d \<Rightarrow> uncharge_handles ds d n)"

definition ht_insert :: "heap \<Rightarrow> domains \<Rightarrow> capability \<Rightarrow> handle_table \<Rightarrow> handle \<times> domains \<times> handle_table" where
  "ht_insert hp ds cap t =
     (let ds1 = charge_table ds t in
      case ht_try_place hp cap t of
        (Inr h, t') \<Rightarrow> (h, ds1, t')
      | (Inl _, t') \<Rightarrow> (handle_new 0 0, refund_table ds1 t' 1, t'))"

definition ht_insert_object ::
  "heap \<Rightarrow> objects \<Rightarrow> domains \<Rightarrow> koid \<Rightarrow> rights \<Rightarrow> handle_table \<Rightarrow> handle \<times> domains \<times> handle_table" where
  "ht_insert_object hp objs ds obj r t = ht_insert hp ds (capability_new objs obj r) t"

text \<open>\<^verbatim>\<open>unbook\<close>: every slot booked since \<open>keep\<close> goes back on the free list.\<close>

fun move_all :: "nat \<Rightarrow> u32 list \<Rightarrow> u32 list \<Rightarrow> u32 list \<times> u32 list" where
  "move_all 0 booked free = (booked, free)"
| "move_all (Suc n) [] free = ([], free)"
| "move_all (Suc n) (i # booked) free = move_all n booked (i # free)"

definition ht_unbook :: "nat \<Rightarrow> handle_table \<Rightarrow> handle_table" where
  "ht_unbook keep t =
     (let (booked, free) = move_all (length (ht_booked t) - keep) (ht_booked t) (ht_free t)
      in t\<lparr>ht_booked := booked, ht_free := free\<rparr>)"

text \<open>The loop of \<^verbatim>\<open>reserve\<close> that books one concrete slot per unit.\<close>

fun book_slots :: "heap \<Rightarrow> nat \<Rightarrow> handle_table \<Rightarrow> bool \<times> handle_table" where
  "book_slots hp 0 t = (True, t)"
| "book_slots hp (Suc n) t =
     (case ht_free t of
        i # free \<Rightarrow> book_slots hp n (t\<lparr>ht_free := free, ht_booked := i # ht_booked t\<rparr>)
      | [] \<Rightarrow>
          (if \<not> can_grow hp t then (False, t)
           else book_slots hp n
                  (t\<lparr>ht_slots := ht_slots t @ [\<lparr>s_cap = None, s_generation = 1, s_reserved = False\<rparr>],
                     ht_booked := word_of_nat (length (ht_slots t)) # ht_booked t\<rparr>)))"

definition ht_reserve :: "heap \<Rightarrow> domains \<Rightarrow> nat \<Rightarrow> handle_table \<Rightarrow> bool \<times> domains \<times> handle_table" where
  "ht_reserve hp ds n t =
     (if \<not> booked_fit hp (length (ht_booked t) + n) then (False, ds, t)
      else
        (let before = length (ht_booked t) in
         case book_slots hp n t of
           (False, t1) \<Rightarrow> (False, ds, ht_unbook before t1)
         | (True, t1) \<Rightarrow>
             (case ht_domain t1 of
                None \<Rightarrow> (True, ds, t1)
              | Some d \<Rightarrow>
                  (case charge_loop (\<lambda>s. try_charge_handle s d) (\<lambda>k s. uncharge_handles s d k) 0 n ds of
                     (False, ds1) \<Rightarrow> (False, ds1, ht_unbook before t1)
                   | (True, ds1) \<Rightarrow> (True, ds1, t1)))))"

definition ht_insert_reserved ::
  "heap \<Rightarrow> domains \<Rightarrow> capability \<Rightarrow> handle_table \<Rightarrow> handle \<times> domains \<times> handle_table" where
  "ht_insert_reserved hp ds cap t =
     (if ht_closed t then
        (case ht_booked t of
           [] \<Rightarrow> (0, ds, t)
         | i # booked \<Rightarrow> (0, refund_table ds t 1, t\<lparr>ht_booked := booked\<rparr>))
      else
        (case ht_booked t of
           i # booked \<Rightarrow>
             (let s = ht_slots t ! unat i in
              (handle_new (s_generation s) i, ds,
               (put_slot i (s\<lparr>s_cap := Some cap\<rparr>) t)\<lparr>ht_booked := booked\<rparr>))
         | [] \<Rightarrow> (let (h, t') = ht_place hp cap t in (h, ds, t'))))"

definition ht_release_reservation :: "domains \<Rightarrow> nat \<Rightarrow> handle_table \<Rightarrow> domains \<times> handle_table" where
  "ht_release_reservation ds n t =
     (let give_back = min n (length (ht_booked t));
          keep = length (ht_booked t) - give_back
      in (refund_table ds t n, ht_unbook keep t))"

definition ht_try_insert_or_return ::
  "heap \<Rightarrow> domains \<Rightarrow> capability \<Rightarrow> handle_table \<Rightarrow> (capability + handle) \<times> domains \<times> handle_table" where
  "ht_try_insert_or_return hp ds cap t =
     (case try_charge_table ds t of
        (False, ds1) \<Rightarrow> (Inl cap, ds1, t)
      | (True, ds1) \<Rightarrow>
          (case ht_try_place hp cap t of
             (Inr h, t') \<Rightarrow> (Inr h, ds1, t')
           | (Inl cap', t') \<Rightarrow> (Inl cap', refund_table ds1 t' 1, t')))"

definition ht_try_insert ::
  "heap \<Rightarrow> domains \<Rightarrow> capability \<Rightarrow> handle_table \<Rightarrow> handle option \<times> domains \<times> handle_table" where
  "ht_try_insert hp ds cap t =
     (case ht_try_insert_or_return hp ds cap t of
        (Inl _, ds', t') \<Rightarrow> (None, ds', t')
      | (Inr h, ds', t') \<Rightarrow> (Some h, ds', t'))"

definition ht_try_insert_object ::
  "heap \<Rightarrow> objects \<Rightarrow> domains \<Rightarrow> koid \<Rightarrow> rights \<Rightarrow> handle_table \<Rightarrow> handle option \<times> domains \<times> handle_table" where
  "ht_try_insert_object hp objs ds obj r t = ht_try_insert hp ds (capability_new objs obj r) t"

definition ht_cap_of :: "handle_table \<Rightarrow> handle \<Rightarrow> handle_error + capability" where
  "ht_cap_of t h =
     (case slot_at t (handle_index h) of
        None \<Rightarrow> Inl BadHandle
      | Some s \<Rightarrow>
          (if s_generation s \<noteq> handle_generation h then Inl BadHandle
           else (case s_cap s of None \<Rightarrow> Inl BadHandle | Some c \<Rightarrow> Inr c)))"

definition ht_lookup :: "objects \<Rightarrow> handle_table \<Rightarrow> handle \<Rightarrow> rights \<Rightarrow> handle_error + koid" where
  "ht_lookup objs t h required =
     (case ht_cap_of t h of
        Inl e \<Rightarrow> Inl e
      | Inr cap \<Rightarrow>
          (if \<not> cap_is_valid objs cap then Inl Revoked
           else if \<not> rights_contains (cap_rights cap) required then Inl AccessDenied
           else Inr (cap_object cap)))"

definition ht_lookup_typed ::
  "objects \<Rightarrow> handle_table \<Rightarrow> handle \<Rightarrow> object_type \<Rightarrow> rights \<Rightarrow> handle_error + koid" where
  "ht_lookup_typed objs t h expected required =
     (case ht_cap_of t h of
        Inl e \<Rightarrow> Inl e
      | Inr cap \<Rightarrow>
          (if cap_object_type objs cap \<noteq> expected then Inl WrongType
           else if \<not> cap_is_valid objs cap then Inl Revoked
           else if \<not> rights_contains (cap_rights cap) required then Inl AccessDenied
           else Inr (cap_object cap)))"

definition ht_live_cap_of :: "objects \<Rightarrow> handle_table \<Rightarrow> handle \<Rightarrow> handle_error + capability" where
  "ht_live_cap_of objs t h =
     (case ht_cap_of t h of
        Inl e \<Rightarrow> Inl e
      | Inr cap \<Rightarrow> (if \<not> cap_is_valid objs cap then Inl Revoked else Inr cap))"

definition ht_rights_of :: "objects \<Rightarrow> handle_table \<Rightarrow> handle \<Rightarrow> handle_error + rights" where
  "ht_rights_of objs t h = map_sum (\<lambda>e. e) cap_rights (ht_live_cap_of objs t h)"

definition ht_info :: "objects \<Rightarrow> handle_table \<Rightarrow> handle \<Rightarrow> handle_info option" where
  "ht_info objs t h =
     (case ht_live_cap_of objs t h of Inl _ \<Rightarrow> None | Inr cap \<Rightarrow> Some (handle_info_from_cap objs cap))"

definition ht_duplicate ::
  "heap \<Rightarrow> objects \<Rightarrow> domains \<Rightarrow> handle \<Rightarrow> rights \<Rightarrow> handle_table
     \<Rightarrow> (handle_error + handle) \<times> domains \<times> handle_table" where
  "ht_duplicate hp objs ds h new_rights t =
     (case ht_cap_of t h of
        Inl e \<Rightarrow> (Inl e, ds, t)
      | Inr cap \<Rightarrow>
          (if \<not> cap_is_valid objs cap then (Inl Revoked, ds, t)
           else if \<not> rights_contains (cap_rights cap) RIGHT_DUPLICATE then (Inl AccessDenied, ds, t)
           else if \<not> rights_contains (cap_rights cap) new_rights then (Inl AccessDenied, ds, t)
           else
             (case ht_try_insert hp ds (capability_new objs (cap_object cap) new_rights) t of
                (None, ds', t') \<Rightarrow> (Inl LimitReached, ds', t')
              | (Some h', ds', t') \<Rightarrow> (Inr h', ds', t'))))"

definition ht_take ::
  "objects \<Rightarrow> domains \<Rightarrow> handle \<Rightarrow> rights \<Rightarrow> handle_table
     \<Rightarrow> (handle_error + capability) \<times> domains \<times> handle_table" where
  "ht_take objs ds h r t =
     (case ht_live_cap_of objs t h of
        Inl e \<Rightarrow> (Inl e, ds, t)
      | Inr cap \<Rightarrow>
          (if \<not> rights_contains (cap_rights cap) r then (Inl AccessDenied, ds, t)
           else
             (let i = handle_index h;
                  (s, free) = retire_or_recycle ((ht_slots t ! unat i)\<lparr>s_cap := None\<rparr>) (ht_free t) i
              in (Inr cap, refund_table ds t 1, (put_slot i s t)\<lparr>ht_free := free\<rparr>))))"

definition ht_take_for_transfer ::
  "objects \<Rightarrow> handle \<Rightarrow> rights \<Rightarrow> handle_table \<Rightarrow> (handle_error + capability) \<times> handle_table" where
  "ht_take_for_transfer objs h r t =
     (case ht_live_cap_of objs t h of
        Inl e \<Rightarrow> (Inl e, t)
      | Inr cap \<Rightarrow>
          (if \<not> rights_contains (cap_rights cap) r then (Inl AccessDenied, t)
           else
             (let i = handle_index h
              in (Inr cap, put_slot i ((ht_slots t ! unat i)\<lparr>s_cap := None, s_reserved := True\<rparr>) t))))"

definition ht_resolve_taken :: "domains \<Rightarrow> handle \<Rightarrow> handle_table \<Rightarrow> domains \<times> handle_table" where
  "ht_resolve_taken ds h t =
     (refund_table ds t 1,
      (case slot_at t (handle_index h) of
         None \<Rightarrow> t
       | Some s \<Rightarrow>
           (let (s', free) = retire_or_recycle (s\<lparr>s_reserved := False\<rparr>) (ht_free t) (handle_index h)
            in (put_slot (handle_index h) s' t)\<lparr>ht_free := free\<rparr>)))"

definition ht_commit_taken :: "domains \<Rightarrow> handle \<Rightarrow> handle_table \<Rightarrow> domains \<times> handle_table" where
  "ht_commit_taken ds h t = ht_resolve_taken ds h t"

definition ht_abandon_taken :: "domains \<Rightarrow> handle \<Rightarrow> handle_table \<Rightarrow> domains \<times> handle_table" where
  "ht_abandon_taken ds h t = ht_resolve_taken ds h t"

definition ht_restore_taken ::
  "heap \<Rightarrow> domains \<Rightarrow> handle \<Rightarrow> capability \<Rightarrow> handle_table \<Rightarrow> domains \<times> handle_table" where
  "ht_restore_taken hp ds h cap t =
     (if ht_closed t then
        (refund_table ds t 1,
         (case slot_at t (handle_index h) of
            None \<Rightarrow> t
          | Some s \<Rightarrow> put_slot (handle_index h) (s\<lparr>s_reserved := False\<rparr>) t))
      else
        (case slot_at t (handle_index h) of
           Some s \<Rightarrow> (ds, put_slot (handle_index h) (s\<lparr>s_cap := Some cap, s_reserved := False\<rparr>) t)
         | None \<Rightarrow> (let (_, ds', t') = ht_insert hp ds cap t in (ds', t'))))"

text \<open>Does some slot of the table name the object?\<close>

definition ht_names :: "handle_table \<Rightarrow> koid \<Rightarrow> bool" where
  "ht_names t k \<longleftrightarrow> list_ex (\<lambda>s. map_option cap_object (s_cap s) = Some k) (ht_slots t)"

definition claim_released :: "objects \<Rightarrow> handle_table \<Rightarrow> capability \<Rightarrow> koid option" where
  "claim_released objs t cap =
     (if cap_object_type objs cap = Claim \<and> \<not> ht_names t (cap_object cap)
      then Some (cap_object cap) else None)"

text \<open>
  \<^verbatim>\<open>close\<close>. The last component of a success is the claim whose release the close starts: the
  closed handle named a claim and no other slot of this table does.
\<close>

definition ht_close ::
  "objects \<Rightarrow> domains \<Rightarrow> handle \<Rightarrow> handle_table
     \<Rightarrow> (handle_error + koid option) \<times> domains \<times> handle_table" where
  "ht_close objs ds h t =
     (case slot_at t (handle_index h) of
        None \<Rightarrow> (Inl BadHandle, ds, t)
      | Some s \<Rightarrow>
          (case s_cap s of
             None \<Rightarrow> (Inl BadHandle, ds, t)
           | Some cap \<Rightarrow>
               (if s_generation s \<noteq> handle_generation h then (Inl BadHandle, ds, t)
                else
                  (let (s', free) = retire_or_recycle (s\<lparr>s_cap := None\<rparr>) (ht_free t) (handle_index h);
                       t' = (put_slot (handle_index h) s' t)\<lparr>ht_free := free\<rparr>
                   in (Inr (claim_released objs t' cap), refund_table ds t 1, t')))))"

definition ht_objects :: "handle_table \<Rightarrow> koid list" where
  "ht_objects t = map cap_object (List.map_filter s_cap (ht_slots t))"

text \<open>The loop of \<^verbatim>\<open>close_all\<close> over the slots, from index \<open>i\<close> on.\<close>

fun close_slots :: "u32 list \<Rightarrow> nat \<Rightarrow> slot list \<Rightarrow> u32 list \<Rightarrow> nat \<Rightarrow> slot list \<times> u32 list \<times> nat" where
  "close_slots booked i [] free closed = ([], free, closed)"
| "close_slots booked i (s # ss) free closed =
     (if s_reserved s \<or> word_of_nat i \<in> set booked then
        (let (ss', free', closed') = close_slots booked (Suc i) ss free closed in (s # ss', free', closed'))
      else
        (let had = slot_live s;
             s1 = s\<lparr>s_cap := None\<rparr>;
             retired = (s_generation s = - 1);
             s2 = (if had \<and> \<not> retired then s1\<lparr>s_generation := s_generation s + 1\<rparr> else s1);
             (ss', free', closed') =
               close_slots booked (Suc i) ss (if retired then free else word_of_nat i # free)
                 (if had then Suc closed else closed)
         in (s2 # ss', free', closed')))"

definition ht_close_all :: "domains \<Rightarrow> handle_table \<Rightarrow> domains \<times> handle_table" where
  "ht_close_all ds t =
     (let (slots, free, closed) = close_slots (ht_booked t) 0 (ht_slots t) [] 0
      in (if 0 < closed then refund_table ds t closed else ds,
          t\<lparr>ht_closed := True, ht_slots := slots, ht_free := free\<rparr>))"

definition ht_drop :: "domains \<Rightarrow> handle_table \<Rightarrow> domains" where
  "ht_drop ds t = (if 0 < ht_len t then refund_table ds t (ht_len t) else ds)"

end
