(* ===== verification/Handle_Invariants.thy ===== *)
theory Handle_Invariants
  imports Handles
begin

text \<open>
  The invariant of a handle table, the order its slots evolve in, the quota a table holds and the
  capability space it stands for; each operation's effect on all four.
\<close>

section \<open>Invariant, evolution, capability space\<close>

lemma unat_u32 [simp]: "n < 4294967296 \<Longrightarrow> unat (word_of_nat n :: u32) = n"
  by (simp add: unat_of_nat)

lemma unat_u32_less [simp]: "unat (i :: u32) < 4294967296"
  using unsigned_less [of i] by simp

lemma unat_u32_eq [simp]: "unat (i :: u32) = unat j \<longleftrightarrow> i = j"
  by (simp add: word_unat_eq_iff)

lemma word_of_nat_eq_u32: "n < 4294967296 \<Longrightarrow> word_of_nat n = (i :: u32) \<longleftrightarrow> n = unat i"
  by auto

lemma u32_eq_word_of_nat: "n < 4294967296 \<Longrightarrow> (i :: u32) = word_of_nat n \<longleftrightarrow> n = unat i"
  by auto

lemma u32_less_succ: "x \<noteq> - 1 \<Longrightarrow> (x :: u32) < x + 1"
proof -
  assume "x \<noteq> - 1"
  then have "1 + x \<noteq> 0" by (metis add.commute add_eq_0_iff)
  then have "unat (1 + x) = Suc (unat x)" by (rule unatSuc)
  then show ?thesis by (simp add: word_less_nat_alt add.commute)
qed

definition slot_vacant :: "slot \<Rightarrow> bool" where
  "slot_vacant s \<longleftrightarrow> s_cap s = None \<and> \<not> s_reserved s"

definition table_wf :: "handle_table \<Rightarrow> bool" where
  "table_wf t \<longleftrightarrow>
     length (ht_slots t) \<le> 2 ^ 32 \<and>
     distinct (ht_free t) \<and> distinct (ht_booked t) \<and> set (ht_free t) \<inter> set (ht_booked t) = {} \<and>
     (\<forall>i \<in> set (ht_free t) \<union> set (ht_booked t).
        unat i < length (ht_slots t) \<and> slot_vacant (ht_slots t ! unat i)) \<and>
     (\<forall>s \<in> set (ht_slots t). s_reserved s \<longrightarrow> s_cap s = None)"

definition retired :: "handle_table \<Rightarrow> u32 \<Rightarrow> bool" where
  "retired t i \<longleftrightarrow> unat i < length (ht_slots t) \<and> s_generation (ht_slots t ! unat i) = - 1 \<and>
     slot_vacant (ht_slots t ! unat i) \<and> i \<notin> set (ht_free t) \<and> i \<notin> set (ht_booked t)"

definition evolves :: "handle_table \<Rightarrow> handle_table \<Rightarrow> bool" where
  "evolves t t' \<longleftrightarrow> length (ht_slots t) \<le> length (ht_slots t') \<and>
     (\<forall>i. unat i < length (ht_slots t) \<longrightarrow>
        s_generation (ht_slots t ! unat i) \<le> s_generation (ht_slots t' ! unat i) \<and>
        (retired t i \<longrightarrow> retired t' i))"

text \<open>A handle that no operation may ever make name something again.\<close>

definition stale :: "handle_table \<Rightarrow> handle \<Rightarrow> bool" where
  "stale t h \<longleftrightarrow> unat (handle_index h) < length (ht_slots t) \<and>
     (handle_generation h < s_generation (ht_slots t ! unat (handle_index h)) \<or>
      handle_generation h = s_generation (ht_slots t ! unat (handle_index h)) \<and> retired t (handle_index h))"

definition table_charge :: "handle_table \<Rightarrow> nat" where
  "table_charge t = count_if slot_live (ht_slots t) + count_if s_reserved (ht_slots t) + length (ht_booked t)"

definition cspace :: "handle_table \<Rightarrow> handle \<Rightarrow> capability option" where
  "cspace t h =
     (if unat (handle_index h) < length (ht_slots t) \<and>
         s_generation (ht_slots t ! unat (handle_index h)) = handle_generation h
      then s_cap (ht_slots t ! unat (handle_index h)) else None)"

lemma evolves_refl [simp]: "evolves t t"
  by (simp add: evolves_def)

lemma evolves_trans: "evolves a b \<Longrightarrow> evolves b c \<Longrightarrow> evolves a c"
  unfolding evolves_def by (meson le_trans less_le_trans order_trans)

lemma evolves_stale:
  assumes "evolves t t'" and "stale t h"
  shows "stale t' h"
proof -
  let ?i = "handle_index h"
  have len: "unat ?i < length (ht_slots t)" using assms(2) by (simp add: stale_def)
  with assms(1) have gen: "s_generation (ht_slots t ! unat ?i) \<le> s_generation (ht_slots t' ! unat ?i)"
    and ret: "retired t ?i \<Longrightarrow> retired t' ?i"
    by (simp_all add: evolves_def)
  have len': "unat ?i < length (ht_slots t')"
    using assms(1) len by (auto simp: evolves_def)
  show ?thesis
  proof (cases "retired t ?i")
    case True
    then have "s_generation (ht_slots t ! unat ?i) = - 1" by (simp add: retired_def)
    moreover from ret [OF True] have "s_generation (ht_slots t' ! unat ?i) = - 1"
      by (simp add: retired_def)
    ultimately show ?thesis using assms(2) ret [OF True] len' by (auto simp: stale_def)
  next
    case False
    with assms(2) gen len' show ?thesis by (auto simp: stale_def)
  qed
qed

lemma stale_names_nothing: "stale t h \<Longrightarrow> cspace t h = None"
  by (auto simp: stale_def cspace_def retired_def slot_vacant_def)

lemma ht_cap_of_cspace:
  "ht_cap_of t h = (case cspace t h of None \<Rightarrow> Inl BadHandle | Some c \<Rightarrow> Inr c)"
  by (auto simp: ht_cap_of_def cspace_def slot_at_def split: option.splits)

lemma table_wf_free:
  "table_wf t \<Longrightarrow> i \<in> set (ht_free t) \<Longrightarrow>
     unat i < length (ht_slots t) \<and> slot_vacant (ht_slots t ! unat i) \<and> i \<notin> set (ht_booked t)"
  by (auto simp: table_wf_def)

lemma table_wf_booked:
  "table_wf t \<Longrightarrow> i \<in> set (ht_booked t) \<Longrightarrow>
     unat i < length (ht_slots t) \<and> slot_vacant (ht_slots t ! unat i) \<and> i \<notin> set (ht_free t)"
  by (auto simp: table_wf_def)

lemma table_wf_reserved:
  "table_wf t \<Longrightarrow> unat i < length (ht_slots t) \<Longrightarrow> s_reserved (ht_slots t ! unat i) \<Longrightarrow>
     s_cap (ht_slots t ! unat i) = None"
  by (auto simp: table_wf_def)

lemma table_wf_new [simp]: "table_wf ht_new"
  by (simp add: table_wf_def ht_new_def)

lemma cspace_new [simp]: "cspace ht_new = Map.empty"
  by (rule ext) (simp add: cspace_def ht_new_def)

lemma cspace_update [simp]:
  "cspace (t\<lparr>ht_free := f\<rparr>) = cspace t"
  "cspace (t\<lparr>ht_booked := b\<rparr>) = cspace t"
  "cspace (t\<lparr>ht_closed := c\<rparr>) = cspace t"
  by (auto simp: cspace_def fun_eq_iff)

lemma cspace_put_slot:
  "cspace (put_slot i s t) h =
     (if handle_index h = i \<and> unat i < length (ht_slots t)
      then (if s_generation s = handle_generation h then s_cap s else None) else cspace t h)"
  by (cases "unat i < length (ht_slots t)")
    (auto simp: cspace_def put_slot_def nth_list_update list_update_beyond)

lemma put_slot_simps [simp]:
  "ht_free (put_slot i s t) = ht_free t"
  "ht_booked (put_slot i s t) = ht_booked t"
  "ht_closed (put_slot i s t) = ht_closed t"
  "ht_domain (put_slot i s t) = ht_domain t"
  "length (ht_slots (put_slot i s t)) = length (ht_slots t)"
  by (simp_all add: put_slot_def)

lemma table_wf_put_slot:
  assumes wf: "table_wf t" and s: "s_reserved s \<Longrightarrow> s_cap s = None"
    and off: "slot_vacant s \<or> i \<notin> set (ht_free t) \<and> i \<notin> set (ht_booked t)"
  shows "table_wf (put_slot i s t)"
proof -
  have "slot_vacant ((ht_slots t)[unat i := s] ! unat j)"
    if "j \<in> set (ht_free t) \<union> set (ht_booked t)" for j
    using that wf off by (cases "j = i") (auto simp: table_wf_def nth_list_update)
  with wf s show ?thesis
    by (auto simp: table_wf_def put_slot_def dest!: set_update_subset_insert [THEN subsetD])
qed

section \<open>How much a table can hold\<close>

lemma table_charge_le_slots:
  assumes wf: "table_wf t"
  shows "table_charge t \<le> length (ht_slots t)"
proof -
  let ?L = "{k. k < length (ht_slots t) \<and> slot_live (ht_slots t ! k)}"
  let ?R = "{k. k < length (ht_slots t) \<and> s_reserved (ht_slots t ! k)}"
  let ?B = "unat ` set (ht_booked t)"
  have "card ?B = length (ht_booked t)"
    using wf by (simp add: card_image inj_on_def distinct_card table_wf_def)
  moreover have "?L \<inter> ?R = {}" "(?L \<union> ?R) \<inter> ?B = {}" "?L \<union> ?R \<union> ?B \<subseteq> {..< length (ht_slots t)}"
    using wf unfolding table_wf_def by (auto simp: slot_live_def slot_vacant_def)
  moreover from this have "card (?L \<union> ?R \<union> ?B) \<le> length (ht_slots t)"
    using card_mono [of "{..< length (ht_slots t)}"] by fastforce
  ultimately show ?thesis
    by (simp add: table_charge_def count_if_card card_Un_disjoint)
qed

lemma table_charge_bound: "table_wf t \<Longrightarrow> table_charge t \<le> 4294967296"
  using table_charge_le_slots [of t] by (simp add: table_wf_def)

section \<open>Placing a capability\<close>

text \<open>The one way an occupied slot arises: out of a vacant slot that \<open>free\<close> or \<open>booked\<close> names.\<close>

lemma fill_slot:
  assumes wf: "table_wf t" and i: "i \<in> set (ht_free t) \<union> set (ht_booked t)"
    and free: "distinct f" "set f = set (ht_free t) - {i}"
    and booked: "distinct b" "set b = set (ht_booked t) - {i}"
    and t': "t' = t\<lparr>ht_slots := (ht_slots t)[unat i := (ht_slots t ! unat i)\<lparr>s_cap := Some c\<rparr>],
                     ht_free := f, ht_booked := b\<rparr>"
    and h: "h = handle_new (s_generation (ht_slots t ! unat i)) i"
  shows "table_wf t'" and "evolves t t'" and "cspace t h = None" and "cspace t' = (cspace t)(h \<mapsto> c)"
    and "count_if slot_live (ht_slots t') = Suc (count_if slot_live (ht_slots t))"
    and "count_if s_reserved (ht_slots t') = count_if s_reserved (ht_slots t)"
proof -
  have len: "unat i < length (ht_slots t)" and vac: "slot_vacant (ht_slots t ! unat i)"
    using wf i by (auto simp: table_wf_def)
  show "table_wf t'"
    using wf len vac free booked unfolding t' table_wf_def
    by (auto simp: nth_list_update slot_vacant_def dest!: set_update_subset_insert [THEN subsetD])
  show "evolves t t'"
    using len vac i unfolding t' evolves_def retired_def
    by (auto simp: nth_list_update free booked)
  show "cspace t h = None"
    using vac by (simp add: h cspace_def slot_vacant_def)
  show "cspace t' = (cspace t)(h \<mapsto> c)"
    using len by (auto simp: t' h cspace_def fun_eq_iff nth_list_update handle_eq_iff)
  show "count_if slot_live (ht_slots t') = Suc (count_if slot_live (ht_slots t))"
    using len vac by (simp add: t' count_if_update_on slot_live_def slot_vacant_def)
  show "count_if s_reserved (ht_slots t') = count_if s_reserved (ht_slots t)"
    using len vac by (simp add: t' count_if_update_same slot_vacant_def)
qed

lemma grow_slot:
  assumes wf: "table_wf t" and n: "length (ht_slots t) < 2 ^ 32"
    and res: "\<not> s_reserved s"
    and t': "t' = t\<lparr>ht_slots := ht_slots t @ [s]\<rparr>"
    and h: "h = handle_new (s_generation s) (word_of_nat (length (ht_slots t)))"
  shows "table_wf t'" and "evolves t t'" and "cspace t h = None" and "cspace t' = (cspace t)(h := s_cap s)"
proof -
  show "table_wf t'"
    using wf n res unfolding t' table_wf_def by (auto simp: nth_append intro!: less_SucI)
  show "evolves t t'"
    unfolding t' evolves_def retired_def by (auto simp: nth_append)
  show "cspace t h = None" using n by (simp add: h cspace_def)
  show "cspace t' = (cspace t)(h := s_cap s)"
    using n by (auto simp: t' h cspace_def fun_eq_iff nth_append handle_eq_iff less_Suc_eq
        word_of_nat_eq_u32 u32_eq_word_of_nat)
qed

lemma can_grow_bound: "heap_bounded hp \<Longrightarrow> can_grow hp t \<Longrightarrow> length (ht_slots t) < 2 ^ 32"
  by (auto simp: heap_bounded_def can_grow_def Let_def Suc_le_eq)

lemma ht_try_place_granted:
  assumes wf: "table_wf t" and hp: "heap_bounded hp" and run: "ht_try_place hp c t = (Inr h, t')"
  shows "table_wf t' \<and> evolves t t' \<and> cspace t h = None \<and> cspace t' = (cspace t)(h \<mapsto> c) \<and>
    table_charge t' = Suc (table_charge t) \<and> ht_domain t' = ht_domain t \<and> ht_closed t' = ht_closed t \<and>
    ht_booked t' = ht_booked t"
proof (cases "ht_free t")
  case Nil
  let ?s = "\<lparr>s_cap = Some c, s_generation = 1, s_reserved = False\<rparr>"
  from run Nil have grow: "can_grow hp t" and t': "t' = t\<lparr>ht_slots := ht_slots t @ [?s]\<rparr>"
    and h: "h = handle_new (s_generation ?s) (word_of_nat (length (ht_slots t)))"
    by (auto simp: ht_try_place_def Let_def split: if_splits)
  from grow_slot [OF wf can_grow_bound [OF hp grow] _ t' h] show ?thesis
    by (simp add: t' table_charge_def slot_live_def)
next
  case (Cons i free)
  have d: "distinct free" "set free = set (ht_free t) - {i}"
    "distinct (ht_booked t)" "set (ht_booked t) = set (ht_booked t) - {i}"
    using wf Cons by (auto simp: table_wf_def)
  from run Cons have t': "t' = t\<lparr>ht_slots := (ht_slots t)[unat i := (ht_slots t ! unat i)\<lparr>s_cap := Some c\<rparr>],
                     ht_free := free, ht_booked := ht_booked t\<rparr>"
    and h: "h = handle_new (s_generation (ht_slots t ! unat i)) i"
    by (cases t; auto simp: ht_try_place_def Let_def put_slot_def)+
  from fill_slot [OF wf _ d t' h] Cons show ?thesis
    by (simp add: table_charge_def t')
qed

lemma ht_try_place_refused:
  "ht_try_place hp c t = (Inl c', t') \<Longrightarrow> c' = c \<and> t' = t"
  by (auto simp: ht_try_place_def Let_def split: list.splits if_splits)

section \<open>Emptying a slot\<close>

lemma occupied_not_listed:
  "table_wf t \<Longrightarrow> \<not> slot_vacant (ht_slots t ! unat i) \<Longrightarrow>
     i \<notin> set (ht_free t) \<and> i \<notin> set (ht_booked t)"
  by (auto simp: table_wf_def)

lemma vacate_slot:
  assumes wf: "table_wf t" and len: "unat i < length (ht_slots t)"
    and occ: "\<not> slot_vacant (ht_slots t ! unat i)"
    and v: "slot_vacant v" "s_generation v = s_generation (ht_slots t ! unat i)"
    and rec: "retire_or_recycle v (ht_free t) i = (s, f)"
    and t': "t' = (put_slot i s t)\<lparr>ht_free := f\<rparr>"
    and h: "h = handle_new (s_generation (ht_slots t ! unat i)) i"
  shows "table_wf t'" and "evolves t t'" and "stale t' h" and "cspace t' = (cspace t)(h := None)"
    and "count_if slot_live (ht_slots t') + of_bool (slot_live (ht_slots t ! unat i)) = count_if slot_live (ht_slots t)"
    and "count_if s_reserved (ht_slots t') + of_bool (s_reserved (ht_slots t ! unat i)) = count_if s_reserved (ht_slots t)"
proof -
  note off = occupied_not_listed [OF wf occ]
  have vac: "slot_vacant s" "\<not> slot_live s"
    using rec v by (auto simp: retire_or_recycle_def slot_vacant_def slot_live_def split: if_splits)
  have f: "distinct f" "set f \<subseteq> insert i (set (ht_free t))"
    using rec off wf by (auto simp: retire_or_recycle_def table_wf_def split: if_splits)
  show "table_wf t'"
    using wf len vac f off unfolding t' table_wf_def put_slot_def
    by (auto simp: nth_list_update slot_vacant_def dest!: set_update_subset_insert [THEN subsetD])
  have keep: "retired t j \<Longrightarrow> retired t' j" for j
    using rec occ v unfolding t' put_slot_def retired_def
    by (cases "j = i") (auto simp: retire_or_recycle_def split: if_splits)
  have gen: "s_generation (ht_slots t ! unat i) \<le> s_generation s"
    using rec v u32_less_succ [of "s_generation (ht_slots t ! unat i)"]
    by (auto simp: retire_or_recycle_def split: if_splits)
  show "evolves t t'"
    using len gen keep unfolding evolves_def
    by (auto simp: t' put_slot_def nth_list_update)
  show "stale t' h"
    using rec v len off u32_less_succ [of "s_generation (ht_slots t ! unat i)"]
    by (auto simp: stale_def t' h put_slot_def retired_def retire_or_recycle_def slot_vacant_def split: if_splits)
  show "cspace t' = (cspace t)(h := None)"
    using len vac
    by (auto simp: t' h fun_eq_iff cspace_put_slot slot_vacant_def handle_eq_iff) (auto simp: cspace_def)
  show "count_if slot_live (ht_slots t') + of_bool (slot_live (ht_slots t ! unat i)) = count_if slot_live (ht_slots t)"
    using count_if_update [OF len, of slot_live s] vac by (simp add: t' put_slot_def)
  show "count_if s_reserved (ht_slots t') + of_bool (s_reserved (ht_slots t ! unat i)) = count_if s_reserved (ht_slots t)"
    using count_if_update [OF len, of s_reserved s] vac by (simp add: t' put_slot_def slot_vacant_def)
qed

lemma live_slot:
  assumes "table_wf t" and "cspace t h = Some c"
  shows "unat (handle_index h) < length (ht_slots t)"
    and "s_cap (ht_slots t ! unat (handle_index h)) = Some c"
    and "s_generation (ht_slots t ! unat (handle_index h)) = handle_generation h"
    and "\<not> s_reserved (ht_slots t ! unat (handle_index h))"
    and "\<not> slot_vacant (ht_slots t ! unat (handle_index h))"
proof -
  show len: "unat (handle_index h) < length (ht_slots t)"
    and cap: "s_cap (ht_slots t ! unat (handle_index h)) = Some c"
    and "s_generation (ht_slots t ! unat (handle_index h)) = handle_generation h"
    using assms(2) by (auto simp: cspace_def split: if_splits)
  show "\<not> s_reserved (ht_slots t ! unat (handle_index h))"
    using table_wf_reserved [OF assms(1) len] cap by auto
  show "\<not> slot_vacant (ht_slots t ! unat (handle_index h))"
    using cap by (simp add: slot_vacant_def)
qed

text \<open>A slot whose capability a transfer holds: it was taken through \<open>h\<close> and is not resolved yet.\<close>

definition in_transfer :: "handle_table \<Rightarrow> handle \<Rightarrow> bool" where
  "in_transfer t h \<longleftrightarrow> unat (handle_index h) < length (ht_slots t) \<and>
     s_reserved (ht_slots t ! unat (handle_index h)) \<and>
     s_generation (ht_slots t ! unat (handle_index h)) = handle_generation h"

lemma ht_names_cspace:
  assumes "table_wf t"
  shows "ht_names t k \<longleftrightarrow> (\<exists>h c. cspace t h = Some c \<and> cap_object c = k)"
proof
  assume "ht_names t k"
  then obtain j c where j: "j < length (ht_slots t)" "s_cap (ht_slots t ! j) = Some c" "cap_object c = k"
    by (auto simp: ht_names_def list_ex_length)
  moreover have "j < 4294967296" using j(1) assms by (simp add: table_wf_def)
  ultimately have "cspace t (handle_new (s_generation (ht_slots t ! j)) (word_of_nat j)) = Some c"
    by (simp add: cspace_def)
  with j show "\<exists>h c. cspace t h = Some c \<and> cap_object c = k" by blast
next
  assume "\<exists>h c. cspace t h = Some c \<and> cap_object c = k"
  then obtain h c where hc: "cspace t h = Some c" "cap_object c = k" by blast
  note live = live_slot [OF assms hc(1)]
  have "map_option cap_object (s_cap (ht_slots t ! unat (handle_index h))) = Some k"
    using live hc by simp
  with live(1) show "ht_names t k" unfolding ht_names_def list_ex_length by blast
qed

lemma vacate_live:
  assumes wf: "table_wf t" and c: "cspace t h = Some c"
    and rec: "retire_or_recycle ((ht_slots t ! unat (handle_index h))\<lparr>s_cap := None\<rparr>) (ht_free t) (handle_index h) = (s, f)"
    and t': "t' = (put_slot (handle_index h) s t)\<lparr>ht_free := f\<rparr>"
  shows "table_wf t' \<and> evolves t t' \<and> stale t' h \<and> cspace t' = (cspace t)(h := None) \<and>
    Suc (table_charge t') = table_charge t \<and>
    ht_domain t' = ht_domain t \<and> ht_closed t' = ht_closed t \<and> ht_booked t' = ht_booked t"
proof -
  let ?s = "ht_slots t ! unat (handle_index h)"
  note live = live_slot [OF wf c]
  have h: "h = handle_new (s_generation ?s) (handle_index h)" using live by (simp add: handle_new_of_parts)
  have v: "slot_vacant (?s\<lparr>s_cap := None\<rparr>)" "s_generation (?s\<lparr>s_cap := None\<rparr>) = s_generation ?s"
    using live by (simp_all add: slot_vacant_def)
  note vac = vacate_slot [OF wf live(1) live(5) v rec t' h]
  have "Suc (table_charge t') = table_charge t"
    using vac(5,6) live by (simp add: table_charge_def slot_live_def t')
  with vac(1-4) show ?thesis by (simp add: t')
qed

lemma ht_close_granted:
  assumes wf: "table_wf t" and run: "ht_close objs ds h t = (Inr rel, ds', t')"
  shows "\<exists>c. cspace t h = Some c \<and> table_wf t' \<and> evolves t t' \<and> stale t' h \<and>
    cspace t' = (cspace t)(h := None) \<and> Suc (table_charge t') = table_charge t \<and>
    ht_domain t' = ht_domain t \<and> ht_closed t' = ht_closed t \<and> ht_booked t' = ht_booked t \<and>
    ds' = refund_table ds t 1 \<and> rel = claim_released objs t' c"
proof -
  obtain c where c: "cspace t h = Some c"
    using run by (auto simp: ht_close_def slot_at_def cspace_def split: option.splits if_splits)
  note live = live_slot [OF wf c]
  obtain s f where rec: "retire_or_recycle ((ht_slots t ! unat (handle_index h))\<lparr>s_cap := None\<rparr>)
      (ht_free t) (handle_index h) = (s, f)"
    by fastforce
  let ?t = "(put_slot (handle_index h) s t)\<lparr>ht_free := f\<rparr>"
  have "ht_close objs ds h t = (Inr (claim_released objs ?t c), refund_table ds t 1, ?t)"
    using live rec by (simp add: ht_close_def slot_at_def Let_def)
  with run have "t' = ?t" "ds' = refund_table ds t 1" "rel = claim_released objs t' c" by auto
  with c vacate_live [OF wf c rec] show ?thesis by simp
qed

lemma ht_close_refused:
  assumes "ht_close objs ds h t = (Inl e, ds', t')"
  shows "e = BadHandle \<and> ds' = ds \<and> t' = t \<and> cspace t h = None"
  using assms by (auto simp: ht_close_def cspace_def slot_at_def Let_def split: option.splits if_splits prod.splits)

lemma ht_live_cap_of_Inr:
  "ht_live_cap_of objs t h = Inr c \<longleftrightarrow> cspace t h = Some c \<and> cap_is_valid objs c"
  by (auto simp: ht_live_cap_of_def ht_cap_of_cspace split: option.splits)

lemma ht_take_granted:
  assumes wf: "table_wf t" and run: "ht_take objs ds h r t = (Inr c, ds', t')"
  shows "cspace t h = Some c \<and> cap_is_valid objs c \<and> rights_contains (cap_rights c) r \<and>
    table_wf t' \<and> evolves t t' \<and> stale t' h \<and>
    cspace t' = (cspace t)(h := None) \<and> Suc (table_charge t') = table_charge t \<and>
    ht_domain t' = ht_domain t \<and> ht_closed t' = ht_closed t \<and> ht_booked t' = ht_booked t \<and>
    ds' = refund_table ds t 1"
proof -
  obtain s f where rec: "retire_or_recycle ((ht_slots t ! unat (handle_index h))\<lparr>s_cap := None\<rparr>)
      (ht_free t) (handle_index h) = (s, f)"
    by fastforce
  from run have c: "ht_live_cap_of objs t h = Inr c" and r: "rights_contains (cap_rights c) r"
    and "t' = (put_slot (handle_index h) s t)\<lparr>ht_free := f\<rparr>" and "ds' = refund_table ds t 1"
    by (auto simp: ht_take_def rec Let_def split: sum.splits if_splits)
  moreover from c have "cspace t h = Some c" by (simp add: ht_live_cap_of_Inr)
  ultimately show ?thesis using vacate_live [OF wf _ rec] by (auto simp: ht_live_cap_of_Inr)
qed

lemma ht_take_refused:
  "ht_take objs ds h r t = (Inl e, ds', t') \<Longrightarrow> ds' = ds \<and> t' = t"
  by (auto simp: ht_take_def Let_def split: sum.splits if_splits prod.splits)

section \<open>A capability in transfer\<close>

text \<open>
  The slot of a capability that is being sent keeps its index and its charge until the transfer
  resolves: nothing else can be placed in it, and its handle names nothing meanwhile.
\<close>

lemma ht_take_for_transfer_granted:
  assumes wf: "table_wf t" and run: "ht_take_for_transfer objs h r t = (Inr c, t')"
  shows "cspace t h = Some c \<and> cap_is_valid objs c \<and> rights_contains (cap_rights c) r \<and>
    table_wf t' \<and> evolves t t' \<and> in_transfer t' h \<and> cspace t' = (cspace t)(h := None) \<and>
    table_charge t' = table_charge t \<and> ht_domain t' = ht_domain t \<and> ht_closed t' = ht_closed t \<and>
    ht_booked t' = ht_booked t"
proof -
  let ?i = "handle_index h" let ?s = "(ht_slots t ! unat (handle_index h))\<lparr>s_cap := None, s_reserved := True\<rparr>"
  from run have c: "cspace t h = Some c" and ok: "cap_is_valid objs c" "rights_contains (cap_rights c) r"
    and t': "t' = put_slot ?i ?s t"
    by (auto simp: ht_take_for_transfer_def Let_def ht_live_cap_of_Inr split: sum.splits if_splits)
  note live = live_slot [OF wf c]
  have "table_wf t'"
    using occupied_not_listed [OF wf live(5)] unfolding t' by (intro table_wf_put_slot [OF wf]) simp_all
  moreover have "evolves t t'"
    using live unfolding t' evolves_def retired_def put_slot_def by (auto simp: nth_list_update)
  moreover have "in_transfer t' h"
    using live by (simp add: in_transfer_def t' put_slot_def)
  moreover have "cspace t' = (cspace t)(h := None)"
    using live by (auto simp: t' fun_eq_iff cspace_put_slot handle_eq_iff) (auto simp: cspace_def)
  moreover have "table_charge t' = table_charge t"
    using count_if_update [OF live(1), of slot_live ?s] count_if_update [OF live(1), of s_reserved ?s] live
    by (simp add: table_charge_def t' put_slot_def slot_live_def)
  ultimately show ?thesis using c ok by (simp add: t')
qed

lemma ht_take_for_transfer_refused:
  "ht_take_for_transfer objs h r t = (Inl e, t') \<Longrightarrow> t' = t"
  by (auto simp: ht_take_for_transfer_def Let_def split: sum.splits if_splits)

lemma in_transfer_names_nothing: "table_wf t \<Longrightarrow> in_transfer t h \<Longrightarrow> cspace t h = None"
  using table_wf_reserved by (auto simp: in_transfer_def cspace_def)

lemma ht_resolve_taken:
  assumes wf: "table_wf t" and tr: "in_transfer t h" and run: "ht_resolve_taken ds h t = (ds', t')"
  shows "table_wf t' \<and> evolves t t' \<and> stale t' h \<and> cspace t' = cspace t \<and>
    Suc (table_charge t') = table_charge t \<and> ht_domain t' = ht_domain t \<and> ht_closed t' = ht_closed t \<and>
    ht_booked t' = ht_booked t \<and> ds' = refund_table ds t 1"
proof -
  let ?i = "handle_index h" let ?s = "ht_slots t ! unat (handle_index h)"
  obtain s f where rec: "retire_or_recycle (?s\<lparr>s_reserved := False\<rparr>) (ht_free t) ?i = (s, f)" by fastforce
  from tr have len: "unat ?i < length (ht_slots t)" and res: "s_reserved ?s"
    and h: "h = handle_new (s_generation ?s) ?i"
    by (simp_all add: in_transfer_def handle_new_of_parts)
  have none: "s_cap ?s = None" using table_wf_reserved [OF wf len res] .
  have t': "t' = (put_slot ?i s t)\<lparr>ht_free := f\<rparr>" and ds': "ds' = refund_table ds t 1"
    using run len rec by (simp_all add: ht_resolve_taken_def slot_at_def Let_def)
  have occ: "\<not> slot_vacant ?s" using res by (simp add: slot_vacant_def)
  have v: "slot_vacant (?s\<lparr>s_reserved := False\<rparr>)" "s_generation (?s\<lparr>s_reserved := False\<rparr>) = s_generation ?s"
    using none by (simp_all add: slot_vacant_def)
  note vac = vacate_slot [OF wf len occ v rec t' h]
  have "(cspace t)(h := None) = cspace t"
    using in_transfer_names_nothing [OF wf tr] by (simp add: fun_upd_idem)
  moreover have "Suc (table_charge t') = table_charge t"
    using vac(5,6) res none by (simp add: table_charge_def slot_live_def t')
  ultimately show ?thesis using vac(1-4) ds' by (simp add: t')
qed

lemma ht_restore_taken_open:
  assumes wf: "table_wf t" and tr: "in_transfer t h" and "\<not> ht_closed t"
    and run: "ht_restore_taken hp ds h c t = (ds', t')"
  shows "table_wf t' \<and> evolves t t' \<and> cspace t' = (cspace t)(h \<mapsto> c) \<and>
    table_charge t' = table_charge t \<and> ht_domain t' = ht_domain t \<and> ht_closed t' = ht_closed t \<and>
    ht_booked t' = ht_booked t \<and> ds' = ds"
proof -
  let ?i = "handle_index h" let ?s = "(ht_slots t ! unat (handle_index h))\<lparr>s_cap := Some c, s_reserved := False\<rparr>"
  from tr have len: "unat ?i < length (ht_slots t)" and res: "s_reserved (ht_slots t ! unat ?i)"
    and gen: "s_generation (ht_slots t ! unat ?i) = handle_generation h"
    by (simp_all add: in_transfer_def)
  have none: "s_cap (ht_slots t ! unat ?i) = None" using table_wf_reserved [OF wf len res] .
  have occ: "?i \<notin> set (ht_free t) \<and> ?i \<notin> set (ht_booked t)"
    using occupied_not_listed [OF wf] res by (simp add: slot_vacant_def)
  from run assms(3) len have t': "t' = put_slot ?i ?s t" and ds': "ds' = ds"
    by (simp_all add: ht_restore_taken_def slot_at_def)
  have "table_wf t'"
    using occ unfolding t' by (intro table_wf_put_slot [OF wf]) simp_all
  moreover have "evolves t t'"
    using len res unfolding t' evolves_def retired_def put_slot_def
    by (auto simp: nth_list_update slot_vacant_def)
  moreover have "cspace t' = (cspace t)(h \<mapsto> c)"
    using len gen by (auto simp: t' fun_eq_iff cspace_put_slot handle_eq_iff) (auto simp: cspace_def)
  moreover have "table_charge t' = table_charge t"
    using count_if_update [OF len, of slot_live ?s] count_if_update [OF len, of s_reserved ?s] res none
    by (simp add: table_charge_def t' put_slot_def slot_live_def)
  ultimately show ?thesis using ds' by (simp add: t')
qed

lemma ht_restore_taken_closed:
  assumes wf: "table_wf t" and tr: "in_transfer t h" and "ht_closed t"
    and run: "ht_restore_taken hp ds h c t = (ds', t')"
  shows "table_wf t' \<and> evolves t t' \<and> cspace t' = cspace t \<and>
    Suc (table_charge t') = table_charge t \<and> ht_domain t' = ht_domain t \<and> ht_closed t' = ht_closed t \<and>
    ht_booked t' = ht_booked t \<and> ds' = refund_table ds t 1"
proof -
  let ?i = "handle_index h" let ?s = "(ht_slots t ! unat (handle_index h))\<lparr>s_reserved := False\<rparr>"
  from tr have len: "unat ?i < length (ht_slots t)" and res: "s_reserved (ht_slots t ! unat ?i)"
    by (simp_all add: in_transfer_def)
  have none: "s_cap (ht_slots t ! unat ?i) = None" using table_wf_reserved [OF wf len res] .
  from run assms(3) len have t': "t' = put_slot ?i ?s t" and ds': "ds' = refund_table ds t 1"
    by (simp_all add: ht_restore_taken_def slot_at_def)
  have "table_wf t'"
    using none unfolding t' by (intro table_wf_put_slot [OF wf]) (simp_all add: slot_vacant_def)
  moreover have "evolves t t'"
    using len res unfolding t' evolves_def retired_def put_slot_def
    by (auto simp: nth_list_update slot_vacant_def)
  moreover have "cspace t' = cspace t"
    using len none by (auto simp: t' fun_eq_iff cspace_put_slot) (auto simp: cspace_def)
  moreover have "Suc (table_charge t') = table_charge t"
    using count_if_update [OF len, of slot_live ?s] count_if_update [OF len, of s_reserved ?s] res none
    by (simp add: table_charge_def t' put_slot_def slot_live_def)
  ultimately show ?thesis using ds' by (simp add: t')
qed

end
