(* ===== verification/Handle_Booking.thy ===== *)
theory Handle_Booking
  imports Handle_Invariants
begin

text \<open>
  Booked slots and the end of a table: what \<^verbatim>\<open>reserve\<close>, \<^verbatim>\<open>insert_reserved\<close>,
  \<^verbatim>\<open>release_reservation\<close> and \<^verbatim>\<open>close_all\<close> do to the invariant, to the capability space and to
  the number of quota units the table holds.
\<close>

section \<open>Moving slots between the two lists\<close>

lemma move_all_eq: "move_all n b f = (drop n b, rev (take n b) @ f)"
  by (induction n b f rule: move_all.induct) auto

lemma ht_unbook_eq:
  "ht_unbook keep t = t\<lparr>ht_booked := drop (length (ht_booked t) - keep) (ht_booked t),
     ht_free := rev (take (length (ht_booked t) - keep) (ht_booked t)) @ ht_free t\<rparr>"
  by (simp add: ht_unbook_def move_all_eq)

lemma relist:
  assumes wf: "table_wf t" and slots: "ht_slots t' = ht_slots t"
    and "distinct (ht_free t')" "distinct (ht_booked t')" "set (ht_free t') \<inter> set (ht_booked t') = {}"
    and "set (ht_free t') \<union> set (ht_booked t') \<subseteq> set (ht_free t) \<union> set (ht_booked t)"
  shows "table_wf t'" and "evolves t t'" and "cspace t' = cspace t"
  using assms unfolding table_wf_def evolves_def retired_def
  by (auto simp: cspace_def fun_eq_iff)

lemma ht_unbook_effect:
  assumes wf: "table_wf t" and keep: "keep \<le> length (ht_booked t)"
  shows "table_wf (ht_unbook keep t) \<and> evolves t (ht_unbook keep t) \<and> cspace (ht_unbook keep t) = cspace t \<and>
    table_charge (ht_unbook keep t) + (length (ht_booked t) - keep) = table_charge t \<and>
    ht_domain (ht_unbook keep t) = ht_domain t \<and> ht_closed (ht_unbook keep t) = ht_closed t"
proof -
  let ?n = "length (ht_booked t) - keep" let ?t = "ht_unbook keep t"
  have split: "ht_booked t = take ?n (ht_booked t) @ drop ?n (ht_booked t)" by simp
  have d: "distinct (take ?n (ht_booked t) @ drop ?n (ht_booked t))" "distinct (ht_free t)"
    "set (ht_free t) \<inter> set (ht_booked t) = {}"
    using wf by (simp_all add: table_wf_def)
  have sub: "set (take ?n (ht_booked t)) \<subseteq> set (ht_booked t)" "set (drop ?n (ht_booked t)) \<subseteq> set (ht_booked t)"
    by (simp_all add: set_take_subset set_drop_subset)
  have "table_wf ?t \<and> evolves t ?t \<and> cspace ?t = cspace t"
    using d sub by (intro conjI relist [OF wf]) (auto simp: ht_unbook_eq simp del: append_take_drop_id)
  with keep show ?thesis by (simp add: ht_unbook_eq table_charge_def)
qed

definition books :: "bool \<Rightarrow> nat \<Rightarrow> handle_table \<Rightarrow> handle_table \<Rightarrow> bool" where
  "books ok n t t' \<longleftrightarrow> table_wf t' \<and> evolves t t' \<and> cspace t' = cspace t \<and>
     (\<exists>news. ht_booked t' = news @ ht_booked t \<and> (ok \<longrightarrow> length news = n)) \<and>
     table_charge t' + length (ht_booked t) = table_charge t + length (ht_booked t') \<and>
     ht_domain t' = ht_domain t \<and> ht_closed t' = ht_closed t"

lemma books_one_more:
  assumes "books ok n u t'" and "evolves t u" and "cspace u = cspace t" and b: "ht_booked u = i # ht_booked t"
    and "table_charge u = Suc (table_charge t)" and "ht_domain u = ht_domain t" and "ht_closed u = ht_closed t"
  shows "books ok (Suc n) t t'"
proof -
  from assms(1) obtain news where "ht_booked t' = news @ ht_booked u" "ok \<longrightarrow> length news = n"
    by (auto simp: books_def)
  then have "ht_booked t' = (news @ [i]) @ ht_booked t" "ok \<longrightarrow> length (news @ [i]) = Suc n"
    by (simp_all add: b)
  then have "\<exists>news. ht_booked t' = news @ ht_booked t \<and> (ok \<longrightarrow> length news = Suc n)" by blast
  moreover have "evolves t t'" using assms(1,2) evolves_trans by (auto simp: books_def)
  ultimately show ?thesis using assms by (simp add: books_def)
qed

lemma book_slots_effect:
  assumes "table_wf t" and hp: "heap_bounded hp" and "book_slots hp n t = (ok, t')"
  shows "books ok n t t'"
  using assms(1,3)
proof (induction n arbitrary: t)
  case (Suc n)
  show ?case
  proof (cases "ht_free t")
    case (Cons i free)
    let ?t = "t\<lparr>ht_free := free, ht_booked := i # ht_booked t\<rparr>"
    have "table_wf ?t" "evolves t ?t" "cspace ?t = cspace t"
      using Suc.prems(1) Cons by (intro relist [OF Suc.prems(1)]; auto simp: table_wf_def)+
    moreover have "book_slots hp n ?t = (ok, t')" using Suc.prems(2) Cons by simp
    ultimately show ?thesis
      by (intro books_one_more [of ok n ?t t' t i] Suc.IH) (simp_all add: table_charge_def)
  next
    case Nil
    show ?thesis
    proof (cases "can_grow hp t")
      case True
      let ?s = "\<lparr>s_cap = None, s_generation = 1, s_reserved = False\<rparr>"
      let ?i = "word_of_nat (length (ht_slots t)) :: u32"
      let ?g = "t\<lparr>ht_slots := ht_slots t @ [?s]\<rparr>" let ?t = "?g\<lparr>ht_booked := ?i # ht_booked t\<rparr>"
      have n: "length (ht_slots t) < 2 ^ 32" by (rule can_grow_bound [OF hp True])
      note g = grow_slot [OF Suc.prems(1) n _ refl refl, of ?s]
      have "\<not> unat ?i < length (ht_slots t)" using n by simp
      then have "?i \<notin> set (ht_free t) \<union> set (ht_booked t)"
        using Suc.prems(1) unfolding table_wf_def by blast
      then have "table_wf ?t"
        using g(1) n by (auto simp: table_wf_def slot_vacant_def)
      moreover have "evolves t ?t"
        using n unfolding evolves_def retired_def by (auto simp: nth_append)
      moreover have "cspace ?t = cspace t"
        using g(3,4) by (simp add: fun_upd_idem)
      moreover have "book_slots hp n ?t = (ok, t')" using Suc.prems(2) Nil True by simp
      ultimately show ?thesis
        by (intro books_one_more [of ok n ?t t' t ?i] Suc.IH) (simp_all add: table_charge_def slot_live_def)
    qed (use Suc.prems Nil in \<open>simp add: books_def\<close>)
  qed
qed (simp add: books_def)

lemma ht_reserve_granted:
  assumes wf: "table_wf t" and hp: "heap_bounded hp" and run: "ht_reserve hp ds n t = (True, ds', t')"
  shows "table_wf t' \<and> evolves t t' \<and> cspace t' = cspace t \<and> table_charge t' = table_charge t + n \<and>
    length (ht_booked t') = length (ht_booked t) + n \<and> ht_domain t' = ht_domain t \<and> ht_closed t' = ht_closed t \<and>
    (case ht_domain t of None \<Rightarrow> ds' = ds
     | Some d \<Rightarrow> charge_loop (\<lambda>s. try_charge_handle s d) (\<lambda>k s. uncharge_handles s d k) 0 n ds = (True, ds'))"
proof -
  obtain ok t1 where b: "book_slots hp n t = (ok, t1)" by fastforce
  note e = book_slots_effect [OF wf hp b, unfolded books_def]
  from run b have "ok" "t' = t1" and
    "case ht_domain t1 of None \<Rightarrow> ds' = ds
     | Some d \<Rightarrow> charge_loop (\<lambda>s. try_charge_handle s d) (\<lambda>k s. uncharge_handles s d k) 0 n ds = (True, ds')"
    by (auto simp: ht_reserve_def Let_def split: if_splits bool.splits option.splits prod.splits)
  with e show ?thesis by auto
qed

lemma ht_reserve_refused:
  assumes wf: "table_wf t" and hp: "heap_bounded hp" and run: "ht_reserve hp ds n t = (False, ds', t')"
  shows "table_wf t' \<and> evolves t t' \<and> cspace t' = cspace t \<and> table_charge t' = table_charge t \<and>
    ht_booked t' = ht_booked t \<and> ht_domain t' = ht_domain t \<and> ht_closed t' = ht_closed t \<and>
    (ds' = ds \<or> table_charge t + n \<le> 4294967296 \<and> (\<exists>d. ht_domain t = Some d \<and>
       charge_loop (\<lambda>s. try_charge_handle s d) (\<lambda>k s. uncharge_handles s d k) 0 n ds = (False, ds')))"
proof (cases "booked_fit hp (length (ht_booked t) + n)")
  case True
  obtain ok t1 where b: "book_slots hp n t = (ok, t1)" by fastforce
  note e = book_slots_effect [OF wf hp b, unfolded books_def]
  from run b True have t': "t' = ht_unbook (length (ht_booked t)) t1" and
    ds': "ds' = ds \<or> ok \<and> (\<exists>d. ht_domain t1 = Some d \<and>
       charge_loop (\<lambda>s. try_charge_handle s d) (\<lambda>k s. uncharge_handles s d k) 0 n ds = (False, ds'))"
    by (auto simp: ht_reserve_def Let_def split: if_splits bool.splits option.splits prod.splits)
  from e have keep: "length (ht_booked t) \<le> length (ht_booked t1)" and "table_wf t1" by auto
  note u = ht_unbook_effect [OF \<open>table_wf t1\<close> keep]
  have "ht_booked t' = ht_booked t" using e by (auto simp: t' ht_unbook_eq)
  moreover have "evolves t t'" using e u evolves_trans t' by blast
  moreover have "table_charge t + n \<le> 4294967296" if ok
    using e that table_charge_bound [OF \<open>table_wf t1\<close>] by auto
  ultimately show ?thesis using e u ds' by (auto simp: t')
qed (use wf run in \<open>auto simp: ht_reserve_def\<close>)

lemma ht_release_reservation_effect:
  assumes wf: "table_wf t" and n: "n \<le> length (ht_booked t)"
    and run: "ht_release_reservation ds n t = (ds', t')"
  shows "table_wf t' \<and> evolves t t' \<and> cspace t' = cspace t \<and> table_charge t' + n = table_charge t \<and>
    length (ht_booked t') + n = length (ht_booked t) \<and> ht_domain t' = ht_domain t \<and> ht_closed t' = ht_closed t \<and>
    ds' = refund_table ds t n"
  using run n ht_unbook_effect [OF wf, of "length (ht_booked t) - n"]
  by (auto simp: ht_release_reservation_def Let_def min_def ht_unbook_eq)

text \<open>The last slots booked are the first to go back, so what was booked before stays as it was.\<close>

lemma ht_reserve_booked:
  assumes "table_wf t" and "heap_bounded hp" and "ht_reserve hp ds n t = (True, ds', t')"
  shows "drop n (ht_booked t') = ht_booked t"
proof -
  obtain t1 where b: "book_slots hp n t = (True, t1)" and "t' = t1"
    using assms(3) by (auto simp: ht_reserve_def Let_def split: if_splits bool.splits option.splits prod.splits)
  with book_slots_effect [OF assms(1,2) b] show ?thesis by (auto simp: books_def)
qed

lemma ht_release_booked:
  "n \<le> length (ht_booked t) \<Longrightarrow> ht_release_reservation ds n t = (ds', t') \<Longrightarrow> ht_booked t' = drop n (ht_booked t)"
  by (auto simp: ht_release_reservation_def Let_def ht_unbook_eq)

lemma ht_insert_reserved_booked:
  "ht_booked t \<noteq> [] \<Longrightarrow> ht_insert_reserved hp ds c t = (h, ds', t') \<Longrightarrow> ht_booked t' = tl (ht_booked t)"
  by (auto simp: ht_insert_reserved_def put_slot_def Let_def split: if_splits list.splits)

lemma ht_insert_reserved_open:
  assumes wf: "table_wf t" and b: "ht_booked t \<noteq> []" and "\<not> ht_closed t"
    and run: "ht_insert_reserved hp ds c t = (h, ds', t')"
  shows "table_wf t' \<and> evolves t t' \<and> cspace t h = None \<and> cspace t' = (cspace t)(h \<mapsto> c) \<and>
    table_charge t' = table_charge t \<and> Suc (length (ht_booked t')) = length (ht_booked t) \<and>
    ht_domain t' = ht_domain t \<and> ht_closed t' = ht_closed t \<and> ds' = ds"
proof -
  obtain i booked where Cons: "ht_booked t = i # booked" using b by (cases "ht_booked t") auto
  have d: "distinct (ht_free t)" "set (ht_free t) = set (ht_free t) - {i}"
    "distinct booked" "set booked = set (ht_booked t) - {i}"
    using wf Cons by (auto simp: table_wf_def)
  from run Cons assms(3)
  have t': "t' = t\<lparr>ht_slots := (ht_slots t)[unat i := (ht_slots t ! unat i)\<lparr>s_cap := Some c\<rparr>],
                     ht_free := ht_free t, ht_booked := booked\<rparr>"
    and h: "h = handle_new (s_generation (ht_slots t ! unat i)) i" and ds': "ds' = ds"
    by (cases t; auto simp: ht_insert_reserved_def Let_def put_slot_def)+
  from fill_slot [OF wf _ d t' h] Cons ds' show ?thesis
    by (simp add: table_charge_def t')
qed

lemma ht_insert_reserved_closed:
  assumes wf: "table_wf t" and b: "ht_booked t \<noteq> []" and "ht_closed t"
    and run: "ht_insert_reserved hp ds c t = (h, ds', t')"
  shows "table_wf t' \<and> evolves t t' \<and> h = 0 \<and> cspace t' = cspace t \<and>
    Suc (table_charge t') = table_charge t \<and> Suc (length (ht_booked t')) = length (ht_booked t) \<and>
    ht_domain t' = ht_domain t \<and> ht_closed t' = ht_closed t \<and> ds' = refund_table ds t 1"
proof -
  obtain i booked where Cons: "ht_booked t = i # booked" using b by (cases "ht_booked t") auto
  from run Cons assms(3) have t': "t' = t\<lparr>ht_booked := booked\<rparr>" and "h = 0" "ds' = refund_table ds t 1"
    by (auto simp: ht_insert_reserved_def)
  moreover have "table_wf t' \<and> evolves t t' \<and> cspace t' = cspace t"
    using wf Cons by (intro conjI relist [OF wf]) (auto simp: t' table_wf_def)
  ultimately show ?thesis using Cons by (simp add: table_charge_def)
qed

section \<open>Closing the whole table\<close>

definition skips :: "u32 list \<Rightarrow> nat \<Rightarrow> slot \<Rightarrow> bool" where
  "skips booked i s \<longleftrightarrow> s_reserved s \<or> word_of_nat i \<in> set booked"

definition closed_slot :: "slot \<Rightarrow> slot" where
  "closed_slot s = (if slot_live s \<and> s_generation s \<noteq> - 1
     then s\<lparr>s_cap := None, s_generation := s_generation s + 1\<rparr> else s\<lparr>s_cap := None\<rparr>)"

lemma close_slots_Cons:
  "close_slots booked i (s # ss) free n =
     (case close_slots booked (Suc i) ss
             (if skips booked i s \<or> s_generation s = - 1 then free else word_of_nat i # free)
             (if \<not> skips booked i s \<and> slot_live s then Suc n else n) of
        (ss', free', n') \<Rightarrow> ((if skips booked i s then s else closed_slot s) # ss', free', n'))"
  by (simp add: skips_def closed_slot_def Let_def split: prod.split)

lemma close_slots_ConsE:
  assumes "close_slots booked i (s # ss) free n = (ss', free', n')"
  obtains ss1 where "ss' = (if skips booked i s then s else closed_slot s) # ss1"
    and "close_slots booked (Suc i) ss
           (if skips booked i s \<or> s_generation s = - 1 then free else word_of_nat i # free)
           (if \<not> skips booked i s \<and> slot_live s then Suc n else n) = (ss1, free', n')"
  using assms unfolding close_slots_Cons by (auto split: prod.splits)

lemma close_slots_nth:
  "close_slots booked i ss free n = (ss', free', n') \<Longrightarrow>
     length ss' = length ss \<and>
     (\<forall>k < length ss. ss' ! k = (if skips booked (i + k) (ss ! k) then ss ! k else closed_slot (ss ! k)))"
proof (induction ss arbitrary: i free n ss')
  case (Cons s ss)
  from Cons.prems obtain ss1 where ss': "ss' = (if skips booked i s then s else closed_slot s) # ss1"
    and rest: "close_slots booked (Suc i) ss
           (if skips booked i s \<or> s_generation s = - 1 then free else word_of_nat i # free)
           (if \<not> skips booked i s \<and> slot_live s then Suc n else n) = (ss1, free', n')"
    by (rule close_slots_ConsE)
  note IH = Cons.IH [OF rest]
  show ?case unfolding ss' using IH by (simp add: all_less_Suc_split)
qed simp

lemma close_slots_free:
  "close_slots booked i ss free n = (ss', free', n') \<Longrightarrow>
     j \<in> set free' \<longleftrightarrow> j \<in> set free \<or>
       (\<exists>k < length ss. j = word_of_nat (i + k) \<and> \<not> skips booked (i + k) (ss ! k) \<and> s_generation (ss ! k) \<noteq> - 1)"
proof (induction ss arbitrary: i free n ss')
  case (Cons s ss)
  let ?free = "if skips booked i s \<or> s_generation s = - 1 then free else word_of_nat i # free"
  from Cons.prems obtain ss1 where
    rest: "close_slots booked (Suc i) ss ?free
           (if \<not> skips booked i s \<and> slot_live s then Suc n else n) = (ss1, free', n')"
    by (rule close_slots_ConsE)
  have "j \<in> set ?free \<longleftrightarrow> j \<in> set free \<or> j = word_of_nat i \<and> \<not> skips booked i s \<and> s_generation s \<noteq> - 1"
    by auto
  then show ?case
    unfolding Cons.IH [OF rest]
    by (simp only: disj_assoc add_Suc add_Suc_right add_0_right length_Cons ex_less_Suc_split nth_Cons_0 nth_Cons_Suc)
qed simp

lemma close_slots_distinct:
  "close_slots booked i ss free n = (ss', free', n') \<Longrightarrow> i + length ss \<le> 4294967296 \<Longrightarrow> distinct free \<Longrightarrow>
     (\<forall>j \<in> set free. unat j < i) \<Longrightarrow> distinct free'"
proof (induction ss arbitrary: i free n ss')
  case (Cons s ss)
  let ?free = "if skips booked i s \<or> s_generation s = - 1 then free else word_of_nat i # free"
  from Cons.prems(1) obtain ss1 where
    rest: "close_slots booked (Suc i) ss ?free
           (if \<not> skips booked i s \<and> slot_live s then Suc n else n) = (ss1, free', n')"
    by (rule close_slots_ConsE)
  have "distinct ?free" "\<forall>j \<in> set ?free. unat j < Suc i"
    using Cons.prems(2-4) by (auto simp: less_SucI)
  with Cons.IH [OF rest] Cons.prems(2) show ?case by simp
qed simp

lemma close_slots_count:
  "close_slots booked i ss free n = (ss', free', n') \<Longrightarrow>
     (\<forall>k < length ss. skips booked (i + k) (ss ! k) \<longrightarrow> \<not> slot_live (ss ! k)) \<Longrightarrow>
     n' = n + count_if slot_live ss \<and> count_if slot_live ss' = 0 \<and> count_if s_reserved ss' = count_if s_reserved ss"
proof (induction ss arbitrary: i free n ss')
  case (Cons s ss)
  from Cons.prems(1) obtain ss1 where ss': "ss' = (if skips booked i s then s else closed_slot s) # ss1"
    and rest: "close_slots booked (Suc i) ss
           (if skips booked i s \<or> s_generation s = - 1 then free else word_of_nat i # free)
           (if \<not> skips booked i s \<and> slot_live s then Suc n else n) = (ss1, free', n')"
    by (rule close_slots_ConsE)
  have tl: "\<forall>k < length ss. skips booked (Suc i + k) (ss ! k) \<longrightarrow> \<not> slot_live (ss ! k)"
    and hd: "skips booked i s \<longrightarrow> \<not> slot_live s"
    using Cons.prems(2) by (simp_all add: all_less_Suc_split)
  note IH = Cons.IH [OF rest tl]
  show ?case unfolding ss' using IH hd by (auto simp: closed_slot_def slot_live_def)
qed simp

lemma wf_skips_not_live:
  "table_wf t \<Longrightarrow> k < length (ht_slots t) \<Longrightarrow> skips (ht_booked t) k (ht_slots t ! k) \<Longrightarrow> \<not> slot_live (ht_slots t ! k)"
  using table_wf_booked [of t "word_of_nat k"] table_wf_reserved [of t "word_of_nat k"]
  by (auto simp: skips_def slot_live_def slot_vacant_def table_wf_def)

lemma closed_slot_simps [simp]:
  "s_cap (closed_slot s) = None"
  "s_reserved (closed_slot s) = s_reserved s"
  by (simp_all add: closed_slot_def)

lemma closed_slot_generation:
  "s_generation s \<le> s_generation (closed_slot s)"
  "s_generation s = - 1 \<Longrightarrow> s_generation (closed_slot s) = - 1"
  "slot_live s \<Longrightarrow> s_generation s \<noteq> - 1 \<Longrightarrow> s_generation s < s_generation (closed_slot s)"
  using u32_less_succ [of "s_generation s"] by (auto simp: closed_slot_def)

text \<open>
  Closing everything: the table names nothing, every handle it had is stale for ever, and the quota
  it still holds is that of the transfers in flight and of the booked slots, which their owners
  resolve.
\<close>

lemma ht_close_all_effect:
  assumes wf: "table_wf t" and run: "ht_close_all ds t = (ds', t')"
  shows "table_wf t'" and "evolves t t'" and "cspace t' = Map.empty" and "cspace t h \<noteq> None \<Longrightarrow> stale t' h"
    and "table_charge t' + ht_len t = table_charge t" and "ht_closed t'" and "ht_domain t' = ht_domain t"
    and "ht_booked t' = ht_booked t"
    and "ds' = (if 0 < ht_len t then refund_table ds t (ht_len t) else ds)"
proof -
  obtain ss free n where cs: "close_slots (ht_booked t) 0 (ht_slots t) [] 0 = (ss, free, n)"
    using prod_cases3 by blast
  have skip: "\<forall>k < length (ht_slots t). skips (ht_booked t) (0 + k) (ht_slots t ! k) \<longrightarrow> \<not> slot_live (ht_slots t ! k)"
    using wf_skips_not_live [OF wf] by simp
  have len32: "length (ht_slots t) \<le> 4294967296" using wf by (simp add: table_wf_def)
  note cnt = close_slots_count [OF cs skip]
  from cs run cnt have t': "t' = t\<lparr>ht_closed := True, ht_slots := ss, ht_free := free\<rparr>"
    and ds': "ds' = (if 0 < ht_len t then refund_table ds t (ht_len t) else ds)"
    by (auto simp: ht_close_all_def ht_len_def)
  have len: "length ss = length (ht_slots t)" and
    nth: "\<And>k. k < length (ht_slots t) \<Longrightarrow> ss ! k =
      (if skips (ht_booked t) k (ht_slots t ! k) then ht_slots t ! k else closed_slot (ht_slots t ! k))"
    using close_slots_nth [OF cs] by auto
  have free: "j \<in> set free \<longleftrightarrow> unat j < length (ht_slots t) \<and>
      \<not> skips (ht_booked t) (unat j) (ht_slots t ! unat j) \<and> s_generation (ht_slots t ! unat j) \<noteq> - 1" for j
    unfolding close_slots_free [OF cs] using len32
    by (auto simp: u32_eq_word_of_nat)
  have dead: "s_cap (ss ! k) = None" if "k < length (ht_slots t)" for k
    using that wf_skips_not_live [OF wf that] by (simp add: nth slot_live_def)
  have vac: "slot_vacant (ss ! unat j)" if "j \<in> set free \<union> set (ht_booked t)" for j
  proof -
    from that have "unat j < length (ht_slots t)"
      using free table_wf_booked [OF wf] by blast
    with that dead [OF this] table_wf_booked [OF wf, of j] show ?thesis
      by (auto simp: slot_vacant_def nth free skips_def)
  qed
  have "set free \<inter> set (ht_booked t) = {}"
    by (auto simp: free skips_def)
  moreover have "distinct free"
    using close_slots_distinct [OF cs] len32 by simp
  moreover have "\<forall>s \<in> set ss. s_cap s = None"
    using dead by (auto simp: in_set_conv_nth len)
  moreover have "unat j < length ss" if "j \<in> set free \<union> set (ht_booked t)" for j
    using that free table_wf_booked [OF wf] len by auto
  ultimately show "table_wf t'"
    using wf vac unfolding t' table_wf_def by (simp add: len)
  have keep: "retired t' i" if "retired t i" for i
    using that dead [of "unat i"]
    by (auto simp: retired_def t' len nth free slot_vacant_def closed_slot_generation)
  have gen: "s_generation (ht_slots t ! k) \<le> s_generation (ss ! k)" if "k < length (ht_slots t)" for k
    using that by (simp add: nth closed_slot_generation)
  show "evolves t t'"
    unfolding evolves_def using keep gen by (simp add: t' len)
  show "cspace t' = Map.empty"
    using dead by (auto simp: cspace_def fun_eq_iff t' len)
  show "stale t' h" if "cspace t h \<noteq> None"
  proof -
    from that obtain c where "cspace t h = Some c" by blast
    note live = live_slot [OF wf this]
    have "\<not> skips (ht_booked t) (unat (handle_index h)) (ht_slots t ! unat (handle_index h))"
      using wf_skips_not_live [OF wf live(1)] live(2) by (auto simp: slot_live_def)
    with live dead [OF live(1)] occupied_not_listed [OF wf live(5)]
      closed_slot_generation [of "ht_slots t ! unat (handle_index h)"]
    show ?thesis
      by (auto simp: stale_def retired_def t' len nth free slot_live_def slot_vacant_def)
  qed
  show "table_charge t' + ht_len t = table_charge t"
    using cnt by (simp add: t' table_charge_def ht_len_def)
  show "ht_closed t'" "ht_domain t' = ht_domain t" "ht_booked t' = ht_booked t"
    by (simp_all add: t')
  show "ds' = (if 0 < ht_len t then refund_table ds t (ht_len t) else ds)" by (rule ds')
qed

end
