(* ===== verification/Handle_Ledger.thy ===== *)
theory Handle_Ledger
  imports Handle_Booking
begin

text \<open>
  The handle table against its domain's quota. A table holds one unit per occupied slot, per
  capability in transfer and per booked slot (\<open>table_charge\<close>); every operation moves the counters
  of the domain's line by exactly what it moves that number. The facts about the counters come from
  the interpretation \<open>ledger\<close> of the quota contract.
\<close>

section \<open>The table's account\<close>

definition table_payers :: "domains \<Rightarrow> handle_table \<Rightarrow> domain_id set" where
  "table_payers ds t =
     (case ht_domain t of None \<Rightarrow> {} | Some d \<Rightarrow> line ds d)"

text \<open>
  The counters of the line include what this table holds, and are far enough from the width of
  the machine's counter for everything a table can ever hold.
\<close>

definition roomy :: "domains \<Rightarrow> handle_table \<Rightarrow> bool" where
  "roomy ds t \<longleftrightarrow> (\<forall>d. ht_domain t = Some d \<longrightarrow> ds d \<noteq> None) \<and>
     (\<forall>a \<in> table_payers ds t. table_charge t \<le> used ds Handles a \<and>
        used ds Handles a + 4294967297 \<le> U64_MAX + table_charge t)"

definition settled :: "domains \<Rightarrow> handle_table \<Rightarrow> domains \<Rightarrow> handle_table \<Rightarrow> bool" where
  "settled ds t ds' t' \<longleftrightarrow> ht_domain t' = ht_domain t \<and> table_payers ds' t' = table_payers ds t \<and>
     (\<forall>a. used ds' Handles a + (if a \<in> table_payers ds t then table_charge t else 0) =
          used ds Handles a + (if a \<in> table_payers ds t then table_charge t' else 0))"

lemma settled_same: "table_charge t' = table_charge t \<Longrightarrow> ht_domain t' = ht_domain t \<Longrightarrow> settled ds t ds t'"
  by (simp add: settled_def table_payers_def)

lemma settled_used:
  "settled ds t ds' t' \<Longrightarrow> a \<in> table_payers ds t \<Longrightarrow>
     used ds' Handles a + table_charge t = used ds Handles a + table_charge t'"
  "settled ds t ds' t' \<Longrightarrow> a \<notin> table_payers ds t \<Longrightarrow> used ds' Handles a = used ds Handles a"
  by (auto simp: settled_def dest!: spec [where x = a])

lemma settled_trans:
  assumes one: "settled ds t ds1 t1" and two: "settled ds1 t1 ds2 t2"
  shows "settled ds t ds2 t2"
proof -
  have p: "table_payers ds1 t1 = table_payers ds t" using one by (simp add: settled_def)
  have "used ds2 Handles a + (if a \<in> table_payers ds t then table_charge t else 0) =
      used ds Handles a + (if a \<in> table_payers ds t then table_charge t2 else 0)" for a
    using settled_used [OF one, of a] settled_used [OF two, of a] by (auto simp: p)
  with one two show ?thesis by (simp add: settled_def)
qed

lemma roomy_live: "roomy ds t \<Longrightarrow> ht_domain t = Some d \<Longrightarrow> ds d \<noteq> None"
  by (simp add: roomy_def)

lemma settled_roomy:
  assumes s: "settled ds t ds' t'" and r: "roomy ds t"
  shows "roomy ds' t'"
proof -
  have "ds' d \<noteq> None" if "ht_domain t' = Some d" for d
  proof -
    from that s have d: "ht_domain t = Some d" by (simp add: settled_def)
    then have "d \<in> table_payers ds t" using roomy_live [OF r] by (simp add: table_payers_def line_def)
    then have "d \<in> table_payers ds' t'" using s by (simp add: settled_def)
    then show ?thesis using that by (simp add: table_payers_def line_def)
  qed
  moreover have "table_charge t' \<le> used ds' Handles a \<and> used ds' Handles a + 4294967297 \<le> U64_MAX + table_charge t'"
    if a: "a \<in> table_payers ds' t'" for a
  proof -
    from s a have a': "a \<in> table_payers ds t" by (simp add: settled_def)
    then have "used ds' Handles a + table_charge t = used ds Handles a + table_charge t'"
      by (rule settled_used(1) [OF s])
    moreover have "table_charge t \<le> used ds Handles a" "used ds Handles a + 4294967297 \<le> U64_MAX + table_charge t"
      using r a' by (auto simp: roomy_def)
    ultimately show ?thesis by linarith
  qed
  ultimately show ?thesis by (simp add: roomy_def)
qed

lemma roomy_headroom:
  assumes r: "roomy ds t" and d: "ht_domain t = Some d" and n: "table_charge t + n \<le> 4294967297"
  shows "spare ds Handles d n"
  unfolding spare_def
proof
  show live: "ds d \<noteq> None" by (rule roomy_live [OF r d])
  show "headroom ds Handles d n"
    unfolding headroom_def
  proof
    fix a assume "a \<in> set (ancestors ds d)"
    with ancestors_live [OF live this] have "a \<in> table_payers ds t" by (simp add: table_payers_def line_def d)
    with r have "used ds Handles a + 4294967297 \<le> U64_MAX + table_charge t" by (simp add: roomy_def)
    with n show "used ds Handles a + n \<le> U64_MAX" by linarith
  qed
qed

section \<open>Each way of charging settles\<close>

lemma refund_settles:
  assumes r: "roomy ds t" and c: "table_charge t' + n = table_charge t" and d: "ht_domain t' = ht_domain t"
  shows "settled ds t (refund_table ds t n) t'"
proof (cases "ht_domain t")
  case (Some q)
  have "n \<le> used ds Handles a" if "a \<in> table_payers ds t" for a
    using r that c unfolding roomy_def by fastforce
  with Some c d show ?thesis
    by (auto simp: settled_def refund_table_def uncharge_handles_def table_payers_def
        ledger.given_back ledger.given_payers)
qed (use c d in \<open>auto simp: settled_def refund_table_def table_payers_def\<close>)

lemma charge_settles:
  assumes wf: "table_wf t" and r: "roomy ds t" and c: "table_charge t' = Suc (table_charge t)"
    and d: "ht_domain t' = ht_domain t"
  shows "settled ds t (charge_table ds t) t'"
proof (cases "ht_domain t")
  case (Some q)
  have "spare ds Handles q 1"
    by (rule roomy_headroom [OF r Some]) (use table_charge_bound [OF wf] in simp)
  with Some c d show ?thesis
    by (auto simp del: One_nat_def simp: settled_def charge_table_def charge_handle_def table_payers_def
        ledger.forced ledger.forced_payers)
qed (use c d in \<open>auto simp: settled_def charge_table_def table_payers_def\<close>)

lemma charge_refund_settles:
  assumes wf: "table_wf t" and r: "roomy ds t"
  shows "settled ds t (refund_table (charge_table ds t) t 1) t"
proof (cases "ht_domain t")
  case (Some q)
  have "spare ds Handles q 1"
    by (rule roomy_headroom [OF r Some]) (use table_charge_bound [OF wf] in simp)
  with Some show ?thesis
    by (auto simp del: One_nat_def simp: settled_def charge_table_def refund_table_def charge_handle_def uncharge_handles_def
        table_payers_def ledger.forced ledger.forced_payers ledger.given_back ledger.given_payers)
qed (simp add: settled_def charge_table_def refund_table_def)

lemma try_charge_settles:
  assumes wf: "table_wf t" and r: "roomy ds t" and run: "try_charge_table ds t = (b, ds')"
    and c: "table_charge t' = table_charge t + of_bool b" and d: "ht_domain t' = ht_domain t"
  shows "settled ds t ds' t'"
proof (cases "ht_domain t")
  case (Some q)
  have room: "spare ds Handles q 1"
    by (rule roomy_headroom [OF r Some]) (use table_charge_bound [OF wf] in simp)
  from run Some have run': "try_charge_hier ds q 1 Handles = (b, ds')"
    by (simp add: try_charge_table_def try_charge_handle_def)
  show ?thesis
  proof (cases b)
    case True
    then show ?thesis
      using run' Some c d ledger.take_granted [OF room] ledger.take_payers [OF room run']
      by (auto simp: settled_def table_payers_def)
  next
    case False
    then have "ds' = ds" using run' ledger.take_refused [OF room] by simp
    with False c d show ?thesis by (simp add: settled_same)
  qed
qed (use run c d in \<open>auto simp: settled_def try_charge_table_def table_payers_def\<close>)

lemma charge_loop_settles:
  assumes r: "roomy ds t" and q: "ht_domain t = Some q" and n: "table_charge t + n \<le> 4294967296"
    and run: "charge_loop (\<lambda>s. try_charge_handle s q) (\<lambda>k s. uncharge_handles s q k) 0 n ds = (b, ds')"
    and c: "table_charge t' = table_charge t + (if b then n else 0)" and d: "ht_domain t' = ht_domain t"
  shows "settled ds t ds' t'"
proof -
  have room: "spare ds Handles q n"
    by (rule roomy_headroom [OF r q]) (use n in simp)
  have run': "charge_loop (\<lambda>ds. try_charge_hier ds q 1 Handles) (\<lambda>k ds. uncharge_hier ds q k Handles) 0 n ds = (b, ds')"
    using run by (simp add: try_charge_handle_def uncharge_handles_def)
  show ?thesis
  proof (cases b)
    case True
    with run' have "charge_loop (\<lambda>ds. try_charge_hier ds q 1 Handles) (\<lambda>k ds. uncharge_hier ds q k Handles) 0 n ds = (True, ds')"
      by simp
    from ledger.charge_loop_granted [OF room this] True c d q show ?thesis
      by (auto simp: settled_def table_payers_def)
  next
    case False
    with run' have "charge_loop (\<lambda>ds. try_charge_hier ds q 1 Handles) (\<lambda>k ds. uncharge_hier ds q k Handles) 0 n ds = (False, ds')"
      by simp
    from ledger.charge_loop_refused [OF room this] False c d q show ?thesis
      by (auto simp: settled_def table_payers_def)
  qed
qed

end
