(* ===== verification/Handle_Steps.thy ===== *)
theory Handle_Steps
  imports Handle_Ledger
begin

text \<open>
  Every operation of the handle table as a step, in any order: the invariant, the evolution of the
  slots and the exact accounting hold along every run, so a handle that was closed never names
  anything again and a table never leaks or forges a unit of quota.
\<close>

section \<open>One operation\<close>

definition sound_move :: "domains \<Rightarrow> handle_table \<Rightarrow> domains \<Rightarrow> handle_table \<Rightarrow> bool" where
  "sound_move ds t ds' t' \<longleftrightarrow>
     table_wf t' \<and> evolves t t' \<and> (roomy ds t \<longrightarrow> settled ds t ds' t' \<and> roomy ds' t')"

lemma sound_moveI:
  "table_wf t' \<Longrightarrow> evolves t t' \<Longrightarrow> (roomy ds t \<Longrightarrow> settled ds t ds' t') \<Longrightarrow> sound_move ds t ds' t'"
  by (auto simp: sound_move_def intro: settled_roomy)

lemma sound_move_refl: "table_wf t \<Longrightarrow> sound_move ds t ds t"
  by (intro sound_moveI) (simp_all add: settled_same)

lemma sound_move_trans:
  "sound_move ds t ds1 t1 \<Longrightarrow> sound_move ds1 t1 ds2 t2 \<Longrightarrow> sound_move ds t ds2 t2"
  by (auto simp: sound_move_def intro: evolves_trans settled_trans)

lemma ht_try_insert_or_return_granted:
  assumes "table_wf t" and "heap_bounded hp" and "ht_try_insert_or_return hp ds c t = (Inr h, ds', t')"
  shows "sound_move ds t ds' t' \<and> cspace t h = None \<and> cspace t' = (cspace t)(h \<mapsto> c) \<and>
    ht_closed t' = ht_closed t \<and> ht_booked t' = ht_booked t"
proof -
  from assms(3) have took: "try_charge_table ds t = (True, ds')" and put: "ht_try_place hp c t = (Inr h, t')"
    by (auto simp: ht_try_insert_or_return_def split: prod.splits bool.splits sum.splits)
  note e = ht_try_place_granted [OF assms(1,2) put]
  have "sound_move ds t ds' t'"
    using e by (intro sound_moveI try_charge_settles [OF assms(1) _ took]) simp_all
  with e show ?thesis by simp
qed

lemma ht_try_insert_or_return_refused:
  assumes "table_wf t" and "ht_try_insert_or_return hp ds c t = (Inl c', ds', t')"
  shows "sound_move ds t ds' t' \<and> c' = c \<and> t' = t"
proof -
  obtain b ds1 where took: "try_charge_table ds t = (b, ds1)" by fastforce
  show ?thesis
  proof (cases b)
    case True
    with assms(2) took have put: "ht_try_place hp c t = (Inl c', t')" and ds': "ds' = refund_table ds1 t' 1"
      by (auto simp: ht_try_insert_or_return_def split: prod.splits sum.splits)
    from ht_try_place_refused [OF put] have same: "c' = c" "t' = t" by auto
    have "settled ds t (refund_table ds1 t 1) t" if r: "roomy ds t"
    proof (cases "ht_domain t")
      case (Some q)
      have room: "spare ds Handles q 1"
        by (rule roomy_headroom [OF r Some]) (use table_charge_bound [OF assms(1)] in simp)
      from took True Some have run: "try_charge_hier ds q 1 Handles = (True, ds1)"
        by (simp add: try_charge_table_def try_charge_handle_def)
      show ?thesis
        using Some ledger.take_then_give_back [OF room run] ledger.take_payers [OF room run]
        by (simp add: settled_def refund_table_def uncharge_handles_def table_payers_def ledger.given_payers
            del: One_nat_def)
    qed (use took in \<open>simp add: settled_def refund_table_def try_charge_table_def table_payers_def\<close>)
    with same ds' assms(1) show ?thesis by (auto intro: sound_moveI)
  next
    case False
    with assms(2) took have same: "c' = c" "t' = t" "ds' = ds1"
      by (auto simp: ht_try_insert_or_return_def)
    have "settled ds t ds1 t" if "roomy ds t"
      by (rule try_charge_settles [OF assms(1) that took]) (simp_all add: False)
    with same assms(1) show ?thesis by (auto intro: sound_moveI)
  qed
qed

lemma ht_try_insert_granted:
  assumes "table_wf t" and "heap_bounded hp" and "ht_try_insert hp ds c t = (Some h, ds', t')"
  shows "sound_move ds t ds' t' \<and> cspace t h = None \<and> cspace t' = (cspace t)(h \<mapsto> c) \<and>
    ht_closed t' = ht_closed t \<and> ht_booked t' = ht_booked t"
proof (rule ht_try_insert_or_return_granted [OF assms(1,2)])
  show "ht_try_insert_or_return hp ds c t = (Inr h, ds', t')"
    using assms(3) by (auto simp: ht_try_insert_def split: prod.splits sum.splits)
qed

lemma ht_try_insert_refused:
  assumes "table_wf t" and "ht_try_insert hp ds c t = (None, ds', t')"
  shows "sound_move ds t ds' t' \<and> t' = t"
proof -
  from assms(2) obtain c' where "ht_try_insert_or_return hp ds c t = (Inl c', ds', t')"
    by (auto simp: ht_try_insert_def split: prod.splits sum.splits)
  from ht_try_insert_or_return_refused [OF assms(1) this] show ?thesis by auto
qed

lemma ht_insert_sound:
  assumes "table_wf t" and "heap_bounded hp" and "ht_insert hp ds c t = (h, ds', t')"
  shows "sound_move ds t ds' t' \<and>
    (t' = t \<and> h = handle_new 0 0 \<or> cspace t h = None \<and> cspace t' = (cspace t)(h \<mapsto> c))"
proof (cases "ht_try_place hp c t")
  case (Pair r u)
  show ?thesis
  proof (cases r)
    case (Inr g)
    with Pair have put: "ht_try_place hp c t = (Inr g, u)" by simp
    with assms(3) have "h = g" "ds' = charge_table ds t" "t' = u" by (auto simp: ht_insert_def)
    with ht_try_place_granted [OF assms(1,2) put] charge_settles [OF assms(1)] show ?thesis
      by (auto intro!: sound_moveI)
  next
    case (Inl c')
    with Pair have put: "ht_try_place hp c t = (Inl c', u)" by simp
    with assms(3) ht_try_place_refused [OF put]
    have "h = handle_new 0 0" "ds' = refund_table (charge_table ds t) t 1" "t' = t" by (auto simp: ht_insert_def)
    with assms(1) charge_refund_settles [OF assms(1)] show ?thesis by (auto intro!: sound_moveI)
  qed
qed

lemma ht_duplicate_granted:
  assumes "table_wf t" and "heap_bounded hp" and "ht_duplicate hp objs ds h r t = (Inr h', ds', t')"
  shows "\<exists>c. cspace t h = Some c \<and> cap_is_valid objs c \<and> rights_contains (cap_rights c) RIGHT_DUPLICATE \<and>
    rights_contains (cap_rights c) r \<and> sound_move ds t ds' t' \<and> cspace t h' = None \<and>
    cspace t' = (cspace t)(h' \<mapsto> capability_new objs (cap_object c) r) \<and>
    ht_closed t' = ht_closed t \<and> ht_booked t' = ht_booked t"
proof -
  from assms(3) obtain c where c: "cspace t h = Some c" "cap_is_valid objs c"
      "rights_contains (cap_rights c) RIGHT_DUPLICATE" "rights_contains (cap_rights c) r"
    and put: "ht_try_insert hp ds (capability_new objs (cap_object c) r) t = (Some h', ds', t')"
    by (auto simp: ht_duplicate_def ht_cap_of_cspace split: option.splits sum.splits if_splits prod.splits)
  with ht_try_insert_granted [OF assms(1,2) put] show ?thesis by simp
qed

lemma ht_duplicate_refused:
  assumes "table_wf t" and "ht_duplicate hp objs ds h r t = (Inl e, ds', t')"
  shows "sound_move ds t ds' t' \<and> t' = t"
proof -
  from assms(2) have "ds' = ds \<and> t' = t \<or> (\<exists>c. ht_try_insert hp ds c t = (None, ds', t'))"
    by (auto simp: ht_duplicate_def split: sum.splits if_splits prod.splits option.splits)
  with ht_try_insert_refused [OF assms(1)] sound_move_refl [OF assms(1)] show ?thesis by blast
qed

section \<open>Any sequence of operations\<close>

text \<open>
  The operations of the table and the conditions their callers guarantee: a transfer is resolved
  once, on a slot it holds; an installation consumes a booking; a release gives back no more than
  is booked. The objects may be revoked between two steps, so each step reads its own \<open>objs\<close>.
\<close>

inductive table_step :: "heap \<Rightarrow> domains \<times> handle_table \<Rightarrow> domains \<times> handle_table \<Rightarrow> bool" for hp where
  step_insert: "ht_insert hp ds c t = (h, ds', t') \<Longrightarrow> table_step hp (ds, t) (ds', t')"
| step_try_insert: "ht_try_insert_or_return hp ds c t = (res, ds', t') \<Longrightarrow> table_step hp (ds, t) (ds', t')"
| step_duplicate: "ht_duplicate hp objs ds h r t = (res, ds', t') \<Longrightarrow> table_step hp (ds, t) (ds', t')"
| step_reserve: "ht_reserve hp ds n t = (b, ds', t') \<Longrightarrow> table_step hp (ds, t) (ds', t')"
| step_insert_reserved:
    "ht_booked t \<noteq> [] \<Longrightarrow> ht_insert_reserved hp ds c t = (h, ds', t') \<Longrightarrow> table_step hp (ds, t) (ds', t')"
| step_release:
    "n \<le> length (ht_booked t) \<Longrightarrow> ht_release_reservation ds n t = (ds', t') \<Longrightarrow> table_step hp (ds, t) (ds', t')"
| step_take: "ht_take objs ds h r t = (res, ds', t') \<Longrightarrow> table_step hp (ds, t) (ds', t')"
| step_transfer: "ht_take_for_transfer objs h r t = (res, t') \<Longrightarrow> table_step hp (ds, t) (ds, t')"
| step_commit: "in_transfer t h \<Longrightarrow> ht_commit_taken ds h t = (ds', t') \<Longrightarrow> table_step hp (ds, t) (ds', t')"
| step_abandon: "in_transfer t h \<Longrightarrow> ht_abandon_taken ds h t = (ds', t') \<Longrightarrow> table_step hp (ds, t) (ds', t')"
| step_restore: "in_transfer t h \<Longrightarrow> ht_restore_taken hp ds h c t = (ds', t') \<Longrightarrow> table_step hp (ds, t) (ds', t')"
| step_close: "ht_close objs ds h t = (res, ds', t') \<Longrightarrow> table_step hp (ds, t) (ds', t')"
| step_close_all: "ht_close_all ds t = (ds', t') \<Longrightarrow> table_step hp (ds, t) (ds', t')"

lemma reserve_sound:
  assumes wf: "table_wf t" and hp: "heap_bounded hp" and run: "ht_reserve hp ds n t = (b, ds', t')"
  shows "sound_move ds t ds' t'"
proof (cases b)
  case True
  with run have "ht_reserve hp ds n t = (True, ds', t')" by simp
  note e = ht_reserve_granted [OF wf hp this]
  have n: "table_charge t + n \<le> 4294967296"
    using e table_charge_bound [of t'] by simp
  show ?thesis
  proof (rule sound_moveI)
    assume r: "roomy ds t"
    show "settled ds t ds' t'"
    proof (cases "ht_domain t")
      case None
      with e show ?thesis by (simp add: settled_def table_payers_def)
    next
      case (Some q)
      with e show ?thesis by (intro charge_loop_settles [OF r Some n, of True]) simp_all
    qed
  qed (use e in simp_all)
next
  case False
  with run have "ht_reserve hp ds n t = (False, ds', t')" by simp
  note e = ht_reserve_refused [OF wf hp this]
  show ?thesis
  proof (rule sound_moveI)
    assume r: "roomy ds t"
    from e consider "ds' = ds" | q where "ht_domain t = Some q" "table_charge t + n \<le> 4294967296"
      "charge_loop (\<lambda>s. try_charge_handle s q) (\<lambda>k s. uncharge_handles s q k) 0 n ds = (False, ds')"
      by blast
    then show "settled ds t ds' t'"
    proof cases
      case 1
      with e show ?thesis by (simp add: settled_same)
    next
      case 2
      with e show ?thesis by (intro charge_loop_settles [OF r 2]) simp_all
    qed
  qed (use e in simp_all)
qed

lemma resolve_sound:
  assumes "table_wf t" and "in_transfer t h" and "ht_resolve_taken ds h t = (ds', t')"
  shows "sound_move ds t ds' t'"
  using ht_resolve_taken [OF assms] by (auto intro!: sound_moveI refund_settles)

lemma insert_reserved_sound:
  assumes "table_wf t" and "ht_booked t \<noteq> []" and "ht_insert_reserved hp ds c t = (h, ds', t')"
  shows "sound_move ds t ds' t'"
proof (cases "ht_closed t")
  case True
  from ht_insert_reserved_closed [OF assms(1,2) True assms(3)] show ?thesis
    by (auto intro!: sound_moveI refund_settles)
next
  case False
  from ht_insert_reserved_open [OF assms(1,2) False assms(3)] show ?thesis
    by (auto intro!: sound_moveI settled_same)
qed

lemma restore_sound:
  assumes "table_wf t" and "in_transfer t h" and "ht_restore_taken hp ds h c t = (ds', t')"
  shows "sound_move ds t ds' t'"
proof (cases "ht_closed t")
  case True
  from ht_restore_taken_closed [OF assms(1,2) True assms(3)] show ?thesis
    by (auto intro!: sound_moveI refund_settles)
next
  case False
  from ht_restore_taken_open [OF assms(1,2) False assms(3)] show ?thesis
    by (auto intro!: sound_moveI settled_same)
qed

lemma close_all_sound:
  assumes "table_wf t" and "ht_close_all ds t = (ds', t')"
  shows "sound_move ds t ds' t'"
proof (rule sound_moveI)
  note e = ht_close_all_effect [OF assms]
  show "table_wf t'" "evolves t t'" by (rule e)+
  show "settled ds t ds' t'" if r: "roomy ds t"
    using refund_settles [OF r e(5,7)] settled_same [of t' t] e(5,7,9) by (auto split: if_splits)
qed

lemma try_insert_sound:
  assumes "table_wf t" and "heap_bounded hp" and "ht_try_insert_or_return hp ds c t = (res, ds', t')"
  shows "sound_move ds t ds' t'"
proof (cases res)
  case (Inl c')
  with assms(3) have "ht_try_insert_or_return hp ds c t = (Inl c', ds', t')" by simp
  from ht_try_insert_or_return_refused [OF assms(1) this] show ?thesis by (rule conjunct1)
next
  case (Inr h)
  with assms(3) have "ht_try_insert_or_return hp ds c t = (Inr h, ds', t')" by simp
  from ht_try_insert_or_return_granted [OF assms(1,2) this] show ?thesis by (rule conjunct1)
qed

lemma duplicate_sound:
  assumes "table_wf t" and "heap_bounded hp" and "ht_duplicate hp objs ds h r t = (res, ds', t')"
  shows "sound_move ds t ds' t'"
proof (cases res)
  case (Inl e)
  with assms(3) have "ht_duplicate hp objs ds h r t = (Inl e, ds', t')" by simp
  from ht_duplicate_refused [OF assms(1) this] show ?thesis by (rule conjunct1)
next
  case (Inr h')
  with assms(3) have "ht_duplicate hp objs ds h r t = (Inr h', ds', t')" by simp
  from ht_duplicate_granted [OF assms(1,2) this] show ?thesis by blast
qed

lemma take_sound:
  assumes "table_wf t" and "ht_take objs ds h r t = (res, ds', t')"
  shows "sound_move ds t ds' t'"
proof (cases res)
  case (Inl e)
  with assms(2) ht_take_refused sound_move_refl [OF assms(1)] show ?thesis by metis
next
  case (Inr c)
  with assms(2) have "ht_take objs ds h r t = (Inr c, ds', t')" by simp
  note e = ht_take_granted [OF assms(1) this]
  from e have "settled ds t ds' t'" if "roomy ds t" using refund_settles [OF that, of t' 1] by simp
  with e show ?thesis by (intro sound_moveI) simp_all
qed

lemma transfer_sound:
  assumes "table_wf t" and "ht_take_for_transfer objs h r t = (res, t')"
  shows "sound_move ds t ds t'"
proof (cases res)
  case (Inl e)
  with assms(2) ht_take_for_transfer_refused sound_move_refl [OF assms(1)] show ?thesis by metis
next
  case (Inr c)
  with assms(2) have "ht_take_for_transfer objs h r t = (Inr c, t')" by simp
  from ht_take_for_transfer_granted [OF assms(1) this] show ?thesis
    by (intro sound_moveI settled_same) simp_all
qed

lemma close_sound:
  assumes "table_wf t" and "ht_close objs ds h t = (res, ds', t')"
  shows "sound_move ds t ds' t'"
proof (cases res)
  case (Inl e)
  with assms(2) ht_close_refused sound_move_refl [OF assms(1)] show ?thesis by metis
next
  case (Inr rel)
  with assms(2) have "ht_close objs ds h t = (Inr rel, ds', t')" by simp
  then obtain c where e: "table_wf t'" "evolves t t'" "Suc (table_charge t') = table_charge t"
      "ht_domain t' = ht_domain t" "ds' = refund_table ds t 1"
    using ht_close_granted [OF assms(1)] by blast
  have "settled ds t ds' t'" if "roomy ds t" using refund_settles [OF that, of t' 1] e by simp
  with e show ?thesis by (intro sound_moveI) simp_all
qed

lemma release_sound:
  assumes "table_wf t" and "n \<le> length (ht_booked t)" and "ht_release_reservation ds n t = (ds', t')"
  shows "sound_move ds t ds' t'"
  using ht_release_reservation_effect [OF assms] by (intro sound_moveI) (simp_all add: refund_settles)

lemma table_step_sound:
  assumes wf: "table_wf t" and hp: "heap_bounded hp" and step: "table_step hp (ds, t) (ds', t')"
  shows "sound_move ds t ds' t'"
  using step
proof cases
  case (step_insert c h)
  from ht_insert_sound [OF wf hp this] show ?thesis by (rule conjunct1)
next
  case (step_try_insert c res)
  then show ?thesis by (rule try_insert_sound [OF wf hp])
next
  case (step_duplicate objs h r res)
  then show ?thesis by (rule duplicate_sound [OF wf hp])
next
  case (step_reserve n b)
  then show ?thesis by (rule reserve_sound [OF wf hp])
next
  case (step_insert_reserved c h)
  then show ?thesis by (rule insert_reserved_sound [OF wf])
next
  case (step_release n)
  then show ?thesis by (rule release_sound [OF wf])
next
  case (step_take objs h r res)
  from step_take show ?thesis by (rule take_sound [OF wf])
next
  case (step_transfer objs h r res)
  then show ?thesis using transfer_sound [OF wf] by blast
next
  case (step_commit h)
  then show ?thesis unfolding ht_commit_taken_def by (rule resolve_sound [OF wf])
next
  case (step_abandon h)
  then show ?thesis unfolding ht_abandon_taken_def by (rule resolve_sound [OF wf])
next
  case (step_restore h c)
  then show ?thesis by (rule restore_sound [OF wf])
next
  case (step_close objs h res)
  from step_close show ?thesis by (rule close_sound [OF wf])
next
  case step_close_all
  then show ?thesis by (rule close_all_sound [OF wf])
qed

lemma table_run_sound:
  assumes "(table_step hp)\<^sup>*\<^sup>* (ds, t) (ds', t')" and "table_wf t" and "heap_bounded hp"
  shows "sound_move ds t ds' t'"
  using assms(1)
proof (induction "(ds', t')" arbitrary: ds' t' rule: rtranclp_induct)
  case base
  show ?case using assms by (simp add: sound_move_refl)
next
  case (step y)
  obtain ds1 t1 where y: "y = (ds1, t1)" by fastforce
  have "sound_move ds t ds1 t1" by (rule step.hyps(3) [OF y])
  moreover from this have "sound_move ds1 t1 ds' t'"
    by (intro table_step_sound [OF _ assms(3)]) (use step.hyps(2) in \<open>simp_all add: sound_move_def y\<close>)
  ultimately show ?case by (rule sound_move_trans)
qed

section \<open>No handle is the number zero\<close>

text \<open>
  A slot starts at generation one and a slot that would wrap is retired, so no slot has generation
  zero and the number zero, which the handlers use for the absence of a handle, never names anything.
\<close>

definition numbered :: "handle_table \<Rightarrow> bool" where
  "numbered t \<longleftrightarrow> (\<forall>s \<in> set (ht_slots t). s_generation s \<noteq> 0)"

lemma numbered_new [simp]: "numbered ht_new"
  by (simp add: numbered_def ht_new_def)

lemma numbered_zero: "numbered t \<Longrightarrow> cspace t 0 = None"
  by (auto simp: numbered_def cspace_def handle_index_def handle_generation_def)

lemma numbered_lists [simp]:
  "numbered (t\<lparr>ht_free := f\<rparr>) = numbered t" "numbered (t\<lparr>ht_booked := b\<rparr>) = numbered t"
  "numbered (t\<lparr>ht_closed := c\<rparr>) = numbered t"
  by (simp_all add: numbered_def)

lemma numbered_put:
  assumes "numbered t" and "s_generation s = s_generation (ht_slots t ! unat i) \<or> s_generation s \<noteq> 0"
  shows "numbered (put_slot i s t)"
proof (cases "unat i < length (ht_slots t)")
  case True
  then have "s_generation (ht_slots t ! unat i) \<noteq> 0" using assms(1) by (simp add: numbered_def)
  with assms show ?thesis
    by (auto simp: numbered_def put_slot_def dest!: set_update_subset_insert [THEN subsetD])
next
  case False
  then show ?thesis using assms(1) by (simp add: put_slot_def numbered_def list_update_beyond)
qed

lemma retire_nonzero: "retire_or_recycle s free i = (s', free') \<Longrightarrow> s_generation s' \<noteq> 0"
  using eq_neg_iff_add_eq_0 [of "s_generation s" 1]
  by (auto simp: retire_or_recycle_def split: if_splits)

lemma slot_at_nth: "slot_at t i = Some s \<Longrightarrow> s = ht_slots t ! unat i"
  by (auto simp: slot_at_def split: if_splits)

lemma numbered_try_place: "numbered t \<Longrightarrow> ht_try_place hp c t = (r, t') \<Longrightarrow> numbered t'"
  by (auto simp: ht_try_place_def Let_def intro!: numbered_put split: list.splits if_splits) (simp add: numbered_def)

lemma numbered_book: "numbered t \<Longrightarrow> book_slots hp n t = (b, t') \<Longrightarrow> numbered t'"
proof (induction n arbitrary: t)
  case (Suc n)
  have "numbered (t\<lparr>ht_slots := ht_slots t @ [\<lparr>s_cap = None, s_generation = 1, s_reserved = False\<rparr>]\<rparr>)"
    using Suc.prems(1) by (simp add: numbered_def)
  with Suc.prems show ?case by (auto split: list.splits if_splits elim!: Suc.IH [rotated])
qed simp

lemma numbered_unbook [simp]: "numbered (ht_unbook keep t) = numbered t"
  by (simp add: ht_unbook_eq)

lemma numbered_reserve: "numbered t \<Longrightarrow> ht_reserve hp ds n t = (b, ds', t') \<Longrightarrow> numbered t'"
  by (auto simp: ht_reserve_def Let_def dest: numbered_book split: if_splits prod.splits bool.splits option.splits)

lemma numbered_resolve: "numbered t \<Longrightarrow> ht_resolve_taken ds h t = (ds', t') \<Longrightarrow> numbered t'"
  by (auto simp: ht_resolve_taken_def Let_def dest: retire_nonzero intro!: numbered_put split: option.splits prod.splits)

lemma numbered_insert: "numbered t \<Longrightarrow> ht_insert hp ds c t = (h, ds', t') \<Longrightarrow> numbered t'"
  by (auto simp: ht_insert_def Let_def dest: numbered_try_place split: prod.splits sum.splits)

lemma numbered_try_insert: "numbered t \<Longrightarrow> ht_try_insert_or_return hp ds c t = (r, ds', t') \<Longrightarrow> numbered t'"
  by (auto simp: ht_try_insert_or_return_def dest: numbered_try_place split: prod.splits sum.splits bool.splits)

lemma numbered_close_slots:
  "close_slots booked i slots free n = (slots', free', n') \<Longrightarrow> \<forall>s \<in> set slots. s_generation s \<noteq> 0 \<Longrightarrow>
     \<forall>s \<in> set slots'. s_generation s \<noteq> 0"
  by (induction booked i slots free n arbitrary: slots' rule: close_slots.induct)
    (auto simp: Let_def eq_neg_iff_add_eq_0 split: prod.splits if_splits)

lemma table_step_numbered:
  assumes "table_step hp (ds, t) (ds', t')" and n: "numbered t"
  shows "numbered t'"
  using assms(1)
proof cases
  case (step_duplicate objs h r res)
  then show ?thesis using n
    by (auto simp: ht_duplicate_def ht_try_insert_def dest: numbered_try_insert
        split: prod.splits sum.splits if_splits option.splits)
next
  case (step_insert_reserved c h)
  then show ?thesis using n
    by (auto simp: ht_insert_reserved_def Let_def intro!: numbered_put split: if_splits list.splits)
next
  case (step_release n)
  then show ?thesis using n by (auto simp: ht_release_reservation_def Let_def)
next
  case (step_take objs h r res)
  then show ?thesis using n
    by (auto simp: ht_take_def Let_def dest: retire_nonzero intro!: numbered_put split: sum.splits if_splits prod.splits)
next
  case (step_transfer objs h r res)
  then show ?thesis using n
    by (auto simp: ht_take_for_transfer_def Let_def intro!: numbered_put split: sum.splits if_splits)
next
  case (step_restore h c)
  then show ?thesis using n
    by (auto simp: ht_restore_taken_def dest: numbered_insert slot_at_nth intro!: numbered_put
        split: if_splits option.splits prod.splits)
next
  case (step_close objs h res)
  then show ?thesis using n
    by (auto simp: ht_close_def Let_def dest: retire_nonzero intro!: numbered_put split: option.splits if_splits prod.splits)
next
  case step_close_all
  then show ?thesis using n
    by (auto simp: ht_close_all_def numbered_def dest: numbered_close_slots split: prod.splits)
qed (use n in \<open>auto simp: ht_commit_taken_def ht_abandon_taken_def
    dest: numbered_insert numbered_try_insert numbered_reserve numbered_resolve\<close>)

end
