(* ===== verification/Handle_Properties.thy ===== *)
theory Handle_Properties
  imports Handle_Steps
begin

text \<open>
  The properties of domains, capabilities and the handle table, each with an instance on a small
  concrete store: a root domain with a limit of eight handles, a child of it with a limit of two.
\<close>

section \<open>A concrete store\<close>

definition sample_domain :: "domain_id option \<Rightarrow> nat \<Rightarrow> dnode" where
  "sample_domain p handle_limit = \<lparr>d_account = account_new UNLIMITED handle_limit UNLIMITED, d_parent = p,
     d_children = [], d_processes = [], d_killed = False, d_frozen = False\<rparr>"

definition sample_domains :: domains where
  "sample_domains = [1 \<mapsto> sample_domain None 8, 2 \<mapsto> sample_domain (Some 1) 2]"

definition sample_heap :: heap where
  "sample_heap = \<lparr>slots_fit = (\<lambda>n. n \<le> 4), free_fit = (\<lambda>n. n \<le> 4), booked_fit = (\<lambda>n. n \<le> 4)\<rparr>"

definition sample_objects :: objects where
  "sample_objects = (\<lambda>k. object_new Channel)"

definition sample_cap :: capability where
  "sample_cap = capability_new sample_objects 7 (RIGHT_READ OR RIGHT_DUPLICATE OR RIGHT_TRANSFER)"

definition sample_table :: handle_table where
  "sample_table = \<lparr>ht_slots = [\<lparr>s_cap = Some sample_cap, s_generation = 1, s_reserved = False\<rparr>],
     ht_free = [], ht_booked = [], ht_closed = False, ht_domain = None\<rparr>"

lemma sample_heap_bounded: "heap_bounded sample_heap"
  by (simp add: heap_bounded_def sample_heap_def)

lemma sample_table_wf: "table_wf sample_table"
  by (simp add: table_wf_def sample_table_def)

lemma sample_line:
  "line sample_domains 2 = {1, 2}" "set (ancestors sample_domains 2) = {1, 2}" "sample_domains 2 \<noteq> None"
  by (auto simp: line_def ancestors.simps domain_parent_def sample_domains_def sample_domain_def split: if_splits)

lemma sample_counters:
  "used sample_domains Handles 1 = 0" "used sample_domains Handles 2 = 0"
  "limit sample_domains Handles 1 = 8" "limit sample_domains Handles 2 = 2"
  by (simp_all add: counter_of_def sample_domains_def sample_domain_def account_new_def counter_new_def)

text \<open>A fresh table that charges the child.\<close>

definition fresh_table :: handle_table where
  "fresh_table = ht_set_domain 2 ht_new"

lemma fresh_table_facts:
  "table_wf fresh_table" "cspace fresh_table = Map.empty" "ht_booked fresh_table = []" "table_charge fresh_table = 0"
  "ht_domain fresh_table = Some 2" "table_payers sample_domains fresh_table = {1, 2}"
  by (auto simp: fresh_table_def table_wf_def ht_set_domain_def ht_new_def fun_eq_iff cspace_def table_charge_def
      table_payers_def sample_line(1))

lemma fresh_table_roomy: "roomy sample_domains fresh_table"
  using sample_line(3) sample_counters(1,2) unfolding roomy_def fresh_table_facts
  by (simp add: U64_MAX_def)

section \<open>Properties\<close>

text \<open>
  C4. A handle that was closed never names anything again. Whatever sequence of operations runs on
  the table afterwards (insertions, duplications, bookings, transfers resolved either way, closing
  the whole table and starting over), a lookup through the closed handle answers a bad handle:
  slots are reused only under a newer generation, and a slot whose generation cannot grow is
  retired.
\<close>

theorem closed_handle_never_returns:
  assumes "table_wf t" and "heap_bounded hp" and "ht_close objs ds h t = (Inr rel, ds1, t1)"
    and "(table_step hp)\<^sup>*\<^sup>* (ds1, t1) (ds2, t2)"
  shows "ht_cap_of t2 h = Inl BadHandle"
proof -
  from ht_close_granted [OF assms(1,3)] have "table_wf t1" "stale t1 h" by auto
  with table_run_sound [OF assms(4) _ assms(2)] have "stale t2 h"
    by (auto simp: sound_move_def intro: evolves_stale)
  then show ?thesis by (simp add: ht_cap_of_cspace stale_names_nothing)
qed

theorem closed_handle_never_returns_witness:
  "let (r1, ds1, t1) = ht_close sample_objects sample_domains (handle_new 1 0) sample_table;
       (h2, ds2, t2) = ht_insert sample_heap ds1 sample_cap t1
   in r1 = Inr None \<and> h2 = handle_new 2 0 \<and> ht_cap_of t2 (handle_new 1 0) = Inl BadHandle"
proof -
  let ?t1 = "sample_table\<lparr>ht_slots := [\<lparr>s_cap = None, s_generation = 2, s_reserved = False\<rparr>], ht_free := [0]\<rparr>"
  let ?t2 = "sample_table\<lparr>ht_slots := [\<lparr>s_cap = Some sample_cap, s_generation = 2, s_reserved = False\<rparr>]\<rparr>"
  have c: "ht_close sample_objects sample_domains (handle_new 1 0) sample_table = (Inr None, sample_domains, ?t1)"
    by (simp add: ht_close_def slot_at_def sample_table_def retire_or_recycle_def put_slot_def refund_table_def
        claim_released_def cap_object_type_def sample_objects_def object_new_def)
  have i: "ht_insert sample_heap sample_domains sample_cap ?t1 = (handle_new 2 0, sample_domains, ?t2)"
    by (simp add: ht_insert_def ht_try_place_def sample_table_def put_slot_def charge_table_def)
  have "table_step sample_heap (sample_domains, ?t1) (sample_domains, ?t2)"
    using i by (rule step_insert)
  then have "ht_cap_of ?t2 (handle_new 1 0) = Inl BadHandle"
    by (intro closed_handle_never_returns [OF sample_table_wf sample_heap_bounded c]) (rule r_into_rtranclp)
  then show ?thesis using c i by simp
qed

text \<open>
  C10. Handle quota is conserved. Along every sequence of operations on a table, the handle counter
  of every domain on the line of the table's domain moves by exactly the change in what the table
  holds (occupied slots, capabilities in transfer, booked slots), and no other domain's counter
  moves: no operation, refused or granted, leaks a unit or gives one back twice.
\<close>

theorem handle_quota_conserved:
  assumes "table_wf t" and "heap_bounded hp" and "roomy ds t" and "ht_domain t = Some d"
    and "(table_step hp)\<^sup>*\<^sup>* (ds, t) (ds', t')"
  shows "used ds' Handles a =
    (if a \<in> line ds d then used ds Handles a - table_charge t + table_charge t' else used ds Handles a)"
proof -
  have s: "settled ds t ds' t'"
    using table_run_sound [OF assms(5,1,2)] assms(3) by (simp add: sound_move_def)
  have "table_payers ds t = line ds d" using assms(4) by (simp add: table_payers_def)
  moreover have "table_charge t \<le> used ds Handles a" if "a \<in> table_payers ds t"
    using assms(3) that by (simp add: roomy_def)
  ultimately show ?thesis using settled_used [OF s, of a] by auto
qed

theorem handle_quota_conserved_witness:
  "case ht_insert sample_heap sample_domains sample_cap fresh_table of (h, ds, t') \<Rightarrow>
     used ds Handles 1 = 1 \<and> used ds Handles 2 = 1"
proof -
  obtain h ds t' where i: "ht_insert sample_heap sample_domains sample_cap fresh_table = (h, ds, t')"
    using prod_cases3 by blast
  have charge: "table_charge t' = 1"
    using i by (auto simp: table_charge_def fresh_table_def ht_set_domain_def ht_new_def ht_insert_def
        ht_try_place_def can_grow_def sample_heap_def slot_live_def Let_def)
  have run: "(table_step sample_heap)\<^sup>*\<^sup>* (sample_domains, fresh_table) (ds, t')"
    by (rule r_into_rtranclp) (rule step_insert [OF i])
  note q = handle_quota_conserved [OF fresh_table_facts(1) sample_heap_bounded fresh_table_roomy fresh_table_facts(5) run]
  from q [of 1] q [of 2] i show ?thesis
    by (simp add: sample_line sample_counters fresh_table_facts charge del: One_nat_def)
qed

text \<open>
  C26. Duplication never amplifies. A granted duplicate is a fresh handle whose capability names the
  same object at the same generation with rights contained in the original's; the original had to
  be valid and to carry the duplication right; every other handle of the table keeps its meaning.
\<close>

theorem duplicate_attenuates:
  assumes "table_wf t" and "heap_bounded hp" and "ht_duplicate hp objs ds h r t = (Inr h', ds', t')"
  shows "\<exists>c d. cspace t h = Some c \<and> rights_contains (cap_rights c) RIGHT_DUPLICATE \<and> cap_is_valid objs c \<and>
    cspace t h' = None \<and> cspace t' = (cspace t)(h' \<mapsto> d) \<and> cap_derives c d \<and> cap_rights d = r"
proof -
  from ht_duplicate_granted [OF assms] obtain c where c: "cspace t h = Some c" "cap_is_valid objs c"
    "rights_contains (cap_rights c) RIGHT_DUPLICATE" "rights_contains (cap_rights c) r" "cspace t h' = None"
    "cspace t' = (cspace t)(h' \<mapsto> capability_new objs (cap_object c) r)"
    by blast
  moreover have "cap_derives c (capability_new objs (cap_object c) r)"
    using c(2,4) by (simp add: cap_derives_def capability_new_def cap_is_valid_def)
  ultimately show ?thesis by (intro exI [of _ c] exI [of _ "capability_new objs (cap_object c) r"]) simp
qed

theorem duplicate_attenuates_witness:
  "case ht_duplicate sample_heap sample_objects sample_domains (handle_new 1 0) RIGHT_READ sample_table of
     (Inr h', ds', t') \<Rightarrow> \<exists>d. cspace t' h' = Some d \<and> cap_derives sample_cap d \<and> cap_rights d = RIGHT_READ
   | _ \<Rightarrow> False"
proof -
  obtain t' where run: "ht_duplicate sample_heap sample_objects sample_domains (handle_new 1 0) RIGHT_READ sample_table
      = (Inr (handle_new 1 1), sample_domains, t')"
    by (simp add: ht_duplicate_def ht_cap_of_def slot_at_def sample_table_def sample_cap_def rights_contains_def
        right_defs ht_try_insert_def ht_try_insert_or_return_def try_charge_table_def ht_try_place_def can_grow_def
        sample_heap_def)
  have "cspace sample_table (handle_new 1 0) = Some sample_cap"
    by (simp add: cspace_def sample_table_def)
  with duplicate_attenuates [OF sample_table_wf sample_heap_bounded run] run show ?thesis by auto
qed

text \<open>
  A lookup succeeds exactly when the handle names a capability of the expected type that is
  still valid and carries the required rights, and it answers that capability's object. Otherwise
  the first failing test decides the error, in the order handle, type, revocation, rights.
\<close>

theorem lookup_typed_exact:
  "ht_lookup_typed objs t h ty r =
     (case cspace t h of
        None \<Rightarrow> Inl BadHandle
      | Some c \<Rightarrow>
          if cap_object_type objs c = ty then
            if cap_is_valid objs c then
              if rights_contains (cap_rights c) r then Inr (cap_object c) else Inl AccessDenied
            else Inl Revoked
          else Inl WrongType)"
  by (simp add: ht_lookup_typed_def ht_cap_of_cspace split: option.split)

text \<open>
  C27. Revoking an object takes effect at once in every table: after the revocation no lookup, typed
  or untyped, no duplication and no transfer succeeds through a handle that named the object with a
  capability valid until then, whatever its rights.
\<close>

theorem revocation_is_immediate:
  assumes "cspace t h = Some c" and "cap_is_valid objs c" and "objs' = object_revoke objs (cap_object c)"
  shows "ht_lookup objs' t h r = Inl Revoked \<and>
    ht_lookup_typed objs' t h ty r \<in> {Inl Revoked, Inl WrongType} \<and>
    ht_duplicate hp objs' ds h r t = (Inl Revoked, ds, t) \<and>
    ht_take_for_transfer objs' h r t = (Inl Revoked, t)"
  using cap_revoked_invalid [OF assms(2)] assms(1)
  by (simp add: assms(3) ht_lookup_def ht_lookup_typed_def ht_duplicate_def ht_take_for_transfer_def
      ht_live_cap_of_def ht_cap_of_cspace)

theorem revocation_is_immediate_witness:
  "ht_lookup (object_revoke sample_objects 7) sample_table (handle_new 1 0) RIGHT_READ = Inl Revoked"
proof -
  have c: "cspace sample_table (handle_new 1 0) = Some sample_cap" "cap_is_valid sample_objects sample_cap"
    by (simp_all add: cspace_def sample_table_def sample_cap_def)
  have "cap_object sample_cap = 7" by (simp add: sample_cap_def)
  with revocation_is_immediate [OF c refl] show ?thesis by simp
qed

text \<open>
  A transfer that is taken back leaves no trace. Taking a capability out for a transfer and
  restoring it through the same handle gives a table with the same capability space and the same
  charge, and the quota counters do not move; while the transfer is in flight the handle names
  nothing.
\<close>

theorem transfer_restore_round_trip:
  assumes "table_wf t" and "\<not> ht_closed t" and "ht_take_for_transfer objs h r t = (Inr c, t1)"
    and "ht_restore_taken hp ds h c t1 = (ds', t2)"
  shows "cspace t2 = cspace t \<and> table_charge t2 = table_charge t \<and> ds' = ds \<and> table_wf t2 \<and>
    cspace t1 h = None"
proof -
  note one = ht_take_for_transfer_granted [OF assms(1,3)]
  from one assms(2) have "table_wf t1" "in_transfer t1 h" "\<not> ht_closed t1" by auto
  from ht_restore_taken_open [OF this assms(4)] one show ?thesis
    by (simp add: fun_upd_idem)
qed

theorem transfer_restore_round_trip_witness:
  "case ht_take_for_transfer sample_objects (handle_new 1 0) RIGHT_TRANSFER sample_table of
     (Inr c, t1) \<Rightarrow> cspace t1 (handle_new 1 0) = None \<and>
       cspace (snd (ht_restore_taken sample_heap sample_domains (handle_new 1 0) c t1)) = cspace sample_table
   | _ \<Rightarrow> False"
proof -
  obtain t1 where run: "ht_take_for_transfer sample_objects (handle_new 1 0) RIGHT_TRANSFER sample_table
      = (Inr sample_cap, t1)"
    by (simp add: ht_take_for_transfer_def ht_live_cap_of_def ht_cap_of_def slot_at_def sample_table_def
        sample_cap_def rights_contains_def right_defs)
  obtain ds' t2 where undo: "ht_restore_taken sample_heap sample_domains (handle_new 1 0) sample_cap t1 = (ds', t2)"
    by fastforce
  from transfer_restore_round_trip [OF sample_table_wf _ run undo] run undo show ?thesis
    by (simp add: sample_table_def)
qed

text \<open>
  C28. A hierarchical charge is all or nothing and never passes a limit. Granted, it adds the amount
  to the counter of the domain and of each of its ancestors, each of which stays within its limit;
  refused, it leaves the whole store as it was, and then some domain of the line had no room left.
\<close>

theorem hierarchical_charge_all_or_nothing:
  assumes "spare ds r d n" and "try_charge_hier ds d n r = (b, ds')"
  shows "if b then (\<forall>a. used ds' r a = used ds r a + (if a \<in> line ds d then n else 0)) \<and>
      (\<forall>a \<in> line ds d. limit ds' r a = limit ds r a \<and> (limit ds r a = UNLIMITED \<or> used ds' r a \<le> limit ds r a))
    else ds' = ds \<and> (\<exists>a \<in> line ds d. limit ds r a \<noteq> UNLIMITED \<and> limit ds r a < used ds r a + n)"
proof (cases b)
  case True
  with assms have g: "try_charge_hier ds d n r = (True, ds')" by simp
  from assms(1) have live: "ds d \<noteq> None" and head: "headroom ds r d n" by (auto simp: spare_def)
  from g have fit: "fits ds r d n" and ds': "ds' = on_line ds d r (counter_taken n)"
    by (auto simp: try_charge_hier_spec [OF live head] split: if_splits)
  have lev: "used ds' r a = used ds r a + (if a \<in> line ds d then n else 0)" for a
    using ledger.take_granted [OF assms(1) g] .
  have "limit ds' r a = limit ds r a" for a
    by (auto simp: ds' counter_of_on_line)
  with lev fit True show ?thesis by (auto simp: fits_def line_ancestors [of ds d, OF live])
next
  case False
  from assms(1) have live: "ds d \<noteq> None" and head: "headroom ds r d n" by (auto simp: spare_def)
  with False assms(2) have "ds' = ds" "\<not> fits ds r d n"
    by (auto simp: try_charge_hier_spec split: if_splits)
  with False show ?thesis by (auto simp: fits_def line_ancestors [of ds d, OF live] not_le)
qed

theorem hierarchical_charge_all_or_nothing_witness:
  "case try_charge_hier sample_domains 2 2 Handles of (b, ds') \<Rightarrow>
     b \<and> used ds' Handles 1 = 2 \<and> used ds' Handles 2 = 2"
proof -
  have s: "spare sample_domains Handles 2 2"
    using sample_line(3) by (simp add: spare_def headroom_def sample_line(2) sample_counters U64_MAX_def del: One_nat_def)
  obtain b ds' where run: "try_charge_hier sample_domains 2 2 Handles = (b, ds')" by fastforce
  note q = hierarchical_charge_all_or_nothing [OF s run]
  have b
    using q by (cases b) (simp_all add: sample_line(1) sample_counters del: One_nat_def)
  with q run show ?thesis by (simp add: sample_line(1) sample_counters del: One_nat_def)
qed



text \<open>
  C39. Closing the whole table ends every handle for ever. Afterwards the table names nothing, each
  handle it had answers a bad handle in every later state of the table, and the table's charge is
  what the transfers in flight and the booked slots still owe.
\<close>

theorem close_all_is_final:
  assumes "table_wf t" and "heap_bounded hp" and "ht_close_all ds t = (ds1, t1)" and "ht_cap_of t h = Inr c"
    and "(table_step hp)\<^sup>*\<^sup>* (ds1, t1) (ds2, t2)"
  shows "cspace t1 = Map.empty \<and> table_charge t1 = count_if s_reserved (ht_slots t) + length (ht_booked t) \<and>
    ht_cap_of t2 h = Inl BadHandle"
proof -
  note e = ht_close_all_effect [OF assms(1,3)]
  have "cspace t h \<noteq> None" using assms(4) by (auto simp: ht_cap_of_cspace split: option.splits)
  then have "stale t1 h" by (rule e(4))
  with table_run_sound [OF assms(5) e(1) assms(2)] have "stale t2 h"
    by (auto simp: sound_move_def intro: evolves_stale)
  then have "ht_cap_of t2 h = Inl BadHandle" by (simp add: ht_cap_of_cspace stale_names_nothing)
  with e(3,5) show ?thesis by (simp add: table_charge_def ht_len_def)
qed

theorem close_all_is_final_witness:
  "case ht_close_all sample_domains sample_table of (ds1, t1) \<Rightarrow>
     case ht_insert sample_heap ds1 sample_cap t1 of (h, ds2, t2) \<Rightarrow>
     cspace t1 = Map.empty \<and> ht_cap_of t2 (handle_new 1 0) = Inl BadHandle"
proof -
  obtain ds1 t1 where run: "ht_close_all sample_domains sample_table = (ds1, t1)" by fastforce
  obtain h ds2 t2 where ins: "ht_insert sample_heap ds1 sample_cap t1 = (h, ds2, t2)"
    using prod_cases3 by blast
  have "ht_cap_of sample_table (handle_new 1 0) = Inr sample_cap"
    by (simp add: ht_cap_of_def slot_at_def sample_table_def)
  moreover have "(table_step sample_heap)\<^sup>*\<^sup>* (ds1, t1) (ds2, t2)"
    using step_insert [OF ins] by (rule r_into_rtranclp)
  ultimately show ?thesis
    using close_all_is_final [OF sample_table_wf sample_heap_bounded run] run ins by simp
qed

text \<open>
  A transfer that comes back after the table was closed leaves its slot empty under its old
  generation; when the table is closed a second time the slot is listed as free, and the next
  insertion gives out the very handle value the transferred capability had.
\<close>

lemma handle_value_reissued_after_second_close_all:
  "case ht_take_for_transfer sample_objects (handle_new 1 0) RIGHT_TRANSFER sample_table of
     (Inr c, t1) \<Rightarrow>
       (let (ds2, t2) = ht_close_all sample_domains t1;
            (ds3, t3) = ht_restore_taken sample_heap ds2 (handle_new 1 0) c t2;
            (ds4, t4) = ht_close_all ds3 t3;
            (h, ds5, t5) = ht_insert sample_heap ds4 (capability_new sample_objects 9 RIGHT_READ) t4
        in h = handle_new 1 0)
   | _ \<Rightarrow> False"
  by (simp add: ht_take_for_transfer_def ht_live_cap_of_def ht_cap_of_def slot_at_def sample_table_def sample_cap_def
      rights_contains_def right_defs ht_close_all_def refund_table_def put_slot_def ht_restore_taken_def slot_live_def
      ht_insert_def ht_try_place_def charge_table_def)

end
