(* ===== verification/Channels.thy ===== *)
theory Channels
  imports Objects Domains
begin

text \<open>
  Channels (\<^verbatim>\<open>src/src/kernel/object/channel/mod.rs\<close>): a connected pair of endpoints, each with a
  bounded inbox the peer pushes into.

  The endpoints live in a store indexed by koid; a weak reference to a peer answers nothing once
  the peer has left the store. Each operation holds one inbox lock for the whole of what it decides,
  so it is one step here. A wake of the scheduler is recorded in \<open>cs_wakes\<close>, newest first.
\<close>

section \<open>State\<close>

definition CHANNEL_QUEUE_DEFAULT :: nat where
  "CHANNEL_QUEUE_DEFAULT = 64"

definition CHANNEL_QUEUE_MAX :: nat where
  "CHANNEL_QUEUE_MAX = 4096"

datatype channel_error = PeerClosed | Full | Empty

datatype recv_refusal = TooLarge | TooManyCaps | Superseded | Gone channel_error

record queue_charge =
  qc_domain :: domain_id
  qc_bytes :: nat

record message =
  m_id :: u64
  m_bytes :: "u8 list"
  m_caps :: "capability list"
  m_charge :: "queue_charge option"
  m_slot_reserved :: bool

record channel =
  c_inbox :: "message list"
  c_limit :: nat
  c_in_flight :: nat
  c_peer :: "koid option"

datatype wake = WakeMessage koid | WakeOther koid

record chan_state =
  cs_domains :: domains
  cs_channels :: "koid \<Rightarrow> channel option"
  cs_wakes :: "wake list"

fun woken :: "wake \<Rightarrow> koid" where
  "woken (WakeMessage k) = k"
| "woken (WakeOther k) = k"

text \<open>The messages that receives have taken and not resolved yet, each with the endpoint it came from.\<close>

type_synonym held = "(koid \<times> message) multiset"

definition wake_object :: "koid \<Rightarrow> chan_state \<Rightarrow> chan_state" where
  "wake_object k s = s\<lparr>cs_wakes := WakeOther k # cs_wakes s\<rparr>"

definition wake_message :: "koid \<Rightarrow> chan_state \<Rightarrow> chan_state" where
  "wake_message k s = s\<lparr>cs_wakes := WakeMessage k # cs_wakes s\<rparr>"

definition put_channel :: "koid \<Rightarrow> channel \<Rightarrow> chan_state \<Rightarrow> chan_state" where
  "put_channel k c s = s\<lparr>cs_channels := (cs_channels s)(k \<mapsto> c)\<rparr>"

section \<open>Messages\<close>

text \<open>\<open>i\<close> is what \<^verbatim>\<open>NEXT_MESSAGE_ID\<close> held; the caller advances it.\<close>

definition message_new :: "u64 \<Rightarrow> u8 list \<Rightarrow> capability list \<Rightarrow> message" where
  "message_new i bytes caps =
     \<lparr>m_id = i, m_bytes = bytes, m_caps = caps, m_charge = None, m_slot_reserved = False\<rparr>"

definition charge_queue :: "domains \<Rightarrow> domain_id \<Rightarrow> message \<Rightarrow> bool \<times> domains \<times> message" where
  "charge_queue ds d msg =
     (let bytes = length (m_bytes msg) in
      case try_charge_ipc_queue ds d bytes of
        (False, ds') \<Rightarrow> (False, ds', msg)
      | (True, ds') \<Rightarrow> (True, ds', msg\<lparr>m_charge := Some \<lparr>qc_domain = d, qc_bytes = bytes\<rparr>\<rparr>))"

text \<open>\<^verbatim>\<open>QueueCharge::drop\<close>: a charge refunds itself when it dies.\<close>

definition drop_charge :: "domains \<Rightarrow> queue_charge option \<Rightarrow> domains" where
  "drop_charge ds q =
     (case q of None \<Rightarrow> ds | Some c \<Rightarrow> uncharge_ipc_queue ds (qc_domain c) (qc_bytes c))"

definition take_queue_charge :: "domains \<Rightarrow> message \<Rightarrow> domains \<times> message" where
  "take_queue_charge ds msg = (drop_charge ds (m_charge msg), msg\<lparr>m_charge := None\<rparr>)"

definition release_queue_charge :: "domains \<Rightarrow> message \<Rightarrow> domains \<times> message" where
  "release_queue_charge ds msg = take_queue_charge ds msg"

section \<open>Endpoints\<close>

definition channel_limit :: "nat \<Rightarrow> nat" where
  "channel_limit depth =
     (if depth = 0 then CHANNEL_QUEUE_DEFAULT else min (max depth 1) CHANNEL_QUEUE_MAX)"

definition channel_endpoint :: "nat \<Rightarrow> koid option \<Rightarrow> channel" where
  "channel_endpoint lim p = \<lparr>c_inbox = [], c_limit = lim, c_in_flight = 0, c_peer = p\<rparr>"

text \<open>
  \<^verbatim>\<open>try_create_with_depth\<close>. \<open>ka\<close> and \<open>kb\<close> are the koids the two headers draw, \<open>fits_a\<close> and \<open>fits_b\<close>
  the answers of \<^verbatim>\<open>try_arc\<close>. A first endpoint whose partner cannot be allocated is dropped again
  before anything else could name it.
\<close>

definition try_create_with_depth ::
  "bool \<Rightarrow> bool \<Rightarrow> koid \<Rightarrow> koid \<Rightarrow> nat \<Rightarrow> chan_state \<Rightarrow> (koid \<times> koid) option \<times> chan_state" where
  "try_create_with_depth fits_a fits_b ka kb depth s =
     (let lim = channel_limit depth in
      if \<not> fits_a \<or> \<not> fits_b then (None, s)
      else (Some (ka, kb),
            put_channel kb (channel_endpoint lim (Some ka)) (put_channel ka (channel_endpoint lim (Some kb)) s)))"

definition chan_depth :: "channel \<Rightarrow> nat" where
  "chan_depth c = length (c_inbox c) + c_in_flight c"

text \<open>\<^verbatim>\<open>peer()\<close>: the weak reference, upgraded.\<close>

definition chan_peer :: "chan_state \<Rightarrow> koid \<Rightarrow> koid option" where
  "chan_peer s k =
     (case cs_channels s k of
        None \<Rightarrow> None
      | Some c \<Rightarrow>
          (case c_peer c of
             None \<Rightarrow> None
           | Some p \<Rightarrow> if cs_channels s p = None then None else Some p))"

definition peer_unread :: "chan_state \<Rightarrow> koid \<Rightarrow> nat option" where
  "peer_unread s k =
     (case chan_peer s k of
        None \<Rightarrow> None
      | Some p \<Rightarrow> map_option (\<lambda>c. length (c_inbox c)) (cs_channels s p))"

definition is_peer_closed :: "chan_state \<Rightarrow> koid \<Rightarrow> bool" where
  "is_peer_closed s k \<longleftrightarrow> chan_peer s k = None"

definition is_readable :: "chan_state \<Rightarrow> koid \<Rightarrow> bool" where
  "is_readable s k \<longleftrightarrow>
     (case cs_channels s k of None \<Rightarrow> False | Some c \<Rightarrow> c_inbox c \<noteq> [] \<or> is_peer_closed s k)"

definition is_writable :: "chan_state \<Rightarrow> koid \<Rightarrow> bool" where
  "is_writable s k \<longleftrightarrow>
     (case chan_peer s k of
        None \<Rightarrow> True
      | Some p \<Rightarrow> (case cs_channels s p of None \<Rightarrow> True | Some c \<Rightarrow> chan_depth c < c_limit c))"

text \<open>
  \<^verbatim>\<open>send_inner\<close>. \<open>ring_fits\<close> is the answer of \<^verbatim>\<open>inbox.try_reserve(1)\<close>. The refusal returns the
  capabilities the message carried.
\<close>

definition send_inner ::
  "bool \<Rightarrow> koid \<Rightarrow> message \<Rightarrow> domain_id option \<Rightarrow> chan_state
     \<Rightarrow> (channel_error \<times> capability list) option \<times> chan_state" where
  "send_inner ring_fits k msg sender s =
     (case chan_peer s k of
        None \<Rightarrow> (Some (PeerClosed, m_caps msg), s)
      | Some p \<Rightarrow>
          (case cs_channels s p of
             None \<Rightarrow> (Some (PeerClosed, m_caps msg), s)
           | Some c \<Rightarrow>
               (if c_limit c \<le> chan_depth c then (Some (Full, m_caps msg), s)
                else if \<not> ring_fits then (Some (Full, m_caps msg), s)
                else
                  (case (case sender of
                           None \<Rightarrow> (True, cs_domains s, msg)
                         | Some d \<Rightarrow> charge_queue (cs_domains s) d msg) of
                     (False, ds, msg') \<Rightarrow> (Some (Full, m_caps msg'), s\<lparr>cs_domains := ds\<rparr>)
                   | (True, ds, msg') \<Rightarrow>
                       (None, wake_message p
                                (put_channel p (c\<lparr>c_inbox := c_inbox c @ [msg']\<rparr>) (s\<lparr>cs_domains := ds\<rparr>)))))))"

definition chan_send :: "bool \<Rightarrow> koid \<Rightarrow> message \<Rightarrow> chan_state \<Rightarrow> channel_error option \<times> chan_state" where
  "chan_send ring_fits k msg s =
     (case send_inner ring_fits k msg None s of (r, s') \<Rightarrow> (map_option fst r, s'))"

definition send_charged_or_return ::
  "bool \<Rightarrow> koid \<Rightarrow> message \<Rightarrow> domain_id \<Rightarrow> chan_state
     \<Rightarrow> (channel_error \<times> capability list) option \<times> chan_state" where
  "send_charged_or_return ring_fits k msg d s = send_inner ring_fits k msg (Some d) s"

definition wake_peer_of :: "koid \<Rightarrow> chan_state \<Rightarrow> chan_state" where
  "wake_peer_of k s = (case chan_peer s k of None \<Rightarrow> s | Some p \<Rightarrow> wake_object p s)"

definition gone :: "chan_state \<Rightarrow> koid \<Rightarrow> channel_error" where
  "gone s k = (if is_peer_closed s k then PeerClosed else Empty)"

definition chan_recv :: "koid \<Rightarrow> chan_state \<Rightarrow> (channel_error + message) \<times> chan_state" where
  "chan_recv k s =
     (case cs_channels s k of
        None \<Rightarrow> (Inl PeerClosed, s)
      | Some c \<Rightarrow>
          (case c_inbox c of
             [] \<Rightarrow> (Inl (gone s k), s)
           | msg # rest \<Rightarrow>
               (let was_full = c_limit c \<le> chan_depth c;
                    (ds, msg') = release_queue_charge (cs_domains s) msg;
                    s1 = (put_channel k (c\<lparr>c_inbox := rest\<rparr>) s)\<lparr>cs_domains := ds\<rparr>
                in (Inr msg', if was_full then wake_peer_of k s1 else s1))))"

definition return_to_head :: "koid \<Rightarrow> message \<Rightarrow> chan_state \<Rightarrow> chan_state" where
  "return_to_head k msg s =
     (case cs_channels s k of
        None \<Rightarrow> s
      | Some c \<Rightarrow>
          wake_object k
            (put_channel k
               (c\<lparr>c_inbox := msg\<lparr>m_slot_reserved := False\<rparr> # c_inbox c,
                  c_in_flight := (if m_slot_reserved msg then c_in_flight c - 1 else c_in_flight c)\<rparr>) s))"

definition commit_delivery :: "koid \<Rightarrow> message \<Rightarrow> chan_state \<Rightarrow> message \<times> chan_state" where
  "commit_delivery k msg s =
     (let (ds, msg1) = release_queue_charge (cs_domains s) msg;
          s1 = s\<lparr>cs_domains := ds\<rparr>
      in case cs_channels s1 k of
           None \<Rightarrow> (msg1\<lparr>m_slot_reserved := False\<rparr>, s1)
         | Some c \<Rightarrow>
             (if m_slot_reserved msg1 then
                (let freed = c_limit c \<le> length (c_inbox c) + c_in_flight c;
                     s2 = put_channel k (c\<lparr>c_in_flight := c_in_flight c - 1\<rparr>) s1
                 in (msg1\<lparr>m_slot_reserved := False\<rparr>, if freed then wake_peer_of k s2 else s2))
              else (msg1, s1)))"

definition recv_identified ::
  "koid \<Rightarrow> u64 \<Rightarrow> nat \<Rightarrow> nat \<Rightarrow> chan_state \<Rightarrow> (recv_refusal + message) \<times> chan_state" where
  "recv_identified k i bytes_cap cap_slots s =
     (case cs_channels s k of
        None \<Rightarrow> (Inl (Gone PeerClosed), s)
      | Some c \<Rightarrow>
          (case c_inbox c of
             [] \<Rightarrow> (Inl (Gone (gone s k)), s)
           | msg # rest \<Rightarrow>
               (if m_id msg \<noteq> i then (Inl Superseded, s)
                else if bytes_cap < length (m_bytes msg) then (Inl TooLarge, s)
                else if cap_slots < length (m_caps msg) then (Inl TooManyCaps, s)
                else (Inr (msg\<lparr>m_slot_reserved := True\<rparr>),
                      put_channel k (c\<lparr>c_inbox := rest, c_in_flight := c_in_flight c + 1\<rparr>) s))))"

definition peek_identified :: "koid \<Rightarrow> chan_state \<Rightarrow> channel_error + u64 \<times> nat \<times> nat" where
  "peek_identified k s =
     (case cs_channels s k of
        None \<Rightarrow> Inl PeerClosed
      | Some c \<Rightarrow>
          (case c_inbox c of
             [] \<Rightarrow> Inl (gone s k)
           | msg # _ \<Rightarrow> Inr (m_id msg, length (m_bytes msg), length (m_caps msg))))"

definition peek_shape :: "koid \<Rightarrow> chan_state \<Rightarrow> channel_error + nat \<times> nat" where
  "peek_shape k s = map_sum (\<lambda>e. e) (\<lambda>(_, bytes, caps). (bytes, caps)) (peek_identified k s)"

definition peek_len :: "koid \<Rightarrow> chan_state \<Rightarrow> channel_error + nat" where
  "peek_len k s = map_sum (\<lambda>e. e) (\<lambda>(bytes, _). bytes) (peek_shape k s)"

text \<open>
  \<^verbatim>\<open>Channel::drop\<close>: the charge of every message left in the inbox is refunded, the endpoint
  leaves the store, and a thread waiting on the peer is woken.
\<close>

fun drain_inbox :: "message list \<Rightarrow> domains \<Rightarrow> domains" where
  "drain_inbox [] ds = ds"
| "drain_inbox (msg # rest) ds = drain_inbox rest (fst (take_queue_charge ds msg))"

definition chan_drop :: "koid \<Rightarrow> chan_state \<Rightarrow> chan_state" where
  "chan_drop k s =
     (case cs_channels s k of
        None \<Rightarrow> s
      | Some c \<Rightarrow>
          (let s1 = s\<lparr>cs_domains := drain_inbox (c_inbox c) (cs_domains s)\<rparr>;
               s2 = s1\<lparr>cs_channels := (cs_channels s1)(k := None)\<rparr>
           in case chan_peer s1 k of None \<Rightarrow> s2 | Some p \<Rightarrow> wake_object p s2))"

end
