(* ===== verification/Channel_Steps.thy ===== *)
theory Channel_Steps
  imports Channels
begin

text \<open>
  Any interleaving of senders and receivers over any number of channels. A configuration is the
  state of the channels and the messages that receives have taken and not yet resolved. The lemmas
  show the invariant of the queues (the bound on the depth first), the exact accounting of queued
  bytes, and that no operation that makes an endpoint ready forgets to wake it.
\<close>

section \<open>Configurations and steps\<close>

definition held_at :: "koid \<Rightarrow> held \<Rightarrow> nat" where
  "held_at k H = size {#x \<in># H. fst x = k#}"

lemma held_at_simps [simp]:
  "held_at k {#} = 0"
  "held_at k (add_mset (k', m) H) = (if k' = k then Suc (held_at k H) else held_at k H)"
  by (simp_all add: held_at_def)

text \<open>
  The rules are the operations of \<open>Channels\<close> with what their callers guarantee: a sent message is
  new, a receive is resolved once and on the endpoint it came from, koids are never reused, an
  endpoint is dropped only when no receive is using it.
\<close>

inductive chan_step :: "chan_state \<times> held \<Rightarrow> chan_state \<times> held \<Rightarrow> bool" where
  on_send: "m_charge msg = None \<Longrightarrow> \<not> m_slot_reserved msg \<Longrightarrow>
      (\<forall>d. sender = Some d \<longrightarrow> spare (cs_domains s) IpcQueue d (length (m_bytes msg))) \<Longrightarrow>
      send_inner ring_fits k msg sender s = (r, s') \<Longrightarrow> chan_step (s, H) (s', H)"
| on_recv: "chan_recv k s = (r, s') \<Longrightarrow> chan_step (s, H) (s', H)"
| on_take: "recv_identified k i b n s = (Inr msg, s') \<Longrightarrow> chan_step (s, H) (s', add_mset (k, msg) H)"
| on_commit: "commit_delivery k msg s = (msg', s') \<Longrightarrow> chan_step (s, add_mset (k, msg) H) (s', H)"
| on_return: "return_to_head k msg s = s' \<Longrightarrow> chan_step (s, add_mset (k, msg) H) (s', H)"
| on_create: "ka \<noteq> kb \<Longrightarrow> cs_channels s ka = None \<Longrightarrow> cs_channels s kb = None \<Longrightarrow>
      (\<forall>k c. cs_channels s k = Some c \<longrightarrow> c_peer c \<noteq> Some ka \<and> c_peer c \<noteq> Some kb) \<Longrightarrow>
      try_create_with_depth fa fb ka kb depth s = (r, s') \<Longrightarrow> chan_step (s, H) (s', H)"
| on_drop: "held_at k H = 0 \<Longrightarrow> chan_step (s, H) (chan_drop k s, H)"

section \<open>The invariant\<close>

definition endpoint_wf :: "chan_state \<Rightarrow> held \<Rightarrow> koid \<Rightarrow> channel \<Rightarrow> bool" where
  "endpoint_wf s H k c \<longleftrightarrow>
     1 \<le> c_limit c \<and> c_limit c \<le> CHANNEL_QUEUE_MAX \<and> chan_depth c \<le> c_limit c \<and>
     c_in_flight c = held_at k H \<and> (\<forall>m \<in> set (c_inbox c). \<not> m_slot_reserved m) \<and>
     (\<forall>p. c_peer c = Some p \<longrightarrow> p \<noteq> k \<and> (\<forall>c'. cs_channels s p = Some c' \<longrightarrow> c_peer c' = Some k))"

definition chan_wf :: "chan_state \<Rightarrow> held \<Rightarrow> bool" where
  "chan_wf s H \<longleftrightarrow>
     (\<forall>k c. cs_channels s k = Some c \<longrightarrow> endpoint_wf s H k c) \<and>
     (\<forall>x \<in># H. m_slot_reserved (snd x) \<and> cs_channels s (fst x) \<noteq> None)"

lemma channel_limit_bounds: "1 \<le> channel_limit d \<and> channel_limit d \<le> CHANNEL_QUEUE_MAX"
  by (auto simp: channel_limit_def CHANNEL_QUEUE_DEFAULT_def CHANNEL_QUEUE_MAX_def)

lemma state_simps [simp]:
  "cs_channels (put_channel k c s) = (cs_channels s)(k \<mapsto> c)"
  "cs_domains (put_channel k c s) = cs_domains s"
  "cs_wakes (put_channel k c s) = cs_wakes s"
  "cs_channels (wake_object k s) = cs_channels s"
  "cs_domains (wake_object k s) = cs_domains s"
  "cs_wakes (wake_object k s) = WakeOther k # cs_wakes s"
  "cs_channels (wake_message k s) = cs_channels s"
  "cs_domains (wake_message k s) = cs_domains s"
  "cs_wakes (wake_message k s) = WakeMessage k # cs_wakes s"
  by (simp_all add: put_channel_def wake_object_def wake_message_def)

lemma wake_peer_of_simps [simp]:
  "cs_channels (wake_peer_of k s) = cs_channels s"
  "cs_domains (wake_peer_of k s) = cs_domains s"
  "cs_wakes (wake_peer_of k s) = (case chan_peer s k of None \<Rightarrow> [] | Some p \<Rightarrow> [WakeOther p]) @ cs_wakes s"
  by (simp_all add: wake_peer_of_def split: option.split)

text \<open>Replacing one endpoint's queue keeps the invariant when its own part of it holds.\<close>

lemma chan_wf_put:
  assumes wf: "chan_wf s H" and c: "cs_channels s k = Some c"
    and s': "cs_channels s' = (cs_channels s)(k \<mapsto> c')"
    and peer: "c_peer c' = c_peer c" and lim: "c_limit c' = c_limit c"
    and depth: "chan_depth c' \<le> c_limit c" and infl: "c_in_flight c' = held_at k H'"
    and inbox: "\<forall>m \<in> set (c_inbox c'). \<not> m_slot_reserved m"
    and other: "\<And>k'. k' \<noteq> k \<Longrightarrow> held_at k' H' = held_at k' H"
    and held: "\<forall>x \<in># H'. m_slot_reserved (snd x) \<and> cs_channels s (fst x) \<noteq> None"
  shows "chan_wf s' H'"
proof -
  have "endpoint_wf s' H' k' d" if d: "cs_channels s' k' = Some d" for k' d
  proof (cases "k' = k")
    case True
    with d s' have "d = c'" by simp
    moreover have "endpoint_wf s H k c" using wf c by (simp add: chan_wf_def)
    ultimately show ?thesis
      using assms True by (auto simp: endpoint_wf_def)
  next
    case False
    with d s' have "cs_channels s k' = Some d" by simp
    with wf have "endpoint_wf s H k' d" by (simp add: chan_wf_def)
    with False c peer show ?thesis by (auto simp: endpoint_wf_def other s')
  qed
  with held show ?thesis by (auto simp: chan_wf_def s')
qed

lemma chan_wf_endpoint: "chan_wf s H \<Longrightarrow> cs_channels s k = Some c \<Longrightarrow> endpoint_wf s H k c"
  by (simp add: chan_wf_def)

lemma chan_wf_held: "chan_wf s H \<Longrightarrow> \<forall>x \<in># H. m_slot_reserved (snd x) \<and> cs_channels s (fst x) \<noteq> None"
  by (simp add: chan_wf_def)

lemma chan_wf_channels: "cs_channels s' = cs_channels s \<Longrightarrow> chan_wf s' H = chan_wf s H"
  by (simp add: chan_wf_def endpoint_wf_def)

section \<open>What each operation does\<close>

lemma charge_queue_message:
  "charge_queue ds d msg = (b, ds', msg') \<Longrightarrow>
     m_id msg' = m_id msg \<and> m_bytes msg' = m_bytes msg \<and> m_caps msg' = m_caps msg \<and>
     m_slot_reserved msg' = m_slot_reserved msg"
  by (auto simp: charge_queue_def Let_def split: prod.splits bool.splits)

definition payload :: "message \<Rightarrow> u64 \<times> u8 list \<times> capability list" where
  "payload m = (m_id m, m_bytes m, m_caps m)"

lemma send_inner_sent:
  assumes "send_inner ring_fits k msg sender s = (None, s')"
  obtains p c msg' ds where "chan_peer s k = Some p" "cs_channels s p = Some c" "chan_depth c < c_limit c"
    "s' = wake_message p (put_channel p (c\<lparr>c_inbox := c_inbox c @ [msg']\<rparr>) (s\<lparr>cs_domains := ds\<rparr>))"
    "payload msg' = payload msg" "m_slot_reserved msg' = m_slot_reserved msg"
    "case sender of None \<Rightarrow> ds = cs_domains s \<and> msg' = msg
     | Some d \<Rightarrow> charge_queue (cs_domains s) d msg = (True, ds, msg')"
proof -
  from assms obtain p c where p: "chan_peer s k = Some p" "cs_channels s p = Some c" "chan_depth c < c_limit c"
    by (auto simp: send_inner_def split: option.splits if_splits)
  obtain b ds msg' where q: "(case sender of None \<Rightarrow> (True, cs_domains s, msg)
      | Some d \<Rightarrow> charge_queue (cs_domains s) d msg) = (b, ds, msg')"
    using prod_cases3 by blast
  with assms p have b: "b" and s': "s' = wake_message p (put_channel p (c\<lparr>c_inbox := c_inbox c @ [msg']\<rparr>) (s\<lparr>cs_domains := ds\<rparr>))"
    by (auto simp: send_inner_def split: if_splits bool.splits)
  have "payload msg' = payload msg \<and> m_slot_reserved msg' = m_slot_reserved msg"
    using q by (auto simp: payload_def charge_queue_message split: option.splits)
  with p s' b q that show thesis by (auto split: option.splits)
qed

lemma send_inner_refused:
  assumes "send_inner ring_fits k msg sender s = (Some (e, caps), s')"
  shows "caps = m_caps msg \<and> cs_channels s' = cs_channels s \<and> cs_wakes s' = cs_wakes s \<and>
    (cs_domains s' = cs_domains s \<or> (\<exists>d msg'. sender = Some d \<and> charge_queue (cs_domains s) d msg = (False, cs_domains s', msg')))"
  using assms charge_queue_message
  by (fastforce simp: send_inner_def split: option.splits if_splits bool.splits prod.splits)

lemma chan_recv_taken:
  assumes "chan_recv k s = (Inr msg', s')"
  obtains c msg rest where "cs_channels s k = Some c" "c_inbox c = msg # rest" "msg' = msg\<lparr>m_charge := None\<rparr>"
    "cs_channels s' = (cs_channels s)(k \<mapsto> c\<lparr>c_inbox := rest\<rparr>)"
    "cs_domains s' = drop_charge (cs_domains s) (m_charge msg)"
    "cs_wakes s' = (if c_limit c \<le> chan_depth c
       then (case chan_peer (s\<lparr>cs_channels := (cs_channels s)(k \<mapsto> c\<lparr>c_inbox := rest\<rparr>)\<rparr>) k of None \<Rightarrow> [] | Some p \<Rightarrow> [WakeOther p])
       else []) @ cs_wakes s"
  using assms
  by (auto simp: chan_recv_def release_queue_charge_def take_queue_charge_def Let_def chan_peer_def
      split: option.splits list.splits if_splits)

lemma chan_recv_refused: "chan_recv k s = (Inl e, s') \<Longrightarrow> s' = s"
  by (auto simp: chan_recv_def Let_def split: option.splits list.splits prod.splits)

lemma recv_identified_taken:
  assumes "recv_identified k i b n s = (Inr msg', s')"
  obtains c msg rest where "cs_channels s k = Some c" "c_inbox c = msg # rest"
    "m_id msg = i" "length (m_bytes msg) \<le> b" "length (m_caps msg) \<le> n"
    "msg' = msg\<lparr>m_slot_reserved := True\<rparr>"
    "s' = put_channel k (c\<lparr>c_inbox := rest, c_in_flight := c_in_flight c + 1\<rparr>) s"
  using assms by (auto simp: recv_identified_def not_less split: option.splits list.splits if_splits)

lemma recv_identified_refused: "recv_identified k i b n s = (Inl e, s') \<Longrightarrow> s' = s"
  by (auto simp: recv_identified_def split: option.splits list.splits if_splits)

lemma commit_delivery_effect:
  assumes "commit_delivery k msg s = (msg', s')" and c: "cs_channels s k = Some c" and res: "m_slot_reserved msg"
  shows "cs_channels s' = (cs_channels s)(k \<mapsto> c\<lparr>c_in_flight := c_in_flight c - 1\<rparr>)"
    and "cs_domains s' = drop_charge (cs_domains s) (m_charge msg)"
    and "cs_wakes s' = (if c_limit c \<le> chan_depth c
       then (case chan_peer s k of None \<Rightarrow> [] | Some p \<Rightarrow> [WakeOther p]) else []) @ cs_wakes s"
    and "msg' = msg\<lparr>m_charge := None, m_slot_reserved := False\<rparr>"
  using assms
  by (auto simp: commit_delivery_def release_queue_charge_def take_queue_charge_def Let_def chan_peer_def
      chan_depth_def split: if_splits option.splits)

lemma return_to_head_effect:
  assumes c: "cs_channels s k = Some c" and res: "m_slot_reserved msg"
  shows "return_to_head k msg s = wake_object k (put_channel k
    (c\<lparr>c_inbox := msg\<lparr>m_slot_reserved := False\<rparr> # c_inbox c, c_in_flight := c_in_flight c - 1\<rparr>) s)"
  using assms by (simp add: return_to_head_def)

lemma chan_drop_effect:
  assumes "cs_channels s k = Some c"
  shows "cs_channels (chan_drop k s) = (cs_channels s)(k := None)"
    and "cs_domains (chan_drop k s) = drain_inbox (c_inbox c) (cs_domains s)"
    and "cs_wakes (chan_drop k s) = (case chan_peer s k of None \<Rightarrow> [] | Some p \<Rightarrow> [WakeOther p]) @ cs_wakes s"
  using assms by (simp_all add: chan_drop_def Let_def chan_peer_def split: option.split)

section \<open>Every step keeps the invariant\<close>

lemma send_inner_wf:
  assumes wf: "chan_wf s H" and new: "\<not> m_slot_reserved msg" and run: "send_inner ring_fits k msg sender s = (r, s')"
  shows "chan_wf s' H"
proof (cases r)
  case None
  with run have "send_inner ring_fits k msg sender s = (None, s')" by simp
  then obtain p c msg' ds where c: "cs_channels s p = Some c" "chan_depth c < c_limit c"
    and s': "s' = wake_message p (put_channel p (c\<lparr>c_inbox := c_inbox c @ [msg']\<rparr>) (s\<lparr>cs_domains := ds\<rparr>))"
    and m: "m_slot_reserved msg' = m_slot_reserved msg"
    by (rule send_inner_sent) (rule that)
  note e = chan_wf_endpoint [OF wf c(1), unfolded endpoint_wf_def]
  have "cs_channels s' = (cs_channels s)(p \<mapsto> c\<lparr>c_inbox := c_inbox c @ [msg']\<rparr>)" by (simp add: s')
  then show ?thesis
    by (rule chan_wf_put [OF wf c(1) _ _ _ _ _ _ _ chan_wf_held [OF wf]])
      (use e c new m in \<open>simp_all add: chan_depth_def\<close>)
next
  case (Some ec)
  with run obtain e caps where "send_inner ring_fits k msg sender s = (Some (e, caps), s')" by (cases ec) auto
  from send_inner_refused [OF this] wf chan_wf_channels [of s' s H] show ?thesis by simp
qed

lemma chan_recv_wf:
  assumes wf: "chan_wf s H" and run: "chan_recv k s = (r, s')"
  shows "chan_wf s' H"
proof (cases r)
  case (Inl e)
  with run chan_recv_refused wf show ?thesis by metis
next
  case (Inr msg')
  with run have "chan_recv k s = (Inr msg', s')" by simp
  then obtain c msg rest where c: "cs_channels s k = Some c" "c_inbox c = msg # rest"
    and s': "cs_channels s' = (cs_channels s)(k \<mapsto> c\<lparr>c_inbox := rest\<rparr>)"
    by (rule chan_recv_taken) (rule that)
  note e = chan_wf_endpoint [OF wf c(1), unfolded endpoint_wf_def]
  show ?thesis
    by (rule chan_wf_put [OF wf c(1) s' _ _ _ _ _ _ chan_wf_held [OF wf]])
      (use e c in \<open>simp_all add: chan_depth_def\<close>)
qed

lemma recv_identified_wf:
  assumes wf: "chan_wf s H" and run: "recv_identified k i b n s = (Inr msg', s')"
  shows "chan_wf s' (add_mset (k, msg') H)"
proof -
  from run obtain c msg rest where c: "cs_channels s k = Some c" "c_inbox c = msg # rest"
    and m: "msg' = msg\<lparr>m_slot_reserved := True\<rparr>"
    and s': "s' = put_channel k (c\<lparr>c_inbox := rest, c_in_flight := c_in_flight c + 1\<rparr>) s"
    by (rule recv_identified_taken) (rule that)
  note e = chan_wf_endpoint [OF wf c(1), unfolded endpoint_wf_def]
  have "cs_channels s' = (cs_channels s)(k \<mapsto> c\<lparr>c_inbox := rest, c_in_flight := c_in_flight c + 1\<rparr>)"
    by (simp add: s')
  then show ?thesis
    by (rule chan_wf_put [OF wf c(1)])
      (use e c m chan_wf_held [OF wf] in \<open>simp_all add: chan_depth_def\<close>)
qed

lemma held_endpoint:
  assumes "chan_wf s (add_mset (k, msg) H)"
  obtains c where "cs_channels s k = Some c" "m_slot_reserved msg" "c_in_flight c = Suc (held_at k H)"
    "endpoint_wf s (add_mset (k, msg) H) k c"
proof -
  from assms obtain c where c: "cs_channels s k = Some c" "m_slot_reserved msg"
    by (auto simp: chan_wf_def)
  with chan_wf_endpoint [OF assms c(1)] that show thesis by (simp add: endpoint_wf_def)
qed

lemma commit_delivery_wf:
  assumes wf: "chan_wf s (add_mset (k, msg) H)" and run: "commit_delivery k msg s = (msg', s')"
  shows "chan_wf s' H"
proof -
  from wf obtain c where c: "cs_channels s k = Some c" "m_slot_reserved msg" "c_in_flight c = Suc (held_at k H)"
    "endpoint_wf s (add_mset (k, msg) H) k c"
    by (rule held_endpoint) (rule that)
  show ?thesis
    by (rule chan_wf_put [OF wf c(1) commit_delivery_effect(1) [OF run c(1,2)]])
      (use c chan_wf_held [OF wf] in \<open>simp_all add: endpoint_wf_def chan_depth_def\<close>)
qed

lemma return_to_head_wf:
  assumes wf: "chan_wf s (add_mset (k, msg) H)"
  shows "chan_wf (return_to_head k msg s) H"
proof -
  from wf obtain c where c: "cs_channels s k = Some c" "m_slot_reserved msg" "c_in_flight c = Suc (held_at k H)"
    "endpoint_wf s (add_mset (k, msg) H) k c"
    by (rule held_endpoint) (rule that)
  have "cs_channels (return_to_head k msg s) = (cs_channels s)(k \<mapsto>
      c\<lparr>c_inbox := msg\<lparr>m_slot_reserved := False\<rparr> # c_inbox c, c_in_flight := c_in_flight c - 1\<rparr>)"
    by (simp add: return_to_head_effect [OF c(1,2)])
  then show ?thesis
    by (rule chan_wf_put [OF wf c(1)])
      (use c chan_wf_held [OF wf] in \<open>simp_all add: endpoint_wf_def chan_depth_def\<close>)
qed

lemma create_wf:
  assumes wf: "chan_wf s H" and fresh: "ka \<noteq> kb" "cs_channels s ka = None" "cs_channels s kb = None"
    "\<forall>k c. cs_channels s k = Some c \<longrightarrow> c_peer c \<noteq> Some ka \<and> c_peer c \<noteq> Some kb"
    and run: "try_create_with_depth fa fb ka kb depth s = (r, s')"
  shows "chan_wf s' H"
proof (cases "fa \<and> fb")
  case True
  let ?a = "channel_endpoint (channel_limit depth) (Some kb)" let ?b = "channel_endpoint (channel_limit depth) (Some ka)"
  from run True have s': "cs_channels s' = (cs_channels s)(ka \<mapsto> ?a, kb \<mapsto> ?b)"
    by (auto simp: try_create_with_depth_def Let_def)
  have unheld: "held_at k H = 0" if "cs_channels s k = None" for k
    using wf that by (auto simp: held_at_def chan_wf_def filter_mset_eq_conv size_eq_0_iff_empty)
  have "endpoint_wf s' H k c" if k: "cs_channels s' k = Some c" for k c
  proof (cases "k = ka \<or> k = kb")
    case True
    with k fresh unheld show ?thesis
      using channel_limit_bounds [of depth]
      by (auto simp: s' endpoint_wf_def channel_endpoint_def chan_depth_def split: if_splits)
  next
    case False
    with k have "cs_channels s k = Some c" by (simp add: s')
    with chan_wf_endpoint [OF wf this] fresh(4) show ?thesis by (auto simp: endpoint_wf_def s')
  qed
  moreover have "\<forall>x \<in># H. m_slot_reserved (snd x) \<and> cs_channels s' (fst x) \<noteq> None"
    using wf by (auto simp: chan_wf_def s')
  ultimately show ?thesis by (simp add: chan_wf_def)
next
  case False
  with run wf show ?thesis by (auto simp: try_create_with_depth_def Let_def split: if_splits)
qed

lemma chan_drop_wf:
  assumes wf: "chan_wf s H" and none: "held_at k H = 0"
  shows "chan_wf (chan_drop k s) H"
proof (cases "cs_channels s k")
  case (Some c)
  note ch = chan_drop_effect(1) [OF Some]
  have "fst x \<noteq> k" if "x \<in># H" for x
    using none that by (auto simp: held_at_def size_eq_0_iff_empty filter_mset_eq_conv)
  moreover have "endpoint_wf (chan_drop k s) H k' d" if "cs_channels (chan_drop k s) k' = Some d" for k' d
  proof -
    from that have "cs_channels s k' = Some d" by (auto simp: ch split: if_splits)
    from chan_wf_endpoint [OF wf this] show ?thesis by (simp add: endpoint_wf_def ch)
  qed
  ultimately show ?thesis
    using chan_wf_held [OF wf] by (simp add: chan_wf_def ch)
qed (use wf in \<open>simp add: chan_drop_def\<close>)

lemma chan_step_wf:
  assumes "chan_step (s, H) (s', H')" and "chan_wf s H"
  shows "chan_wf s' H'"
  using assms
  by cases (auto intro: send_inner_wf chan_recv_wf recv_identified_wf commit_delivery_wf return_to_head_wf
      create_wf chan_drop_wf)

end
