(* ===== verification/Channel_Ledger.thy ===== *)
theory Channel_Ledger
  imports Channel_Steps
begin

text \<open>
  The bytes in transit. A message that was charged carries its charge from the send to the commit
  of its delivery, through the queue and through the hands of a receive; the in-transit counters of
  the sender's line equal, at every moment, what the undelivered messages carry, up to a constant.
\<close>

section \<open>What the undelivered messages owe\<close>

definition msg_owes :: "domains \<Rightarrow> domain_id \<Rightarrow> message \<Rightarrow> nat" where
  "msg_owes ds a m =
     (case m_charge m of None \<Rightarrow> 0 | Some q \<Rightarrow> if a \<in> line ds (qc_domain q) then qc_bytes q else 0)"

definition list_owes :: "domains \<Rightarrow> domain_id \<Rightarrow> message list \<Rightarrow> nat" where
  "list_owes ds a ms = (\<Sum>m \<leftarrow> ms. msg_owes ds a m)"

definition queued :: "chan_state \<Rightarrow> domain_id \<Rightarrow> nat" where
  "queued s a = (\<Sum>k \<in> dom (cs_channels s). list_owes (cs_domains s) a (c_inbox (the (cs_channels s k))))"

definition in_hand :: "domains \<Rightarrow> held \<Rightarrow> domain_id \<Rightarrow> nat" where
  "in_hand ds H a = (\<Sum>x \<in># H. msg_owes ds a (snd x))"

definition owed :: "chan_state \<Rightarrow> held \<Rightarrow> domain_id \<Rightarrow> nat" where
  "owed s H a = queued s a + in_hand (cs_domains s) H a"

lemma same_lines_owes:
  assumes "same_lines ds ds'"
  shows "msg_owes ds' a m = msg_owes ds a m" and "list_owes ds' a ms = list_owes ds a ms"
    and "in_hand ds' H a = in_hand ds H a"
proof -
  show one: "msg_owes ds' a m = msg_owes ds a m" for m
    using assms by (simp add: msg_owes_def same_lines_def split: option.split)
  show "list_owes ds' a ms = list_owes ds a ms" "in_hand ds' H a = in_hand ds H a"
    by (simp_all add: list_owes_def in_hand_def one)
qed

lemma list_owes_simps [simp]:
  "list_owes ds a [] = 0"
  "list_owes ds a (m # ms) = msg_owes ds a m + list_owes ds a ms"
  "list_owes ds a (ms @ ns) = list_owes ds a ms + list_owes ds a ns"
  by (simp_all add: list_owes_def)

lemma in_hand_simps [simp]:
  "in_hand ds {#} a = 0"
  "in_hand ds (add_mset (k, m) H) a = msg_owes ds a m + in_hand ds H a"
  by (simp_all add: in_hand_def)

lemma msg_owes_simps [simp]:
  "msg_owes ds a (m\<lparr>m_slot_reserved := b\<rparr>) = msg_owes ds a m"
  "msg_owes ds a (m\<lparr>m_charge := None\<rparr>) = 0"
  by (simp_all add: msg_owes_def)

section \<open>What the operations do to the counters\<close>

lemma drop_charge_effect:
  "same_lines ds (drop_charge ds (m_charge m))"
  "used (drop_charge ds (m_charge m)) IpcQueue a = used ds IpcQueue a - msg_owes ds a m"
  by (simp add: drop_charge_def same_lines_def uncharge_ipc_queue_def uncharge_hier_line split: option.split)
    (simp add: drop_charge_def msg_owes_def uncharge_ipc_queue_def ledger.given_back split: option.split)

lemma drain_inbox_effect:
  "same_lines ds (drain_inbox ms ds) \<and>
     used (drain_inbox ms ds) IpcQueue a = used ds IpcQueue a - list_owes ds a ms"
proof (induction ms arbitrary: ds)
  case (Cons m ms)
  have d: "same_lines ds (drop_charge ds (m_charge m))" by (rule drop_charge_effect)
  with Cons.IH [of "drop_charge ds (m_charge m)"] show ?case
    using same_lines_trans [OF d] by (auto simp: take_queue_charge_def drop_charge_effect same_lines_owes [OF d])
qed simp

lemma charge_queue_effect:
  assumes room: "spare ds IpcQueue d (length (m_bytes msg))" and run: "charge_queue ds d msg = (b, ds', msg')"
    and new: "m_charge msg = None"
  shows "same_lines ds ds' \<and> used ds' IpcQueue a = used ds IpcQueue a + msg_owes ds a msg' \<and> (\<not> b \<longrightarrow> ds' = ds)"
proof -
  from run have t: "try_charge_hier ds d (length (m_bytes msg)) IpcQueue = (b, ds')"
    by (auto simp: charge_queue_def try_charge_ipc_queue_def Let_def split: prod.splits bool.splits)
  have lines: "same_lines ds ds'"
    using t room by (auto simp: spare_def try_charge_hier_spec same_lines_def split: if_splits)
  show ?thesis
  proof (cases b)
    case True
    with run t have "m_charge msg' = Some \<lparr>qc_domain = d, qc_bytes = length (m_bytes msg)\<rparr>"
      by (auto simp: charge_queue_def try_charge_ipc_queue_def Let_def)
    with True t lines ledger.take_granted [OF room, of ds' a] show ?thesis by (simp add: msg_owes_def)
  next
    case False
    with run t have "msg' = msg" by (auto simp: charge_queue_def try_charge_ipc_queue_def Let_def)
    moreover have "ds' = ds" using False t ledger.take_refused [OF room] by simp
    ultimately show ?thesis using new by (simp add: msg_owes_def)
  qed
qed

lemma queued_put:
  assumes fin: "finite (dom (cs_channels s))" and c: "cs_channels s k = Some c"
    and s': "cs_channels s' = (cs_channels s)(k \<mapsto> c')" and lines: "same_lines (cs_domains s) (cs_domains s')"
  shows "queued s' a + list_owes (cs_domains s) a (c_inbox c) = queued s a + list_owes (cs_domains s) a (c_inbox c')"
proof -
  let ?w = "\<lambda>cs k. list_owes (cs_domains s) a (c_inbox (the (cs k)))"
  have dom: "dom (cs_channels s') = dom (cs_channels s)" "k \<in> dom (cs_channels s)"
    using c s' by auto
  have split: "(\<Sum>j \<in> dom (cs_channels s). ?w cs j) = ?w cs k + (\<Sum>j \<in> dom (cs_channels s) - {k}. ?w cs j)" for cs
    using fin dom(2) by (rule sum.remove)
  have "(\<Sum>j \<in> dom (cs_channels s) - {k}. ?w (cs_channels s') j) = (\<Sum>j \<in> dom (cs_channels s) - {k}. ?w (cs_channels s) j)"
    by (rule sum.cong) (simp_all add: s')
  with split [of "cs_channels s'"] split [of "cs_channels s"] show ?thesis
    by (simp add: queued_def dom(1) same_lines_owes(2) [OF lines] s' c insert_absorb [OF dom(2)])
qed

lemma queued_same:
  "cs_channels s' = cs_channels s \<Longrightarrow> same_lines (cs_domains s) (cs_domains s') \<Longrightarrow> queued s' a = queued s a"
  by (simp add: queued_def same_lines_owes)

section \<open>Every step moves the counters by what it moves the debt\<close>

text \<open>The counters of every domain include what the undelivered messages carry for it.\<close>

definition covered :: "chan_state \<Rightarrow> held \<Rightarrow> bool" where
  "covered s H \<longleftrightarrow> finite (dom (cs_channels s)) \<and> (\<forall>a. owed s H a \<le> used (cs_domains s) IpcQueue a)"

definition balanced :: "chan_state \<Rightarrow> held \<Rightarrow> chan_state \<Rightarrow> held \<Rightarrow> bool" where
  "balanced s H s' H' \<longleftrightarrow> finite (dom (cs_channels s')) \<and>
     (\<forall>a. used (cs_domains s') IpcQueue a + owed s H a = used (cs_domains s) IpcQueue a + owed s' H' a)"

lemma balanced_covered: "balanced s H s' H' \<Longrightarrow> covered s H \<Longrightarrow> covered s' H'"
  unfolding balanced_def covered_def by (metis add.commute add_le_cancel_left nat_add_left_cancel_le)

lemma balanced_trans:
  assumes "balanced s H s1 H1" and "balanced s1 H1 s2 H2"
  shows "balanced s H s2 H2"
proof -
  have "used (cs_domains s2) IpcQueue a + owed s H a = used (cs_domains s) IpcQueue a + owed s2 H2 a" for a
  proof -
    have "used (cs_domains s1) IpcQueue a + owed s H a = used (cs_domains s) IpcQueue a + owed s1 H1 a"
      "used (cs_domains s2) IpcQueue a + owed s1 H1 a = used (cs_domains s1) IpcQueue a + owed s2 H2 a"
      using assms by (simp_all add: balanced_def)
    then show ?thesis by linarith
  qed
  with assms show ?thesis by (simp add: balanced_def)
qed

lemma send_balanced:
  assumes cov: "covered s H" and new: "m_charge msg = None"
    and room: "\<forall>d. sender = Some d \<longrightarrow> spare (cs_domains s) IpcQueue d (length (m_bytes msg))"
    and run: "send_inner ring_fits k msg sender s = (r, s')"
  shows "balanced s H s' H"
proof (cases r)
  case None
  with run have "send_inner ring_fits k msg sender s = (None, s')" by simp
  then obtain p c msg' ds where c: "cs_channels s p = Some c"
    and s': "s' = wake_message p (put_channel p (c\<lparr>c_inbox := c_inbox c @ [msg']\<rparr>) (s\<lparr>cs_domains := ds\<rparr>))"
    and q: "case sender of None \<Rightarrow> ds = cs_domains s \<and> msg' = msg
     | Some d \<Rightarrow> charge_queue (cs_domains s) d msg = (True, ds, msg')"
    by (rule send_inner_sent) (rule that)
  have e: "same_lines (cs_domains s) ds \<and> used ds IpcQueue a = used (cs_domains s) IpcQueue a + msg_owes (cs_domains s) a msg'" for a
  proof (cases sender)
    case None
    with q new show ?thesis by (simp add: msg_owes_def)
  next
    case (Some d)
    with q charge_queue_effect [OF _ _ new, of "cs_domains s" d True ds msg' a] room show ?thesis by simp
  qed
  have ch: "cs_channels s' = (cs_channels s)(p \<mapsto> c\<lparr>c_inbox := c_inbox c @ [msg']\<rparr>)" "cs_domains s' = ds"
    by (simp_all add: s')
  have fin: "finite (dom (cs_channels s))" using cov by (simp add: covered_def)
  have lines: "same_lines (cs_domains s) (cs_domains s')" using e by (simp add: ch)
  have "used (cs_domains s') IpcQueue a + owed s H a = used (cs_domains s) IpcQueue a + owed s' H a" for a
    using queued_put [OF fin c ch(1) lines, of a] e [of a] same_lines_owes(3) [OF lines, of H a]
    by (simp add: owed_def ch(2))
  then show ?thesis using fin by (simp add: balanced_def ch(1))
next
  case (Some ec)
  with run obtain e caps where "send_inner ring_fits k msg sender s = (Some (e, caps), s')" by (cases ec) auto
  note e = send_inner_refused [OF this]
  then have "cs_domains s' = cs_domains s"
    using charge_queue_effect [OF _ _ new, of "cs_domains s" _ False] room by blast
  with e cov queued_same [of s' s] show ?thesis by (simp add: balanced_def owed_def covered_def)
qed

lemma put_balanced:
  assumes cov: "covered s H" and c: "cs_channels s k = Some c"
    and ch: "cs_channels s' = (cs_channels s)(k \<mapsto> c')"
    and ds: "cs_domains s' = drop_charge (cs_domains s) (m_charge msg)"
    and moved: "\<And>a. list_owes (cs_domains s) a (c_inbox c') + in_hand (cs_domains s) H' a + msg_owes (cs_domains s) a msg
       = list_owes (cs_domains s) a (c_inbox c) + in_hand (cs_domains s) H a"
  shows "balanced s H s' H'"
proof -
  have lines: "same_lines (cs_domains s) (cs_domains s')" unfolding ds by (rule drop_charge_effect)
  have fin: "finite (dom (cs_channels s))" using cov by (simp add: covered_def)
  have "used (cs_domains s') IpcQueue a + owed s H a = used (cs_domains s) IpcQueue a + owed s' H' a" for a
  proof -
    have "owed s H a \<le> used (cs_domains s) IpcQueue a" using cov by (simp add: covered_def)
    moreover have "owed s H a = owed s' H' a + msg_owes (cs_domains s) a msg"
      using queued_put [OF fin c ch lines, of a] moved [of a] by (simp add: owed_def same_lines_owes(3) [OF lines])
    moreover have "used (cs_domains s') IpcQueue a = used (cs_domains s) IpcQueue a - msg_owes (cs_domains s) a msg"
      unfolding ds by (rule drop_charge_effect)
    ultimately show ?thesis by linarith
  qed
  with fin show ?thesis by (simp add: balanced_def ch)
qed

lemma recv_balanced:
  assumes cov: "covered s H" and run: "chan_recv k s = (r, s')"
  shows "balanced s H s' H"
proof (cases r)
  case (Inl e)
  with run chan_recv_refused have "s' = s" by metis
  with cov show ?thesis by (simp add: balanced_def covered_def)
next
  case (Inr msg')
  with run have "chan_recv k s = (Inr msg', s')" by simp
  then obtain c msg rest where c: "cs_channels s k = Some c" "c_inbox c = msg # rest"
    and ch: "cs_channels s' = (cs_channels s)(k \<mapsto> c\<lparr>c_inbox := rest\<rparr>)"
      "cs_domains s' = drop_charge (cs_domains s) (m_charge msg)"
    by (rule chan_recv_taken) (rule that)
  show ?thesis by (rule put_balanced [OF cov c(1) ch]) (simp add: c)
qed

lemma take_balanced:
  assumes cov: "covered s H" and run: "recv_identified k i b n s = (Inr msg', s')"
  shows "balanced s H s' (add_mset (k, msg') H)"
proof -
  from run obtain c msg rest where c: "cs_channels s k = Some c" "c_inbox c = msg # rest"
    and m: "msg' = msg\<lparr>m_slot_reserved := True\<rparr>"
    and s': "s' = put_channel k (c\<lparr>c_inbox := rest, c_in_flight := c_in_flight c + 1\<rparr>) s"
    by (rule recv_identified_taken) (rule that)
  have ch: "cs_channels s' = (cs_channels s)(k \<mapsto> c\<lparr>c_inbox := rest, c_in_flight := c_in_flight c + 1\<rparr>)"
    "cs_domains s' = drop_charge (cs_domains s) (m_charge (message_new 0 [] []))"
    by (simp_all add: s' drop_charge_def message_new_def)
  show ?thesis
    by (rule put_balanced [OF cov c(1) ch]) (simp add: c m msg_owes_def message_new_def)
qed

lemma commit_balanced:
  assumes cov: "covered s (add_mset (k, msg) H)" and wf: "chan_wf s (add_mset (k, msg) H)"
    and run: "commit_delivery k msg s = (msg', s')"
  shows "balanced s (add_mset (k, msg) H) s' H"
proof -
  from wf obtain c where c: "cs_channels s k = Some c" "m_slot_reserved msg"
    by (rule held_endpoint) (rule that)
  note e = commit_delivery_effect [OF run c]
  show ?thesis by (rule put_balanced [OF cov c(1) e(1,2)]) simp
qed

lemma return_balanced:
  assumes cov: "covered s (add_mset (k, msg) H)" and wf: "chan_wf s (add_mset (k, msg) H)"
  shows "balanced s (add_mset (k, msg) H) (return_to_head k msg s) H"
proof -
  from wf obtain c where c: "cs_channels s k = Some c" "m_slot_reserved msg"
    by (rule held_endpoint) (rule that)
  let ?c = "c\<lparr>c_inbox := msg\<lparr>m_slot_reserved := False\<rparr> # c_inbox c, c_in_flight := c_in_flight c - 1\<rparr>"
  have ch: "cs_channels (return_to_head k msg s) = (cs_channels s)(k \<mapsto> ?c)"
    "cs_domains (return_to_head k msg s) = drop_charge (cs_domains s) (m_charge (message_new 0 [] []))"
    by (simp_all add: return_to_head_effect [OF c] drop_charge_def message_new_def)
  show ?thesis
    by (rule put_balanced [OF cov c(1) ch]) (simp add: msg_owes_def message_new_def)
qed

lemma create_balanced:
  assumes cov: "covered s H" and fresh: "ka \<noteq> kb" "cs_channels s ka = None" "cs_channels s kb = None"
    and run: "try_create_with_depth fa fb ka kb depth s = (r, s')"
  shows "balanced s H s' H"
proof (cases "fa \<and> fb")
  case True
  let ?e = "channel_endpoint (channel_limit depth)"
  from run True have s': "cs_channels s' = (cs_channels s)(ka \<mapsto> ?e (Some kb), kb \<mapsto> ?e (Some ka))"
    "cs_domains s' = cs_domains s"
    by (auto simp: try_create_with_depth_def Let_def)
  have fin: "finite (dom (cs_channels s))" using cov by (simp add: covered_def)
  have notin: "ka \<notin> dom (cs_channels s)" "kb \<notin> dom (cs_channels s)" using fresh by auto
  have "queued s' a = queued s a" for a
  proof -
    have "(\<Sum>k \<in> dom (cs_channels s). list_owes (cs_domains s) a (c_inbox (the (cs_channels s' k)))) = queued s a"
      unfolding queued_def by (rule sum.cong) (use notin in \<open>auto simp: s'\<close>)
    then show ?thesis
      using fin notin fresh(1) by (simp add: queued_def s' channel_endpoint_def)
  qed
  with fin show ?thesis by (simp add: balanced_def owed_def s')
next
  case False
  with run have "s' = s" by (auto simp: try_create_with_depth_def Let_def split: if_splits)
  with cov show ?thesis by (simp add: balanced_def covered_def)
qed

lemma drop_balanced:
  assumes cov: "covered s H"
  shows "balanced s H (chan_drop k s) H"
proof (cases "cs_channels s k")
  case None
  with cov show ?thesis by (simp add: chan_drop_def balanced_def covered_def)
next
  case (Some c)
  note e = chan_drop_effect [OF Some]
  have fin: "finite (dom (cs_channels s))" using cov by (simp add: covered_def)
  have lines: "same_lines (cs_domains s) (cs_domains (chan_drop k s))"
    unfolding e using drain_inbox_effect by blast
  have "used (cs_domains (chan_drop k s)) IpcQueue a + owed s H a = used (cs_domains s) IpcQueue a + owed (chan_drop k s) H a" for a
  proof -
    have "queued s a = list_owes (cs_domains s) a (c_inbox c) + queued (chan_drop k s) a"
      unfolding queued_def e(1) dom_fun_upd using Some
      by (subst sum.remove [OF fin, of k]) (auto simp: same_lines_owes(2) [OF lines] e(1) intro!: sum.cong)
    moreover have "owed s H a \<le> used (cs_domains s) IpcQueue a" using cov by (simp add: covered_def)
    ultimately show ?thesis
      using drain_inbox_effect [of "cs_domains s" "c_inbox c" a]
      by (simp add: owed_def e(2) same_lines_owes(3) [OF lines, unfolded e(2)])
  qed
  with fin show ?thesis by (simp add: balanced_def e(1))
qed

lemma chan_step_balanced:
  assumes "chan_step (s, H) (s', H')" and "chan_wf s H" and "covered s H"
  shows "balanced s H s' H'"
  using assms
proof cases
  case (on_send msg sender ring_fits k r)
  with assms(3) show ?thesis using send_balanced by blast
next
  case (on_recv k r)
  with assms(3) show ?thesis using recv_balanced by blast
next
  case (on_take k i b n msg)
  with assms(3) show ?thesis using take_balanced by blast
next
  case (on_commit k msg msg')
  with assms(2,3) show ?thesis using commit_balanced by blast
next
  case (on_return k msg)
  with assms(2,3) show ?thesis using return_balanced by blast
next
  case (on_create ka kb fa fb depth r)
  with assms(3) show ?thesis using create_balanced by blast
next
  case (on_drop k)
  with assms(3) show ?thesis using drop_balanced by blast
qed

end
