(* ===== verification/Channel_Wakes.thy ===== *)
theory Channel_Wakes
  imports Channel_Ledger
begin

text \<open>
  Readiness and order. No operation makes an endpoint readable or writable without waking it, so a
  thread that found it not ready and went to sleep on it is told; and what one receiver takes from
  an endpoint is exactly what was sent to it, in order, each message once.
\<close>

section \<open>Wakes\<close>

definition becomes_ready :: "chan_state \<Rightarrow> chan_state \<Rightarrow> koid \<Rightarrow> bool" where
  "becomes_ready s s' k \<longleftrightarrow> cs_channels s k \<noteq> None \<and> cs_channels s' k \<noteq> None \<and>
     (is_readable s' k \<and> \<not> is_readable s k \<or> is_writable s' k \<and> \<not> is_writable s k)"

definition ready_woken :: "chan_state \<Rightarrow> chan_state \<Rightarrow> bool" where
  "ready_woken s s' \<longleftrightarrow>
     (\<exists>new. cs_wakes s' = new @ cs_wakes s \<and> (\<forall>k. becomes_ready s s' k \<longrightarrow> k \<in> woken ` set new))"

lemma not_becomes_ready: "cs_channels s' = cs_channels s \<Longrightarrow> \<not> becomes_ready s s' k"
  by (simp add: becomes_ready_def is_readable_def is_writable_def is_peer_closed_def chan_peer_def
      split: option.split)

lemma ready_woken_same: "cs_channels s' = cs_channels s \<Longrightarrow> cs_wakes s' = cs_wakes s \<Longrightarrow> ready_woken s s'"
  by (simp add: ready_woken_def not_becomes_ready)

lemma chan_peer_put:
  assumes "cs_channels s k = Some c" and "cs_channels s' = (cs_channels s)(k \<mapsto> c')" and "c_peer c' = c_peer c"
  shows "chan_peer s' j = chan_peer s j"
  using assms by (auto simp: chan_peer_def split: option.splits)

lemma chan_peer_back:
  assumes "chan_wf s H" and "chan_peer s j = Some k"
  shows "chan_peer s k = Some j" and "j \<noteq> k"
proof -
  from assms(2) obtain c where c: "cs_channels s j = Some c" "c_peer c = Some k" "cs_channels s k \<noteq> None"
    by (auto simp: chan_peer_def split: option.splits if_splits)
  then obtain c' where c': "cs_channels s k = Some c'" by blast
  with chan_wf_endpoint [OF assms(1) c(1)] c(2) have "c_peer c' = Some j" "k \<noteq> j" by (auto simp: endpoint_wf_def)
  with c c' show "chan_peer s k = Some j" "j \<noteq> k" by (auto simp: chan_peer_def)
qed

lemma ready_woken_put:
  assumes wf: "chan_wf s H" and c: "cs_channels s k = Some c"
    and ch: "cs_channels s' = (cs_channels s)(k \<mapsto> c')" "c_peer c' = c_peer c" "c_limit c' = c_limit c"
    and new: "cs_wakes s' = new @ cs_wakes s"
    and reader: "c_inbox c = [] \<Longrightarrow> c_inbox c' \<noteq> [] \<Longrightarrow> k \<in> woken ` set new"
    and writer: "\<And>p. c_limit c \<le> chan_depth c \<Longrightarrow> chan_depth c' < c_limit c \<Longrightarrow> chan_peer s k = Some p \<Longrightarrow> p \<in> woken ` set new"
  shows "ready_woken s s'"
proof -
  note peer = chan_peer_put [OF c ch(1,2)]
  have "j \<in> woken ` set new" if j: "becomes_ready s s' j" for j
  proof (cases "is_readable s' j \<and> \<not> is_readable s j")
    case True
    then have "j = k" "c_inbox c = []" "c_inbox c' \<noteq> []"
      using c by (auto simp: is_readable_def is_peer_closed_def peer ch(1) split: option.splits if_splits)
    with reader show ?thesis by simp
  next
    case False
    with j have w: "is_writable s' j" "\<not> is_writable s j" by (auto simp: becomes_ready_def)
    then obtain p d where p: "chan_peer s j = Some p" "cs_channels s p = Some d" "c_limit d \<le> chan_depth d"
      by (auto simp: is_writable_def not_less split: option.splits)
    with w(1) have "p = k" by (auto simp: is_writable_def peer ch(1) split: if_splits)
    with p c w(1) have full: "c_limit c \<le> chan_depth c" "chan_depth c' < c_limit c"
      by (auto simp: is_writable_def peer ch)
    from chan_peer_back(1) [OF wf p(1)] \<open>p = k\<close> have "chan_peer s k = Some j" by simp
    from writer [OF full this] show ?thesis .
  qed
  with new show ?thesis by (auto simp: ready_woken_def)
qed

lemma send_woken:
  assumes wf: "chan_wf s H" and run: "send_inner ring_fits k msg sender s = (r, s')"
  shows "ready_woken s s'"
proof (cases r)
  case None
  with run have "send_inner ring_fits k msg sender s = (None, s')" by simp
  then obtain p c msg' ds where c: "cs_channels s p = Some c"
    and s': "s' = wake_message p (put_channel p (c\<lparr>c_inbox := c_inbox c @ [msg']\<rparr>) (s\<lparr>cs_domains := ds\<rparr>))"
    by (rule send_inner_sent) (rule that)
  show ?thesis
    by (rule ready_woken_put [OF wf c, of s' "c\<lparr>c_inbox := c_inbox c @ [msg']\<rparr>" "[WakeMessage p]"])
      (simp_all add: s' chan_depth_def)
next
  case (Some ec)
  with run obtain e caps where "send_inner ring_fits k msg sender s = (Some (e, caps), s')" by (cases ec) auto
  from send_inner_refused [OF this] show ?thesis by (intro ready_woken_same) simp_all
qed

lemma recv_woken:
  assumes wf: "chan_wf s H" and run: "chan_recv k s = (r, s')"
  shows "ready_woken s s'"
proof (cases r)
  case (Inl e)
  with run chan_recv_refused show ?thesis by (metis ready_woken_same)
next
  case (Inr msg')
  with run have "chan_recv k s = (Inr msg', s')" by simp
  then obtain c msg rest where c: "cs_channels s k = Some c" "c_inbox c = msg # rest"
    and ch: "cs_channels s' = (cs_channels s)(k \<mapsto> c\<lparr>c_inbox := rest\<rparr>)"
    and w: "cs_wakes s' = (if c_limit c \<le> chan_depth c
       then (case chan_peer (s\<lparr>cs_channels := (cs_channels s)(k \<mapsto> c\<lparr>c_inbox := rest\<rparr>)\<rparr>) k of None \<Rightarrow> [] | Some p \<Rightarrow> [WakeOther p])
       else []) @ cs_wakes s"
    by (rule chan_recv_taken) (rule that)
  have "chan_peer (s\<lparr>cs_channels := (cs_channels s)(k \<mapsto> c\<lparr>c_inbox := rest\<rparr>)\<rparr>) k = chan_peer s k"
    by (rule chan_peer_put [OF c(1), of _ "c\<lparr>c_inbox := rest\<rparr>"]) simp_all
  note w' = w [unfolded this]
  show ?thesis
  proof (rule ready_woken_put [OF wf c(1) ch _ _ w'])
    assume "c_inbox c = []"
    with c(2) have False by simp
    then show "k \<in> woken ` set (if c_limit c \<le> chan_depth c
       then (case chan_peer s k of None \<Rightarrow> [] | Some p \<Rightarrow> [WakeOther p]) else [])" ..
  qed simp_all
qed

lemma take_woken:
  assumes wf: "chan_wf s H" and run: "recv_identified k i b n s = (Inr msg', s')"
  shows "ready_woken s s'"
proof -
  from run obtain c msg rest where c: "cs_channels s k = Some c" "c_inbox c = msg # rest"
    and s': "s' = put_channel k (c\<lparr>c_inbox := rest, c_in_flight := c_in_flight c + 1\<rparr>) s"
    by (rule recv_identified_taken) (rule that)
  show ?thesis
    by (rule ready_woken_put [OF wf c(1), of s' "c\<lparr>c_inbox := rest, c_in_flight := c_in_flight c + 1\<rparr>" "[]"])
      (simp_all add: s' c(2) chan_depth_def)
qed

lemma commit_woken:
  assumes wf: "chan_wf s (add_mset (k, msg) H)" and run: "commit_delivery k msg s = (msg', s')"
  shows "ready_woken s s'"
proof -
  from wf obtain c where c: "cs_channels s k = Some c" "m_slot_reserved msg"
    by (rule held_endpoint) (rule that)
  note e = commit_delivery_effect [OF run c]
  show ?thesis
  proof (rule ready_woken_put [OF wf c(1) e(1) _ _ e(3)])
    assume "c_inbox c = []" and "c_inbox (c\<lparr>c_in_flight := c_in_flight c - 1\<rparr>) \<noteq> []"
    then have False by simp
    then show "k \<in> woken ` set (if c_limit c \<le> chan_depth c
       then (case chan_peer s k of None \<Rightarrow> [] | Some p \<Rightarrow> [WakeOther p]) else [])" ..
  qed simp_all
qed

lemma return_woken:
  assumes wf: "chan_wf s (add_mset (k, msg) H)"
  shows "ready_woken s (return_to_head k msg s)"
proof -
  from wf obtain c where c: "cs_channels s k = Some c" "m_slot_reserved msg" "c_in_flight c = Suc (held_at k H)"
    by (rule held_endpoint) (rule that)
  let ?c = "c\<lparr>c_inbox := msg\<lparr>m_slot_reserved := False\<rparr> # c_inbox c, c_in_flight := c_in_flight c - 1\<rparr>"
  show ?thesis
    by (rule ready_woken_put [OF wf c(1), of _ ?c "[WakeOther k]"])
      (simp_all add: return_to_head_effect [OF c(1,2)] chan_depth_def c(3))
qed

lemma create_woken:
  assumes fresh: "ka \<noteq> kb" "cs_channels s ka = None" "cs_channels s kb = None"
      "\<forall>k c. cs_channels s k = Some c \<longrightarrow> c_peer c \<noteq> Some ka \<and> c_peer c \<noteq> Some kb"
    and run: "try_create_with_depth fa fb ka kb depth s = (r, s')"
  shows "ready_woken s s'"
proof -
  have w: "cs_wakes s' = cs_wakes s" and
    old: "\<And>j. cs_channels s j \<noteq> None \<Longrightarrow> cs_channels s' j = cs_channels s j" and
    none: "\<And>j. cs_channels s j = None \<Longrightarrow> j \<noteq> ka \<Longrightarrow> j \<noteq> kb \<Longrightarrow> cs_channels s' j = None"
    using run fresh by (auto simp: try_create_with_depth_def Let_def split: if_splits)
  have peer: "chan_peer s' j = chan_peer s j" if "cs_channels s j \<noteq> None" for j
    using that old none fresh(4) by (force simp: chan_peer_def split: option.splits)
  have "\<not> becomes_ready s s' j" for j
  proof (cases "cs_channels s j")
    case (Some c)
    have "chan_peer s j = Some p \<Longrightarrow> cs_channels s' p = cs_channels s p" for p
      using old by (auto simp: chan_peer_def split: option.splits if_splits)
    with Some old [of j] peer [of j] show ?thesis
      by (auto simp: becomes_ready_def is_readable_def is_writable_def is_peer_closed_def split: option.splits)
  qed (simp add: becomes_ready_def)
  with w show ?thesis by (simp add: ready_woken_def)
qed

lemma drop_woken:
  assumes wf: "chan_wf s H"
  shows "ready_woken s (chan_drop k s)"
proof (cases "cs_channels s k")
  case (Some c)
  note e = chan_drop_effect [OF Some]
  let ?new = "case chan_peer s k of None \<Rightarrow> [] | Some p \<Rightarrow> [WakeOther p]"
  have "j \<in> woken ` set ?new" if j: "becomes_ready s (chan_drop k s) j" for j
  proof -
    from j have live: "j \<noteq> k" "cs_channels s j \<noteq> None" by (auto simp: becomes_ready_def e(1))
    have "chan_peer s j = Some k"
    proof (rule ccontr)
      assume "chan_peer s j \<noteq> Some k"
      with live have "chan_peer (chan_drop k s) j = chan_peer s j"
        by (auto simp: chan_peer_def e(1) split: option.splits if_splits)
      with j live \<open>chan_peer s j \<noteq> Some k\<close> show False
        by (auto simp: becomes_ready_def is_readable_def is_writable_def is_peer_closed_def e(1) split: option.splits if_splits)
    qed
    from chan_peer_back(1) [OF wf this] show ?thesis by simp
  qed
  with e(3) show ?thesis by (auto simp: ready_woken_def)
qed (simp add: chan_drop_def ready_woken_same)

lemma chan_step_woken:
  assumes "chan_step (s, H) (s', H')" and "chan_wf s H"
  shows "ready_woken s s'"
  using assms(1)
proof cases
  case (on_send msg sender ring_fits k r)
  with assms(2) show ?thesis using send_woken by blast
next
  case (on_recv k r)
  with assms(2) show ?thesis using recv_woken by blast
next
  case (on_take k i b n msg)
  with assms(2) show ?thesis using take_woken by blast
next
  case (on_commit k msg msg')
  with assms(2) show ?thesis using commit_woken by blast
next
  case (on_return k msg)
  with assms(2) show ?thesis using return_woken by blast
next
  case (on_create ka kb fa fb depth r)
  then show ?thesis using create_woken by blast
next
  case (on_drop k)
  with assms(2) show ?thesis using drop_woken by blast
qed

end
