(* ===== verification/Channel_Properties.thy ===== *)
theory Channel_Properties
  imports Channel_Wakes
begin

text \<open>
  The properties of channels: the bound on the depth, the exact accounting of bytes in transit, no
  lost wake-up, delivery exactly once and in order, and the invisibility of a receive that failed.
\<close>

section \<open>What is sent to an endpoint and what is received from it\<close>

type_synonym content = "u64 \<times> u8 list \<times> capability list"
type_synonym chan_log = "chan_state \<times> message multiset \<times> content list \<times> content list \<times> content list"

definition inbox_content :: "chan_state \<Rightarrow> koid \<Rightarrow> content list" where
  "inbox_content s k = (case cs_channels s k of None \<Rightarrow> [] | Some c \<Rightarrow> map payload (c_inbox c))"

text \<open>
  The history of one endpoint \<open>k\<close>: the messages receives hold, all that was sent to it, all that was
  delivered from it and all that was lost when it was dropped. An endpoint is dropped only when no
  receive uses it, since a receive keeps a reference. A step anywhere else leaves \<open>k\<close> as it is. With
  \<open>single\<close> set, a receive starts only when no other is in progress.
\<close>

inductive log_step :: "bool \<Rightarrow> koid \<Rightarrow> chan_log \<Rightarrow> chan_log \<Rightarrow> bool" for single k where
  log_send: "chan_peer s j = Some k \<Longrightarrow> send_inner ring_fits j msg sender s = (None, s') \<Longrightarrow>
      log_step single k (s, hands, sent, got, lost) (s', hands, sent @ [payload msg], got, lost)"
| log_refused: "send_inner ring_fits j msg sender s = (Some e, s') \<Longrightarrow>
      log_step single k (s, hands, sent, got, lost) (s', hands, sent, got, lost)"
| log_elsewhere: "cs_channels s' k = cs_channels s k \<Longrightarrow>
      log_step single k (s, hands, sent, got, lost) (s', hands, sent, got, lost)"
| log_recv: "(single \<longrightarrow> hands = {#}) \<Longrightarrow> chan_recv k s = (Inr msg, s') \<Longrightarrow>
      log_step single k (s, hands, sent, got, lost) (s', hands, sent, got @ [payload msg], lost)"
| log_take: "(single \<longrightarrow> hands = {#}) \<Longrightarrow> recv_identified k i b n s = (Inr msg, s') \<Longrightarrow>
      log_step single k (s, hands, sent, got, lost) (s', add_mset msg hands, sent, got, lost)"
| log_commit: "m_slot_reserved msg \<Longrightarrow> cs_channels s k \<noteq> None \<Longrightarrow> commit_delivery k msg s = (msg', s') \<Longrightarrow>
      log_step single k (s, add_mset msg hands, sent, got, lost) (s', hands, sent, got @ [payload msg'], lost)"
| log_return: "m_slot_reserved msg \<Longrightarrow> cs_channels s k \<noteq> None \<Longrightarrow>
      log_step single k (s, add_mset msg hands, sent, got, lost) (return_to_head k msg s, hands, sent, got, lost)"
| log_drop: "log_step single k (s, {#}, sent, got, lost) (chan_drop k s, {#}, sent, got, lost @ inbox_content s k)"

lemma payload_simps [simp]:
  "payload (m\<lparr>m_charge := q\<rparr>) = payload m"
  "payload (m\<lparr>m_slot_reserved := b\<rparr>) = payload m"
  by (simp_all add: payload_def)

lemma send_content:
  assumes "send_inner ring_fits j msg sender s = (None, s')" and "chan_peer s j = Some k"
  shows "inbox_content s' k = inbox_content s k @ [payload msg]"
proof -
  from assms(1) obtain p c msg' ds where p: "chan_peer s j = Some p" "cs_channels s p = Some c"
    and s': "s' = wake_message p (put_channel p (c\<lparr>c_inbox := c_inbox c @ [msg']\<rparr>) (s\<lparr>cs_domains := ds\<rparr>))"
    and m: "payload msg' = payload msg"
    by (rule send_inner_sent) (rule that)
  with assms(2) show ?thesis by (simp add: inbox_content_def)
qed

lemma refused_content: "send_inner ring_fits j msg sender s = (Some e, s') \<Longrightarrow> inbox_content s' k = inbox_content s k"
  using send_inner_refused [of ring_fits j msg sender s "fst e" "snd e" s'] by (simp add: inbox_content_def)

lemma recv_content: "chan_recv k s = (Inr msg, s') \<Longrightarrow> inbox_content s k = payload msg # inbox_content s' k"
  by (erule chan_recv_taken) (simp add: inbox_content_def)

lemma take_content:
  "recv_identified k i b n s = (Inr msg, s') \<Longrightarrow> inbox_content s k = payload msg # inbox_content s' k"
  by (erule recv_identified_taken) (simp add: inbox_content_def)

lemma commit_content:
  assumes "commit_delivery k msg s = (msg', s')" and "m_slot_reserved msg" and "cs_channels s k \<noteq> None"
  shows "inbox_content s' k = inbox_content s k" and "payload msg' = payload msg"
proof -
  from assms(3) obtain c where c: "cs_channels s k = Some c" by blast
  note e = commit_delivery_effect [OF assms(1) c assms(2)]
  show "inbox_content s' k = inbox_content s k" "payload msg' = payload msg"
    by (simp_all add: inbox_content_def e(1,4) c)
qed

lemma return_content:
  assumes "m_slot_reserved msg" and "cs_channels s k \<noteq> None"
  shows "inbox_content (return_to_head k msg s) k = payload msg # inbox_content s k"
proof -
  from assms(2) obtain c where c: "cs_channels s k = Some c" by blast
  with return_to_head_effect [OF c assms(1)] show ?thesis by (simp add: inbox_content_def)
qed

lemma drop_content: "inbox_content (chan_drop k s) k = []" "cs_channels (chan_drop k s) k = None"
  by (cases "cs_channels s k"; simp add: inbox_content_def chan_drop_def Let_def split: option.split)+

lemma send_alive: "chan_peer s j = Some k \<Longrightarrow> cs_channels s k \<noteq> None"
  by (auto simp: chan_peer_def split: option.splits if_splits)

lemma recv_alive: "chan_recv k s = (Inr msg, s') \<Longrightarrow> cs_channels s k \<noteq> None"
  "recv_identified k i b n s = (Inr msg, s') \<Longrightarrow> cs_channels s k \<noteq> None"
  by (auto simp: chan_recv_def recv_identified_def split: option.splits)

lemma refused_gone: "send_inner ring_fits j msg sender s = (Some e, s') \<Longrightarrow> cs_channels s' k = cs_channels s k"
  using send_inner_refused [of ring_fits j msg sender s "fst e" "snd e" s'] by simp

definition conserved :: "koid \<Rightarrow> chan_log \<Rightarrow> bool" where
  "conserved k l = (case l of (s, hands, sent, got, lost) \<Rightarrow>
     mset sent = mset got + image_mset payload hands + mset (inbox_content s k) + mset lost)"

definition in_order :: "koid \<Rightarrow> chan_log \<Rightarrow> bool" where
  "in_order k l = (case l of (s, hands, sent, got, lost) \<Rightarrow>
     (lost = [] \<or> cs_channels s k = None \<and> hands = {#}) \<and>
     ((hands = {#} \<and> sent = got @ inbox_content s k @ lost) \<or>
      (\<exists>m. hands = {#m#} \<and> sent = got @ payload m # inbox_content s k @ lost)))"

lemma log_step_conserved: "log_step single k l l' \<Longrightarrow> conserved k l \<Longrightarrow> conserved k l'"
proof (induction rule: log_step.induct)
  case (log_elsewhere s' s hands sent got lost)
  then show ?case by (simp add: conserved_def inbox_content_def)
next
  case (log_drop s sent got lost)
  then show ?case by (simp add: conserved_def drop_content)
qed (auto simp: conserved_def send_content refused_content recv_content take_content commit_content return_content)

lemma log_step_in_order: "log_step single k l l' \<Longrightarrow> single \<Longrightarrow> in_order k l \<Longrightarrow> in_order k l'"
proof (induction rule: log_step.induct)
  case (log_send s j ring_fits msg sender s' hands sent got lost)
  then show ?case using send_alive [OF log_send(1)] by (auto simp: in_order_def send_content)
next
  case (log_refused ring_fits j msg sender s e s' hands sent got lost)
  then show ?case by (auto simp: in_order_def refused_content refused_gone)
next
  case (log_elsewhere s' s hands sent got lost)
  then show ?case by (simp add: in_order_def inbox_content_def)
next
  case (log_recv hands s msg s' sent got lost)
  then show ?case using recv_alive(1) [OF log_recv(2)] by (auto simp: in_order_def recv_content)
next
  case (log_take hands i b n s msg s' sent got lost)
  then show ?case using recv_alive(2) [OF log_take(2)] by (auto simp: in_order_def take_content)
next
  case (log_drop s sent got lost)
  then show ?case by (auto simp: in_order_def drop_content inbox_content_def)
qed (auto simp: in_order_def commit_content return_content)

lemma log_run_conserved: "(log_step single k)\<^sup>*\<^sup>* l l' \<Longrightarrow> conserved k l \<Longrightarrow> conserved k l'"
  by (erule run_invariant) (auto intro: log_step_conserved)

lemma log_run_in_order: "(log_step True k)\<^sup>*\<^sup>* l l' \<Longrightarrow> in_order k l \<Longrightarrow> in_order k l'"
  by (erule run_invariant) (auto intro: log_step_in_order)

lemma chan_run_wf:
  assumes "chan_step\<^sup>*\<^sup>* (s, H) (s', H')" and "chan_wf s H"
  shows "chan_wf s' H'"
  using run_invariant [OF assms(1), of "\<lambda>(s, H). chan_wf s H"] assms(2) chan_step_wf by auto

lemma chan_run_balanced:
  assumes "chan_step\<^sup>*\<^sup>* (s, H) (s', H')" and "chan_wf s H" and "covered s H"
  shows "balanced s H s' H'"
  using assms(1)
proof (induction "(s', H')" arbitrary: s' H' rule: rtranclp_induct)
  case base
  with assms(3) show ?case by (simp add: balanced_def covered_def)
next
  case (step y)
  obtain s1 H1 where y: "y = (s1, H1)" by fastforce
  have b: "balanced s H s1 H1" by (rule step.hyps(3) [OF y])
  have "chan_wf s1 H1" using chan_run_wf [OF _ assms(2)] step.hyps(1) y by simp
  with b step.hyps(2) y have "balanced s1 H1 s' H'"
    by (intro chan_step_balanced) (auto intro: balanced_covered [OF _ assms(3)])
  with b show ?case by (rule balanced_trans)
qed

section \<open>Properties\<close>

definition sample_message :: message where
  "sample_message = message_new 1 [7, 8] []"

definition sample_chans :: chan_state where
  "sample_chans = \<lparr>cs_domains = (\<lambda>d. None),
     cs_channels = [1 \<mapsto> channel_endpoint 1 (Some 2), 2 \<mapsto> channel_endpoint 1 (Some 1)], cs_wakes = []\<rparr>"

definition sample_chans_sent :: chan_state where
  "sample_chans_sent = \<lparr>cs_domains = (\<lambda>d. None),
     cs_channels = [1 \<mapsto> channel_endpoint 1 (Some 2), 2 \<mapsto> (channel_endpoint 1 (Some 1))\<lparr>c_inbox := [sample_message]\<rparr>],
     cs_wakes = [WakeMessage 2]\<rparr>"

lemma sample_chans_wf: "chan_wf sample_chans {#}"
  by (auto simp: chan_wf_def endpoint_wf_def sample_chans_def channel_endpoint_def chan_depth_def CHANNEL_QUEUE_MAX_def
      split: if_splits)

lemma sample_send: "send_inner True 1 sample_message None sample_chans = (None, sample_chans_sent)"
  by (simp add: send_inner_def chan_peer_def sample_chans_def sample_chans_sent_def channel_endpoint_def chan_depth_def
      wake_message_def put_channel_def fun_eq_iff)

lemma sample_step: "chan_step (sample_chans, {#}) (sample_chans_sent, {#})"
  by (rule on_send [OF _ _ _ sample_send]) (simp_all add: sample_message_def message_new_def)

text \<open>
  C25. The bound on a queue holds under any interleaving. However sends, receives, commits, returns,
  creations and drops interleave over any number of channels, an endpoint never holds more messages
  than its limit, counting those a receive has taken and may still put back, and the limit is at
  most 4096: a message returned after a failed delivery always finds the slot it left.
\<close>

theorem queue_bound_under_interleaving:
  assumes "chan_wf s H" and "chan_step\<^sup>*\<^sup>* (s, H) (s', H')" and "cs_channels s' k = Some c"
  shows "length (c_inbox c) + held_at k H' \<le> c_limit c \<and> c_limit c \<le> 4096"
  using chan_wf_endpoint [OF chan_run_wf [OF assms(2,1)] assms(3)]
  by (simp add: endpoint_wf_def chan_depth_def CHANNEL_QUEUE_MAX_def)

theorem queue_bound_under_interleaving_witness:
  "case cs_channels (snd (send_inner True 1 sample_message None sample_chans)) 2 of
     Some c \<Rightarrow> length (c_inbox c) + held_at 2 {#} \<le> c_limit c \<and> c_limit c \<le> 4096 | None \<Rightarrow> False"
proof -
  have "cs_channels sample_chans_sent 2 = Some ((channel_endpoint 1 (Some 1))\<lparr>c_inbox := [sample_message]\<rparr>)"
    by (simp add: sample_chans_sent_def)
  from queue_bound_under_interleaving [OF sample_chans_wf r_into_rtranclp [of chan_step, OF sample_step] this] this
  show ?thesis unfolding sample_send by simp
qed

text \<open>
  C11. Bytes in transit are accounted exactly. Along every interleaving the in-transit counter of
  each domain moves by exactly the change in what the undelivered messages carry for it, queued or
  in the hands of a receive; when all of them are delivered or dropped, the counters are back.
\<close>

theorem ipc_quota_conserved:
  assumes "chan_wf s H" and "covered s H" and "chan_step\<^sup>*\<^sup>* (s, H) (s', H')"
  shows "used (cs_domains s') IpcQueue a = used (cs_domains s) IpcQueue a - owed s H a + owed s' H' a"
proof -
  have "used (cs_domains s') IpcQueue a + owed s H a = used (cs_domains s) IpcQueue a + owed s' H' a"
    using chan_run_balanced [OF assms(3,1,2)] by (simp add: balanced_def)
  moreover have "owed s H a \<le> used (cs_domains s) IpcQueue a"
    using assms(2) by (simp add: covered_def)
  ultimately show ?thesis by linarith
qed

text \<open>
  The instance: a child domain sends two bytes, a receive takes the message and commits it. The
  counters of the child and of its parent read two while the message is queued or in hand, and
  nothing afterwards.
\<close>

definition paying_domain :: "domain_id option \<Rightarrow> dnode" where
  "paying_domain parent = \<lparr>d_account = account_new UNLIMITED UNLIMITED UNLIMITED, d_parent = parent, d_children = [],
     d_processes = [], d_killed = False, d_frozen = False\<rparr>"

definition paying_domains :: domains where
  "paying_domains = [1 \<mapsto> paying_domain None, 2 \<mapsto> paying_domain (Some 1)]"

definition paid_domains :: domains where
  "paid_domains = on_line paying_domains 2 IpcQueue (counter_taken 2)"

definition paid_message :: message where
  "paid_message = sample_message\<lparr>m_charge := Some \<lparr>qc_domain = 2, qc_bytes = 2\<rparr>\<rparr>"

definition paying_chans :: chan_state where
  "paying_chans = sample_chans\<lparr>cs_domains := paying_domains\<rparr>"

definition paid_chans :: chan_state where
  "paid_chans = \<lparr>cs_domains = paid_domains,
     cs_channels = [1 \<mapsto> channel_endpoint 1 (Some 2), 2 \<mapsto> (channel_endpoint 1 (Some 1))\<lparr>c_inbox := [paid_message]\<rparr>],
     cs_wakes = [WakeMessage 2]\<rparr>"

definition taken_chans :: chan_state where
  "taken_chans = \<lparr>cs_domains = paid_domains,
     cs_channels = [1 \<mapsto> channel_endpoint 1 (Some 2), 2 \<mapsto> (channel_endpoint 1 (Some 1))\<lparr>c_in_flight := 1\<rparr>],
     cs_wakes = [WakeMessage 2]\<rparr>"

lemma paying_line:
  "set (ancestors paying_domains 2) = {1, 2}" "line paying_domains 2 = {1, 2}" "line paid_domains 2 = {1, 2}"
  by (auto simp: line_def paid_domains_def ancestors.simps domain_parent_def paying_domains_def paying_domain_def split: if_splits)

lemma paying_used: "used paying_domains IpcQueue a = 0"
  by (simp add: counter_of_def paying_domains_def paying_domain_def account_new_def counter_new_def)

lemma paying_spare: "spare paying_domains IpcQueue 2 2"
  by (simp add: spare_def headroom_def paying_line paying_used U64_MAX_def) (simp add: paying_domains_def)

lemma paying_charge: "try_charge_ipc_queue paying_domains 2 2 = (True, paid_domains)"
proof -
  have "limit paying_domains IpcQueue a = UNLIMITED" if "a \<in> {1, 2}" for a
    using that by (auto simp: counter_of_def paying_domains_def paying_domain_def account_new_def counter_new_def)
  then show ?thesis
    using paying_spare
    by (simp add: try_charge_ipc_queue_def try_charge_hier_spec fits_def paying_line spare_def paid_domains_def)
qed

lemma paying_send: "send_inner True 1 sample_message (Some 2) paying_chans = (None, paid_chans)"
proof -
  have "length (m_bytes sample_message) = 2" by (simp add: sample_message_def message_new_def)
  then have "charge_queue paying_domains 2 sample_message = (True, paid_domains, paid_message)"
    by (simp add: charge_queue_def Let_def paying_charge paid_message_def)
  then show ?thesis
    by (simp add: send_inner_def chan_peer_def paying_chans_def sample_chans_def channel_endpoint_def chan_depth_def
        paid_chans_def wake_message_def put_channel_def fun_eq_iff)
qed

lemma paid_take: "recv_identified 2 1 100 4 paid_chans = (Inr (paid_message\<lparr>m_slot_reserved := True\<rparr>), taken_chans)"
  by (simp add: recv_identified_def paid_chans_def taken_chans_def channel_endpoint_def paid_message_def sample_message_def
      message_new_def put_channel_def fun_eq_iff)

lemma paying_owed:
  "owed paying_chans {#} a = 0" "owed paid_chans {#} a = (if a \<in> {1, 2} then 2 else 0)"
  "owed taken_chans {#(2, paid_message\<lparr>m_slot_reserved := True\<rparr>)#} a = (if a \<in> {1, 2} then 2 else 0)"
  by (simp_all add: owed_def queued_def paying_chans_def paid_chans_def taken_chans_def sample_chans_def channel_endpoint_def
      msg_owes_def paid_message_def paying_line)

lemma paying_start: "chan_wf paying_chans {#}" "covered paying_chans {#}"
  using sample_chans_wf chan_wf_channels [of paying_chans sample_chans "{#}"]
  by (simp_all add: covered_def paying_owed) (simp_all add: paying_chans_def sample_chans_def)

lemma paying_run:
  "chan_step (paying_chans, {#}) (paid_chans, {#})"
  "chan_step (paid_chans, {#}) (taken_chans, {#(2, paid_message\<lparr>m_slot_reserved := True\<rparr>)#})"
proof -
  show "chan_step (paying_chans, {#}) (paid_chans, {#})"
    by (rule on_send [OF _ _ _ paying_send])
      (use paying_spare in \<open>simp_all add: sample_message_def message_new_def paying_chans_def numeral_2_eq_2\<close>)
  show "chan_step (paid_chans, {#}) (taken_chans, {#(2, paid_message\<lparr>m_slot_reserved := True\<rparr>)#})"
    by (rule on_take [OF paid_take])
qed

theorem ipc_quota_conserved_witness:
  "\<exists>s. snd (commit_delivery 2 (paid_message\<lparr>m_slot_reserved := True\<rparr>) taken_chans) = s \<and>
     used (cs_domains paid_chans) IpcQueue 1 = 2 \<and> used (cs_domains taken_chans) IpcQueue 2 = 2 \<and>
     used (cs_domains s) IpcQueue 1 = 0 \<and> used (cs_domains s) IpcQueue 2 = 0"
proof -
  let ?m = "paid_message\<lparr>m_slot_reserved := True\<rparr>"
  obtain m s where commit: "commit_delivery 2 ?m taken_chans = (m, s)" by fastforce
  have one: "chan_step\<^sup>*\<^sup>* (paying_chans, {#}) (paid_chans, {#})"
    and two: "chan_step\<^sup>*\<^sup>* (paying_chans, {#}) (taken_chans, {#(2, ?m)#})"
    using paying_run by (auto intro: rtranclp.rtrancl_into_rtrancl)
  have three: "chan_step\<^sup>*\<^sup>* (paying_chans, {#}) (s, {#})"
    using two on_commit [OF commit, of "{#}"] by (auto intro: rtranclp.rtrancl_into_rtrancl)
  have "cs_channels taken_chans 2 = Some ((channel_endpoint 1 (Some 1))\<lparr>c_in_flight := 1\<rparr>)"
    by (simp add: taken_chans_def)
  note e = commit_delivery_effect(1,2) [OF commit this]
  have "queued s a = 0" for a
    using e(1) by (simp add: queued_def taken_chans_def channel_endpoint_def)
  then have end_zero: "owed s {#} a = 0" for a by (simp add: owed_def)
  note exact = ipc_quota_conserved [OF paying_start one] ipc_quota_conserved [OF paying_start two] ipc_quota_conserved [OF paying_start three]
  show ?thesis
    using exact [of 1] exact [of 2] commit by (simp add: paying_owed end_zero paying_used) (simp add: paying_chans_def paying_used)
qed

text \<open>
  C9. No wake-up is lost. Whenever a step makes a live endpoint readable or writable that was not,
  that very step wakes it: a receiver sleeping for a message, a sender sleeping for room, and a
  thread sleeping on an endpoint whose peer goes away are all told.
\<close>

theorem no_lost_wakeup:
  assumes "chan_wf s H" and "chan_step (s, H) (s', H')" and "cs_channels s k \<noteq> None" and "cs_channels s' k \<noteq> None"
    and "is_readable s' k \<and> \<not> is_readable s k \<or> is_writable s' k \<and> \<not> is_writable s k"
  shows "\<exists>new. cs_wakes s' = new @ cs_wakes s \<and> k \<in> woken ` set new"
proof -
  have "becomes_ready s s' k" using assms(3-5) by (simp add: becomes_ready_def)
  with chan_step_woken [OF assms(2,1)] show ?thesis by (auto simp: ready_woken_def)
qed

theorem no_lost_wakeup_witness:
  "\<exists>new. cs_wakes sample_chans_sent = new @ cs_wakes sample_chans \<and> 2 \<in> woken ` set new"
proof (rule no_lost_wakeup [OF sample_chans_wf sample_step])
  show "is_readable sample_chans_sent 2 \<and> \<not> is_readable sample_chans 2 \<or>
      is_writable sample_chans_sent 2 \<and> \<not> is_writable sample_chans 2"
    by (simp add: is_readable_def is_peer_closed_def chan_peer_def sample_chans_def sample_chans_sent_def channel_endpoint_def)
qed (simp_all add: sample_chans_def sample_chans_sent_def)

text \<open>
  C5. Delivery is exactly once, with any number of concurrent receivers, to the end of the endpoint.
  What was sent to an endpoint is, as a multiset, what was delivered from it together with what
  receives still hold, what is still queued and what was queued when it was dropped: a receive that
  loses a race, is refused or puts its message back neither loses a message nor delivers one twice.
\<close>

theorem delivery_exactly_once:
  assumes "inbox_content s k = []" and "(log_step single k)\<^sup>*\<^sup>* (s, {#}, [], [], []) (s', hands, sent, got, lost)"
  shows "mset sent = mset got + image_mset payload hands + mset (inbox_content s' k) + mset lost"
proof -
  have "conserved k (s, {#}, [], [], [])" using assms(1) by (simp add: conserved_def)
  with log_run_conserved [OF assms(2)] show ?thesis by (simp add: conserved_def)
qed

text \<open>The instances: the message is sent and taken, and it is sent and its endpoint dropped.\<close>

lemma sample_logs:
  "(log_step single 2)\<^sup>*\<^sup>* (sample_chans, {#}, [], [], []) (sample_chans_sent, {#}, [payload sample_message], [], [])"
  "(log_step single 2)\<^sup>*\<^sup>* (sample_chans, {#}, [], [], [])
     (chan_drop 2 sample_chans_sent, {#}, [payload sample_message], [], [payload sample_message])"
proof -
  have "chan_peer sample_chans 1 = Some 2"
    by (simp add: chan_peer_def sample_chans_def channel_endpoint_def)
  from log_send [OF this sample_send, of single "{#}" "[]" "[]" "[]"]
  show sent: "(log_step single 2)\<^sup>*\<^sup>* (sample_chans, {#}, [], [], []) (sample_chans_sent, {#}, [payload sample_message], [], [])"
    by (simp add: r_into_rtranclp)
  have "inbox_content sample_chans_sent 2 = [payload sample_message]"
    by (simp add: inbox_content_def sample_chans_sent_def)
  with rtranclp.rtrancl_into_rtrancl [OF sent log_drop]
  show "(log_step single 2)\<^sup>*\<^sup>* (sample_chans, {#}, [], [], [])
     (chan_drop 2 sample_chans_sent, {#}, [payload sample_message], [], [payload sample_message])"
    by simp
qed

lemma sample_empty: "inbox_content sample_chans 2 = []"
  by (simp add: inbox_content_def sample_chans_def channel_endpoint_def)

theorem delivery_exactly_once_witness:
  "mset [payload sample_message] = mset (inbox_content sample_chans_sent 2) \<and>
   inbox_content (chan_drop 2 sample_chans_sent) 2 = []"
  using delivery_exactly_once [OF sample_empty sample_logs(1)] delivery_exactly_once [OF sample_empty sample_logs(2)]
  by simp

text \<open>
  C23. Delivery is in order, as long as one receive at a time is in progress at the endpoint. Then what
  was delivered, followed by the message in hand, the queue and what was queued when the endpoint was
  dropped, is what was sent to it, in the order it was sent; a message put back after a failed delivery
  returns to its place.
\<close>

theorem delivery_in_order:
  assumes "inbox_content s k = []" and "(log_step True k)\<^sup>*\<^sup>* (s, {#}, [], [], []) (s', hands, sent, got, lost)"
  shows "\<exists>hand. length hand \<le> 1 \<and> hands = mset hand \<and> sent = got @ map payload hand @ inbox_content s' k @ lost"
proof -
  have "in_order k (s, {#}, [], [], [])" using assms(1) by (simp add: in_order_def)
  with log_run_in_order [OF assms(2)] have "in_order k (s', hands, sent, got, lost)" by blast
  then consider "hands = {#}" "sent = got @ inbox_content s' k @ lost"
    | m where "hands = {#m#}" "sent = got @ payload m # inbox_content s' k @ lost"
    by (auto simp: in_order_def)
  then show ?thesis
  proof cases
    case 1
    then show ?thesis by (intro exI [of _ "[]"]) simp
  next
    case (2 m)
    then show ?thesis by (intro exI [of _ "[m]"]) simp
  qed
qed

theorem delivery_in_order_witness:
  "(\<exists>hand. length hand \<le> 1 \<and> {#} = mset hand \<and>
     [payload sample_message] = [] @ map payload hand @ inbox_content sample_chans_sent 2 @ []) \<and>
   (\<exists>hand. length hand \<le> 1 \<and> {#} = mset hand \<and>
     [payload sample_message] = [] @ map payload hand @ inbox_content (chan_drop 2 sample_chans_sent) 2 @ [payload sample_message])"
  using delivery_in_order [OF sample_empty sample_logs(1)] delivery_in_order [OF sample_empty sample_logs(2)] by blast

text \<open>
  C24. A receive that fails is invisible. Taking a message by identity and putting it back leaves
  every endpoint, with its queue, its depth and the charges of its messages, and every domain's
  counters exactly as they were; only the reader is woken again.
\<close>

theorem failed_receive_is_invisible:
  assumes "chan_wf s H" and "recv_identified k i b n s = (Inr msg, s1)"
  shows "cs_channels (return_to_head k msg s1) = cs_channels s \<and> cs_domains (return_to_head k msg s1) = cs_domains s"
proof -
  from assms(2) obtain c m rest where c: "cs_channels s k = Some c" "c_inbox c = m # rest"
    and m: "msg = m\<lparr>m_slot_reserved := True\<rparr>"
    and s1: "s1 = put_channel k (c\<lparr>c_inbox := rest, c_in_flight := c_in_flight c + 1\<rparr>) s"
    by (rule recv_identified_taken) (rule that)
  have "\<not> m_slot_reserved m"
    using chan_wf_endpoint [OF assms(1) c(1)] c(2) by (simp add: endpoint_wf_def)
  then have "m\<lparr>m_slot_reserved := False\<rparr> = m" by (cases m) simp
  moreover have "c\<lparr>c_inbox := m # rest\<rparr> = c" using c(2) by (cases c) simp
  ultimately show ?thesis
    using c(1) by (simp add: return_to_head_def s1 m fun_upd_idem)
qed

theorem failed_receive_is_invisible_witness:
  "case recv_identified 2 1 100 4 sample_chans_sent of
     (Inr msg, s1) \<Rightarrow> cs_channels (return_to_head 2 msg s1) = cs_channels sample_chans_sent
   | (Inl _, _) \<Rightarrow> False"
proof -
  have wf: "chan_wf sample_chans_sent {#}"
    by (rule chan_step_wf [OF sample_step sample_chans_wf])
  obtain msg s1 where run: "recv_identified 2 1 100 4 sample_chans_sent = (Inr msg, s1)"
    by (simp add: recv_identified_def sample_chans_sent_def channel_endpoint_def sample_message_def message_new_def)
  from failed_receive_is_invisible [OF wf run] run show ?thesis by simp
qed

end
