(* ===== verification/User_Memory.thy ===== *)
theory User_Memory
  imports Kernel_Prelude
begin

text \<open>
  The boundary between the kernel and a process's memory, as the syscall handlers use it
  (\<^verbatim>\<open>src/src/kernel/syscall/mod.rs\<close>: the early checks, the faultable copies, reading and writing
  one word, and the transfer array).

  The checks walk the page tables; the copies stop at the first byte that faults and report how far
  they got. The two look at the address space at different moments, so what a copy can reach
  (\<open>us_reads\<close>, \<open>us_writes\<close>) is independent of what the check saw (\<open>us_flags\<close>): another thread may
  have unmapped the buffer in between. Addresses and lengths are \<^typ>\<open>nat\<close>, with the width written
  out.
\<close>

section \<open>An address space\<close>

record page_flags =
  pf_user :: bool
  pf_writable :: bool

record user_space =
  us_ring3 :: bool
  us_va_end :: nat
  us_flags :: "nat \<Rightarrow> page_flags option"
  us_reads :: "nat \<Rightarrow> bool"
  us_writes :: "nat \<Rightarrow> bool"
  us_bytes :: "nat \<Rightarrow> u8"

definition page_of :: "nat \<Rightarrow> nat" where
  "page_of a = a div 4096 * 4096"

definition page_ok :: "user_space \<Rightarrow> bool \<Rightarrow> nat \<Rightarrow> bool" where
  "page_ok us write page =
     (case us_flags us page of None \<Rightarrow> False | Some f \<Rightarrow> pf_user f \<and> (write \<longrightarrow> pf_writable f))"

text \<open>The loop of \<^verbatim>\<open>user_pages_ok\<close>: this page, and then as many more as lie before the last.\<close>

fun pages_ok :: "user_space \<Rightarrow> bool \<Rightarrow> nat \<Rightarrow> nat \<Rightarrow> bool" where
  "pages_ok us write page 0 = page_ok us write page"
| "pages_ok us write page (Suc left) = (page_ok us write page \<and> pages_ok us write (page + 4096) left)"

definition user_pages_ok :: "user_space \<Rightarrow> nat \<Rightarrow> nat \<Rightarrow> bool \<Rightarrow> bool" where
  "user_pages_ok us ptr stop write =
     pages_ok us write (page_of ptr) ((stop - 1) div 4096 - ptr div 4096)"

definition user_range_ok :: "user_space \<Rightarrow> nat \<Rightarrow> nat \<Rightarrow> bool \<Rightarrow> bool" where
  "user_range_ok us ptr len write =
     (if \<not> us_ring3 us then True
      else if len = 0 then True
      else if ptr = 0 then False
      else
        (case checked_add ptr len of
           None \<Rightarrow> False
         | Some stop \<Rightarrow> stop \<le> us_va_end us \<and> user_pages_ok us ptr stop write))"

definition user_buf_ok :: "user_space \<Rightarrow> nat \<Rightarrow> nat \<Rightarrow> bool" where
  "user_buf_ok us ptr len = user_range_ok us ptr len False"

definition user_buf_writable :: "user_space \<Rightarrow> nat \<Rightarrow> nat \<Rightarrow> bool" where
  "user_buf_writable us ptr len = user_range_ok us ptr len True"

section \<open>Copies\<close>

definition copy_from_user :: "user_space \<Rightarrow> nat \<Rightarrow> nat \<Rightarrow> u8 list" where
  "copy_from_user us ptr len = map (us_bytes us) (takeWhile (us_reads us) [ptr ..< ptr + len])"

definition copy_to_user :: "user_space \<Rightarrow> nat \<Rightarrow> u8 list \<Rightarrow> nat \<times> user_space" where
  "copy_to_user us ptr data =
     (let n = length (takeWhile (us_writes us) [ptr ..< ptr + length data])
      in (n, us\<lparr>us_bytes := (\<lambda>a. if ptr \<le> a \<and> a < ptr + n then data ! (a - ptr) else us_bytes us a)\<rparr>))"

definition ERR_NOT_MAPPED :: int where "ERR_NOT_MAPPED = - 7"

definition copy_from_user_exact :: "user_space \<Rightarrow> nat \<Rightarrow> nat \<Rightarrow> int + u8 list" where
  "copy_from_user_exact us ptr len =
     (if len = 0 then Inr []
      else (let bytes = copy_from_user us ptr len
            in if length bytes = len then Inr bytes else Inl ERR_NOT_MAPPED))"

definition copy_to_user_exact :: "user_space \<Rightarrow> nat \<Rightarrow> u8 list \<Rightarrow> int option \<times> user_space" where
  "copy_to_user_exact us ptr data =
     (if data = [] then (None, us)
      else (case copy_to_user us ptr data of
              (n, us') \<Rightarrow> (if n = length data then None else Some ERR_NOT_MAPPED, us')))"

section \<open>Words in memory\<close>

text \<open>The machine is little-endian on every port.\<close>

definition u64_bytes :: "u64 \<Rightarrow> u8 list" where
  "u64_bytes w = map (\<lambda>i. ucast (drop_bit (8 * i) w)) [0 ..< 8]"

definition bytes_word :: "u8 list \<Rightarrow> u64" where
  "bytes_word bs = foldr (\<lambda>b acc. push_bit 8 acc OR ucast b) bs 0"

text \<open>\<^verbatim>\<open>read_user\<close>: a short read is read as all zeroes.\<close>

definition read_user :: "user_space \<Rightarrow> nat \<Rightarrow> nat \<Rightarrow> u8 list" where
  "read_user us ptr len =
     (let bytes = copy_from_user us ptr len
      in if length bytes < len then replicate len 0 else bytes)"

definition read_user_u64 :: "user_space \<Rightarrow> nat \<Rightarrow> u64" where
  "read_user_u64 us ptr = bytes_word (read_user us ptr 8)"

definition write_user :: "user_space \<Rightarrow> nat \<Rightarrow> u64 \<Rightarrow> int option \<times> user_space" where
  "write_user us ptr value =
     (if \<not> user_buf_writable us ptr 8 then (Some ERR_NOT_MAPPED, us)
      else copy_to_user_exact us ptr (u64_bytes value))"

record cap_transfer =
  ct_handle :: u64
  ct_rights :: u32

definition read_user_transfer :: "user_space \<Rightarrow> nat \<Rightarrow> cap_transfer" where
  "read_user_transfer us ptr =
     (let bytes = read_user us ptr 16
      in \<lparr>ct_handle = bytes_word (take 8 bytes), ct_rights = ucast (bytes_word (take 4 (drop 8 bytes)))\<rparr>)"

section \<open>Lemmas\<close>

lemma takeWhile_upt_nth:
  "k < length (takeWhile P [a ..< b]) \<Longrightarrow> P (a + k) \<and> a + k < b"
  using takeWhile_nth [of k P "[a ..< b]"] set_takeWhileD [of "takeWhile P [a ..< b] ! k" P "[a ..< b]"]
    length_takeWhile_le [of P "[a ..< b]"]
  by (metis nth_mem nth_upt length_upt less_diff_conv add.commute le_less_trans less_le_trans)

lemma takeWhile_upt_full: "length (takeWhile P [a ..< a + n]) = n \<longleftrightarrow> (\<forall>i < n. P (a + i))"
proof
  assume "length (takeWhile P [a ..< a + n]) = n"
  then show "\<forall>i < n. P (a + i)" using takeWhile_upt_nth [of _ P a "a + n"] by simp
next
  assume "\<forall>i < n. P (a + i)"
  then have "takeWhile P [a ..< a + n] = [a ..< a + n]"
    by (auto simp: takeWhile_eq_all_conv) (metis le_add_diff_inverse nat_add_left_cancel_less)
  then show "length (takeWhile P [a ..< a + n]) = n" by (simp only: length_upt add_diff_cancel_left')
qed

lemma copy_from_user_exact_ok:
  "copy_from_user_exact us ptr len = Inr bytes \<Longrightarrow>
     bytes = map (us_bytes us) [ptr ..< ptr + len] \<and> (\<forall>i < len. us_reads us (ptr + i))"
proof (cases "len = 0")
  case False
  assume "copy_from_user_exact us ptr len = Inr bytes"
  with False have full: "length (takeWhile (us_reads us) [ptr ..< ptr + len]) = len"
    and b: "bytes = copy_from_user us ptr len"
    by (auto simp: copy_from_user_exact_def copy_from_user_def Let_def split: if_splits)
  from full have "takeWhile (us_reads us) [ptr ..< ptr + len] = [ptr ..< ptr + len]"
    by (metis length_upt add_diff_cancel_left' takeWhile_eq_take take_all_iff le_refl)
  with full b show ?thesis by (simp add: copy_from_user_def takeWhile_upt_full)
qed (simp add: copy_from_user_exact_def)

lemma copy_to_user_exact_ok:
  assumes "copy_to_user_exact us ptr data = (None, us')"
  shows "us_bytes us' a = (if ptr \<le> a \<and> a < ptr + length data then data ! (a - ptr) else us_bytes us a)"
    and "\<forall>i < length data. us_writes us (ptr + i)"
  using assms takeWhile_upt_full [of "us_writes us" ptr "length data"]
  by (auto simp: copy_to_user_exact_def copy_to_user_def Let_def split: if_splits)

lemma copy_to_user_exact_frame:
  assumes "copy_to_user_exact us ptr data = (r, us')" and "\<not> (ptr \<le> a \<and> a < ptr + length data)"
  shows "us_bytes us' a = us_bytes us a"
  using assms length_takeWhile_le [of "us_writes us" "[ptr ..< ptr + length data]"]
  by (auto simp: copy_to_user_exact_def copy_to_user_def Let_def split: if_splits)

lemma bit_bytes_word:
  "bit (bytes_word bs) n \<longleftrightarrow> n < 64 \<and> n div 8 < length bs \<and> bit (bs ! (n div 8)) (n mod 8)"
proof (induction bs arbitrary: n)
  case (Cons b bs)
  show ?case
  proof (cases "n < 8")
    case True
    then show ?thesis
      by (auto simp: bytes_word_def bit_simps)
  next
    case False
    then obtain m where m: "n = m + 8" by (metis add.commute le_Suc_ex not_less)
    have "bit (bytes_word (b # bs)) n \<longleftrightarrow> n < 64 \<and> bit (bytes_word bs) m"
      using m by (auto simp: bytes_word_def bit_simps dest: bit_imp_le_length)
    moreover have "n div 8 = Suc (m div 8)" "n mod 8 = m mod 8" using m by simp_all
    ultimately show ?thesis using Cons.IH [of m] m by auto
  qed
qed (simp add: bytes_word_def)

lemma bytes_word_u64_bytes: "bytes_word (u64_bytes w) = w"
proof (rule bit_word_eqI)
  fix n assume "n < LENGTH(64)"
  then have n: "n < 64" by simp
  then have "n div 8 < 8" "8 * (n div 8) + n mod 8 = n" by linarith simp
  with n show "bit (bytes_word (u64_bytes w)) n = bit w n"
    by (simp add: bit_bytes_word u64_bytes_def bit_unsigned_iff bit_drop_bit_eq less_mult_imp_div_less)
qed

lemma length_u64_bytes [simp]: "length (u64_bytes w) = 8"
  by (simp add: u64_bytes_def)

text \<open>What \<^verbatim>\<open>write_user\<close> stored, \<^verbatim>\<open>read_user\<close> reads back.\<close>

lemma write_user_read_user:
  assumes "write_user us ptr value = (None, us')" and "\<forall>i < 8. us_reads us (ptr + i)"
  shows "read_user_u64 us' ptr = value"
proof -
  from assms(1) have w: "copy_to_user_exact us ptr (u64_bytes value) = (None, us')"
    by (auto simp: write_user_def split: if_splits)
  then have r: "us_reads us' = us_reads us"
    by (auto simp: copy_to_user_exact_def copy_to_user_def Let_def split: if_splits)
  with assms(2) have "takeWhile (us_reads us') [ptr ..< ptr + 8] = [ptr ..< ptr + 8]"
    by (auto simp: takeWhile_eq_all_conv) (metis le_add_diff_inverse nat_add_left_cancel_less)
  then have "read_user us' ptr 8 = map (us_bytes us') [ptr ..< ptr + 8]"
    by (simp only: read_user_def copy_from_user_def length_map length_upt add_diff_cancel_left' Let_def) simp
  also have "\<dots> = u64_bytes value"
    by (rule nth_equalityI) (auto simp: copy_to_user_exact_ok(1) [OF w])
  finally show ?thesis by (simp add: read_user_u64_def bytes_word_u64_bytes)
qed

end
