(* ===== verification/Ipc.thy ===== *)
theory Ipc
  imports Handles Channels User_Memory
begin

text \<open>
  The capability and channel syscalls (\<^verbatim>\<open>src/src/kernel/syscall/mod.rs\<close>), composed out of the handle
  table, the channels and the user-memory boundary the way the handlers compose them.

  A handler takes the caller and the kernel state and returns the value of the call and the new
  state. The domains are the store inside the state of the channels, which both the handle quota and
  the queue quota charge. An object is dropped by whichever thread gives up its last reference.
  A handle, a queued message and a thread in the middle of a call each hold one, and the last kind is
  not in the state: a close drops the endpoint at its end, or, when another thread still works on the
  object, that thread does when its call ends. So the drop (\<open>drop_endpoint\<close>: the queued bytes refunded,
  the peer woken) is written out where a handler gives up the last reference for certain, in the
  roll-backs of a creation, and is otherwise a step of its own beside the calls: \<open>kernel_step\<close> of
  \<open>Ipc_Properties\<close> takes it, right after the close or later, once nothing in the kernel names the
  endpoint any more. That covers the endpoint of a closed handle, those a receive does not install and
  those in the messages of an endpoint that is dropped itself.
\<close>

section \<open>State\<close>

definition ERR_NO_MEMORY :: int where "ERR_NO_MEMORY = - 3"
definition ERR_BAD_HANDLE :: int where "ERR_BAD_HANDLE = - 4"
definition ERR_ACCESS_DENIED :: int where "ERR_ACCESS_DENIED = - 5"
definition ERR_INVALID :: int where "ERR_INVALID = - 6"
definition ERR_WOULD_BLOCK :: int where "ERR_WOULD_BLOCK = - 8"
definition ERR_PEER_CLOSED :: int where "ERR_PEER_CLOSED = - 9"
definition ERR_RESOURCE_EXHAUSTED :: int where "ERR_RESOURCE_EXHAUSTED = - 10"

definition MAX_MESSAGE_CAPS :: nat where "MAX_MESSAGE_CAPS = 4"
definition MAX_MESSAGE_BYTES :: nat where "MAX_MESSAGE_BYTES = 1024 * 1024"

record kernel =
  k_objects :: objects
  k_next_koid :: koid
  k_chans :: chan_state
  k_held :: held
  k_next_msg :: u64
  k_tables :: "process_id \<Rightarrow> handle_table"
  k_sent :: "process_id \<Rightarrow> u64"
  k_received :: "process_id \<Rightarrow> u64"
  k_released :: "koid list"
  k_user :: user_space

text \<open>
  \<open>k_held\<close> is what receives on other processors have in hand: messages they took and have neither
  committed nor put back. The calling thread, the answers of the allocator for this call, and
  \<open>cl_other\<close>: what other processors did to the channels, and to what they have in hand, between the
  look and the take of an attempt to receive. Everything else a handler does runs to its end: the
  steps it is made of are atomic one by one (\<open>Ipc_Runs\<close>), and each holds what it decides under a lock.
  A thread always makes the call, so the error that a handler answers when there is none
  (\<^verbatim>\<open>ERR_NO_THREAD\<close>, reachable before the scheduler runs) does not occur.
\<close>

record caller =
  cl_process :: process_id
  cl_domain :: domain_id
  cl_heap :: heap
  cl_vec_fits :: "nat \<Rightarrow> bool"
  cl_ring_fits :: bool
  cl_arc_fits :: "bool \<times> bool"
  cl_other :: "nat \<Rightarrow> chan_state \<times> held \<Rightarrow> chan_state \<times> held"

definition k_domains :: "kernel \<Rightarrow> domains" where
  "k_domains k = cs_domains (k_chans k)"

definition set_domains :: "domains \<Rightarrow> kernel \<Rightarrow> kernel" where
  "set_domains ds k = k\<lparr>k_chans := (k_chans k)\<lparr>cs_domains := ds\<rparr>\<rparr>"

definition table_of :: "caller \<Rightarrow> kernel \<Rightarrow> handle_table" where
  "table_of cl k = k_tables k (cl_process cl)"

definition set_table :: "caller \<Rightarrow> handle_table \<Rightarrow> kernel \<Rightarrow> kernel" where
  "set_table cl t k = k\<lparr>k_tables := (k_tables k)(cl_process cl := t)\<rparr>"

definition record_send :: "caller \<Rightarrow> kernel \<Rightarrow> kernel" where
  "record_send cl k = k\<lparr>k_sent := (k_sent k)(cl_process cl := k_sent k (cl_process cl) + 1)\<rparr>"

definition record_recv :: "caller \<Rightarrow> kernel \<Rightarrow> kernel" where
  "record_recv cl k = k\<lparr>k_received := (k_received k)(cl_process cl := k_received k (cl_process cl) + 1)\<rparr>"

definition new_message :: "kernel \<Rightarrow> u8 list \<Rightarrow> capability list \<Rightarrow> message \<times> kernel" where
  "new_message k bytes caps = (message_new (k_next_msg k) bytes caps, k\<lparr>k_next_msg := k_next_msg k + 1\<rparr>)"

section \<open>Handles\<close>

definition lookup_error :: "handle_error \<Rightarrow> int" where
  "lookup_error e = (if e = AccessDenied then ERR_ACCESS_DENIED else ERR_BAD_HANDLE)"

definition current_object :: "caller \<Rightarrow> kernel \<Rightarrow> handle \<Rightarrow> object_type \<Rightarrow> rights \<Rightarrow> int + koid" where
  "current_object cl k h ty r =
     (case ht_lookup_typed (k_objects k) (table_of cl k) h ty r of
        Inr obj \<Rightarrow> Inr obj
      | Inl e \<Rightarrow> Inl (lookup_error e))"

definition install_object :: "caller \<Rightarrow> koid \<Rightarrow> rights \<Rightarrow> kernel \<Rightarrow> int \<times> kernel" where
  "install_object cl obj r k =
     (case ht_try_insert_object (cl_heap cl) (k_objects k) (k_domains k) obj r (table_of cl k) of
        (Some h, ds, t) \<Rightarrow> (sint h, set_domains ds (set_table cl t k))
      | (None, ds, t) \<Rightarrow> (ERR_RESOURCE_EXHAUSTED, set_domains ds (set_table cl t k)))"

definition install_capability :: "caller \<Rightarrow> capability \<Rightarrow> kernel \<Rightarrow> int \<times> kernel" where
  "install_capability cl cap k =
     (case ht_try_insert (cl_heap cl) (k_domains k) cap (table_of cl k) of
        (Some h, ds, t) \<Rightarrow> (sint h, set_domains ds (set_table cl t k))
      | (None, ds, t) \<Rightarrow> (ERR_RESOURCE_EXHAUSTED, set_domains ds (set_table cl t k)))"

definition handle_rights_allow :: "caller \<Rightarrow> kernel \<Rightarrow> handle \<Rightarrow> rights \<Rightarrow> bool" where
  "handle_rights_allow cl k h r =
     (case ht_rights_of (k_objects k) (table_of cl k) h of
        Inl _ \<Rightarrow> False
      | Inr held \<Rightarrow> rights_contains held r)"

definition sys_handle_duplicate :: "caller \<Rightarrow> handle \<Rightarrow> u64 \<Rightarrow> kernel \<Rightarrow> int \<times> kernel" where
  "sys_handle_duplicate cl h rights_bits k =
     (case ht_duplicate (cl_heap cl) (k_objects k) (k_domains k) h
             (rights_from_bits (ucast rights_bits)) (table_of cl k) of
        (r, ds, t) \<Rightarrow>
          ((case r of
              Inr h' \<Rightarrow> sint h'
            | Inl AccessDenied \<Rightarrow> ERR_ACCESS_DENIED
            | Inl LimitReached \<Rightarrow> ERR_RESOURCE_EXHAUSTED
            | Inl _ \<Rightarrow> ERR_BAD_HANDLE),
           set_domains ds (set_table cl t k)))"

definition close_handle :: "caller \<Rightarrow> handle \<Rightarrow> kernel \<Rightarrow> bool \<times> kernel" where
  "close_handle cl h k =
     (case ht_close (k_objects k) (k_domains k) h (table_of cl k) of
        (Inl _, ds, t) \<Rightarrow> (False, set_domains ds (set_table cl t k))
      | (Inr released, ds, t) \<Rightarrow>
          (True, (set_domains ds (set_table cl t k))\<lparr>k_released :=
             (case released of None \<Rightarrow> [] | Some c \<Rightarrow> [c]) @ k_released k\<rparr>))"

definition sys_handle_close :: "caller \<Rightarrow> handle \<Rightarrow> kernel \<Rightarrow> int \<times> kernel" where
  "sys_handle_close cl h k =
     (case close_handle cl h k of (ok, k') \<Rightarrow> (if ok then 0 else ERR_BAD_HANDLE, k'))"

definition read_bytes :: "caller \<Rightarrow> kernel \<Rightarrow> nat \<Rightarrow> nat \<Rightarrow> int + u8 list" where
  "read_bytes cl k ptr len =
     (if ptr = 0 \<or> len = 0 then Inr []
      else if \<not> cl_vec_fits cl len then Inl ERR_NO_MEMORY
      else copy_from_user_exact (k_user k) ptr len)"

section \<open>Creating a channel\<close>

definition drop_endpoint :: "koid \<Rightarrow> kernel \<Rightarrow> kernel" where
  "drop_endpoint c k = k\<lparr>k_chans := chan_drop c (k_chans k)\<rparr>"

definition new_channel_object :: "koid \<Rightarrow> objects \<Rightarrow> objects" where
  "new_channel_object c objs = objs(c := object_new Channel)"

text \<open>Both endpoints into the caller's table and both handles out to the caller, or neither.\<close>

definition install_pair :: "caller \<Rightarrow> koid \<Rightarrow> koid \<Rightarrow> nat \<Rightarrow> nat \<Rightarrow> kernel \<Rightarrow> int \<times> kernel" where
  "install_pair cl ka kb out0 out1 k1 =
     (case ht_try_insert_object (cl_heap cl) (k_objects k1) (k_domains k1) ka RIGHTS_ALL (table_of cl k1) of
        (None, ds, t) \<Rightarrow>
          (ERR_RESOURCE_EXHAUSTED, drop_endpoint kb (drop_endpoint ka (set_domains ds (set_table cl t k1))))
      | (Some h0, ds, t) \<Rightarrow>
          (let k2 = set_domains ds (set_table cl t k1) in
           case ht_try_insert_object (cl_heap cl) (k_objects k2) (k_domains k2) kb RIGHTS_ALL (table_of cl k2) of
             (None, ds', t') \<Rightarrow>
               (ERR_RESOURCE_EXHAUSTED,
                drop_endpoint ka (snd (close_handle cl h0
                  (drop_endpoint kb (set_domains ds' (set_table cl t' k2))))))
           | (Some h1, ds', t') \<Rightarrow>
               (let k3 = set_domains ds' (set_table cl t' k2) in
                case write_user (k_user k3) out0 h0 of
                  (Some e, us) \<Rightarrow>
                    (e, drop_endpoint kb (snd (close_handle cl h1
                          (drop_endpoint ka (snd (close_handle cl h0 (k3\<lparr>k_user := us\<rparr>)))))))
                | (None, us) \<Rightarrow>
                    (case write_user us out1 h1 of
                       (Some e, us') \<Rightarrow>
                         (e, drop_endpoint kb (snd (close_handle cl h1
                               (drop_endpoint ka (snd (close_handle cl h0 (k3\<lparr>k_user := us'\<rparr>)))))))
                     | (None, us') \<Rightarrow> (0, k3\<lparr>k_user := us'\<rparr>)))))"

definition sys_channel_create :: "caller \<Rightarrow> nat \<Rightarrow> nat \<Rightarrow> nat \<Rightarrow> kernel \<Rightarrow> int \<times> kernel" where
  "sys_channel_create cl out0 out1 depth k =
     (if out0 = 0 \<or> out1 = 0 then (ERR_INVALID, k)
      else if \<not> user_buf_ok (k_user k) out0 8 \<or> \<not> user_buf_ok (k_user k) out1 8 then (ERR_INVALID, k)
      else
        (let ka = k_next_koid k; kb = ka + 1; (fa, fb) = cl_arc_fits cl in
         case try_create_with_depth fa fb ka kb depth (k_chans k) of
           (None, s) \<Rightarrow> (ERR_RESOURCE_EXHAUSTED, k\<lparr>k_next_koid := (if fa then kb + 1 else kb), k_chans := s\<rparr>)
         | (Some _, s) \<Rightarrow>
             install_pair cl ka kb out0 out1
               (k\<lparr>k_next_koid := kb + 1, k_chans := s,
                  k_objects := new_channel_object kb (new_channel_object ka (k_objects k))\<rparr>)))"

section \<open>Sending\<close>

definition send_error :: "channel_error \<Rightarrow> int" where
  "send_error e = (case e of Full \<Rightarrow> ERR_WOULD_BLOCK | PeerClosed \<Rightarrow> ERR_PEER_CLOSED | Empty \<Rightarrow> ERR_INVALID)"

definition send_caps_error :: "channel_error \<Rightarrow> int" where
  "send_caps_error e = (case e of PeerClosed \<Rightarrow> ERR_PEER_CLOSED | _ \<Rightarrow> ERR_WOULD_BLOCK)"

definition take_one :: "caller \<Rightarrow> handle \<Rightarrow> kernel \<Rightarrow> (handle_error + capability) \<times> kernel" where
  "take_one cl h k =
     (case ht_take_for_transfer (k_objects k) h RIGHT_TRANSFER (table_of cl k) of
        (r, t) \<Rightarrow> (r, set_table cl t k))"

definition commit_one :: "caller \<Rightarrow> handle \<Rightarrow> kernel \<Rightarrow> kernel" where
  "commit_one cl h k =
     (case ht_commit_taken (k_domains k) h (table_of cl k) of (ds, t) \<Rightarrow> set_domains ds (set_table cl t k))"

definition restore_one :: "caller \<Rightarrow> handle \<Rightarrow> capability \<Rightarrow> kernel \<Rightarrow> kernel" where
  "restore_one cl h cap k =
     (case ht_restore_taken (cl_heap cl) (k_domains k) h cap (table_of cl k) of
        (ds, t) \<Rightarrow> set_domains ds (set_table cl t k))"

text \<open>
  The three loops over a set of capabilities in transfer, over the operation they repeat: commit
  every handle, restore every capability to the handle it came from, take every named capability or
  stop at the first refusal with what was taken so far.
\<close>

fun commit_list :: "(handle \<Rightarrow> 'k \<Rightarrow> 'k) \<Rightarrow> handle list \<Rightarrow> 'k \<Rightarrow> 'k" where
  "commit_list commit [] k = k"
| "commit_list commit (h # hs) k = commit_list commit hs (commit h k)"

fun restore_list :: "(handle \<Rightarrow> capability \<Rightarrow> 'k \<Rightarrow> 'k) \<Rightarrow> (handle \<times> capability) list \<Rightarrow> 'k \<Rightarrow> 'k" where
  "restore_list restore [] k = k"
| "restore_list restore ((h, cap) # rest) k = restore_list restore rest (restore h cap k)"

fun take_list ::
  "(handle \<Rightarrow> 'k \<Rightarrow> (handle_error + capability) \<times> 'k) \<Rightarrow> handle list \<Rightarrow> (handle \<times> capability) list \<Rightarrow> 'k
     \<Rightarrow> (handle_error \<times> (handle \<times> capability) list + (handle \<times> capability) list) \<times> 'k" where
  "take_list take1 [] taken k = (Inr taken, k)"
| "take_list take1 (h # hs) taken k =
     (case take1 h k of
        (Inr cap, k') \<Rightarrow> take_list take1 hs (taken @ [(h, cap)]) k'
      | (Inl e, k') \<Rightarrow> (Inl (e, taken), k'))"

definition commit_all :: "caller \<Rightarrow> handle list \<Rightarrow> kernel \<Rightarrow> kernel" where
  "commit_all cl = commit_list (commit_one cl)"

definition restore_all :: "caller \<Rightarrow> (handle \<times> capability) list \<Rightarrow> kernel \<Rightarrow> kernel" where
  "restore_all cl = restore_list (restore_one cl)"

definition take_all ::
  "caller \<Rightarrow> handle list \<Rightarrow> (handle \<times> capability) list \<Rightarrow> kernel
     \<Rightarrow> (handle_error \<times> (handle \<times> capability) list + (handle \<times> capability) list) \<times> kernel" where
  "take_all cl = take_list (take_one cl)"

text \<open>\<^verbatim>\<open>Message::new\<close> and \<^verbatim>\<open>send_charged_or_return\<close>, as every send ends.\<close>

definition send_message ::
  "caller \<Rightarrow> koid \<Rightarrow> u8 list \<Rightarrow> capability list \<Rightarrow> kernel \<Rightarrow> (channel_error \<times> capability list) option \<times> kernel" where
  "send_message cl chan bytes caps k =
     (let (msg, k1) = new_message k bytes caps in
      case send_charged_or_return (cl_ring_fits cl) chan msg (cl_domain cl) (k_chans k1) of
        (r, s) \<Rightarrow> (r, k1\<lparr>k_chans := s\<rparr>))"

definition sys_channel_send :: "caller \<Rightarrow> handle \<Rightarrow> nat \<Rightarrow> nat \<Rightarrow> handle \<Rightarrow> kernel \<Rightarrow> int \<times> kernel" where
  "sys_channel_send cl ch bytes_ptr bytes_len xfer k =
     (if MAX_MESSAGE_BYTES < bytes_len then (ERR_INVALID, k)
      else
        (case current_object cl k ch Channel RIGHT_SEND of
           Inl e \<Rightarrow> (e, k)
         | Inr chan \<Rightarrow>
             (if \<not> user_buf_ok (k_user k) bytes_ptr bytes_len then (ERR_INVALID, k)
              else
                (case read_bytes cl k bytes_ptr bytes_len of
                   Inl e \<Rightarrow> (e, k)
                 | Inr bytes \<Rightarrow>
                     (if xfer = 0 then
                        (case send_message cl chan bytes [] k of
                           (None, k1) \<Rightarrow> (0, record_send cl k1)
                         | (Some (e, _), k1) \<Rightarrow> (send_error e, k1))
                      else if \<not> cl_vec_fits cl 1 then (ERR_NO_MEMORY, k)
                      else
                        (case take_one cl xfer k of
                           (Inl e, k1) \<Rightarrow> (lookup_error e, k1)
                         | (Inr cap, k1) \<Rightarrow>
                             (case send_message cl chan bytes [cap] k1 of
                                (None, k2) \<Rightarrow> (0, record_send cl (commit_one cl xfer k2))
                              | (Some (e, caps), k2) \<Rightarrow>
                                  (send_error e, restore_all cl (map (Pair xfer) caps) k2))))))))"

definition sys_channel_send_attenuated :: "caller \<Rightarrow> handle \<Rightarrow> nat \<Rightarrow> nat \<Rightarrow> nat \<Rightarrow> kernel \<Rightarrow> int \<times> kernel" where
  "sys_channel_send_attenuated cl ch bytes_ptr bytes_len transfer_ptr k =
     (if MAX_MESSAGE_BYTES < bytes_len then (ERR_INVALID, k)
      else if \<not> user_buf_ok (k_user k) transfer_ptr 16 then (ERR_INVALID, k)
      else
        (let transfer = read_user_transfer (k_user k) transfer_ptr in
         if ct_handle transfer = 0 then (ERR_INVALID, k)
         else
           (case current_object cl k ch Channel RIGHT_SEND of
              Inl e \<Rightarrow> (e, k)
            | Inr chan \<Rightarrow>
                (if \<not> user_buf_ok (k_user k) bytes_ptr bytes_len then (ERR_INVALID, k)
                 else
                   (case read_bytes cl k bytes_ptr bytes_len of
                      Inl e \<Rightarrow> (e, k)
                    | Inr bytes \<Rightarrow>
                        (if \<not> cl_vec_fits cl 1 then (ERR_NO_MEMORY, k)
                         else
                           (case take_one cl (ct_handle transfer) k of
                              (Inl e, k1) \<Rightarrow> (lookup_error e, k1)
                            | (Inr taken, k1) \<Rightarrow>
                                (case send_message cl chan bytes
                                        [cap_attenuated taken (rights_from_bits (ct_rights transfer))] k1 of
                                   (None, k2) \<Rightarrow> (0, record_send cl (commit_one cl (ct_handle transfer) k2))
                                 | (Some (e, _), k2) \<Rightarrow>
                                     (send_error e, restore_one cl (ct_handle transfer) taken k2)))))))))"

definition sys_channel_peek :: "caller \<Rightarrow> handle \<Rightarrow> kernel \<Rightarrow> int" where
  "sys_channel_peek cl ch k =
     (case current_object cl k ch Channel RIGHT_RECEIVE of
        Inl e \<Rightarrow> e
      | Inr chan \<Rightarrow>
          (case peek_len chan (k_chans k) of
             Inr len \<Rightarrow> int len
           | Inl Empty \<Rightarrow> ERR_WOULD_BLOCK
           | Inl PeerClosed \<Rightarrow> ERR_PEER_CLOSED
           | Inl Full \<Rightarrow> ERR_INVALID))"

text \<open>\<^verbatim>\<open>has_repeat\<close>: is some value equal to an earlier one?\<close>

fun has_repeat_from :: "u64 list \<Rightarrow> u64 list \<Rightarrow> bool" where
  "has_repeat_from before [] = False"
| "has_repeat_from before (v # vs) = (v \<in> set before \<or> has_repeat_from (before @ [v]) vs)"

definition has_repeat :: "u64 list \<Rightarrow> bool" where
  "has_repeat values = has_repeat_from [] values"

text \<open>Reading the count and the array behind it.\<close>

definition read_handles :: "kernel \<Rightarrow> nat \<Rightarrow> nat \<Rightarrow> u64 list" where
  "read_handles k caps_ptr n = map (\<lambda>i. read_user_u64 (k_user k) (caps_ptr + (i + 1) * 8)) [0 ..< n]"

definition read_transfers :: "kernel \<Rightarrow> nat \<Rightarrow> nat \<Rightarrow> cap_transfer list" where
  "read_transfers k caps_ptr n = map (\<lambda>i. read_user_transfer (k_user k) (caps_ptr + 8 + i * 16)) [0 ..< n]"

definition read_payload :: "caller \<Rightarrow> kernel \<Rightarrow> nat \<Rightarrow> nat \<Rightarrow> int + u8 list" where
  "read_payload cl k ptr len =
     (if \<not> cl_vec_fits cl len then Inl ERR_NO_MEMORY else copy_from_user_exact (k_user k) ptr len)"

definition sys_channel_send_caps :: "caller \<Rightarrow> handle \<Rightarrow> nat \<Rightarrow> nat \<Rightarrow> nat \<Rightarrow> kernel \<Rightarrow> int \<times> kernel" where
  "sys_channel_send_caps cl ch bytes_ptr bytes_len caps_ptr k =
     (if MAX_MESSAGE_BYTES < bytes_len then (ERR_INVALID, k)
      else if \<not> user_buf_ok (k_user k) bytes_ptr bytes_len \<or> \<not> user_buf_ok (k_user k) caps_ptr 8 then (ERR_INVALID, k)
      else
        (let n = unat (read_user_u64 (k_user k) caps_ptr) in
         if n = 0 \<or> MAX_MESSAGE_CAPS < n then (ERR_INVALID, k)
         else if \<not> user_buf_ok (k_user k) caps_ptr ((n + 1) * 8) then (ERR_INVALID, k)
         else
           (let raw = read_handles k caps_ptr n in
            case current_object cl k ch Channel RIGHT_SEND of
              Inl e \<Rightarrow> (e, k)
            | Inr chan \<Rightarrow>
                (case read_payload cl k bytes_ptr bytes_len of
                   Inl e \<Rightarrow> (e, k)
                 | Inr bytes \<Rightarrow>
                     (if has_repeat raw then (ERR_INVALID, k)
                      else if \<not> cl_vec_fits cl n then (ERR_NO_MEMORY, k)
                      else
                        (case take_all cl raw [] k of
                           (Inl (e, taken), k1) \<Rightarrow> (lookup_error e, restore_all cl taken k1)
                         | (Inr taken, k1) \<Rightarrow>
                             (case send_message cl chan bytes (map snd taken) k1 of
                                (None, k2) \<Rightarrow> (0, record_send cl (commit_all cl (map fst taken) k2))
                              | (Some (e, caps), k2) \<Rightarrow>
                                  (send_caps_error e, restore_all cl (zip (map fst taken) caps) k2))))))))"

definition attenuate_all :: "cap_transfer list \<Rightarrow> (handle \<times> capability) list \<Rightarrow> capability list" where
  "attenuate_all transfers taken =
     map (\<lambda>(tr, (_, cap)). cap_attenuated cap (rights_from_bits (ct_rights tr))) (zip transfers taken)"

definition sys_channel_send_caps_attenuated ::
  "caller \<Rightarrow> handle \<Rightarrow> nat \<Rightarrow> nat \<Rightarrow> nat \<Rightarrow> kernel \<Rightarrow> int \<times> kernel" where
  "sys_channel_send_caps_attenuated cl ch bytes_ptr bytes_len caps_ptr k =
     (if MAX_MESSAGE_BYTES < bytes_len then (ERR_INVALID, k)
      else if \<not> user_buf_ok (k_user k) bytes_ptr bytes_len \<or> \<not> user_buf_ok (k_user k) caps_ptr 8 then (ERR_INVALID, k)
      else
        (let n = unat (read_user_u64 (k_user k) caps_ptr) in
         if n = 0 \<or> MAX_MESSAGE_CAPS < n then (ERR_INVALID, k)
         else if \<not> user_buf_ok (k_user k) caps_ptr (8 + n * 16) then (ERR_INVALID, k)
         else
           (let transfers = read_transfers k caps_ptr n in
            if list_ex (\<lambda>tr. ct_handle tr = 0) transfers then (ERR_INVALID, k)
            else
              (case current_object cl k ch Channel RIGHT_SEND of
                 Inl e \<Rightarrow> (e, k)
               | Inr chan \<Rightarrow>
                   (case read_payload cl k bytes_ptr bytes_len of
                      Inl e \<Rightarrow> (e, k)
                    | Inr bytes \<Rightarrow>
                        (if has_repeat (map ct_handle transfers) then (ERR_INVALID, k)
                         else if \<not> cl_vec_fits cl n then (ERR_NO_MEMORY, k)
                         else
                           (case take_all cl (map ct_handle transfers) [] k of
                              (Inl (e, taken), k1) \<Rightarrow> (lookup_error e, restore_all cl taken k1)
                            | (Inr taken, k1) \<Rightarrow>
                                (case send_message cl chan bytes (attenuate_all transfers taken) k1 of
                                   (None, k2) \<Rightarrow> (0, record_send cl (commit_all cl (map fst taken) k2))
                                 | (Some (e, _), k2) \<Rightarrow> (send_caps_error e, restore_all cl taken k2)))))))))"

section \<open>Receiving\<close>

definition RECEIVE_ATTEMPTS :: nat where "RECEIVE_ATTEMPTS = 8"

definition reserve_handles :: "caller \<Rightarrow> nat \<Rightarrow> kernel \<Rightarrow> bool \<times> kernel" where
  "reserve_handles cl n k =
     (case ht_reserve (cl_heap cl) (k_domains k) n (table_of cl k) of
        (ok, ds, t) \<Rightarrow> (ok, set_domains ds (set_table cl t k)))"

definition release_handles :: "caller \<Rightarrow> nat \<Rightarrow> kernel \<Rightarrow> kernel" where
  "release_handles cl n k =
     (case ht_release_reservation (k_domains k) n (table_of cl k) of (ds, t) \<Rightarrow> set_domains ds (set_table cl t k))"

text \<open>The other processors have their turn.\<close>

definition meanwhile :: "caller \<Rightarrow> nat \<Rightarrow> kernel \<Rightarrow> kernel" where
  "meanwhile cl n k = (case cl_other cl n (k_chans k, k_held k) of (s, hands) \<Rightarrow> k\<lparr>k_chans := s, k_held := hands\<rparr>)"

text \<open>The loop of \<^verbatim>\<open>receive_transactionally\<close>: look, reserve, take by identity.\<close>

fun receive_attempts ::
  "caller \<Rightarrow> koid \<Rightarrow> nat \<Rightarrow> nat \<Rightarrow> nat \<Rightarrow> kernel \<Rightarrow> (int + message) \<times> kernel" where
  "receive_attempts cl chan refuse_above install_max 0 k = (Inl ERR_WOULD_BLOCK, k)"
| "receive_attempts cl chan refuse_above install_max (Suc n) k =
     (case peek_identified chan (k_chans k) of
        Inl PeerClosed \<Rightarrow> (Inl ERR_PEER_CLOSED, k)
      | Inl _ \<Rightarrow> (Inl ERR_WOULD_BLOCK, k)
      | Inr (i, bytes, caps) \<Rightarrow>
          (if refuse_above < bytes then (Inl ERR_INVALID, k)
           else
             (let reserved = min caps install_max in
              case reserve_handles cl reserved k of
                (False, k1) \<Rightarrow> (Inl ERR_RESOURCE_EXHAUSTED, k1)
              | (True, k1) \<Rightarrow>
                  (let k2 = meanwhile cl n k1 in
                   case recv_identified chan i refuse_above MAX_MESSAGE_CAPS (k_chans k2) of
                     (Inr msg, s) \<Rightarrow> (Inr msg, k2\<lparr>k_chans := s\<rparr>)
                   | (Inl refusal, s) \<Rightarrow>
                       (let k3 = release_handles cl reserved (k2\<lparr>k_chans := s\<rparr>) in
                        case refusal of
                          Superseded \<Rightarrow> receive_attempts cl chan refuse_above install_max n k3
                        | TooLarge \<Rightarrow> (Inl ERR_INVALID, k3)
                        | TooManyCaps \<Rightarrow> (Inl ERR_INVALID, k3)
                        | Gone PeerClosed \<Rightarrow> (Inl ERR_PEER_CLOSED, k3)
                        | Gone _ \<Rightarrow> (Inl ERR_WOULD_BLOCK, k3))))))"

definition receive_transactionally ::
  "caller \<Rightarrow> koid \<Rightarrow> nat \<Rightarrow> nat \<Rightarrow> kernel \<Rightarrow> (int + message) \<times> kernel" where
  "receive_transactionally cl chan refuse_above install_max k =
     receive_attempts cl chan refuse_above install_max RECEIVE_ATTEMPTS k"

definition put_back :: "caller \<Rightarrow> koid \<Rightarrow> message \<Rightarrow> nat \<Rightarrow> kernel \<Rightarrow> kernel" where
  "put_back cl chan msg reserved k =
     (let k1 = release_handles cl reserved k in k1\<lparr>k_chans := return_to_head chan msg (k_chans k1)\<rparr>)"

definition deliver :: "koid \<Rightarrow> message \<Rightarrow> kernel \<Rightarrow> kernel" where
  "deliver chan msg k = k\<lparr>k_chans := snd (commit_delivery chan msg (k_chans k))\<rparr>"

definition install_reserved :: "caller \<Rightarrow> capability \<Rightarrow> kernel \<Rightarrow> handle \<times> kernel" where
  "install_reserved cl cap k =
     (case ht_insert_reserved (cl_heap cl) (k_domains k) cap (table_of cl k) of
        (h, ds, t) \<Rightarrow> (h, set_domains ds (set_table cl t k)))"

fun install_all :: "caller \<Rightarrow> capability list \<Rightarrow> kernel \<Rightarrow> handle list \<times> kernel" where
  "install_all cl [] k = ([], k)"
| "install_all cl (cap # caps) k =
     (let (h, k1) = install_reserved cl cap k; (hs, k2) = install_all cl caps k1 in (h # hs, k2))"

fun close_handles :: "caller \<Rightarrow> handle list \<Rightarrow> kernel \<Rightarrow> kernel" where
  "close_handles cl [] k = k"
| "close_handles cl (h # hs) k = close_handles cl hs (snd (close_handle cl h k))"

text \<open>The handles, each behind the last, up to the first that does not land.\<close>

fun write_handles :: "user_space \<Rightarrow> nat \<Rightarrow> handle list \<Rightarrow> int option \<times> user_space" where
  "write_handles us ptr [] = (None, us)"
| "write_handles us ptr (h # hs) =
     (case write_user us ptr h of
        (Some e, us') \<Rightarrow> (Some e, us')
      | (None, us') \<Rightarrow> write_handles us' (ptr + 8) hs)"

text \<open>The two receives once the message is in hand: copy, commit, install, report.\<close>

definition finish_recv_caps :: "caller \<Rightarrow> koid \<Rightarrow> message \<Rightarrow> nat \<Rightarrow> nat \<Rightarrow> kernel \<Rightarrow> int \<times> kernel" where
  "finish_recv_caps cl chan msg bytes_ptr caps_ptr k1 =
     (case copy_to_user_exact (k_user k1) bytes_ptr (m_bytes msg) of
        (Some e, us) \<Rightarrow>
          (e, put_back cl chan msg (min (length (m_caps msg)) MAX_MESSAGE_CAPS) (k1\<lparr>k_user := us\<rparr>))
      | (None, us) \<Rightarrow>
          (let k2 = deliver chan msg (k1\<lparr>k_user := us\<rparr>);
               (raws, k3) = install_all cl (take MAX_MESSAGE_CAPS (m_caps msg)) k2
           in case write_handles (k_user k3) (caps_ptr + 8) raws of
                (Some e, us') \<Rightarrow> (e, close_handles cl raws (k3\<lparr>k_user := us'\<rparr>))
              | (None, us') \<Rightarrow>
                  (case write_user us' caps_ptr (of_nat (length raws)) of
                     (Some e, us'') \<Rightarrow> (e, close_handles cl raws (k3\<lparr>k_user := us''\<rparr>))
                   | (None, us'') \<Rightarrow>
                       (int (length (m_bytes msg)), record_recv cl (k3\<lparr>k_user := us''\<rparr>)))))"

definition sys_channel_recv_caps :: "caller \<Rightarrow> handle \<Rightarrow> nat \<Rightarrow> nat \<Rightarrow> nat \<Rightarrow> kernel \<Rightarrow> int \<times> kernel" where
  "sys_channel_recv_caps cl ch bytes_ptr bytes_cap caps_ptr k =
     (if \<not> user_buf_ok (k_user k) bytes_ptr bytes_cap \<or>
         \<not> user_buf_ok (k_user k) caps_ptr ((MAX_MESSAGE_CAPS + 1) * 8) then (ERR_INVALID, k)
      else
        (case current_object cl k ch Channel RIGHT_RECEIVE of
           Inl e \<Rightarrow> (e, k)
         | Inr chan \<Rightarrow>
             (case receive_transactionally cl chan bytes_cap MAX_MESSAGE_CAPS k of
                (Inl e, k1) \<Rightarrow> (e, k1)
              | (Inr msg, k1) \<Rightarrow> finish_recv_caps cl chan msg bytes_ptr caps_ptr k1)))"

text \<open>The copy of the plain receive: truncated to the buffer, and skipped for a null buffer.\<close>

definition copy_truncated :: "user_space \<Rightarrow> nat \<Rightarrow> u8 list \<Rightarrow> int option \<times> user_space" where
  "copy_truncated us ptr data = (if data \<noteq> [] \<and> ptr \<noteq> 0 then copy_to_user_exact us ptr data else (None, us))"

definition finish_recv :: "caller \<Rightarrow> koid \<Rightarrow> message \<Rightarrow> nat \<Rightarrow> nat \<Rightarrow> nat \<Rightarrow> kernel \<Rightarrow> int \<times> kernel" where
  "finish_recv cl chan msg bytes_ptr bytes_cap out_ptr k1 =
     (let n = min (length (m_bytes msg)) bytes_cap in
      case copy_truncated (k_user k1) bytes_ptr (take n (m_bytes msg)) of
        (Some e, us) \<Rightarrow>
          (e, put_back cl chan msg (min (length (m_caps msg)) (if out_ptr \<noteq> 0 then 1 else 0)) (k1\<lparr>k_user := us\<rparr>))
      | (None, us) \<Rightarrow>
          (let k2 = record_recv cl (deliver chan msg (k1\<lparr>k_user := us\<rparr>)) in
           if out_ptr = 0 then (int n, k2)
           else
             (let (h, k3) = (case m_caps msg of [] \<Rightarrow> (0, k2) | cap # _ \<Rightarrow> install_reserved cl cap k2)
              in case write_user (k_user k3) out_ptr h of
                   (Some e, us') \<Rightarrow>
                     (e, if h \<noteq> 0 then snd (close_handle cl h (k3\<lparr>k_user := us'\<rparr>)) else k3\<lparr>k_user := us'\<rparr>)
                 | (None, us') \<Rightarrow> (int n, k3\<lparr>k_user := us'\<rparr>))))"

definition sys_channel_recv :: "caller \<Rightarrow> handle \<Rightarrow> nat \<Rightarrow> nat \<Rightarrow> nat \<Rightarrow> kernel \<Rightarrow> int \<times> kernel" where
  "sys_channel_recv cl ch bytes_ptr bytes_cap out_ptr k =
     (if \<not> user_buf_ok (k_user k) bytes_ptr bytes_cap \<or> out_ptr \<noteq> 0 \<and> \<not> user_buf_ok (k_user k) out_ptr 8
      then (ERR_INVALID, k)
      else
        (case current_object cl k ch Channel RIGHT_RECEIVE of
           Inl e \<Rightarrow> (e, k)
         | Inr chan \<Rightarrow>
             (case receive_transactionally cl chan U64_MAX (if out_ptr \<noteq> 0 then 1 else 0) k of
                (Inl e, k1) \<Rightarrow> (e, k1)
              | (Inr msg, k1) \<Rightarrow> finish_recv cl chan msg bytes_ptr bytes_cap out_ptr k1)))"

section \<open>The dispatcher\<close>

definition SYS_HANDLE_DUPLICATE :: u64 where "SYS_HANDLE_DUPLICATE = 6"
definition SYS_HANDLE_CLOSE :: u64 where "SYS_HANDLE_CLOSE = 7"
definition SYS_CHANNEL_CREATE :: u64 where "SYS_CHANNEL_CREATE = 8"
definition SYS_CHANNEL_SEND :: u64 where "SYS_CHANNEL_SEND = 9"
definition SYS_CHANNEL_RECV :: u64 where "SYS_CHANNEL_RECV = 10"
definition SYS_CHANNEL_PEEK :: u64 where "SYS_CHANNEL_PEEK = 59"
definition SYS_CHANNEL_SEND_CAPS :: u64 where "SYS_CHANNEL_SEND_CAPS = 67"
definition SYS_CHANNEL_RECV_CAPS :: u64 where "SYS_CHANNEL_RECV_CAPS = 68"
definition SYS_CHANNEL_SEND_ATTENUATED :: u64 where "SYS_CHANNEL_SEND_ATTENUATED = 80"
definition SYS_CHANNEL_SEND_CAPS_ATTENUATED :: u64 where "SYS_CHANNEL_SEND_CAPS_ATTENUATED = 85"

lemmas sys_numbers = SYS_HANDLE_DUPLICATE_def SYS_HANDLE_CLOSE_def SYS_CHANNEL_CREATE_def SYS_CHANNEL_SEND_def
  SYS_CHANNEL_RECV_def SYS_CHANNEL_PEEK_def SYS_CHANNEL_SEND_CAPS_def SYS_CHANNEL_RECV_CAPS_def
  SYS_CHANNEL_SEND_ATTENUATED_def SYS_CHANNEL_SEND_CAPS_ATTENUATED_def

text \<open>The arms of \<^verbatim>\<open>syscall_dispatch\<close> that reach a handle or a channel; the others are not of this part.\<close>

definition syscall_dispatch :: "caller \<Rightarrow> u64 \<Rightarrow> u64 \<Rightarrow> u64 \<Rightarrow> u64 \<Rightarrow> u64 \<Rightarrow> kernel \<Rightarrow> (int \<times> kernel) option" where
  "syscall_dispatch cl num a0 a1 a2 a3 k =
     (if num = SYS_HANDLE_DUPLICATE then Some (sys_handle_duplicate cl a0 a1 k)
      else if num = SYS_HANDLE_CLOSE then Some (sys_handle_close cl a0 k)
      else if num = SYS_CHANNEL_CREATE then Some (sys_channel_create cl (unat a0) (unat a1) (unat a2) k)
      else if num = SYS_CHANNEL_SEND then Some (sys_channel_send cl a0 (unat a1) (unat a2) a3 k)
      else if num = SYS_CHANNEL_SEND_ATTENUATED then
        Some (sys_channel_send_attenuated cl a0 (unat a1) (unat a2) (unat a3) k)
      else if num = SYS_CHANNEL_SEND_CAPS_ATTENUATED then
        Some (sys_channel_send_caps_attenuated cl a0 (unat a1) (unat a2) (unat a3) k)
      else if num = SYS_CHANNEL_RECV then Some (sys_channel_recv cl a0 (unat a1) (unat a2) (unat a3) k)
      else if num = SYS_CHANNEL_SEND_CAPS then Some (sys_channel_send_caps cl a0 (unat a1) (unat a2) (unat a3) k)
      else if num = SYS_CHANNEL_RECV_CAPS then Some (sys_channel_recv_caps cl a0 (unat a1) (unat a2) (unat a3) k)
      else if num = SYS_CHANNEL_PEEK then Some (sys_channel_peek cl a0 k, k)
      else None)"

end
