(* ===== verification/Ipc_Transfers.thy ===== *)
theory Ipc_Transfers
  imports Ipc Handle_Booking Channel_Wakes
begin

text \<open>
  The contract the send syscalls rely on when they move capabilities out of a table: a capability
  taken for a transfer leaves the space and its handle is held, a restored one is back under its
  handle, a committed one is gone for good. What the loops over several capabilities do follows from
  it once; the handle table of the calling process satisfies it.
\<close>

section \<open>The contract of a transfer\<close>

locale transfer_space =
  fixes ok :: "'k \<Rightarrow> bool"
    and opened :: "'k \<Rightarrow> bool"
    and space :: "'k \<Rightarrow> handle \<Rightarrow> capability option"
    and held :: "'k \<Rightarrow> handle \<Rightarrow> bool"
    and take1 :: "handle \<Rightarrow> 'k \<Rightarrow> (handle_error + capability) \<times> 'k"
    and restore :: "handle \<Rightarrow> capability \<Rightarrow> 'k \<Rightarrow> 'k"
    and commit :: "handle \<Rightarrow> 'k \<Rightarrow> 'k"
  assumes taken: "ok k \<Longrightarrow> take1 h k = (Inr c, k') \<Longrightarrow> ok k' \<and> opened k' = opened k \<and> space k h = Some c \<and>
        space k' = (space k)(h := None) \<and> held k' h \<and> (\<forall>g. held k g \<longrightarrow> held k' g)"
    and not_taken: "take1 h k = (Inl e, k') \<Longrightarrow> k' = k"
    and restored: "ok k \<Longrightarrow> opened k \<Longrightarrow> held k h \<Longrightarrow> ok (restore h c k) \<and> opened (restore h c k) \<and>
        space (restore h c k) = (space k)(h \<mapsto> c) \<and> (\<forall>g. g \<noteq> h \<longrightarrow> held k g \<longrightarrow> held (restore h c k) g)"
    and committed: "ok k \<Longrightarrow> held k h \<Longrightarrow> ok (commit h k) \<and> opened (commit h k) = opened k \<and>
        space (commit h k) = space k \<and> (\<forall>g. g \<noteq> h \<longrightarrow> held k g \<longrightarrow> held (commit h k) g)"
    and held_space: "ok k \<Longrightarrow> held k h \<Longrightarrow> space k h = None"
begin

text \<open>What the loop has taken so far, in the state before the loop started.\<close>

definition took :: "'k \<Rightarrow> (handle \<times> capability) list \<Rightarrow> 'k \<Rightarrow> bool" where
  "took k0 l k \<longleftrightarrow> ok k \<and> opened k = opened k0 \<and> distinct (map fst l) \<and> (\<forall>x \<in> set l. space k0 (fst x) = Some (snd x) \<and> held k (fst x)) \<and>
     space k = (\<lambda>h. if h \<in> fst ` set l then None else space k0 h)"

lemma took_one:
  assumes t: "took k0 l k" and run: "take1 h k = (Inr c, k')"
  shows "took k0 (l @ [(h, c)]) k'"
proof -
  from t have ok: "ok k" by (simp add: took_def)
  note e = taken [OF ok run]
  from t have space: "space k = (\<lambda>h. if h \<in> fst ` set l then None else space k0 h)" by (simp add: took_def)
  have fresh: "h \<notin> fst ` set l" "space k0 h = Some c"
    using e by (simp_all add: space split: if_splits)
  moreover have "space k' = (\<lambda>g. if g \<in> fst ` set (l @ [(h, c)]) then None else space k0 g)"
    using e by (simp add: space fun_eq_iff)
  ultimately show ?thesis using e t by (simp add: took_def)
qed

lemma take_list_took:
  "took k0 l k \<Longrightarrow> take_list take1 hs l k = (r, k') \<Longrightarrow>
     (case r of Inr l' \<Rightarrow> took k0 l' k' \<and> map fst l' = map fst l @ hs | Inl (e, l') \<Rightarrow> took k0 l' k')"
proof (induction hs arbitrary: l k)
  case (Cons h hs)
  obtain r1 k1 where one: "take1 h k = (r1, k1)" by fastforce
  show ?case
  proof (cases r1)
    case (Inr c)
    with Cons.prems one have "took k0 (l @ [(h, c)]) k1" "take_list take1 hs (l @ [(h, c)]) k1 = (r, k')"
      by (auto intro: took_one)
    from Cons.IH [OF this] show ?thesis by (auto split: sum.splits)
  next
    case (Inl e)
    with Cons.prems one not_taken [of h k e k1] show ?thesis by auto
  qed
qed auto

lemma took_nothing: "ok k \<Longrightarrow> took k [] k"
  by (simp add: took_def)

text \<open>Restoring what was taken gives the space back.\<close>

lemma restore_list_space:
  "ok k \<Longrightarrow> opened k \<Longrightarrow> distinct (map fst l) \<Longrightarrow> (\<forall>x \<in> set l. held k (fst x)) \<Longrightarrow>
     ok (restore_list restore l k) \<and> opened (restore_list restore l k) \<and>
     space (restore_list restore l k) = space k ++ map_of l"
proof (induction l arbitrary: k)
  case (Cons x l)
  obtain h c where x: "x = (h, c)" by fastforce
  have e: "ok (restore h c k)" "opened (restore h c k)" "space (restore h c k) = (space k)(h \<mapsto> c)"
    "\<forall>x \<in> set l. held (restore h c k) (fst x)"
    using restored [of k h c] Cons.prems by (force simp: x)+
  have "h \<notin> dom (map_of l)" using Cons.prems(3) by (simp add: x dom_map_of_conv_image_fst)
  then have "(space k)(h \<mapsto> c) ++ map_of l = space k ++ map_of (x # l)"
    by (simp add: x map_add_upd_left)
  moreover have "distinct (map fst l)" using Cons.prems(3) by simp
  ultimately show ?case
    using Cons.IH [OF e(1,2) _ e(4)] unfolding x restore_list.simps e(3) by metis
qed simp

lemma take_restore:
  assumes t: "took k0 l k" and o: "opened k0"
  shows "ok (restore_list restore l k) \<and> space (restore_list restore l k) = space k0"
proof -
  have e: "ok k" "opened k" "distinct (map fst l)" "\<forall>x \<in> set l. held k (fst x)"
    using t o by (auto simp: took_def)
  have "space k0 = space k ++ map_of l"
  proof (rule ext)
    fix h
    show "space k0 h = (space k ++ map_of l) h"
    proof (cases "map_of l h")
      case None
      then have "h \<notin> fst ` set l" by (simp add: map_of_eq_None_iff)
      with None t show ?thesis by (simp add: took_def map_add_def)
    next
      case (Some c)
      from map_of_SomeD [OF this] t have "space k0 h = Some c" by (auto simp: took_def)
      with Some show ?thesis by (simp add: map_add_def)
    qed
  qed
  with restore_list_space [OF e] show ?thesis by simp
qed

lemma commit_list_space:
  "ok k \<Longrightarrow> distinct hs \<Longrightarrow> (\<forall>h \<in> set hs. held k h) \<Longrightarrow>
     ok (commit_list commit hs k) \<and> space (commit_list commit hs k) = space k"
proof (induction hs arbitrary: k)
  case (Cons h hs)
  have "ok (commit h k)" "space (commit h k) = space k" "\<forall>g \<in> set hs. held (commit h k) g"
    using committed [of k h] Cons.prems by auto
  with Cons.IH [of "commit h k"] Cons.prems(2) show ?case by simp
qed simp

end

section \<open>The caller's table satisfies it\<close>

lemma state_of_kernel [simp]:
  "table_of cl (set_table cl t k) = t"
  "table_of cl (set_domains ds k) = table_of cl k"
  "k_domains (set_domains ds k) = ds"
  "k_domains (set_table cl t k) = k_domains k"
  "k_objects (set_table cl t k) = k_objects k"
  "k_objects (set_domains ds k) = k_objects k"
  "cs_channels (k_chans (set_table cl t k)) = cs_channels (k_chans k)"
  "cs_channels (k_chans (set_domains ds k)) = cs_channels (k_chans k)"
  by (simp_all add: table_of_def set_table_def set_domains_def k_domains_def)

lemma set_table_same [simp]: "set_table cl (table_of cl k) k = k"
  by (simp add: set_table_def table_of_def)

lemma in_transfer_put_other:
  "g \<noteq> h \<Longrightarrow> in_transfer t g \<Longrightarrow> in_transfer t h \<Longrightarrow> handle_index g \<noteq> handle_index h"
  by (auto simp: in_transfer_def handle_eq_iff)

lemma in_transfer_put_slot:
  "in_transfer t g \<Longrightarrow> handle_index g \<noteq> i \<Longrightarrow> in_transfer ((put_slot i s t)\<lparr>ht_free := f\<rparr>) g"
  "in_transfer t g \<Longrightarrow> handle_index g \<noteq> i \<Longrightarrow> in_transfer (put_slot i s t) g"
  by (simp_all add: in_transfer_def put_slot_def)

lemma transfer_keeps_held:
  assumes wf: "table_wf t" and run: "ht_take_for_transfer objs h r t = (Inr c, t')" and g: "in_transfer t g"
  shows "in_transfer t' g"
proof -
  note live = live_slot [OF wf] ht_take_for_transfer_granted [OF wf run]
  have "\<not> s_reserved (ht_slots t ! unat (handle_index h))" using live by blast
  with g have "handle_index g \<noteq> handle_index h" by (auto simp: in_transfer_def)
  moreover have "t' = put_slot (handle_index h) ((ht_slots t ! unat (handle_index h))\<lparr>s_cap := None, s_reserved := True\<rparr>) t"
    using run by (auto simp: ht_take_for_transfer_def Let_def split: sum.splits if_splits)
  ultimately show ?thesis using g by (simp add: in_transfer_put_slot)
qed

lemma resolve_keeps_held:
  assumes h: "in_transfer t h" and g: "in_transfer t g" "g \<noteq> h"
    and run: "ht_resolve_taken ds h t = (ds', t')"
  shows "in_transfer t' g"
proof -
  from h run obtain s f where "t' = (put_slot (handle_index h) s t)\<lparr>ht_free := f\<rparr>"
    by (auto simp: ht_resolve_taken_def slot_at_def in_transfer_def Let_def split: prod.splits)
  with in_transfer_put_other [OF g(2,1) h] g(1) show ?thesis by (simp add: in_transfer_put_slot)
qed

lemma restore_keeps_held:
  assumes h: "in_transfer t h" and g: "in_transfer t g" "g \<noteq> h" and o: "\<not> ht_closed t"
    and run: "ht_restore_taken hp ds h c t = (ds', t')"
  shows "in_transfer t' g"
proof -
  from h o run obtain s where "t' = put_slot (handle_index h) s t"
    by (auto simp: ht_restore_taken_def slot_at_def in_transfer_def)
  with in_transfer_put_other [OF g(2,1) h] g(1) show ?thesis by (simp add: in_transfer_put_slot)
qed

interpretation transfers: transfer_space
  "\<lambda>k. table_wf (table_of cl k)" "\<lambda>k. \<not> ht_closed (table_of cl k)" "\<lambda>k. cspace (table_of cl k)"
  "\<lambda>k. in_transfer (table_of cl k)" "take_one cl" "restore_one cl" "commit_one cl"
  for cl
proof (unfold_locales, goal_cases)
  case (1 k h c k')
  then obtain t where run: "ht_take_for_transfer (k_objects k) h RIGHT_TRANSFER (table_of cl k) = (Inr c, t)"
    and k': "k' = set_table cl t k"
    by (auto simp: take_one_def split: prod.splits)
  from ht_take_for_transfer_granted [OF 1(1) run] transfer_keeps_held [OF 1(1) run] show ?case
    by (simp add: k')
next
  case (2 h k e k')
  then obtain t where run: "ht_take_for_transfer (k_objects k) h RIGHT_TRANSFER (table_of cl k) = (Inl e, t)"
    and k': "k' = set_table cl t k"
    by (auto simp: take_one_def split: prod.splits)
  from ht_take_for_transfer_refused [OF run] show ?case by (simp add: k')
next
  case (3 k h c)
  obtain ds t where run: "ht_restore_taken (cl_heap cl) (k_domains k) h c (table_of cl k) = (ds, t)" by fastforce
  from ht_restore_taken_open [OF 3(1,3,2) run] restore_keeps_held [OF 3(3) _ _ 3(2) run] 3(2) show ?case
    by (simp add: restore_one_def run)
next
  case (4 k h)
  obtain ds t where run: "ht_resolve_taken (k_domains k) h (table_of cl k) = (ds, t)" by fastforce
  from ht_resolve_taken [OF 4 run] resolve_keeps_held [OF 4(2) _ _ run] show ?case
    by (simp add: commit_one_def ht_commit_taken_def run)
next
  case (5 k h)
  then show ?case by (rule in_transfer_names_nothing)
qed

end
