(* ===== verification/Ipc_Steps.thy ===== *)
theory Ipc_Steps
  imports Ipc_Transfers Handle_Steps Channel_Properties
begin

text \<open>
  The kernel as the composition of its handle tables and its channels over one store of domains. A
  kernel step is one atomic operation: one operation of one process's table, one operation of a
  channel, or bookkeeping that touches neither. Every syscall is a sequence of such steps, so what
  holds of every step holds of every run of every process's syscalls, however they interleave.
\<close>

section \<open>The two ledgers do not meet\<close>

lemma refund_table_only: "only_counters Handles ds (refund_table ds t n)"
  by (simp add: refund_table_def uncharge_handles_def uncharge_hier_only split: option.split)

lemma charge_table_only: "only_counters Handles ds (charge_table ds t)"
  by (simp add: charge_table_def charge_handle_def charge_hier_only split: option.split)

lemma try_charge_table_only: "try_charge_table ds t = (b, ds') \<Longrightarrow> only_counters Handles ds ds'"
  by (auto simp: try_charge_table_def try_charge_handle_def split: option.splits intro: try_charge_hier_only)

lemma charge_loop_only:
  "charge_loop (\<lambda>s. try_charge_handle s d) (\<lambda>k s. uncharge_handles s d k) taken n ds = (b, ds') \<Longrightarrow>
     only_counters Handles ds ds'"
proof (induction n arbitrary: taken ds)
  case (Suc n)
  obtain b1 ds1 where one: "try_charge_handle ds d = (b1, ds1)" by fastforce
  then have e: "only_counters Handles ds ds1" by (auto simp: try_charge_handle_def intro: try_charge_hier_only)
  show ?case
  proof (cases b1)
    case True
    with Suc.prems one Suc.IH [of "Suc taken" ds1] e show ?thesis by (auto intro: only_counters_trans)
  next
    case False
    with Suc.prems one have "ds' = uncharge_handles ds1 d taken" by simp
    with only_counters_trans [OF e uncharge_hier_only] show ?thesis by (simp add: uncharge_handles_def)
  qed
qed simp

lemma ht_insert_only: "ht_insert hp ds c t = (h, ds', t') \<Longrightarrow> only_counters Handles ds ds'"
  by (auto simp: ht_insert_def Let_def charge_table_only split: prod.splits sum.splits
      intro: only_counters_trans [OF charge_table_only refund_table_only])

lemma ht_try_insert_or_return_only:
  assumes "ht_try_insert_or_return hp ds c t = (r, ds', t')"
  shows "only_counters Handles ds ds'"
proof -
  obtain b ds1 where took: "try_charge_table ds t = (b, ds1)" by fastforce
  from try_charge_table_only [OF took] assms took show ?thesis
    by (auto simp: ht_try_insert_or_return_def split: prod.splits sum.splits bool.splits
        intro: only_counters_trans [OF _ refund_table_only])
qed

lemma ht_try_insert_only: "ht_try_insert hp ds c t = (r, ds', t') \<Longrightarrow> only_counters Handles ds ds'"
  by (auto simp: ht_try_insert_def split: prod.splits sum.splits intro: ht_try_insert_or_return_only)

lemma ht_duplicate_only: "ht_duplicate hp objs ds h r t = (res, ds', t') \<Longrightarrow> only_counters Handles ds ds'"
  by (auto simp: ht_duplicate_def split: prod.splits sum.splits if_splits option.splits intro: ht_try_insert_only)

lemma ht_reserve_only: "ht_reserve hp ds n t = (b, ds', t') \<Longrightarrow> only_counters Handles ds ds'"
  by (auto simp: ht_reserve_def Let_def split: prod.splits if_splits option.splits bool.splits intro: charge_loop_only)

lemma ht_insert_reserved_only: "ht_insert_reserved hp ds c t = (h, ds', t') \<Longrightarrow> only_counters Handles ds ds'"
  by (auto simp: ht_insert_reserved_def Let_def refund_table_only split: prod.splits if_splits list.splits)

lemma ht_take_only: "ht_take objs ds h r t = (res, ds', t') \<Longrightarrow> only_counters Handles ds ds'"
  by (auto simp: ht_take_def Let_def refund_table_only split: prod.splits if_splits sum.splits)

lemma ht_restore_taken_only: "ht_restore_taken hp ds h c t = (ds', t') \<Longrightarrow> only_counters Handles ds ds'"
  by (auto simp: ht_restore_taken_def refund_table_only split: prod.splits if_splits option.splits intro: ht_insert_only)

lemma ht_close_only: "ht_close objs ds h t = (res, ds', t') \<Longrightarrow> only_counters Handles ds ds'"
  by (auto simp: ht_close_def Let_def refund_table_only split: prod.splits if_splits option.splits)

lemma table_step_only:
  assumes "table_step hp (ds, t) (ds', t')"
  shows "only_counters Handles ds ds'"
  using assms
proof cases
  case (step_release n)
  then show ?thesis by (auto simp: ht_release_reservation_def Let_def refund_table_only)
next
  case step_close_all
  then show ?thesis by (auto simp: ht_close_all_def refund_table_only split: prod.splits if_splits)
qed (auto simp: ht_commit_taken_def ht_abandon_taken_def ht_resolve_taken_def refund_table_only
    intro: ht_insert_only ht_try_insert_or_return_only ht_duplicate_only ht_reserve_only ht_insert_reserved_only
      ht_take_only ht_restore_taken_only ht_close_only)

lemma drop_charge_only: "only_counters IpcQueue ds (drop_charge ds q)"
  by (simp add: drop_charge_def uncharge_ipc_queue_def uncharge_hier_only split: option.split)

lemma drain_inbox_only: "only_counters IpcQueue ds (drain_inbox ms ds)"
  by (induction ms arbitrary: ds)
    (auto simp: take_queue_charge_def intro: only_counters_trans [OF drop_charge_only])

lemma charge_queue_only: "charge_queue ds d msg = (b, ds', msg') \<Longrightarrow> only_counters IpcQueue ds ds'"
  by (auto simp: charge_queue_def try_charge_ipc_queue_def Let_def split: prod.splits bool.splits
      intro: try_charge_hier_only)

lemma send_inner_only: "send_inner f k msg sender s = (r, s') \<Longrightarrow> only_counters IpcQueue (cs_domains s) (cs_domains s')"
  by (auto simp: send_inner_def split: option.splits if_splits bool.splits prod.splits intro: charge_queue_only)

lemma chan_recv_only: "chan_recv k s = (r, s') \<Longrightarrow> only_counters IpcQueue (cs_domains s) (cs_domains s')"
  by (auto simp: chan_recv_def release_queue_charge_def take_queue_charge_def Let_def drop_charge_only
      split: option.splits list.splits if_splits)

lemma commit_delivery_only: "commit_delivery k msg s = (m, s') \<Longrightarrow> only_counters IpcQueue (cs_domains s) (cs_domains s')"
  by (auto simp: commit_delivery_def release_queue_charge_def take_queue_charge_def Let_def drop_charge_only
      split: option.splits if_splits)

lemma chan_drop_only: "only_counters IpcQueue (cs_domains s) (cs_domains (chan_drop k s))"
  by (cases "cs_channels s k") (simp add: chan_drop_def, simp add: chan_drop_effect drain_inbox_only)

lemma chan_step_only:
  assumes "chan_step (s, H) (s', H')"
  shows "only_counters IpcQueue (cs_domains s) (cs_domains s')"
  using assms
proof cases
  case (on_take k i b n msg)
  then have "cs_domains s' = cs_domains s" by (elim recv_identified_taken) simp
  then show ?thesis by simp
next
  case (on_return k msg)
  then have "cs_domains s' = cs_domains s" by (auto simp: return_to_head_def split: option.splits)
  then show ?thesis by simp
next
  case (on_create ka kb fa fb depth r)
  then have "cs_domains s' = cs_domains s" by (auto simp: try_create_with_depth_def Let_def split: if_splits)
  then show ?thesis by simp
qed (auto intro: send_inner_only chan_recv_only commit_delivery_only chan_drop_only)

section \<open>Kernel steps\<close>

definition koids_below :: "koid \<Rightarrow> chan_state \<Rightarrow> bool" where
  "koids_below n s \<longleftrightarrow> (\<forall>j c. cs_channels s j = Some c \<longrightarrow> j < n \<and> (\<forall>p. c_peer c = Some p \<longrightarrow> p < n))"

definition put_table :: "process_id \<Rightarrow> handle_table \<Rightarrow> kernel \<Rightarrow> kernel" where
  "put_table p t k = k\<lparr>k_tables := (k_tables k)(p := t)\<rparr>"

text \<open>\<open>P\<close> is the set of processes that run; \<open>held\<close> are the messages receives have in hand.\<close>

inductive kstep :: "process_id set \<Rightarrow> kernel \<times> held \<Rightarrow> kernel \<times> held \<Rightarrow> bool" for P where
  k_table: "p \<in> P \<Longrightarrow> heap_bounded hp \<Longrightarrow> table_step hp (k_domains k, k_tables k p) (ds, t) \<Longrightarrow>
      kstep P (k, H) (set_domains ds (put_table p t k), H)"
| k_chan: "chan_step (k_chans k, H) (s, H') \<Longrightarrow> k_next_koid k \<le> n \<Longrightarrow> koids_below n s \<Longrightarrow>
      kstep P (k, H) (k\<lparr>k_chans := s, k_next_koid := n\<rparr>, H')"
| k_local: "k_tables k' = k_tables k \<Longrightarrow> k_chans k' = k_chans k \<Longrightarrow> k_next_koid k \<le> k_next_koid k' \<Longrightarrow>
      kstep P (k, H) (k', H)"

definition k_inv :: "process_id set \<Rightarrow> kernel \<Rightarrow> held \<Rightarrow> bool" where
  "k_inv P k H \<longleftrightarrow> (\<forall>p \<in> P. table_wf (k_tables k p)) \<and> chan_wf (k_chans k) H \<and>
     koids_below (k_next_koid k) (k_chans k)"

definition table_owes :: "domains \<Rightarrow> handle_table \<Rightarrow> domain_id \<Rightarrow> nat" where
  "table_owes ds t a = (if a \<in> table_payers ds t then table_charge t else 0)"

definition tables_owe :: "process_id set \<Rightarrow> kernel \<Rightarrow> domain_id \<Rightarrow> nat" where
  "tables_owe P k a = (\<Sum>p \<in> P. table_owes (k_domains k) (k_tables k p) a)"

text \<open>
  The counters of every domain include what all tables and all undelivered messages hold, and the
  handle counters are far enough from the width of the machine's counter for all that the tables
  of \<open>P\<close> can ever hold together.
\<close>

definition k_accounts :: "process_id set \<Rightarrow> kernel \<Rightarrow> held \<Rightarrow> bool" where
  "k_accounts P k H \<longleftrightarrow> finite P \<and>
     (\<forall>p \<in> P. \<forall>d. ht_domain (k_tables k p) = Some d \<longrightarrow> k_domains k d \<noteq> None) \<and>
     (\<forall>a. tables_owe P k a \<le> used (k_domains k) Handles a \<and>
        used (k_domains k) Handles a + (card P * 4294967296 + 1) \<le> U64_MAX + tables_owe P k a) \<and>
     covered (k_chans k) H"

definition k_balanced :: "process_id set \<Rightarrow> kernel \<Rightarrow> held \<Rightarrow> kernel \<Rightarrow> held \<Rightarrow> bool" where
  "k_balanced P k H k' H' \<longleftrightarrow>
     (\<forall>a. used (k_domains k') Handles a + tables_owe P k a = used (k_domains k) Handles a + tables_owe P k' a) \<and>
     balanced (k_chans k) H (k_chans k') H'"

lemma kernel_simps [simp]:
  "k_tables (set_domains ds k) = k_tables k"
  "k_chans (put_table p t k) = k_chans k"
  "k_tables (put_table p t k) = (k_tables k)(p := t)"
  "k_domains (put_table p t k) = k_domains k"
  "k_next_koid (set_domains ds k) = k_next_koid k"
  "k_next_koid (put_table p t k) = k_next_koid k"
  "k_chans (set_domains ds k) = (k_chans k)\<lparr>cs_domains := ds\<rparr>"
  "k_domains (k\<lparr>k_chans := s\<rparr>) = cs_domains s"
  "k_domains (k\<lparr>k_chans := s, k_next_koid := n\<rparr>) = cs_domains s"
  by (simp_all add: set_domains_def put_table_def k_domains_def)

lemma table_owes_same: "same_lines ds ds' \<Longrightarrow> table_owes ds' t a = table_owes ds t a"
  by (simp add: table_owes_def table_payers_def same_lines_def split: option.split)

lemma table_owes_le: "table_wf t \<Longrightarrow> table_owes ds t a \<le> 4294967296"
  using table_charge_bound [of t] by (simp add: table_owes_def)

lemma k_roomy:
  assumes inv: "k_inv P k H" and acc: "k_accounts P k H" and p: "p \<in> P"
  shows "roomy (k_domains k) (k_tables k p)"
proof -
  have fin: "finite P" using acc by (simp add: k_accounts_def)
  have "table_charge (k_tables k p) \<le> used (k_domains k) Handles a \<and>
      used (k_domains k) Handles a + 4294967297 \<le> U64_MAX + table_charge (k_tables k p)"
    if a: "a \<in> table_payers (k_domains k) (k_tables k p)" for a
  proof -
    let ?o = "\<lambda>p. table_owes (k_domains k) (k_tables k p) a"
    have own: "?o p = table_charge (k_tables k p)" using a by (simp add: table_owes_def)
    have split: "tables_owe P k a = ?o p + (\<Sum>q \<in> P - {p}. ?o q)"
      unfolding tables_owe_def using fin p by (rule sum.remove)
    obtain n where n: "card P = Suc n" using fin p by (cases "card P") auto
    then have rest: "(\<Sum>q \<in> P - {p}. ?o q) \<le> n * 4294967296"
      using sum_bounded_above [of "P - {p}" ?o 4294967296] inv fin p by (simp add: k_inv_def table_owes_le)
    have "tables_owe P k a \<le> used (k_domains k) Handles a"
      "used (k_domains k) Handles a + (card P * 4294967296 + 1) \<le> U64_MAX + tables_owe P k a"
      using acc by (simp_all add: k_accounts_def)
    then show ?thesis using split own rest unfolding n mult_Suc by linarith
  qed
  moreover have "\<forall>d. ht_domain (k_tables k p) = Some d \<longrightarrow> k_domains k d \<noteq> None"
    using acc p by (simp add: k_accounts_def)
  ultimately show ?thesis unfolding roomy_def by blast
qed

lemma covered_frame:
  assumes "only_counters Handles (cs_domains s) ds"
  shows "balanced s H (s\<lparr>cs_domains := ds\<rparr>) H \<longleftrightarrow> finite (dom (cs_channels s))"
proof -
  have lines: "same_lines (cs_domains s) (cs_domains (s\<lparr>cs_domains := ds\<rparr>))" using assms by (simp add: only_counters_def)
  have "owed (s\<lparr>cs_domains := ds\<rparr>) H a = owed s H a" for a
    using queued_same [of "s\<lparr>cs_domains := ds\<rparr>" s a] lines same_lines_owes(3) [OF lines, of H a] by (simp add: owed_def)
  moreover have "used ds IpcQueue a = used (cs_domains s) IpcQueue a" for a
    using assms by (simp add: only_counters_def)
  ultimately show ?thesis by (simp add: balanced_def)
qed

lemma table_kstep:
  assumes inv: "k_inv P k H" and acc: "k_accounts P k H" and hp: "heap_bounded hp" and p: "p \<in> P"
    and step: "table_step hp (k_domains k, k_tables k p) (ds, t)"
  shows "k_inv P (set_domains ds (put_table p t k)) H \<and> k_balanced P k H (set_domains ds (put_table p t k)) H \<and>
    ht_domain t = ht_domain (k_tables k p)"
proof -
  let ?k = "set_domains ds (put_table p t k)" let ?t0 = "k_tables k p"
  have wf: "table_wf ?t0" using inv p by (simp add: k_inv_def)
  have m: "sound_move (k_domains k) ?t0 ds t" by (rule table_step_sound [OF wf hp step])
  have s: "settled (k_domains k) ?t0 ds t" using m k_roomy [OF inv acc p] by (simp add: sound_move_def)
  have only: "only_counters Handles (k_domains k) ds" by (rule table_step_only [OF step])
  have lines: "same_lines (k_domains k) ds" by (rule only_counters_lines [OF only])
  have fin: "finite P" using acc by (simp add: k_accounts_def)
  have "used ds Handles a + tables_owe P k a = used (k_domains k) Handles a + tables_owe P ?k a" for a
  proof -
    let ?rest = "\<Sum>q \<in> P - {p}. table_owes (k_domains k) (k_tables k q) a"
    have "tables_owe P k a = table_owes (k_domains k) ?t0 a + ?rest"
      unfolding tables_owe_def using fin p by (rule sum.remove)
    moreover have "tables_owe P ?k a = table_owes ds t a + (\<Sum>q \<in> P - {p}. table_owes ds (k_tables ?k q) a)"
      unfolding tables_owe_def using sum.remove [OF fin p, of "\<lambda>q. table_owes ds (k_tables ?k q) a"] by simp
    moreover have "(\<Sum>q \<in> P - {p}. table_owes ds (k_tables ?k q) a) = ?rest"
      by (rule sum.cong) (simp_all add: table_owes_same [OF lines])
    moreover have "used ds Handles a + table_owes (k_domains k) ?t0 a = used (k_domains k) Handles a + table_owes ds t a"
      using s settled_used [OF s, of a] by (auto simp: table_owes_def settled_def)
    ultimately show ?thesis by linarith
  qed
  moreover have "balanced (k_chans k) H (k_chans ?k) H"
    using covered_frame [of "k_chans k" ds H] only acc by (simp add: k_accounts_def covered_def k_domains_def)
  moreover have "k_inv P ?k H"
    using inv m chan_wf_channels [of "(k_chans k)\<lparr>cs_domains := ds\<rparr>" "k_chans k" H]
    by (auto simp: k_inv_def sound_move_def koids_below_def)
  ultimately show ?thesis using s by (simp add: k_balanced_def settled_def)
qed

lemma chan_kstep:
  assumes inv: "k_inv P k H" and acc: "k_accounts P k H" and step: "chan_step (k_chans k, H) (s, H')"
    and n: "koids_below n s"
  shows "k_inv P (k\<lparr>k_chans := s, k_next_koid := n\<rparr>) H' \<and> k_balanced P k H (k\<lparr>k_chans := s, k_next_koid := n\<rparr>) H'"
proof -
  have wf: "chan_wf (k_chans k) H" using inv by (simp add: k_inv_def)
  have only: "only_counters IpcQueue (k_domains k) (cs_domains s)"
    using chan_step_only [OF step] by (simp add: k_domains_def)
  have "balanced (k_chans k) H s H'"
    using chan_step_balanced [OF step wf] acc by (simp add: k_accounts_def)
  moreover have "tables_owe P (k\<lparr>k_chans := s, k_next_koid := n\<rparr>) a = tables_owe P k a" for a
    by (simp add: tables_owe_def table_owes_same [OF only_counters_lines [OF only]])
  moreover have "used (cs_domains s) Handles a = used (k_domains k) Handles a" for a
    using only by (simp add: only_counters_def)
  ultimately show ?thesis
    using inv n chan_step_wf [OF step wf] by (simp add: k_inv_def k_balanced_def)
qed

lemma k_balanced_accounts:
  assumes b: "k_balanced P k H k' H'" and acc: "k_accounts P k H"
    and live: "\<forall>p \<in> P. \<forall>d. ht_domain (k_tables k' p) = Some d \<longrightarrow> k_domains k' d \<noteq> None"
  shows "k_accounts P k' H'"
proof -
  have "tables_owe P k' a \<le> used (k_domains k') Handles a \<and>
      used (k_domains k') Handles a + (card P * 4294967296 + 1) \<le> U64_MAX + tables_owe P k' a" for a
  proof -
    have "used (k_domains k') Handles a + tables_owe P k a = used (k_domains k) Handles a + tables_owe P k' a"
      using b by (simp add: k_balanced_def)
    moreover have "tables_owe P k a \<le> used (k_domains k) Handles a"
      "used (k_domains k) Handles a + (card P * 4294967296 + 1) \<le> U64_MAX + tables_owe P k a"
      using acc by (simp_all add: k_accounts_def)
    ultimately show ?thesis by linarith
  qed
  moreover have "covered (k_chans k') H'"
    using b acc balanced_covered by (auto simp: k_balanced_def k_accounts_def)
  ultimately show ?thesis using acc live by (simp add: k_accounts_def)
qed

lemma kstep_sound:
  assumes step: "kstep P (k, H) (k', H')" and inv: "k_inv P k H" and acc: "k_accounts P k H"
  shows "k_inv P k' H' \<and> k_accounts P k' H' \<and> k_balanced P k H k' H'"
  using step
proof cases
  case (k_table p hp ds t)
  note e = table_kstep [OF inv acc k_table(4,3,5)]
  have "only_counters Handles (k_domains k) ds" by (rule table_step_only [OF k_table(5)])
  then have "\<forall>q \<in> P. \<forall>d. ht_domain (k_tables k' q) = Some d \<longrightarrow> k_domains k' d \<noteq> None"
    using e acc by (auto simp: k_table k_accounts_def only_counters_def)
  with e k_balanced_accounts [OF _ acc] show ?thesis by (simp add: k_table)
next
  case (k_chan s n)
  note e = chan_kstep [OF inv acc k_chan(2,4)]
  have "only_counters IpcQueue (k_domains k) (cs_domains s)"
    using chan_step_only [OF k_chan(2)] by (simp add: k_domains_def)
  then have "\<forall>q \<in> P. \<forall>d. ht_domain (k_tables k' q) = Some d \<longrightarrow> k_domains k' d \<noteq> None"
    using acc by (auto simp: k_chan k_accounts_def only_counters_def)
  with e k_balanced_accounts [OF _ acc] show ?thesis by (simp add: k_chan)
next
  case k_local
  have ds: "k_domains k' = k_domains k" using k_local by (simp add: k_domains_def)
  have "k_inv P k' H" using inv k_local by (auto simp: k_inv_def koids_below_def) (meson less_le_trans)+
  moreover have bal: "k_balanced P k H k' H"
    using acc k_local ds by (simp add: k_balanced_def tables_owe_def balanced_def k_accounts_def covered_def)
  moreover have "k_accounts P k' H"
    by (rule k_balanced_accounts [OF bal acc]) (use acc k_local ds in \<open>simp add: k_accounts_def\<close>)
  ultimately show ?thesis by (simp add: k_local)
qed

lemma k_balanced_trans: "k_balanced P k H k1 H1 \<Longrightarrow> k_balanced P k1 H1 k2 H2 \<Longrightarrow> k_balanced P k H k2 H2"
proof -
  assume a: "k_balanced P k H k1 H1" "k_balanced P k1 H1 k2 H2"
  have "used (k_domains k2) Handles a + tables_owe P k a = used (k_domains k) Handles a + tables_owe P k2 a" for a
  proof -
    have "used (k_domains k1) Handles a + tables_owe P k a = used (k_domains k) Handles a + tables_owe P k1 a"
      "used (k_domains k2) Handles a + tables_owe P k1 a = used (k_domains k1) Handles a + tables_owe P k2 a"
      using a by (simp_all add: k_balanced_def)
    then show ?thesis by linarith
  qed
  moreover have "balanced (k_chans k) H (k_chans k2) H2"
    using a balanced_trans by (auto simp: k_balanced_def)
  ultimately show ?thesis by (simp add: k_balanced_def)
qed

lemma krun_sound:
  assumes "(kstep P)\<^sup>*\<^sup>* (k, H) (k', H')" and "k_inv P k H" and "k_accounts P k H"
  shows "k_inv P k' H' \<and> k_accounts P k' H' \<and> k_balanced P k H k' H'"
proof -
  let ?I = "\<lambda>(k1, H1). k_inv P k1 H1 \<and> k_accounts P k1 H1 \<and> k_balanced P k H k1 H1"
  have "?I (k', H')"
    using assms(1)
  proof (rule run_invariant)
    show "?I (k, H)" using assms(2,3) by (simp add: k_balanced_def balanced_def k_accounts_def covered_def)
  next
    fix x y assume "kstep P x y" "?I x"
    then show "?I y" using kstep_sound [OF _] k_balanced_trans by (cases x; cases y) blast
  qed
  then show ?thesis by simp
qed

end
