(* ===== verification/Ipc_Runs.thy ===== *)
theory Ipc_Runs
  imports Ipc_Steps
begin

text \<open>
  Every handle and channel syscall is a sequence of kernel steps: the loops that take, commit,
  restore and install capabilities, the loop of a receive with its reservation, and the unwinding of
  each failure. What a receive relies on about the other processors is \<open>others_ok\<close>: they run
  channel operations, and a message identity names one message.
\<close>

section \<open>Moves\<close>

definition goes :: "process_id set \<Rightarrow> kernel \<Rightarrow> held \<Rightarrow> kernel \<Rightarrow> held \<Rightarrow> bool" where
  "goes P k H k' H' \<longleftrightarrow> (kstep P)\<^sup>*\<^sup>* (k, H) (k', H')"

definition runs_in :: "process_id set \<Rightarrow> caller \<Rightarrow> bool" where
  "runs_in P cl \<longleftrightarrow> cl_process cl \<in> P \<and> heap_bounded (cl_heap cl)"

lemma goes_refl [simp]: "goes P k H k H"
  by (simp add: goes_def)

lemma goes_trans [trans]: "goes P k H k1 H1 \<Longrightarrow> goes P k1 H1 k2 H2 \<Longrightarrow> goes P k H k2 H2"
  by (simp add: goes_def)

lemma goes_local:
  "k_tables k' = k_tables k \<Longrightarrow> k_chans k' = k_chans k \<Longrightarrow> k_next_koid k \<le> k_next_koid k' \<Longrightarrow> goes P k H k' H"
  unfolding goes_def by (intro r_into_rtranclp k_local)

lemma goes_table:
  assumes "runs_in P cl" and "table_step (cl_heap cl) (k_domains k, table_of cl k) (ds, t)"
  shows "goes P k H (set_domains ds (set_table cl t k)) H"
proof -
  have "set_table cl t k = put_table (cl_process cl) t k" by (simp add: set_table_def put_table_def)
  with assms k_table [of "cl_process cl" P "cl_heap cl" k ds t H] show ?thesis
    unfolding goes_def by (simp add: runs_in_def table_of_def r_into_rtranclp)
qed

lemma goes_chan:
  assumes "chan_step (k_chans k, H) (s, H')" and "koids_below (k_next_koid k) s"
  shows "goes P k H (k\<lparr>k_chans := s\<rparr>) H'"
  using k_chan [OF assms(1) _ assms(2), of P] unfolding goes_def by (simp add: r_into_rtranclp)

lemma set_domains_same [simp]: "set_domains (k_domains k) k = k"
  by (simp add: set_domains_def k_domains_def)

lemma spare_le: "spare ds r d n \<Longrightarrow> m \<le> n \<Longrightarrow> spare ds r d m"
  by (auto simp: spare_def headroom_def)

section \<open>Channel operations create no endpoint\<close>

definition ends_kept :: "chan_state \<Rightarrow> chan_state \<Rightarrow> bool" where
  "ends_kept s s' \<longleftrightarrow>
     (\<forall>j c'. cs_channels s' j = Some c' \<longrightarrow> (\<exists>c. cs_channels s j = Some c \<and> c_peer c' = c_peer c))"

lemma ends_kept_below: "ends_kept s s' \<Longrightarrow> koids_below n s \<Longrightarrow> koids_below n s'"
  unfolding ends_kept_def koids_below_def by metis

lemma ends_kept_same: "cs_channels s' = cs_channels s \<Longrightarrow> ends_kept s s'"
  by (simp add: ends_kept_def)

lemma ends_kept_put:
  "cs_channels s k = Some c \<Longrightarrow> cs_channels s' = (cs_channels s)(k \<mapsto> c') \<Longrightarrow> c_peer c' = c_peer c \<Longrightarrow> ends_kept s s'"
  by (simp add: ends_kept_def)

lemma send_inner_ends:
  assumes "send_inner ring_fits k msg sender s = (r, s')"
  shows "ends_kept s s'"
proof (cases r)
  case None
  with assms have "send_inner ring_fits k msg sender s = (None, s')" by simp
  then obtain p c msg' ds where "cs_channels s p = Some c"
    "s' = wake_message p (put_channel p (c\<lparr>c_inbox := c_inbox c @ [msg']\<rparr>) (s\<lparr>cs_domains := ds\<rparr>))"
    by (rule send_inner_sent)
  then show ?thesis by (simp add: ends_kept_def)
next
  case (Some x)
  with assms obtain e caps where "send_inner ring_fits k msg sender s = (Some (e, caps), s')" by (cases x) auto
  from send_inner_refused [OF this] show ?thesis by (simp add: ends_kept_same)
qed

lemma recv_identified_ends: "recv_identified k i b n s = (r, s') \<Longrightarrow> ends_kept s s'"
  by (auto simp: recv_identified_def ends_kept_def split: option.splits list.splits if_splits)

lemma return_to_head_ends: "ends_kept s (return_to_head k msg s)"
  by (simp add: return_to_head_def ends_kept_def split: option.split)

lemma commit_delivery_ends: "ends_kept s (snd (commit_delivery k msg s))"
  by (auto simp: commit_delivery_def ends_kept_def Let_def split: option.splits prod.splits)

lemma chan_drop_ends: "ends_kept s (chan_drop k s)"
  by (simp add: chan_drop_def ends_kept_def Let_def split: option.split)

section \<open>Moves of the table\<close>

lemma take_one_goes:
  assumes "runs_in P cl"
  shows "goes P k H (snd (take_one cl h k)) H"
proof -
  obtain r t where run: "ht_take_for_transfer (k_objects k) h RIGHT_TRANSFER (table_of cl k) = (r, t)" by fastforce
  from goes_table [OF assms step_transfer [OF run]]
  have "goes P k H (set_domains (k_domains (set_table cl t k)) (set_table cl t k)) H" by simp
  then show ?thesis unfolding set_domains_same by (simp add: take_one_def run)
qed

lemma commit_one_goes:
  assumes "runs_in P cl" and "in_transfer (table_of cl k) h"
  shows "goes P k H (commit_one cl h k) H"
  using goes_table [OF assms(1)] step_commit [OF assms(2)] by (auto simp: commit_one_def split: prod.split)

lemma restore_one_goes:
  assumes "runs_in P cl" and "in_transfer (table_of cl k) h"
  shows "goes P k H (restore_one cl h c k) H"
  using goes_table [OF assms(1)] step_restore [OF assms(2)] by (auto simp: restore_one_def split: prod.split)

lemma close_handle_goes:
  assumes "runs_in P cl"
  shows "goes P k H (snd (close_handle cl h k)) H"
proof -
  obtain r ds t where run: "ht_close (k_objects k) (k_domains k) h (table_of cl k) = (r, ds, t)"
    using prod_cases3 by blast
  have "goes P k H (set_domains ds (set_table cl t k)) H"
    by (rule goes_table [OF assms step_close [OF run]])
  also have "goes P (set_domains ds (set_table cl t k)) H (snd (close_handle cl h k)) H"
    by (rule goes_local) (simp_all add: close_handle_def run split: sum.split)
  finally show ?thesis .
qed

lemma close_handles_goes: "runs_in P cl \<Longrightarrow> goes P k H (close_handles cl hs k) H"
  by (induction hs arbitrary: k) (auto intro: goes_trans [OF close_handle_goes])

lemma reserve_handles_goes: "runs_in P cl \<Longrightarrow> goes P k H (snd (reserve_handles cl n k)) H"
  using goes_table [of P cl k] step_reserve by (auto simp: reserve_handles_def split: prod.split)

lemma release_handles_goes:
  assumes "runs_in P cl" and "n \<le> length (ht_booked (table_of cl k))"
  shows "goes P k H (release_handles cl n k) H"
  using goes_table [OF assms(1)] step_release [OF assms(2)] by (auto simp: release_handles_def split: prod.split)

lemma install_reserved_goes:
  assumes "runs_in P cl" and "ht_booked (table_of cl k) \<noteq> []"
  shows "goes P k H (snd (install_reserved cl c k)) H"
  using goes_table [OF assms(1)] step_insert_reserved [OF assms(2)]
  by (auto simp: install_reserved_def split: prod.split)

lemma try_insert_object_goes:
  assumes "runs_in P cl"
    and run: "ht_try_insert_object (cl_heap cl) objs (k_domains k) obj r (table_of cl k) = (res, ds, t)"
  shows "goes P k H (set_domains ds (set_table cl t k)) H"
proof -
  from run obtain res' where
    "ht_try_insert_or_return (cl_heap cl) (k_domains k) (capability_new objs obj r) (table_of cl k) = (res', ds, t)"
    by (auto simp: ht_try_insert_object_def ht_try_insert_def split: prod.splits sum.splits)
  from goes_table [OF assms(1) step_try_insert [OF this]] show ?thesis .
qed

section \<open>Moves of several capabilities\<close>

lemma restore_keeps_transfer:
  assumes h: "in_transfer t h" and g: "in_transfer t g" "g \<noteq> h"
    and run: "ht_restore_taken hp ds h c t = (ds', t')"
  shows "in_transfer t' g"
proof -
  from h run obtain s where "t' = put_slot (handle_index h) s t"
    by (auto simp: ht_restore_taken_def slot_at_def in_transfer_def split: if_splits)
  with in_transfer_put_other [OF g(2,1) h] g(1) show ?thesis by (simp add: in_transfer_put_slot)
qed

lemma restore_one_keeps:
  assumes "table_wf (table_of cl k)" and "in_transfer (table_of cl k) h"
  shows "table_wf (table_of cl (restore_one cl h c k)) \<and>
    (\<forall>g. in_transfer (table_of cl k) g \<longrightarrow> g \<noteq> h \<longrightarrow> in_transfer (table_of cl (restore_one cl h c k)) g)"
proof -
  obtain ds t where run: "ht_restore_taken (cl_heap cl) (k_domains k) h c (table_of cl k) = (ds, t)" by fastforce
  from restore_sound [OF assms run] restore_keeps_transfer [OF assms(2) _ _ run] show ?thesis
    by (simp add: restore_one_def run sound_move_def)
qed

lemma restore_all_goes:
  "runs_in P cl \<Longrightarrow> table_wf (table_of cl k) \<Longrightarrow> distinct (map fst l) \<Longrightarrow>
     (\<forall>x \<in> set l. in_transfer (table_of cl k) (fst x)) \<Longrightarrow> goes P k H (restore_all cl l k) H"
proof (induction l arbitrary: k)
  case (Cons x l)
  obtain h c where x: "x = (h, c)" by fastforce
  from Cons.prems have h: "in_transfer (table_of cl k) h" and d: "h \<notin> fst ` set l" "distinct (map fst l)"
    by (simp_all add: x)
  note kept = restore_one_keeps [OF Cons.prems(2) h, of c]
  have "\<forall>y \<in> set l. in_transfer (table_of cl (restore_one cl h c k)) (fst y)"
    using kept Cons.prems(4) d(1) by fastforce
  from goes_trans [OF restore_one_goes [OF Cons.prems(1) h] Cons.IH [OF Cons.prems(1) conjunct1 [OF kept] d(2) this]]
  show ?case by (simp add: restore_all_def x)
qed (simp add: restore_all_def)

lemma commit_all_goes:
  "runs_in P cl \<Longrightarrow> table_wf (table_of cl k) \<Longrightarrow> distinct hs \<Longrightarrow>
     (\<forall>h \<in> set hs. in_transfer (table_of cl k) h) \<Longrightarrow> goes P k H (commit_all cl hs k) H"
proof (induction hs arbitrary: k)
  case (Cons h hs)
  then have h: "in_transfer (table_of cl k) h" by simp
  note kept = transfers.committed [OF Cons.prems(2) h]
  have "table_wf (table_of cl (commit_one cl h k))" "distinct hs"
    "\<forall>g \<in> set hs. in_transfer (table_of cl (commit_one cl h k)) g"
    using kept Cons.prems(3,4) by auto
  from goes_trans [OF commit_one_goes [OF Cons.prems(1) h] Cons.IH [OF Cons.prems(1) this]]
  show ?case by (simp add: commit_all_def)
qed (simp add: commit_all_def)

lemma take_all_goes: "runs_in P cl \<Longrightarrow> goes P k H (snd (take_all cl hs l k)) H"
proof (induction hs arbitrary: l k)
  case (Cons h hs)
  obtain r k1 where one: "take_one cl h k = (r, k1)" by fastforce
  have "goes P k H k1 H" using take_one_goes [OF Cons.prems, of k H h] by (simp add: one)
  with goes_trans [OF this Cons.IH [OF Cons.prems]] show ?case
    by (auto simp: take_all_def one split: sum.split)
qed (simp add: take_all_def)

lemma take_one_frame:
  "k_chans (snd (take_one cl h k)) = k_chans k" "k_next_koid (snd (take_one cl h k)) = k_next_koid k"
  by (simp_all add: take_one_def set_table_def split: prod.split)

lemma take_all_frame:
  "k_chans (snd (take_all cl hs l k)) = k_chans k \<and> k_next_koid (snd (take_all cl hs l k)) = k_next_koid k"
proof (induction hs arbitrary: l k)
  case (Cons h hs)
  obtain r k1 where one: "take_one cl h k = (r, k1)" by fastforce
  with take_one_frame [of cl h k] Cons.IH [of _ k1] show ?case
    by (auto simp: take_all_def split: sum.split)
qed (simp add: take_all_def)

section \<open>Sending\<close>

text \<open>What a caller needs to send: its domain has room in the counter for a message of any size.\<close>

definition can_send :: "caller \<Rightarrow> kernel \<Rightarrow> bool" where
  "can_send cl k \<longleftrightarrow> spare (k_domains k) IpcQueue (cl_domain cl) MAX_MESSAGE_BYTES \<and>
     koids_below (k_next_koid k) (k_chans k)"

lemma can_send_frame: "k_chans k' = k_chans k \<Longrightarrow> k_next_koid k' = k_next_koid k \<Longrightarrow> can_send cl k' = can_send cl k"
  by (simp add: can_send_def k_domains_def)

lemma send_message_goes:
  assumes can: "can_send cl k" and len: "length bytes \<le> MAX_MESSAGE_BYTES"
    and run: "send_message cl chan bytes caps k = (r, k')"
  shows "goes P k H k' H" and "table_of cl k' = table_of cl k"
proof -
  obtain msg k1 where new: "new_message k bytes caps = (msg, k1)" by fastforce
  then have k1: "k1 = k\<lparr>k_next_msg := k_next_msg k + 1\<rparr>"
    and msg: "m_charge msg = None" "\<not> m_slot_reserved msg" "m_bytes msg = bytes"
    by (auto simp: new_message_def message_new_def)
  obtain s where sent: "send_inner (cl_ring_fits cl) chan msg (Some (cl_domain cl)) (k_chans k1) = (r, s)"
    and k': "k' = k1\<lparr>k_chans := s\<rparr>"
    using run by (auto simp: send_message_def new send_charged_or_return_def split: prod.splits)
  have "spare (k_domains k) IpcQueue (cl_domain cl) (length bytes)"
    using can len by (auto simp: can_send_def intro: spare_le)
  then have "chan_step (k_chans k1, H) (s, H)"
    by (intro on_send [OF msg(1,2) _ sent]) (simp add: k1 k_domains_def msg(3))
  moreover have "koids_below (k_next_koid k1) s"
    using ends_kept_below [OF send_inner_ends [OF sent]] can by (simp add: can_send_def k1)
  ultimately have "goes P k1 H k' H" unfolding k' by (rule goes_chan)
  moreover have "goes P k H k1 H" by (rule goes_local) (simp_all add: k1)
  ultimately show "goes P k H k' H" by (rule goes_trans [rotated])
  show "table_of cl k' = table_of cl k" by (simp add: k' k1 table_of_def)
qed

lemma record_goes [simp]: "goes P k H (record_send cl k) H" "goes P k H (record_recv cl k) H"
  by (rule goes_local; simp add: record_send_def record_recv_def)+

text \<open>Taking one or several capabilities, sending, and settling the transfer either way.\<close>

lemma transfer_goes:
  assumes in_P: "runs_in P cl" and wf: "table_wf (table_of cl k)" and can: "can_send cl k"
    and len: "length bytes \<le> MAX_MESSAGE_BYTES"
    and took: "take_all cl hs [] k = (r, k1)"
  shows "r = Inl (e, taken) \<Longrightarrow> goes P k H (restore_all cl taken k1) H"
    and "r = Inr taken \<Longrightarrow> send_message cl chan bytes caps k1 = (None, k2) \<Longrightarrow>
       goes P k H (record_send cl (commit_all cl (map fst taken) k2)) H"
    and "r = Inr taken \<Longrightarrow> send_message cl chan bytes caps k1 = (Some ec, k2) \<Longrightarrow> goes P k H (restore_all cl taken k2) H"
proof -
  have k1: "goes P k H k1 H" using take_all_goes [OF in_P, of k H hs "[]"] by (simp add: took)
  have can1: "can_send cl k1" using can_send_frame [of k1 k cl] take_all_frame [of cl hs "[]" k] can by (simp add: took)
  note t = transfers.take_list_took [OF transfers.took_nothing [OF wf] took [unfolded take_all_def], unfolded transfers.took_def]
  show "goes P k H (restore_all cl taken k1) H" if "r = Inl (e, taken)"
    using t that by (intro goes_trans [OF k1 restore_all_goes [OF in_P]]) simp_all
  assume r: "r = Inr taken"
  show "goes P k H (record_send cl (commit_all cl (map fst taken) k2)) H"
    if "send_message cl chan bytes caps k1 = (None, k2)"
  proof -
    note sent = send_message_goes [OF can1 len that]
    have "goes P k2 H (commit_all cl (map fst taken) k2) H"
      using t unfolding r sum.case sent(2) [symmetric] by (intro commit_all_goes [OF in_P]) (blast | force)+
    from goes_trans [OF goes_trans [OF goes_trans [OF k1 sent(1)] this] record_goes(1)] show ?thesis .
  qed
  show "goes P k H (restore_all cl taken k2) H" if "send_message cl chan bytes caps k1 = (Some ec, k2)"
  proof -
    note sent = send_message_goes [OF can1 len that]
    have "goes P k2 H (restore_all cl taken k2) H"
      using t unfolding r sum.case sent(2) [symmetric] by (intro restore_all_goes [OF in_P]) (blast | force)+
    from goes_trans [OF goes_trans [OF k1 sent(1)] this] show ?thesis .
  qed
qed

lemma take_all_one:
  "take_all cl [h] [] k =
     (case take_one cl h k of (Inr c, k1) \<Rightarrow> (Inr [(h, c)], k1) | (Inl e, k1) \<Rightarrow> (Inl (e, []), k1))"
  by (simp add: take_all_def split: prod.split sum.split)

lemma copy_length: "copy_from_user_exact us ptr len = Inr bytes \<Longrightarrow> length bytes = len"
  using copy_from_user_exact_ok [of us ptr len bytes] by simp

lemma read_payload_length: "read_payload cl k ptr len = Inr bytes \<Longrightarrow> length bytes \<le> len"
  by (auto simp: read_payload_def copy_length split: if_splits)

lemma read_bytes_length: "read_bytes cl k ptr len = Inr bytes \<Longrightarrow> length bytes \<le> len"
  by (auto simp: read_bytes_def copy_length split: if_splits)

text \<open>
  The four sends share one body: take every named capability, send what \<open>att\<close> makes of them, then
  commit the handles or restore them. \<open>sends\<close> says a call refused early or ran that body.
\<close>

definition send_body ::
  "caller \<Rightarrow> koid \<Rightarrow> u8 list \<Rightarrow> handle list \<Rightarrow> (capability list \<Rightarrow> capability list) \<Rightarrow> kernel \<Rightarrow> bool \<times> kernel" where
  "send_body cl chan bytes hs att k =
     (case take_all cl hs [] k of
        (Inl (e, taken), k1) \<Rightarrow> (False, restore_all cl taken k1)
      | (Inr taken, k1) \<Rightarrow>
          (case send_message cl chan bytes (att (map snd taken)) k1 of
             (None, k2) \<Rightarrow> (True, record_send cl (commit_all cl (map fst taken) k2))
           | (Some _, k2) \<Rightarrow> (False, restore_all cl taken k2)))"

definition sends ::
  "caller \<Rightarrow> handle \<Rightarrow> handle list \<Rightarrow> (capability list \<Rightarrow> capability list) \<Rightarrow> kernel \<Rightarrow> int \<Rightarrow> kernel \<Rightarrow> bool" where
  "sends cl ch hs att k r k' \<longleftrightarrow> r \<noteq> 0 \<and> k' = k \<or>
     (\<exists>chan bytes. current_object cl k ch Channel RIGHT_SEND = Inr chan \<and> length bytes \<le> MAX_MESSAGE_BYTES \<and>
        send_body cl chan bytes hs att k = (r = 0, k'))"

lemmas err_defs = ERR_NO_MEMORY_def ERR_BAD_HANDLE_def ERR_ACCESS_DENIED_def ERR_INVALID_def ERR_WOULD_BLOCK_def
  ERR_PEER_CLOSED_def ERR_RESOURCE_EXHAUSTED_def ERR_NOT_MAPPED_def

lemma errors_nonzero [simp]:
  "lookup_error e \<noteq> 0" "send_error c \<noteq> 0" "send_caps_error c \<noteq> 0"
  "ERR_INVALID \<noteq> 0" "ERR_NO_MEMORY \<noteq> 0" "ERR_NOT_MAPPED \<noteq> 0"
  by (simp_all add: lookup_error_def send_error_def send_caps_error_def err_defs split: channel_error.split)

lemma current_object_error: "current_object cl k h ty r = Inl e \<Longrightarrow> e \<noteq> 0"
  by (auto simp: current_object_def split: sum.splits)

lemma copy_from_error: "copy_from_user_exact us ptr len = Inl e \<Longrightarrow> e \<noteq> 0"
  by (auto simp: copy_from_user_exact_def Let_def split: if_splits)

lemma read_error: "read_payload cl k ptr len = Inl e \<Longrightarrow> e \<noteq> 0" "read_bytes cl k ptr len = Inl e \<Longrightarrow> e \<noteq> 0"
  by (auto simp: read_payload_def read_bytes_def dest: copy_from_error split: if_splits)

lemma send_message_returns:
  assumes "send_message cl chan bytes caps k = (Some (e, caps'), k')"
  shows "caps' = caps"
proof -
  obtain msg k1 where new: "new_message k bytes caps = (msg, k1)" by fastforce
  then have "m_caps msg = caps" by (auto simp: new_message_def message_new_def)
  moreover obtain s where "send_inner (cl_ring_fits cl) chan msg (Some (cl_domain cl)) (k_chans k1) = (Some (e, caps'), s)"
    using assms by (auto simp: send_message_def new send_charged_or_return_def split: prod.splits)
  ultimately show ?thesis using send_inner_refused by blast
qed

lemma send_caps_sends:
  assumes run: "sys_channel_send_caps cl ch bytes_ptr bytes_len caps_ptr k = (r, k')"
  shows "sends cl ch (read_handles k caps_ptr (unat (read_user_u64 (k_user k) caps_ptr))) id k r k'"
proof -
  let ?hs = "read_handles k caps_ptr (unat (read_user_u64 (k_user k) caps_ptr))"
  have body: "send_body cl chan bytes ?hs id k = (r = 0, k')"
    if "(case take_all cl ?hs [] k of
          (Inl (e, taken), k1) \<Rightarrow> (lookup_error e, restore_all cl taken k1)
        | (Inr taken, k1) \<Rightarrow>
            (case send_message cl chan bytes (map snd taken) k1 of
               (None, k2) \<Rightarrow> (0, record_send cl (commit_all cl (map fst taken) k2))
             | (Some (e, caps), k2) \<Rightarrow> (send_caps_error e, restore_all cl (zip (map fst taken) caps) k2))) = (r, k')"
    for chan bytes
    using that send_message_returns
    by (fastforce simp: send_body_def zip_map_fst_snd split: prod.splits sum.splits option.splits)
  from run show ?thesis
    unfolding sys_channel_send_caps_def sends_def Let_def
    by (auto dest: current_object_error read_error dest!: body read_payload_length split: if_splits sum.splits)
qed

lemma send_caps_attenuated_sends:
  assumes run: "sys_channel_send_caps_attenuated cl ch bytes_ptr bytes_len caps_ptr k = (r, k')"
  defines "trs \<equiv> read_transfers k caps_ptr (unat (read_user_u64 (k_user k) caps_ptr))"
  shows "sends cl ch (map ct_handle trs) (map2 (\<lambda>tr c. cap_attenuated c (rights_from_bits (ct_rights tr))) trs) k r k'"
proof -
  have att: "attenuate_all trs taken = map2 (\<lambda>tr c. cap_attenuated c (rights_from_bits (ct_rights tr))) trs (map snd taken)"
    for taken by (simp add: attenuate_all_def zip_map2 case_prod_beta)
  have body: "send_body cl chan bytes (map ct_handle trs) (map2 (\<lambda>tr c. cap_attenuated c (rights_from_bits (ct_rights tr))) trs) k
      = (r = 0, k')"
    if "(case take_all cl (map ct_handle trs) [] k of
          (Inl (e, taken), k1) \<Rightarrow> (lookup_error e, restore_all cl taken k1)
        | (Inr taken, k1) \<Rightarrow>
            (case send_message cl chan bytes (attenuate_all trs taken) k1 of
               (None, k2) \<Rightarrow> (0, record_send cl (commit_all cl (map fst taken) k2))
             | (Some (e, caps), k2) \<Rightarrow> (send_caps_error e, restore_all cl taken k2))) = (r, k')"
    for chan bytes
    using that unfolding att by (fastforce simp: send_body_def split: prod.splits sum.splits option.splits)
  from run show ?thesis
    unfolding sys_channel_send_caps_attenuated_def sends_def Let_def trs_def [symmetric]
    by (auto dest: current_object_error read_error dest!: body read_payload_length split: if_splits sum.splits)
qed

lemma send_body_one:
  "send_body cl chan bytes [h] att k =
     (case take_one cl h k of
        (Inl e, k1) \<Rightarrow> (False, k1)
      | (Inr cap, k1) \<Rightarrow>
          (case send_message cl chan bytes (att [cap]) k1 of
             (None, k2) \<Rightarrow> (True, record_send cl (commit_one cl h k2))
           | (Some _, k2) \<Rightarrow> (False, restore_one cl h cap k2)))"
  by (simp add: send_body_def take_all_one commit_all_def restore_all_def split: prod.split sum.split option.split)

lemma send_body_none:
  "send_body cl chan bytes [] id k =
     (case send_message cl chan bytes [] k of (None, k2) \<Rightarrow> (True, record_send cl k2) | (Some _, k2) \<Rightarrow> (False, k2))"
  by (simp add: send_body_def take_all_def commit_all_def restore_all_def split: prod.split option.split)

lemma send_attenuated_sends:
  assumes run: "sys_channel_send_attenuated cl ch bytes_ptr bytes_len transfer_ptr k = (r, k')"
  defines "tr \<equiv> read_user_transfer (k_user k) transfer_ptr"
  shows "sends cl ch [ct_handle tr] (map (\<lambda>c. cap_attenuated c (rights_from_bits (ct_rights tr)))) k r k'"
proof -
  have body: "send_body cl chan bytes [ct_handle tr] (map (\<lambda>c. cap_attenuated c (rights_from_bits (ct_rights tr)))) k = (r = 0, k')"
    if "(case take_one cl (ct_handle tr) k of
          (Inl e, k1) \<Rightarrow> (lookup_error e, k1)
        | (Inr taken, k1) \<Rightarrow>
            (case send_message cl chan bytes [cap_attenuated taken (rights_from_bits (ct_rights tr))] k1 of
               (None, k2) \<Rightarrow> (0, record_send cl (commit_one cl (ct_handle tr) k2))
             | (Some (e, _), k2) \<Rightarrow> (send_error e, restore_one cl (ct_handle tr) taken k2))) = (r, k')"
    for chan bytes
    using that by (fastforce simp: send_body_one split: prod.splits sum.splits option.splits)
  from run show ?thesis
    unfolding sys_channel_send_attenuated_def sends_def Let_def tr_def [symmetric]
    by (auto dest: current_object_error read_error dest!: body read_bytes_length split: if_splits sum.splits)
qed

lemma send_sends:
  assumes run: "sys_channel_send cl ch bytes_ptr bytes_len xfer k = (r, k')"
  shows "sends cl ch (if xfer = 0 then [] else [xfer]) id k r k'"
proof -
  have body: "send_body cl chan bytes [xfer] id k = (r = 0, k')"
    if "(case take_one cl xfer k of
          (Inl e, k1) \<Rightarrow> (lookup_error e, k1)
        | (Inr cap, k1) \<Rightarrow>
            (case send_message cl chan bytes [cap] k1 of
               (None, k2) \<Rightarrow> (0, record_send cl (commit_one cl xfer k2))
             | (Some (e, caps), k2) \<Rightarrow> (send_error e, restore_all cl (map (Pair xfer) caps) k2))) = (r, k')"
    for chan bytes
    using that send_message_returns
    by (fastforce simp: send_body_one restore_all_def split: prod.splits sum.splits option.splits)
  have plain: "send_body cl chan bytes [] id k = (r = 0, k')"
    if "(case send_message cl chan bytes [] k of
          (None, k1) \<Rightarrow> (0, record_send cl k1) | (Some (e, _), k1) \<Rightarrow> (send_error e, k1)) = (r, k')"
    for chan bytes
    using that by (auto simp: send_body_none split: prod.splits option.splits)
  from run show ?thesis
    unfolding sys_channel_send_def sends_def
    by (auto dest: current_object_error read_error dest!: body plain read_bytes_length split: if_splits sum.splits)
qed

lemma send_body_goes:
  assumes in_P: "runs_in P cl" and wf: "table_wf (table_of cl k)" and can: "can_send cl k"
    and len: "length bytes \<le> MAX_MESSAGE_BYTES" and run: "send_body cl chan bytes hs att k = (b, k')"
  shows "goes P k H k' H"
proof -
  obtain r k1 where took: "take_all cl hs [] k = (r, k1)" by fastforce
  note t = transfer_goes [OF in_P wf can len took]
  show ?thesis
  proof (cases r)
    case (Inl x)
    with run took t(1) show ?thesis by (cases x) (simp add: send_body_def)
  next
    case (Inr taken)
    obtain res k2 where sent: "send_message cl chan bytes (att (map snd taken)) k1 = (res, k2)" by fastforce
    with run took Inr t(2,3) [OF Inr] show ?thesis by (cases res) (auto simp: send_body_def)
  qed
qed

lemma sends_goes:
  assumes "runs_in P cl" and "table_wf (table_of cl k)" and "can_send cl k" and "sends cl ch hs att k r k'"
  shows "goes P k H k' H"
  using assms(4) send_body_goes [OF assms(1-3)] unfolding sends_def by auto

section \<open>Receiving\<close>

definition head_of :: "chan_state \<Rightarrow> koid \<Rightarrow> message option" where
  "head_of s j =
     (case cs_channels s j of
        None \<Rightarrow> None
      | Some c \<Rightarrow> (case c_inbox c of [] \<Rightarrow> None | m # _ \<Rightarrow> Some m))"

definition other_step :: "chan_state \<times> held \<Rightarrow> chan_state \<times> held \<Rightarrow> bool" where
  "other_step x y \<longleftrightarrow> chan_step x y \<and> ends_kept (fst x) (fst y)"

text \<open>
  The other processors between a look and a take: they run operations on the endpoints there are,
  and a head that carries the identity of the one that was looked at is that message.
\<close>

definition others_ok :: "caller \<Rightarrow> bool" where
  "others_ok cl \<longleftrightarrow>
     (\<forall>i x. other_step\<^sup>*\<^sup>* x (cl_other cl i x)) \<and>
     (\<forall>i x j m m'. head_of (fst x) j = Some m \<longrightarrow> head_of (fst (cl_other cl i x)) j = Some m' \<longrightarrow> m_id m' = m_id m \<longrightarrow>
        m_caps m' = m_caps m)"

lemma goes_others:
  assumes "other_step\<^sup>*\<^sup>* (k_chans k, H) (s, H')" and "koids_below (k_next_koid k) (k_chans k)"
  shows "goes P k H (k\<lparr>k_chans := s\<rparr>) H' \<and> koids_below (k_next_koid k) s"
proof -
  let ?I = "\<lambda>(s, H'). goes P k H (k\<lparr>k_chans := s\<rparr>) H' \<and> koids_below (k_next_koid k) s"
  have "?I (s, H')"
    using assms(1)
  proof (rule run_invariant)
    show "?I (k_chans k, H)" using assms(2) by simp
  next
    fix x y assume "other_step x y" "?I x"
    then show "?I y"
      using goes_chan [of "k\<lparr>k_chans := fst x\<rparr>" "snd x" "fst y" "snd y"] ends_kept_below [of "fst x" "fst y"]
      by (cases x; cases y) (auto simp: other_step_def intro: goes_trans)
  qed
  then show ?thesis by simp
qed

lemma meanwhile_fields [simp]:
  "k_tables (meanwhile cl n k) = k_tables k" "k_objects (meanwhile cl n k) = k_objects k"
  "k_next_koid (meanwhile cl n k) = k_next_koid k" "k_user (meanwhile cl n k) = k_user k"
  "table_of cl' (meanwhile cl n k) = table_of cl' k"
  by (simp_all add: meanwhile_def table_of_def split: prod.split)

lemma meanwhile_chans:
  "k_chans (meanwhile cl n k) = fst (cl_other cl n (k_chans k, k_held k))"
  "k_held (meanwhile cl n k) = snd (cl_other cl n (k_chans k, k_held k))"
  by (simp_all add: meanwhile_def split: prod.split)

lemma meanwhile_goes:
  assumes "others_ok cl" and "koids_below (k_next_koid k) (k_chans k)"
  shows "goes P k (k_held k) (meanwhile cl n k) (k_held (meanwhile cl n k)) \<and>
    koids_below (k_next_koid k) (k_chans (meanwhile cl n k))"
proof -
  obtain s H' where o: "cl_other cl n (k_chans k, k_held k) = (s, H')" by fastforce
  then have "other_step\<^sup>*\<^sup>* (k_chans k, k_held k) (s, H')" using assms(1) unfolding others_ok_def by metis
  note go = goes_others [OF this assms(2), of P]
  have "goes P (k\<lparr>k_chans := s\<rparr>) H' (meanwhile cl n k) H'"
    by (rule goes_local) (simp_all add: o meanwhile_chans)
  with go show ?thesis by (auto simp: o meanwhile_chans intro: goes_trans)
qed

text \<open>No operation on the caller's table touches what other processors have in hand.\<close>

lemma held_simps [simp]:
  "k_held (set_table cl t k) = k_held k" "k_held (set_domains ds k) = k_held k"
  "k_held (record_send cl k) = k_held k" "k_held (record_recv cl k) = k_held k"
  "k_held (deliver chan msg k) = k_held k" "k_held (drop_endpoint c k) = k_held k"
  by (simp_all add: set_table_def set_domains_def record_send_def record_recv_def deliver_def drop_endpoint_def)

lemma held_handles [simp]:
  "k_held (snd (close_handle cl h k)) = k_held k" "k_held (snd (reserve_handles cl n k)) = k_held k"
  "k_held (release_handles cl n k) = k_held k" "k_held (snd (install_reserved cl cap k)) = k_held k"
  "k_held (snd (take_one cl h k)) = k_held k" "k_held (commit_one cl h k) = k_held k"
  "k_held (restore_one cl h cap k) = k_held k" "k_held (put_back cl chan msg n k) = k_held k"
  by (simp_all add: close_handle_def reserve_handles_def release_handles_def install_reserved_def take_one_def
      commit_one_def restore_one_def put_back_def Let_def split: prod.split sum.split)

lemma held_close_handles [simp]: "k_held (close_handles cl hs k) = k_held k"
  by (induction hs arbitrary: k) simp_all

lemma held_install_all [simp]: "k_held (snd (install_all cl caps k)) = k_held k"
proof (induction caps arbitrary: k)
  case (Cons c caps)
  show ?case
    using Cons.IH [of "snd (install_reserved cl c k)"] by (simp add: Let_def split: prod.split) (metis held_handles(4) snd_conv)
qed simp

text \<open>What an attempt that comes back without a message leaves of the caller's table.\<close>

definition table_kept :: "caller \<Rightarrow> kernel \<Rightarrow> kernel \<Rightarrow> nat \<Rightarrow> bool" where
  "table_kept cl k k' n \<longleftrightarrow> table_wf (table_of cl k') \<and> cspace (table_of cl k') = cspace (table_of cl k) \<and>
     length (ht_booked (table_of cl k')) = length (ht_booked (table_of cl k)) + n \<and>
     drop n (ht_booked (table_of cl k')) = ht_booked (table_of cl k) \<and>
     (numbered (table_of cl k) \<longrightarrow> numbered (table_of cl k')) \<and>
     ht_closed (table_of cl k') = ht_closed (table_of cl k) \<and> k_next_koid k' = k_next_koid k \<and>
     k_objects k' = k_objects k \<and> k_user k' = k_user k"

lemma table_kept_chan [simp]: "table_kept cl k (k'\<lparr>k_chans := s\<rparr>) n = table_kept cl k k' n"
  by (simp add: table_kept_def table_of_def)

lemma reserve_handles_kept:
  assumes "runs_in P cl" and wf: "table_wf (table_of cl k)" and run: "reserve_handles cl n k = (b, k')"
  shows "table_kept cl k k' (if b then n else 0) \<and> cs_channels (k_chans k') = cs_channels (k_chans k)"
proof -
  obtain ds t where r: "ht_reserve (cl_heap cl) (k_domains k) n (table_of cl k) = (b, ds, t)"
    and k': "k' = set_domains ds (set_table cl t k)"
    using run by (auto simp: reserve_handles_def split: prod.splits)
  have hp: "heap_bounded (cl_heap cl)" using assms(1) by (simp add: runs_in_def)
  note n = numbered_reserve [OF _ r]
  show ?thesis
  proof (cases b)
    case True
    with r have "ht_reserve (cl_heap cl) (k_domains k) n (table_of cl k) = (True, ds, t)" by simp
    from ht_reserve_granted [OF wf hp this] ht_reserve_booked [OF wf hp this] n True show ?thesis
      by (simp add: k' table_kept_def) (simp add: set_domains_def set_table_def)
  next
    case False
    with r have "ht_reserve (cl_heap cl) (k_domains k) n (table_of cl k) = (False, ds, t)" by simp
    from ht_reserve_refused [OF wf hp this] n False show ?thesis
      by (simp add: k' table_kept_def) (simp add: set_domains_def set_table_def)
  qed
qed

lemma release_handles_kept:
  assumes "table_wf (table_of cl k)" and "n \<le> length (ht_booked (table_of cl k))"
  shows "table_wf (table_of cl (release_handles cl n k)) \<and>
    cspace (table_of cl (release_handles cl n k)) = cspace (table_of cl k) \<and>
    length (ht_booked (table_of cl (release_handles cl n k))) + n = length (ht_booked (table_of cl k)) \<and>
    ht_booked (table_of cl (release_handles cl n k)) = drop n (ht_booked (table_of cl k)) \<and>
    (numbered (table_of cl k) \<longrightarrow> numbered (table_of cl (release_handles cl n k))) \<and>
    ht_closed (table_of cl (release_handles cl n k)) = ht_closed (table_of cl k) \<and>
    k_next_koid (release_handles cl n k) = k_next_koid k \<and> k_objects (release_handles cl n k) = k_objects k \<and>
    k_user (release_handles cl n k) = k_user k \<and>
    cs_channels (k_chans (release_handles cl n k)) = cs_channels (k_chans k)"
proof -
  obtain ds t where run: "ht_release_reservation (k_domains k) n (table_of cl k) = (ds, t)" by fastforce
  have "numbered (table_of cl k) \<longrightarrow> numbered t"
    using table_step_numbered [OF step_release [OF assms(2) run]] by blast
  with ht_release_reservation_effect [OF assms run] ht_release_booked [OF assms(2) run] show ?thesis
    by (simp add: release_handles_def run) (simp add: set_domains_def set_table_def)
qed

text \<open>The outcomes of a receive up to the moment the message is in hand.\<close>

definition received :: "process_id set \<Rightarrow> caller \<Rightarrow> koid \<Rightarrow> nat \<Rightarrow> kernel \<Rightarrow> int + message \<Rightarrow> kernel \<Rightarrow> bool" where
  "received P cl chan install_max k r k' \<longleftrightarrow> koids_below (k_next_koid k') (k_chans k') \<and>
     (case r of
        Inl e \<Rightarrow> goes P k (k_held k) k' (k_held k') \<and> table_kept cl k k' 0 \<and> e \<noteq> 0
      | Inr msg \<Rightarrow> goes P k (k_held k) k' (add_mset (chan, msg) (k_held k')) \<and>
          table_kept cl k k' (min (length (m_caps msg)) install_max) \<and> length (m_caps msg) \<le> MAX_MESSAGE_CAPS)"

lemma received_after:
  assumes "goes P k (k_held k) k1 (k_held k1)" and "table_kept cl k k1 0" and "received P cl chan im k1 r k'"
  shows "received P cl chan im k r k'"
  using assms goes_trans [OF assms(1)] by (fastforce simp: received_def table_kept_def split: sum.splits)

lemma recv_identified_head:
  assumes "recv_identified j i b n s = (Inr msg, s')"
  shows "\<exists>m. head_of s j = Some m \<and> m_id m = i \<and> m_caps msg = m_caps m \<and> length (m_caps m) \<le> n"
  using assms by (auto simp: recv_identified_def head_of_def split: option.splits list.splits if_splits)

lemma peek_head: "peek_identified j s = Inr (i, b, n) \<Longrightarrow> \<exists>m. head_of s j = Some m \<and> m_id m = i \<and> n = length (m_caps m)"
  by (auto simp: peek_identified_def head_of_def split: option.splits list.splits)

text \<open>One attempt, from the reservation on.\<close>

lemma attempt_taken:
  assumes in_P: "runs_in P cl" and wf: "table_wf (table_of cl k)" and kb: "koids_below (k_next_koid k) (k_chans k)"
    and ok: "others_ok cl" and peek: "peek_identified chan (k_chans k) = Inr (i, b, n)"
    and res: "reserve_handles cl (min n im) k = (True, k1)"
    and recv: "recv_identified chan i ra MAX_MESSAGE_CAPS (k_chans (meanwhile cl j k1)) = (r, s)"
  defines "k2 \<equiv> meanwhile cl j k1\<lparr>k_chans := s\<rparr>"
  defines "k3 \<equiv> release_handles cl (min n im) k2"
  shows "case r of Inr msg \<Rightarrow> received P cl chan im k (Inr msg) k2
    | Inl e \<Rightarrow> goes P k (k_held k) k3 (k_held k3) \<and> table_kept cl k k3 0 \<and> koids_below (k_next_koid k) (k_chans k3)"
proof -
  let ?k1 = "meanwhile cl j k1" let ?H = "k_held (meanwhile cl j k1)"
  have h1: "k_held k1 = k_held k" using held_handles(2) [of cl "min n im" k] by (simp add: res)
  have k1: "goes P k (k_held k) k1 (k_held k1)"
    using reserve_handles_goes [OF in_P, of k "k_held k" "min n im"] by (simp add: res h1)
  note kept = reserve_handles_kept [OF in_P wf res]
  have kb1: "koids_below (k_next_koid k1) (k_chans k1)" using kb kept by (simp add: koids_below_def table_kept_def)
  note go = meanwhile_goes [OF ok kb1, of P j]
  note to_take = goes_trans [OF k1 conjunct1 [OF go]]
  note kb2 = ends_kept_below [OF recv_identified_ends [OF recv] conjunct2 [OF go]]
  have t: "table_of cl k2 = table_of cl k1" by (simp add: k2_def table_of_def)
  show ?thesis
  proof (cases r)
    case (Inr msg)
    obtain m m' where m: "head_of (k_chans k) chan = Some m" "m_id m = i" "n = length (m_caps m)"
      and m': "head_of (k_chans ?k1) chan = Some m'" "m_id m' = i" "m_caps msg = m_caps m'"
        "length (m_caps m') \<le> MAX_MESSAGE_CAPS"
      using peek_head [OF peek] recv_identified_head [OF recv [unfolded Inr]] by blast
    have "head_of (fst (k_chans k1, k_held k1)) chan = Some m" using m(1) kept by (simp add: head_of_def)
    then have n: "length (m_caps msg) = n" using ok m m' unfolding others_ok_def meanwhile_chans by metis
    have "goes P ?k1 ?H k2 (add_mset (chan, msg) ?H)"
      unfolding k2_def using goes_chan [OF on_take [OF recv [unfolded Inr]]] kb2 by simp
    from goes_trans [OF to_take this] kb2 kept m' n Inr
    show ?thesis by (simp add: received_def k2_def table_kept_def t [unfolded k2_def])
  next
    case (Inl e)
    from recv_identified_refused [OF recv [unfolded Inl]] have k2: "k2 = ?k1" by (simp add: k2_def)
    have booked: "table_wf (table_of cl k2)" "min n im \<le> length (ht_booked (table_of cl k2))"
      using kept by (simp_all add: table_kept_def t)
    note rel = release_handles_kept [OF booked, folded k3_def]
    have "goes P k (k_held k) k3 (k_held k3)"
      unfolding k3_def held_handles using goes_trans [OF to_take [folded k2] release_handles_goes [OF in_P booked(2)]] by simp
    moreover have "table_kept cl k k3 0" using rel kept unfolding table_kept_def t by (simp add: k2)
    moreover have "koids_below (k_next_koid k) (k_chans k3)"
      using rel kb2 kept by (simp add: koids_below_def table_kept_def k2_def)
    ultimately show ?thesis using Inl by simp
  qed
qed

lemma received_nothing:
  "table_wf (table_of cl k) \<Longrightarrow> koids_below (k_next_koid k) (k_chans k) \<Longrightarrow> e \<noteq> 0 \<Longrightarrow> received P cl chan im k (Inl e) k"
  unfolding received_def table_kept_def by (auto intro: goes_refl)

definition refusal_code :: "recv_refusal \<Rightarrow> int option" where
  "refusal_code e =
     (case e of
        Superseded \<Rightarrow> None
      | Gone PeerClosed \<Rightarrow> Some ERR_PEER_CLOSED
      | Gone _ \<Rightarrow> Some ERR_WOULD_BLOCK
      | _ \<Rightarrow> Some ERR_INVALID)"

lemma refusal_code_error: "refusal_code e = Some x \<Longrightarrow> x \<noteq> 0"
  by (auto simp: refusal_code_def err_defs split: recv_refusal.splits channel_error.splits)

lemma receive_attempts_received:
  "runs_in P cl \<Longrightarrow> table_wf (table_of cl k) \<Longrightarrow> koids_below (k_next_koid k) (k_chans k) \<Longrightarrow> others_ok cl \<Longrightarrow>
     receive_attempts cl chan ra im n k = (r, k') \<Longrightarrow> received P cl chan im k r k'"
proof (induction n arbitrary: k)
  case 0
  then show ?case by (auto intro: received_nothing simp: err_defs)
next
  case (Suc n)
  have idle: "e \<noteq> 0 \<Longrightarrow> received P cl chan im k (Inl e) k" for e by (rule received_nothing [OF Suc.prems(2,3)])
  show ?case
  proof (cases "peek_identified chan (k_chans k)")
    case (Inl e)
    have "receive_attempts cl chan ra im (Suc n) k = (Inl (if e = PeerClosed then ERR_PEER_CLOSED else ERR_WOULD_BLOCK), k)"
      by (cases e) (simp_all add: Inl)
    from trans [OF this [symmetric] Suc.prems(5)]
    have r: "r = Inl (if e = PeerClosed then ERR_PEER_CLOSED else ERR_WOULD_BLOCK)" "k' = k"
      by (simp_all only: prod.inject)
    show ?thesis unfolding r by (rule idle) (simp add: err_defs)
  next
    case (Inr x)
    obtain i b c where x: "x = (i, b, c)" using prod_cases3 by blast
    note peek = Inr [unfolded x]
    obtain ok k1 where res: "reserve_handles cl (min c im) k = (ok, k1)" by fastforce
    consider "ra < b" | "\<not> ra < b" "\<not> ok" | "\<not> ra < b" "ok" by blast
    then show ?thesis
    proof cases
      case 1
      have "receive_attempts cl chan ra im (Suc n) k = (Inl ERR_INVALID, k)" using 1 by (simp add: peek)
      from trans [OF this [symmetric] Suc.prems(5)] have r: "r = Inl ERR_INVALID" "k' = k" by (simp_all only: prod.inject)
      show ?thesis unfolding r by (rule idle) simp
    next
      case 2
      with Suc.prems(5) have r: "r = Inl ERR_RESOURCE_EXHAUSTED" "k' = k1" by (auto simp: peek res Let_def)
      have "k_held k1 = k_held k" using held_handles(2) [of cl "min c im" k] by (simp add: res)
      then have "goes P k (k_held k) k1 (k_held k1)"
        using reserve_handles_goes [OF Suc.prems(1), of k "k_held k" "min c im"] by (simp add: res)
      with reserve_handles_kept [OF Suc.prems(1,2) res] 2 Suc.prems(3) show ?thesis
        by (auto simp: received_def r err_defs koids_below_def table_kept_def)
    next
      case 3
      obtain q s where recv: "recv_identified chan i ra MAX_MESSAGE_CAPS (k_chans (meanwhile cl n k1)) = (q, s)" by fastforce
      note att = attempt_taken [OF Suc.prems(1-4) peek res [unfolded eqTrueI [OF 3(2)]] recv]
      let ?k2 = "release_handles cl (min c im) (meanwhile cl n k1\<lparr>k_chans := s\<rparr>)"
      have "receive_attempts cl chan ra im (Suc n) k =
          (case q of
             Inr msg \<Rightarrow> (Inr msg, meanwhile cl n k1\<lparr>k_chans := s\<rparr>)
           | Inl e \<Rightarrow>
               (case refusal_code e of None \<Rightarrow> receive_attempts cl chan ra im n ?k2 | Some x \<Rightarrow> (Inl x, ?k2)))"
        using 3 by (simp add: peek res recv Let_def refusal_code_def split: sum.split recv_refusal.split channel_error.split)
      note run = trans [OF this [symmetric] Suc.prems(5)]
      show ?thesis
      proof (cases q)
        case (Inr msg)
        with att run show ?thesis by auto
      next
        case (Inl e)
        with att have k2: "goes P k (k_held k) ?k2 (k_held ?k2)" "table_kept cl k ?k2 0" "koids_below (k_next_koid k) (k_chans ?k2)"
          by simp_all
        then have wf2: "table_wf (table_of cl ?k2)" "koids_below (k_next_koid ?k2) (k_chans ?k2)"
          by (simp_all add: table_kept_def)
        have "received P cl chan im ?k2 r k'"
        proof (cases "refusal_code e")
          case None
          with run Inl Suc.IH [OF Suc.prems(1) wf2 Suc.prems(4)] show ?thesis by simp
        next
          case (Some x)
          with run Inl have "r = Inl x" "k' = ?k2" by simp_all
          with received_nothing [OF wf2 refusal_code_error [OF Some]] show ?thesis by simp
        qed
        from received_after [OF k2(1,2) this] show ?thesis .
      qed
    qed
  qed
qed

lemma goes_user [simp]: "goes P k H (k\<lparr>k_user := us\<rparr>) H"
  by (rule goes_local) simp_all

lemma put_back_goes:
  assumes in_P: "runs_in P cl" and wf: "table_wf (table_of cl k)" and n: "n \<le> length (ht_booked (table_of cl k))"
    and kb: "koids_below (k_next_koid k) (k_chans k)"
  shows "goes P k (add_mset (chan, msg) H) (put_back cl chan msg n k) H"
proof -
  let ?k1 = "release_handles cl n k"
  have "koids_below (k_next_koid ?k1) (return_to_head chan msg (k_chans ?k1))"
    using release_handles_kept [OF wf n] kb by (intro ends_kept_below [OF return_to_head_ends]) (simp add: koids_below_def)
  from goes_chan [OF on_return [OF refl] this]
  have "goes P ?k1 (add_mset (chan, msg) H) (put_back cl chan msg n k) H" by (simp add: put_back_def Let_def)
  from goes_trans [OF release_handles_goes [OF in_P n] this] show ?thesis .
qed

lemma deliver_goes:
  assumes "koids_below (k_next_koid k) (k_chans k)"
  shows "goes P k (add_mset (chan, msg) H) (deliver chan msg k) H"
proof -
  obtain msg' s where run: "commit_delivery chan msg (k_chans k) = (msg', s)" by fastforce
  have "koids_below (k_next_koid k) s"
    using ends_kept_below [OF commit_delivery_ends [of "k_chans k" chan msg] assms] by (simp add: run)
  from goes_chan [OF on_commit [OF run] this] show ?thesis by (simp add: deliver_def run)
qed

lemma deliver_table [simp]: "table_of cl (deliver chan msg k) = table_of cl k"
  by (simp add: deliver_def table_of_def)

lemma install_reserved_kept:
  assumes wf: "table_wf (table_of cl k)" and b: "ht_booked (table_of cl k) \<noteq> []"
    and run: "install_reserved cl c k = (h, k')"
  shows "table_wf (table_of cl k') \<and> Suc (length (ht_booked (table_of cl k'))) = length (ht_booked (table_of cl k)) \<and>
    ht_booked (table_of cl k') = tl (ht_booked (table_of cl k)) \<and>
    (numbered (table_of cl k) \<longrightarrow> numbered (table_of cl k')) \<and>
    ht_closed (table_of cl k') = ht_closed (table_of cl k) \<and>
    (if ht_closed (table_of cl k) then h = 0 \<and> cspace (table_of cl k') = cspace (table_of cl k)
     else cspace (table_of cl k) h = None \<and> cspace (table_of cl k') = (cspace (table_of cl k))(h \<mapsto> c))"
proof -
  obtain ds t where r: "ht_insert_reserved (cl_heap cl) (k_domains k) c (table_of cl k) = (h, ds, t)"
    and k': "k' = set_domains ds (set_table cl t k)"
    using run by (auto simp: install_reserved_def split: prod.splits)
  have "numbered (table_of cl k) \<longrightarrow> numbered t"
    using table_step_numbered [OF step_insert_reserved [OF b r]] by blast
  then show ?thesis
    using ht_insert_reserved_open [OF wf b _ r] ht_insert_reserved_closed [OF wf b _ r] ht_insert_reserved_booked [OF b r]
    by (cases "ht_closed (table_of cl k)") (simp_all add: k')
qed

lemma install_all_goes:
  "runs_in P cl \<Longrightarrow> table_wf (table_of cl k) \<Longrightarrow> length caps \<le> length (ht_booked (table_of cl k)) \<Longrightarrow>
     goes P k H (snd (install_all cl caps k)) H"
proof (induction caps arbitrary: k)
  case (Cons c caps)
  obtain h k1 where one: "install_reserved cl c k = (h, k1)" by fastforce
  have b: "ht_booked (table_of cl k) \<noteq> []" using Cons.prems(3) by auto
  note kept = install_reserved_kept [OF Cons.prems(2) b one]
  have "goes P k H k1 H" using install_reserved_goes [OF Cons.prems(1) b, of H c] by (simp add: one)
  with Cons.IH [OF Cons.prems(1), of k1] kept Cons.prems(3) show ?case
    by (auto simp: one split: prod.split intro: goes_trans)
qed simp

lemma install_one_goes:
  assumes "runs_in P cl" and "caps \<noteq> [] \<Longrightarrow> ht_booked (table_of cl k) \<noteq> []"
  shows "goes P k H (snd (case caps of [] \<Rightarrow> (0, k) | cap # _ \<Rightarrow> install_reserved cl cap k)) H"
  using install_reserved_goes [OF assms(1)] assms(2) by (cases caps) simp_all

text \<open>A receive with the message in hand and \<open>n\<close> handles booked for its capabilities.\<close>

definition holding :: "process_id set \<Rightarrow> caller \<Rightarrow> kernel \<Rightarrow> koid \<Rightarrow> message \<Rightarrow> nat \<Rightarrow> kernel \<Rightarrow> bool" where
  "holding P cl k chan msg n k1 \<longleftrightarrow> goes P k (k_held k) k1 (add_mset (chan, msg) (k_held k1)) \<and> table_wf (table_of cl k1) \<and>
     n \<le> length (ht_booked (table_of cl k1)) \<and> koids_below (k_next_koid k1) (k_chans k1)"

lemma received_holding:
  "received P cl chan im k (Inr msg) k1 \<Longrightarrow> holding P cl k chan msg (min (length (m_caps msg)) im) (k1\<lparr>k_user := us\<rparr>)"
  unfolding received_def holding_def table_kept_def table_of_def by (auto intro: goes_trans [OF _ goes_user])

lemma holding_put_back:
  "runs_in P cl \<Longrightarrow> holding P cl k chan msg n k1 \<Longrightarrow> goes P k (k_held k) (put_back cl chan msg n k1) (k_held k1)"
  unfolding holding_def by (blast intro: goes_trans put_back_goes)

lemma holding_deliver:
  "holding P cl k chan msg n k1 \<Longrightarrow> goes P k (k_held k) (deliver chan msg k1) (k_held k1)"
  unfolding holding_def by (blast intro: goes_trans deliver_goes)

lemma holding_install:
  assumes "runs_in P cl" and h: "holding P cl k chan msg n k1" and "length caps \<le> n"
    and inst: "install_all cl caps (deliver chan msg k1) = (raws, k2)"
  shows "goes P k (k_held k) k2 (k_held k2)"
proof -
  have "k_held k2 = k_held k1" using held_install_all [of cl caps "deliver chan msg k1"] by (simp add: inst)
  moreover have "goes P (deliver chan msg k1) (k_held k1) k2 (k_held k1)"
    using install_all_goes [OF assms(1), of "deliver chan msg k1" caps "k_held k1"] h assms(3)
    by (simp add: inst holding_def)
  ultimately show ?thesis using goes_trans [OF holding_deliver [OF h]] by simp
qed

lemma then_closed: "runs_in P cl \<Longrightarrow> goes P k H k1 H1 \<Longrightarrow> goes P k H (close_handles cl hs (k1\<lparr>k_user := us\<rparr>)) H1"
  by (blast intro: goes_trans goes_user close_handles_goes)

lemma then_recorded: "goes P k H k1 H1 \<Longrightarrow> goes P k H (record_recv cl (k1\<lparr>k_user := us\<rparr>)) H1"
  by (blast intro: goes_trans goes_user record_goes)

lemma finish_recv_caps_goes:
  assumes in_P: "runs_in P cl" and rec: "received P cl chan MAX_MESSAGE_CAPS k (Inr msg) k1"
    and tail: "finish_recv_caps cl chan msg bytes_ptr caps_ptr k1 = (r, k')"
  shows "goes P k (k_held k) k' (k_held k')"
proof -
  obtain e us where copy: "copy_to_user_exact (k_user k1) bytes_ptr (m_bytes msg) = (e, us)" by fastforce
  note h = received_holding [OF rec, of us]
  show ?thesis
  proof (cases e)
    case (Some e')
    with tail copy holding_put_back [OF in_P h] show ?thesis by (auto simp: finish_recv_caps_def)
  next
    case None
    obtain raws k3 where inst: "install_all cl (take MAX_MESSAGE_CAPS (m_caps msg)) (deliver chan msg (k1\<lparr>k_user := us\<rparr>)) = (raws, k3)"
      by fastforce
    have "goes P k (k_held k) k3 (k_held k3)" by (rule holding_install [OF in_P h _ inst]) simp
    with tail copy None inst then_closed [OF in_P this] then_recorded [OF this] show ?thesis
      by (auto simp: finish_recv_caps_def Let_def split: prod.splits option.splits)
  qed
qed

lemma recv_caps_cases:
  assumes run: "sys_channel_recv_caps cl ch bytes_ptr bytes_cap caps_ptr k = (r, k')"
  obtains (refused) "k' = k" "r \<noteq> 0"
    | (none) chan where "receive_attempts cl chan bytes_cap MAX_MESSAGE_CAPS RECEIVE_ATTEMPTS k = (Inl r, k')"
        "current_object cl k ch Channel RIGHT_RECEIVE = Inr chan"
    | (taken) chan msg k1 where "receive_attempts cl chan bytes_cap MAX_MESSAGE_CAPS RECEIVE_ATTEMPTS k = (Inr msg, k1)"
        "finish_recv_caps cl chan msg bytes_ptr caps_ptr k1 = (r, k')"
        "current_object cl k ch Channel RIGHT_RECEIVE = Inr chan"
  using run unfolding sys_channel_recv_caps_def receive_transactionally_def
  by (auto dest: current_object_error split: if_split_asm sum.splits prod.splits)

lemma recv_cases:
  assumes run: "sys_channel_recv cl ch bytes_ptr bytes_cap out_ptr k = (r, k')"
  obtains (refused) "k' = k" "r \<noteq> 0"
    | (none) chan where "receive_attempts cl chan U64_MAX (if out_ptr \<noteq> 0 then 1 else 0) RECEIVE_ATTEMPTS k = (Inl r, k')"
        "current_object cl k ch Channel RIGHT_RECEIVE = Inr chan"
    | (taken) chan msg k1 where "receive_attempts cl chan U64_MAX (if out_ptr \<noteq> 0 then 1 else 0) RECEIVE_ATTEMPTS k = (Inr msg, k1)"
        "finish_recv cl chan msg bytes_ptr bytes_cap out_ptr k1 = (r, k')"
        "current_object cl k ch Channel RIGHT_RECEIVE = Inr chan"
  using run unfolding sys_channel_recv_def receive_transactionally_def
  by (auto dest: current_object_error split: if_split_asm sum.splits prod.splits)

lemma sys_channel_recv_caps_goes:
  assumes in_P: "runs_in P cl" and wf: "table_wf (table_of cl k)" and kb: "koids_below (k_next_koid k) (k_chans k)"
    and ok: "others_ok cl" and run: "sys_channel_recv_caps cl ch bytes_ptr bytes_cap caps_ptr k = (r, k')"
  shows "goes P k (k_held k) k' (k_held k')"
proof -
  note rec = receive_attempts_received [OF in_P wf kb ok]
  from run show ?thesis
  proof (cases rule: recv_caps_cases)
    case none
    from rec [OF none(1)] show ?thesis by (simp add: received_def)
  next
    case taken
    from finish_recv_caps_goes [OF in_P rec [OF taken(1)] taken(2)] show ?thesis .
  qed (auto intro: goes_refl)
qed

lemma finish_recv_goes:
  assumes in_P: "runs_in P cl" and rec: "received P cl chan (if out_ptr \<noteq> 0 then 1 else 0) k (Inr msg) k1"
    and tail: "finish_recv cl chan msg bytes_ptr bytes_cap out_ptr k1 = (r, k')"
  shows "goes P k (k_held k) k' (k_held k')"
proof -
  let ?n = "min (length (m_bytes msg)) bytes_cap" let ?im = "if out_ptr \<noteq> 0 then 1 else 0 :: nat"
  obtain e us where copy: "copy_truncated (k_user k1) bytes_ptr (take ?n (m_bytes msg)) = (e, us)" by fastforce
  note h = received_holding [OF rec, of us]
  show ?thesis
  proof (cases e)
    case (Some e')
    with tail copy holding_put_back [OF in_P h] show ?thesis by (auto simp: finish_recv_def Let_def)
  next
    case None
    let ?k2 = "record_recv cl (deliver chan msg (k1\<lparr>k_user := us\<rparr>))"
    have k2: "goes P k (k_held k) ?k2 (k_held k1)" using goes_trans [OF holding_deliver [OF h] record_goes(2)] by simp
    obtain w k3 where inst: "(case m_caps msg of [] \<Rightarrow> (0, ?k2) | cap # _ \<Rightarrow> install_reserved cl cap ?k2) = (w, k3)"
      by (rule prod.exhaust)
    have "k_held (snd (case m_caps msg of [] \<Rightarrow> (0, ?k2) | cap # _ \<Rightarrow> install_reserved cl cap ?k2)) = k_held k1"
      by (simp split: list.split)
    then have h3: "k_held k3 = k_held k1" by (simp add: inst)
    have t2: "table_of cl ?k2 = table_of cl (k1\<lparr>k_user := us\<rparr>)"
      by (simp add: record_recv_def deliver_def table_of_def)
    have k3: "goes P k (k_held k) (k3\<lparr>k_user := us'\<rparr>) (k_held k1)" if "out_ptr \<noteq> 0" for us'
    proof -
      have "ht_booked (table_of cl ?k2) \<noteq> []" if "m_caps msg \<noteq> []"
        using h that \<open>out_ptr \<noteq> 0\<close> unfolding holding_def t2 by (cases "m_caps msg") auto
      from install_one_goes [OF in_P this, of "m_caps msg" "k_held k1"] have "goes P ?k2 (k_held k1) k3 (k_held k1)"
        by (simp add: inst)
      from goes_trans [OF goes_trans [OF k2 this] goes_user] show ?thesis .
    qed
    show ?thesis
      using k2 k3 goes_trans [OF k3 close_handle_goes [OF in_P]] tail
      unfolding finish_recv_def copy None prod.case option.case Let_def inst
      by (auto simp: h3 split: prod.splits option.splits if_splits)
  qed
qed

lemma sys_channel_recv_goes:
  assumes in_P: "runs_in P cl" and wf: "table_wf (table_of cl k)" and kb: "koids_below (k_next_koid k) (k_chans k)"
    and ok: "others_ok cl" and run: "sys_channel_recv cl ch bytes_ptr bytes_cap out_ptr k = (r, k')"
  shows "goes P k (k_held k) k' (k_held k')"
proof -
  note rec = receive_attempts_received [OF in_P wf kb ok]
  from run show ?thesis
  proof (cases rule: recv_cases)
    case none
    from rec [OF none(1)] show ?thesis by (simp add: received_def)
  next
    case taken
    from finish_recv_goes [OF in_P rec [OF taken(1)] taken(2)] show ?thesis .
  qed (auto intro: goes_refl)
qed

section \<open>Creating, duplicating, closing\<close>

lemma drop_endpoint_goes:
  assumes "held_at c H = 0" and "koids_below (k_next_koid k) (k_chans k)"
  shows "goes P k H (drop_endpoint c k) H" and "koids_below (k_next_koid (drop_endpoint c k)) (k_chans (drop_endpoint c k))"
  using goes_chan [OF on_drop [OF assms(1)] ends_kept_below [OF chan_drop_ends assms(2)]] ends_kept_below [OF chan_drop_ends assms(2)]
  by (simp_all add: drop_endpoint_def)

lemma held_at_fresh: "chan_wf s H \<Longrightarrow> cs_channels s j = None \<Longrightarrow> held_at j H = 0"
  by (fastforce simp: chan_wf_def held_at_def)

text \<open>Where the objects of the kernel stand, apart from the tables' contents.\<close>

definition settled_ends :: "process_id set \<Rightarrow> kernel \<Rightarrow> held \<Rightarrow> kernel \<Rightarrow> bool" where
  "settled_ends P k0 H k \<longleftrightarrow> goes P k0 H k H \<and> koids_below (k_next_koid k) (k_chans k)"

lemma settled_drop: "held_at c H = 0 \<Longrightarrow> settled_ends P k0 H k \<Longrightarrow> settled_ends P k0 H (drop_endpoint c k)"
  using drop_endpoint_goes by (auto simp: settled_ends_def intro: goes_trans)

lemma settled_close:
  assumes "runs_in P cl" and "settled_ends P k0 H k"
  shows "settled_ends P k0 H (snd (close_handle cl h k))"
proof -
  have "k_next_koid (snd (close_handle cl h k)) = k_next_koid k"
    "cs_channels (k_chans (snd (close_handle cl h k))) = cs_channels (k_chans k)"
    by (simp_all add: close_handle_def set_domains_def set_table_def split: prod.split sum.split)
  with assms show ?thesis
    using goes_trans [OF _ close_handle_goes [OF assms(1)]] by (simp add: settled_ends_def koids_below_def)
qed

lemma settled_user: "settled_ends P k0 H k \<Longrightarrow> settled_ends P k0 H (k\<lparr>k_user := us\<rparr>)"
  by (auto simp: settled_ends_def intro: goes_trans)

lemma settled_insert:
  assumes "runs_in P cl" and "settled_ends P k0 H k"
    and "ht_try_insert_object (cl_heap cl) objs (k_domains k) obj r (table_of cl k) = (res, ds, t)"
  shows "settled_ends P k0 H (set_domains ds (set_table cl t k))"
  using assms(2) goes_trans [OF _ try_insert_object_goes [OF assms(1,3)]]
  by (simp add: settled_ends_def koids_below_def set_table_def)

lemma settled_create:
  assumes inv: "k_inv P k H" and run: "try_create_with_depth fa fb (k_next_koid k) (k_next_koid k + 1) depth (k_chans k) = (r, s)"
    and n: "k_next_koid k + 1 \<le> n" "r \<noteq> None \<Longrightarrow> n = k_next_koid k + 2"
  shows "settled_ends P k H (k\<lparr>k_next_koid := n, k_chans := s, k_objects := objs\<rparr>)"
proof -
  have kb: "koids_below (k_next_koid k) (k_chans k)" using inv by (simp add: k_inv_def)
  have fresh: "cs_channels (k_chans k) j = None" if "k_next_koid k \<le> j" for j
    using kb that unfolding koids_below_def by (metis leD option.exhaust)
  have peers: "\<forall>j c. cs_channels (k_chans k) j = Some c \<longrightarrow> c_peer c \<noteq> Some (k_next_koid k) \<and> c_peer c \<noteq> Some (k_next_koid k + 1)"
    using kb unfolding koids_below_def by (metis add_lessD1 less_irrefl)
  have step: "chan_step (k_chans k, H) (s, H)" by (rule on_create [OF _ fresh fresh peers run]) simp_all
  have below: "koids_below n s"
  proof -
    have old: "koids_below n (k_chans k)" using kb n(1) unfolding koids_below_def by (meson add_leD1 less_le_trans)
    consider "s = k_chans k" | lim where "n = k_next_koid k + 2"
      "s = put_channel (k_next_koid k + 1) (channel_endpoint lim (Some (k_next_koid k)))
         (put_channel (k_next_koid k) (channel_endpoint lim (Some (k_next_koid k + 1))) (k_chans k))"
      using run n(2) unfolding try_create_with_depth_def Let_def by (auto split: if_splits)
    then show ?thesis
      using old by cases (simp_all add: koids_below_def channel_endpoint_def)
  qed
  have "goes P k H (k\<lparr>k_chans := s, k_next_koid := n\<rparr>) H"
    unfolding goes_def by (intro r_into_rtranclp k_chan [OF step _ below]) (use n(1) in simp)
  also have "goes P (k\<lparr>k_chans := s, k_next_koid := n\<rparr>) H (k\<lparr>k_next_koid := n, k_chans := s, k_objects := objs\<rparr>) H"
    by (rule goes_local) simp_all
  finally show ?thesis using below by (simp add: settled_ends_def)
qed

lemma install_pair_settled:
  assumes in_P: "runs_in P cl" and held: "held_at ka H = 0" "held_at kb H = 0" and k1: "settled_ends P k H k1"
    and run: "install_pair cl ka kb out0 out1 k1 = (r, k')"
  shows "settled_ends P k H k'"
proof -
  note unwind = settled_drop [OF held(1), where P = P and ?k0.0 = k] settled_drop [OF held(2), where P = P and ?k0.0 = k]
    settled_close [OF in_P, where ?k0.0 = k and H = H] settled_user [of P k H]
  obtain h0 ds t where one: "ht_try_insert_object (cl_heap cl) (k_objects k1) (k_domains k1) ka RIGHTS_ALL (table_of cl k1) = (h0, ds, t)"
    using prod_cases3 by blast
  let ?k2 = "set_domains ds (set_table cl t k1)"
  note k2 = settled_insert [OF in_P k1 one]
  obtain h1 ds' t' where two: "ht_try_insert_object (cl_heap cl) (k_objects ?k2) (k_domains ?k2) kb RIGHTS_ALL (table_of cl ?k2) = (h1, ds', t')"
    using prod_cases3 by blast
  note k3 = settled_insert [OF in_P k2 two]
  show ?thesis
  proof (cases h0)
    case None
    with run show ?thesis unfolding install_pair_def one by (auto intro!: unwind k2)
  next
    case Some0: (Some g0)
    show ?thesis
    proof (cases h1)
      case None
      with run Some0 show ?thesis unfolding install_pair_def one prod.case Let_def two by (auto intro!: unwind k3)
    next
      case (Some g1)
      with run Some0 show ?thesis
        unfolding install_pair_def one prod.case Let_def two
        by (auto intro!: unwind k3 split: prod.splits option.splits)
    qed
  qed
qed

lemma sys_channel_create_goes:
  assumes in_P: "runs_in P cl" and inv: "k_inv P k H" and run: "sys_channel_create cl out0 out1 depth k = (r, k')"
  shows "goes P k H k' H"
proof -
  let ?a = "k_next_koid k" let ?b = "k_next_koid k + 1"
  obtain fa fb where fits: "cl_arc_fits cl = (fa, fb)" by fastforce
  obtain x s where made: "try_create_with_depth fa fb ?a ?b depth (k_chans k) = (x, s)" by fastforce
  have "cs_channels (k_chans k) j = None" if "?a \<le> j" for j
    using inv that unfolding k_inv_def koids_below_def by (metis leD option.exhaust)
  then have held: "held_at ?a H = 0" "held_at ?b H = 0" using inv by (auto simp: k_inv_def intro!: held_at_fresh)
  from run consider "k' = k" | "x = None" "k' = k\<lparr>k_next_koid := (if fa then ?b + 1 else ?b), k_chans := s\<rparr>"
    | "x \<noteq> None" "install_pair cl ?a ?b out0 out1
        (k\<lparr>k_next_koid := ?b + 1, k_chans := s, k_objects := new_channel_object ?b (new_channel_object ?a (k_objects k))\<rparr>) = (r, k')"
    unfolding sys_channel_create_def fits Let_def prod.case made by (cases x) (auto split: if_split_asm)
  then show ?thesis
  proof cases
    case 2
    with settled_create [OF inv made, of "if fa then ?b + 1 else ?b" "k_objects k"] show ?thesis
      by (simp add: settled_ends_def split: if_splits)
  next
    case 3
    from install_pair_settled [OF in_P held settled_create [OF inv made] 3(2)] show ?thesis by (simp add: settled_ends_def)
  qed simp
qed

lemma sys_handle_duplicate_goes:
  assumes "runs_in P cl" and "sys_handle_duplicate cl h bits k = (r, k')"
  shows "goes P k H k' H"
  using assms(2) goes_table [OF assms(1) step_duplicate]
  by (auto simp: sys_handle_duplicate_def split: prod.splits)

lemma sys_handle_close_goes:
  assumes "runs_in P cl" and "sys_handle_close cl h k = (r, k')"
  shows "goes P k H k' H"
  using assms(2) close_handle_goes [OF assms(1), of k H h] by (auto simp: sys_handle_close_def split: prod.splits)

section \<open>Every syscall\<close>

definition attenuates :: "(capability list \<Rightarrow> capability list) \<Rightarrow> bool" where
  "attenuates att \<longleftrightarrow> (\<forall>caps. \<forall>d \<in> set (att caps). \<exists>c \<in> set caps. cap_derives c d)"

lemma attenuates_id: "attenuates id"
  by (auto simp: attenuates_def intro: cap_derives_refl)

lemma attenuates_map: "attenuates (map (\<lambda>c. cap_attenuated c r))"
  by (auto simp: attenuates_def intro: cap_derives_attenuated)

lemma attenuates_map2: "attenuates (map2 (\<lambda>tr c. cap_attenuated c (f tr)) trs)"
  by (fastforce simp: attenuates_def intro: cap_derives_attenuated dest: set_zip_rightD)

lemma dispatch_cases:
  assumes run: "syscall_dispatch cl num a0 a1 a2 a3 k = Some (r, k')"
  obtains (duplicate) "sys_handle_duplicate cl a0 a1 k = (r, k')"
    | (close) "sys_handle_close cl a0 k = (r, k')"
    | (create) "num = SYS_CHANNEL_CREATE" "sys_channel_create cl (unat a0) (unat a1) (unat a2) k = (r, k')"
    | (send) hs att where "sends cl a0 hs att k r k'" "attenuates att"
    | (recv) "sys_channel_recv cl a0 (unat a1) (unat a2) (unat a3) k = (r, k')"
    | (recv_caps) "sys_channel_recv_caps cl a0 (unat a1) (unat a2) (unat a3) k = (r, k')"
    | (peek) "k' = k"
proof -
  from run consider "sys_handle_duplicate cl a0 a1 k = (r, k')" | "sys_handle_close cl a0 k = (r, k')"
    | "num = SYS_CHANNEL_CREATE" "sys_channel_create cl (unat a0) (unat a1) (unat a2) k = (r, k')"
    | "sys_channel_send cl a0 (unat a1) (unat a2) a3 k = (r, k')"
    | "sys_channel_send_attenuated cl a0 (unat a1) (unat a2) (unat a3) k = (r, k')"
    | "sys_channel_send_caps cl a0 (unat a1) (unat a2) (unat a3) k = (r, k')"
    | "sys_channel_send_caps_attenuated cl a0 (unat a1) (unat a2) (unat a3) k = (r, k')"
    | "sys_channel_recv cl a0 (unat a1) (unat a2) (unat a3) k = (r, k')"
    | "sys_channel_recv_caps cl a0 (unat a1) (unat a2) (unat a3) k = (r, k')" | "k' = k"
    unfolding syscall_dispatch_def by (simp only: option.inject prod.inject option.distinct split: if_split_asm)
  then show thesis
  proof cases
    case 3
    from create [OF this] show ?thesis .
  next
    case 4
    from send [OF send_sends [OF this] attenuates_id] show ?thesis .
  next
    case 5
    from send [OF send_attenuated_sends [OF this] attenuates_map] show ?thesis .
  next
    case 6
    from send [OF send_caps_sends [OF this] attenuates_id] show ?thesis .
  next
    case 7
    from send [OF send_caps_attenuated_sends [OF this] attenuates_map2] show ?thesis .
  qed (fact duplicate close recv recv_caps peek)+
qed

lemma held_transfer [simp]:
  "k_held (commit_all cl hs k) = k_held k" "k_held (restore_all cl taken k) = k_held k"
  "k_held (snd (send_message cl chan bytes caps k)) = k_held k"
proof -
  show "k_held (commit_all cl hs k) = k_held k" by (induction hs arbitrary: k) (simp_all add: commit_all_def)
  show "k_held (restore_all cl taken k) = k_held k" by (induction taken arbitrary: k) (auto simp: restore_all_def)
  show "k_held (snd (send_message cl chan bytes caps k)) = k_held k"
    by (simp add: send_message_def new_message_def split: prod.split)
qed

lemma held_after:
  "take_one cl h k = (x, k') \<Longrightarrow> k_held k' = k_held k"
  "send_message cl chan bytes caps k = (y, k') \<Longrightarrow> k_held k' = k_held k"
  "close_handle cl h k = (z, k') \<Longrightarrow> k_held k' = k_held k"
  using held_handles(1,5) [of cl h k] held_transfer(3) [of cl chan bytes caps k] by simp_all

lemma held_take_all: "take_all cl hs taken k = (r, k') \<Longrightarrow> k_held k' = k_held k"
proof (induction hs arbitrary: taken k)
  case (Cons h hs)
  then show ?case by (auto simp: take_all_def dest: held_after(1) split: prod.splits sum.splits)
qed (simp add: take_all_def)

lemma held_sends:
  assumes "sends cl ch hs att k r k'"
  shows "k_held k' = k_held k"
proof -
  have "send_body cl chan bytes hs att k = (b, k') \<Longrightarrow> k_held k' = k_held k" for chan bytes b
    by (auto simp: send_body_def Let_def dest!: held_take_all held_after(2) split: prod.splits sum.splits option.splits)
  with assms show ?thesis by (auto simp: sends_def)
qed

lemma held_create: "k_held (snd (sys_channel_create cl out0 out1 depth k)) = k_held k"
proof -
  have "k_held (snd (install_pair cl ka kb out0 out1 k1)) = k_held k1" for ka kb k1
    by (simp add: install_pair_def Let_def split: prod.split option.split)
  then show ?thesis by (simp add: sys_channel_create_def Let_def split: prod.split option.split)
qed

lemma dispatch_goes:
  assumes in_P: "runs_in P cl" and inv: "k_inv P k (k_held k)" and ok: "others_ok cl"
    and room: "spare (k_domains k) IpcQueue (cl_domain cl) MAX_MESSAGE_BYTES"
    and run: "syscall_dispatch cl num a0 a1 a2 a3 k = Some (r, k')"
  shows "goes P k (k_held k) k' (k_held k')"
proof -
  have wf: "table_wf (table_of cl k)" and kb: "koids_below (k_next_koid k) (k_chans k)"
    using inv in_P by (auto simp: k_inv_def runs_in_def table_of_def)
  have can: "can_send cl k" using room kb by (simp add: can_send_def)
  from run show ?thesis
  proof (cases rule: dispatch_cases)
    case duplicate
    moreover from this have "k_held k' = k_held k" by (auto simp: sys_handle_duplicate_def split: prod.splits)
    ultimately show ?thesis using sys_handle_duplicate_goes [OF in_P, of a0 a1 k r k' "k_held k"] by simp
  next
    case close
    moreover from this have "k_held k' = k_held k"
      by (auto simp: sys_handle_close_def dest: held_after(3) split: prod.splits)
    ultimately show ?thesis using sys_handle_close_goes [OF in_P, of a0 k r k' "k_held k"] by simp
  next
    case create
    moreover from this have "k_held k' = k_held k" using held_create [of cl "unat a0" "unat a1" "unat a2" k] by simp
    ultimately show ?thesis using sys_channel_create_goes [OF in_P inv] by simp
  next
    case (send hs att)
    from sends_goes [OF in_P wf can send(1), of "k_held k"] held_sends [OF send(1)] show ?thesis by simp
  next
    case recv
    from sys_channel_recv_goes [OF in_P wf kb ok this] show ?thesis .
  next
    case recv_caps
    from sys_channel_recv_caps_goes [OF in_P wf kb ok this] show ?thesis .
  qed simp
qed

end
