(* ===== verification/Ipc_Authority.thy ===== *)
theory Ipc_Authority
  imports Ipc_Runs
begin

text \<open>
  Where authority is: in the tables of the processes and in the messages that wait in a queue. A set
  \<open>X\<close> of capabilities that is closed under derivation and contains all authority of the kernel
  contains all of it after every helper of the syscalls, provided what the helper is given lies in
  \<open>X\<close>. The confinement of every syscall follows by taking for \<open>X\<close> what derives from the
  authority before the call.
\<close>

section \<open>Authority\<close>

definition queued_caps :: "chan_state \<Rightarrow> capability set" where
  "queued_caps s = {c. \<exists>j ch m. cs_channels s j = Some ch \<and> m \<in> set (c_inbox ch) \<and> c \<in> set (m_caps m)}"

definition table_caps :: "handle_table \<Rightarrow> capability set" where
  "table_caps t = {c. \<exists>h. cspace t h = Some c}"

definition authority :: "kernel \<Rightarrow> capability set" where
  "authority k = (\<Union>p. table_caps (k_tables k p)) \<union> queued_caps (k_chans k)"

definition good :: "caller \<Rightarrow> capability set \<Rightarrow> kernel \<Rightarrow> bool" where
  "good cl X k \<longleftrightarrow> table_wf (table_of cl k) \<and> authority k \<subseteq> X"

lemma queued_caps_same: "cs_channels s' = cs_channels s \<Longrightarrow> queued_caps s' = queued_caps s"
  by (simp add: queued_caps_def)

lemma queued_caps_put:
  assumes "cs_channels s k = Some c" and "cs_channels s' = (cs_channels s)(k \<mapsto> c')"
    and "\<forall>m \<in> set (c_inbox c'). set (m_caps m) \<subseteq> queued_caps s \<union> Y"
  shows "queued_caps s' \<subseteq> queued_caps s \<union> Y"
  using assms unfolding queued_caps_def by (auto split: if_splits)

lemma queued_capsI: "cs_channels s k = Some c \<Longrightarrow> m \<in> set (c_inbox c) \<Longrightarrow> set (m_caps m) \<subseteq> queued_caps s"
  unfolding queued_caps_def by blast

lemma good_table:
  assumes "good cl X k" and "table_wf t" and "table_caps t \<subseteq> X"
  shows "good cl X (set_domains ds (set_table cl t k))"
proof -
  have "queued_caps (k_chans (set_domains ds (set_table cl t k))) = queued_caps (k_chans k)"
    by (rule queued_caps_same) simp
  moreover have "(\<Union>p. table_caps (k_tables (set_domains ds (set_table cl t k)) p)) \<subseteq> X"
  proof (rule UN_least)
    show "table_caps (k_tables (set_domains ds (set_table cl t k)) p) \<subseteq> X" for p
      using assms(1,3) by (cases "p = cl_process cl") (auto simp: good_def authority_def set_table_def dest: subsetD)
  qed
  ultimately show ?thesis using assms by (simp add: good_def authority_def)
qed

lemma good_chans:
  assumes "good cl X k" and "queued_caps s \<subseteq> X"
  shows "good cl X (k\<lparr>k_chans := s\<rparr>)"
  using assms by (auto simp: good_def authority_def table_of_def)

lemma good_frame: "k_tables k' = k_tables k \<Longrightarrow> k_chans k' = k_chans k \<Longrightarrow> good cl X k' = good cl X k"
  by (simp add: good_def authority_def table_of_def)

lemma good_queued: "good cl X k \<Longrightarrow> queued_caps (k_chans k) \<subseteq> X"
  by (simp add: good_def authority_def)

lemma good_caps: "good cl X k \<Longrightarrow> table_caps (table_of cl k) \<subseteq> X"
  by (auto simp: good_def authority_def table_of_def)

lemma good_wf: "good cl X k \<Longrightarrow> table_wf (table_of cl k)"
  by (simp add: good_def)

lemma table_caps_simps:
  "cspace t' = (cspace t)(h \<mapsto> c) \<Longrightarrow> table_caps t' \<subseteq> insert c (table_caps t)"
  "cspace t' = (cspace t)(h := None) \<Longrightarrow> table_caps t' \<subseteq> table_caps t"
  "cspace t' = cspace t \<Longrightarrow> table_caps t' = table_caps t"
  by (auto simp: table_caps_def split: if_splits)

section \<open>The helpers\<close>

lemma take_one_good:
  assumes g: "good cl X k" and run: "take_one cl h k = (r, k')"
  shows "good cl X k'" and "r = Inr c \<Longrightarrow> c \<in> X"
proof -
  obtain t where t: "ht_take_for_transfer (k_objects k) h RIGHT_TRANSFER (table_of cl k) = (r, t)"
    and k': "k' = set_table cl t k"
    using run by (auto simp: take_one_def split: prod.splits)
  have same: "k' = set_domains (k_domains k) (set_table cl t k)"
    unfolding k' using set_domains_same [of "set_table cl t k"] by simp
  show "good cl X k'"
  proof (cases r)
    case (Inl e)
    with ht_take_for_transfer_refused t have "t = table_of cl k" by blast
    with g show ?thesis by (simp add: k')
  next
    case (Inr c)
    note e = ht_take_for_transfer_granted [OF good_wf [OF g] t [unfolded Inr]]
    have "table_caps t \<subseteq> X" using e table_caps_simps(2) [of t "table_of cl k" h] good_caps [OF g] by blast
    with e show ?thesis unfolding same by (intro good_table [OF g]) simp_all
  qed
  show "c \<in> X" if "r = Inr c"
    using ht_take_for_transfer_granted [OF good_wf [OF g] t [unfolded that]] good_caps [OF g]
    by (auto simp: table_caps_def)
qed

lemma restore_one_good:
  assumes g: "good cl X k" and tr: "in_transfer (table_of cl k) h" and c: "c \<in> X"
  shows "good cl X (restore_one cl h c k)"
proof -
  obtain ds t where run: "ht_restore_taken (cl_heap cl) (k_domains k) h c (table_of cl k) = (ds, t)" by fastforce
  have "table_wf t \<and> table_caps t \<subseteq> X"
  proof (cases "ht_closed (table_of cl k)")
    case True
    from ht_restore_taken_closed [OF good_wf [OF g] tr True run] good_caps [OF g] show ?thesis
      using table_caps_simps(3) [of t "table_of cl k"] by simp
  next
    case False
    from ht_restore_taken_open [OF good_wf [OF g] tr False run] good_caps [OF g] c show ?thesis
      using table_caps_simps(1) [of t "table_of cl k" h c] by blast
  qed
  with good_table [OF g] show ?thesis by (simp add: restore_one_def run)
qed

lemma restore_all_good:
  "good cl X k \<Longrightarrow> distinct (map fst l) \<Longrightarrow> (\<forall>x \<in> set l. in_transfer (table_of cl k) (fst x) \<and> snd x \<in> X) \<Longrightarrow>
     good cl X (restore_all cl l k)"
proof (induction l arbitrary: k)
  case (Cons x l)
  obtain h c where x: "x = (h, c)" by fastforce
  have h: "in_transfer (table_of cl k) h" "c \<in> X" and d: "h \<notin> fst ` set l" "distinct (map fst l)"
    using Cons.prems by (simp_all add: x)
  have "\<forall>y \<in> set l. in_transfer (table_of cl (restore_one cl h c k)) (fst y) \<and> snd y \<in> X"
    using restore_one_keeps [OF good_wf [OF Cons.prems(1)] h(1), of c] Cons.prems(3) d(1) by fastforce
  from Cons.IH [OF restore_one_good [OF Cons.prems(1) h] d(2) this] show ?case by (simp add: restore_all_def x)
qed (simp add: restore_all_def)

lemma commit_one_good:
  assumes g: "good cl X k" and tr: "in_transfer (table_of cl k) h"
  shows "good cl X (commit_one cl h k)"
proof -
  obtain ds t where run: "ht_resolve_taken (k_domains k) h (table_of cl k) = (ds, t)" by fastforce
  note e = ht_resolve_taken [OF good_wf [OF g] tr run]
  have "table_caps t \<subseteq> X" using e table_caps_simps(3) [of t "table_of cl k"] good_caps [OF g] by simp
  with good_table [OF g] e show ?thesis by (simp add: commit_one_def ht_commit_taken_def run)
qed

lemma commit_all_good:
  "good cl X k \<Longrightarrow> distinct hs \<Longrightarrow> (\<forall>h \<in> set hs. in_transfer (table_of cl k) h) \<Longrightarrow> good cl X (commit_all cl hs k)"
proof (induction hs arbitrary: k)
  case (Cons h hs)
  then have h: "in_transfer (table_of cl k) h" by simp
  have "distinct hs" "\<forall>g \<in> set hs. in_transfer (table_of cl (commit_one cl h k)) g"
    using transfers.committed [OF good_wf [OF Cons.prems(1)] h] Cons.prems(2,3) by auto
  from Cons.IH [OF commit_one_good [OF Cons.prems(1) h] this] show ?case by (simp add: commit_all_def)
qed (simp add: commit_all_def)

lemma take_all_good:
  "good cl X k \<Longrightarrow> (\<forall>x \<in> set l. snd x \<in> X) \<Longrightarrow> take_all cl hs l k = (r, k') \<Longrightarrow>
     good cl X k' \<and> (case r of Inr l' \<Rightarrow> \<forall>x \<in> set l'. snd x \<in> X | Inl (e, l') \<Rightarrow> \<forall>x \<in> set l'. snd x \<in> X)"
proof (induction hs arbitrary: l k)
  case (Cons h hs)
  obtain r1 k1 where one: "take_one cl h k = (r1, k1)" by fastforce
  note e = take_one_good [OF Cons.prems(1) one]
  show ?case
  proof (cases r1)
    case (Inr c)
    from Cons.IH [OF e(1), of "l @ [(h, c)]"] e(2) [OF Inr] Cons.prems(2,3) show ?thesis
      by (simp add: take_all_def one Inr)
  next
    case (Inl x)
    with Cons.prems(2,3) e(1) show ?thesis by (auto simp: take_all_def one)
  qed
qed (auto simp: take_all_def)

lemma send_message_good:
  assumes g: "good cl X k" and caps: "set caps \<subseteq> X" and run: "send_message cl chan bytes caps k = (r, k')"
  shows "good cl X k'"
proof -
  obtain msg k1 where new: "new_message k bytes caps = (msg, k1)" by fastforce
  then have k1: "k1 = k\<lparr>k_next_msg := k_next_msg k + 1\<rparr>" and msg: "m_caps msg = caps"
    by (auto simp: new_message_def message_new_def)
  obtain s where sent: "send_inner (cl_ring_fits cl) chan msg (Some (cl_domain cl)) (k_chans k1) = (r, s)"
    and k': "k' = k1\<lparr>k_chans := s\<rparr>"
    using run by (auto simp: send_message_def new send_charged_or_return_def split: prod.splits)
  have g1: "good cl X k1" using g good_frame [of k1 k cl X] by (simp add: k1)
  have "queued_caps s \<subseteq> queued_caps (k_chans k1) \<union> X"
  proof (cases r)
    case None
    from sent [unfolded None] obtain p c msg' ds where p: "cs_channels (k_chans k1) p = Some c"
      "s = wake_message p (put_channel p (c\<lparr>c_inbox := c_inbox c @ [msg']\<rparr>) ((k_chans k1)\<lparr>cs_domains := ds\<rparr>))"
      "payload msg' = payload msg"
      by (rule send_inner_sent) (rule that)
    then have "m_caps msg' = caps" using msg by (simp add: payload_def)
    with queued_capsI [OF p(1)] caps show ?thesis
      by (intro queued_caps_put [OF p(1), where c' = "c\<lparr>c_inbox := c_inbox c @ [msg']\<rparr>"]) (auto simp: p(2))
  next
    case (Some ec)
    with sent obtain e caps' where "send_inner (cl_ring_fits cl) chan msg (Some (cl_domain cl)) (k_chans k1) = (Some (e, caps'), s)"
      by (cases ec) auto
    from send_inner_refused [OF this] queued_caps_same show ?thesis by blast
  qed
  with good_queued [OF g1] good_chans [OF g1, of s] show ?thesis by (auto simp: k')
qed

definition derive_closed :: "capability set \<Rightarrow> bool" where
  "derive_closed X \<longleftrightarrow> (\<forall>c \<in> X. \<forall>d. cap_derives c d \<longrightarrow> d \<in> X)"

lemma send_body_good:
  assumes g: "good cl X k" and att: "attenuates att" and closed: "derive_closed X"
    and run: "send_body cl chan bytes hs att k = (b, k')"
  shows "good cl X k'"
proof -
  obtain r k1 where took: "take_all cl hs [] k = (r, k1)" by fastforce
  note g1 = take_all_good [OF g _ took, simplified]
  note t = transfers.take_list_took [OF transfers.took_nothing [OF good_wf [OF g]] took [unfolded take_all_def], unfolded transfers.took_def]
  show ?thesis
  proof (cases r)
    case (Inl x)
    obtain e taken where x: "x = (e, taken)" by fastforce
    have "k' = restore_all cl taken k1" using run took Inl x by (simp add: send_body_def)
    with g1 t show ?thesis by (auto simp: Inl x intro!: restore_all_good)
  next
    case (Inr taken)
    have caps: "set (att (map snd taken)) \<subseteq> X"
      using att closed g1 unfolding attenuates_def derive_closed_def by (fastforce simp: Inr)
    obtain q k2 where sent: "send_message cl chan bytes (att (map snd taken)) k1 = (q, k2)" by fastforce
    have g2: "good cl X k2" using send_message_good [OF _ caps sent] g1 by simp
    have tab: "table_of cl k2 = table_of cl k1"
      using sent by (auto simp: send_message_def new_message_def table_of_def split: prod.splits)
    have tr: "distinct (map fst taken)" "\<forall>x \<in> set taken. in_transfer (table_of cl k2) (fst x) \<and> snd x \<in> X"
      using t g1 unfolding Inr tab sum.case by blast+
    show ?thesis
    proof (cases q)
      case None
      with run took Inr sent have "k' = record_send cl (commit_all cl (map fst taken) k2)" by (simp add: send_body_def)
      moreover have "good cl X (commit_all cl (map fst taken) k2)" using tr by (intro commit_all_good [OF g2]) auto
      ultimately show ?thesis using good_frame [of k' "commit_all cl (map fst taken) k2"] by (simp add: record_send_def)
    next
      case (Some ec)
      with run took Inr sent have "k' = restore_all cl taken k2" by (simp add: send_body_def)
      with restore_all_good [OF g2 tr] show ?thesis by simp
    qed
  qed
qed

lemma sends_good:
  assumes "good cl X k" and "attenuates att" and "derive_closed X" and "sends cl ch hs att k r k'"
  shows "good cl X k'"
  using assms(1,4) send_body_good [OF assms(1,2,3)] unfolding sends_def by blast

lemma close_handle_good:
  assumes g: "good cl X k"
  shows "good cl X (snd (close_handle cl h k))"
proof -
  obtain r ds t where run: "ht_close (k_objects k) (k_domains k) h (table_of cl k) = (r, ds, t)"
    using prod_cases3 by blast
  have "table_wf t \<and> table_caps t \<subseteq> X"
  proof (cases r)
    case (Inl e)
    with ht_close_refused run good_wf [OF g] good_caps [OF g] show ?thesis by blast
  next
    case (Inr rel)
    from ht_close_granted [OF good_wf [OF g] run [unfolded Inr]] table_caps_simps(2) [of t "table_of cl k" h] good_caps [OF g]
    show ?thesis by blast
  qed
  then have "good cl X (set_domains ds (set_table cl t k))" by (simp add: good_table [OF g])
  then show ?thesis
    using good_frame [of "snd (close_handle cl h k)" "set_domains ds (set_table cl t k)" cl X]
    by (simp add: close_handle_def run split: sum.split)
qed

lemma close_handles_good: "good cl X k \<Longrightarrow> good cl X (close_handles cl hs k)"
  by (induction hs arbitrary: k) (simp_all add: close_handle_good)

lemma reserve_handles_good:
  assumes in_P: "runs_in P cl" and g: "good cl X k" and run: "reserve_handles cl n k = (b, k')"
  shows "good cl X k'"
proof -
  obtain ds t where k': "k' = set_domains ds (set_table cl t k)"
    using run by (auto simp: reserve_handles_def split: prod.splits)
  have "table_wf t \<and> table_caps t = table_caps (table_of cl k)"
    using reserve_handles_kept [OF in_P good_wf [OF g] run] by (auto simp: k' table_kept_def table_caps_def)
  then show ?thesis using good_table [OF g] good_caps [OF g] by (simp add: k')
qed

lemma release_handles_good:
  assumes g: "good cl X k" and n: "n \<le> length (ht_booked (table_of cl k))"
  shows "good cl X (release_handles cl n k)"
proof -
  obtain ds t where "ht_release_reservation (k_domains k) n (table_of cl k) = (ds, t)" by fastforce
  then have k': "release_handles cl n k = set_domains ds (set_table cl t k)" by (simp add: release_handles_def)
  have "table_wf t \<and> table_caps t = table_caps (table_of cl k)"
    using release_handles_kept [OF good_wf [OF g] n] by (simp add: k' table_caps_def)
  then show ?thesis using good_table [OF g] good_caps [OF g] by (simp add: k')
qed

lemma install_reserved_good:
  assumes g: "good cl X k" and c: "c \<in> X" and b: "ht_booked (table_of cl k) \<noteq> []"
  shows "good cl X (snd (install_reserved cl c k))"
proof -
  obtain h ds t where run: "ht_insert_reserved (cl_heap cl) (k_domains k) c (table_of cl k) = (h, ds, t)"
    using prod_cases3 by blast
  have one: "install_reserved cl c k = (h, set_domains ds (set_table cl t k))" by (simp add: install_reserved_def run)
  have "table_wf t \<and> table_caps t \<subseteq> X"
    using install_reserved_kept [OF good_wf [OF g] b one] good_caps [OF g] c
    by (auto simp: table_caps_def split: if_splits)
  then show ?thesis using good_table [OF g] by (simp add: one)
qed

lemma install_all_good:
  "good cl X k \<Longrightarrow> set caps \<subseteq> X \<Longrightarrow> length caps \<le> length (ht_booked (table_of cl k)) \<Longrightarrow>
     good cl X (snd (install_all cl caps k))"
proof (induction caps arbitrary: k)
  case (Cons c caps)
  obtain h k1 where one: "install_reserved cl c k = (h, k1)" by fastforce
  have b: "ht_booked (table_of cl k) \<noteq> []" and c: "c \<in> X" "set caps \<subseteq> X" using Cons.prems(2,3) by auto
  have "good cl X k1" using install_reserved_good [OF Cons.prems(1) c(1) b] by (simp add: one)
  moreover have "length caps \<le> length (ht_booked (table_of cl k1))"
    using install_reserved_kept [OF good_wf [OF Cons.prems(1)] b one] Cons.prems(3) by simp
  ultimately have "good cl X (snd (install_all cl caps k1))" using Cons.IH [of k1] c(2) by simp
  then show ?case by (simp add: one case_prod_beta)
qed simp

section \<open>Receiving\<close>

text \<open>What the other processors put into a queue meanwhile lies in \<open>X\<close>.\<close>

definition others_confined :: "caller \<Rightarrow> capability set \<Rightarrow> bool" where
  "others_confined cl X \<longleftrightarrow> (\<forall>i x. queued_caps (fst (cl_other cl i x)) \<subseteq> queued_caps (fst x) \<union> X)"

lemma recv_identified_queued:
  assumes "recv_identified j i b n s = (r, s')"
  shows "queued_caps s' \<subseteq> queued_caps s" and "r = Inr msg \<Longrightarrow> set (m_caps msg) \<subseteq> queued_caps s"
proof -
  consider e where "r = Inl e" | m where "r = Inr m" by (cases r) auto
  then have "queued_caps s' \<subseteq> queued_caps s \<and> (\<forall>msg. r = Inr msg \<longrightarrow> set (m_caps msg) \<subseteq> queued_caps s)"
  proof cases
    case 1
    with recv_identified_refused [of j i b n s e s'] assms show ?thesis by simp
  next
    case 2
    from assms [unfolded 2] obtain c m' rest where c: "cs_channels s j = Some c" "c_inbox c = m' # rest"
      "m = m'\<lparr>m_slot_reserved := True\<rparr>" "s' = put_channel j (c\<lparr>c_inbox := rest, c_in_flight := c_in_flight c + 1\<rparr>) s"
      by (rule recv_identified_taken) (rule that)
    have in_s: "set (m_caps x) \<subseteq> queued_caps s" if "x \<in> set (m' # rest)" for x
      using queued_capsI [OF c(1)] that by (simp add: c(2))
    have "queued_caps s' \<subseteq> queued_caps s \<union> {}"
      by (rule queued_caps_put [OF c(1), where c' = "c\<lparr>c_inbox := rest, c_in_flight := c_in_flight c + 1\<rparr>"])
        (use in_s in \<open>auto simp: c(4)\<close>)
    with in_s [of m'] show ?thesis by (simp add: 2 c(3))
  qed
  then show "queued_caps s' \<subseteq> queued_caps s" "r = Inr msg \<Longrightarrow> set (m_caps msg) \<subseteq> queued_caps s" by blast+
qed

lemma return_to_head_queued: "queued_caps (return_to_head j msg s) \<subseteq> queued_caps s \<union> set (m_caps msg)"
proof (cases "cs_channels s j")
  case (Some c)
  let ?c = "c\<lparr>c_inbox := msg\<lparr>m_slot_reserved := False\<rparr> # c_inbox c,
    c_in_flight := (if m_slot_reserved msg then c_in_flight c - 1 else c_in_flight c)\<rparr>"
  have "\<forall>m \<in> set (c_inbox ?c). set (m_caps m) \<subseteq> queued_caps s \<union> set (m_caps msg)"
    using queued_capsI [OF Some] by fastforce
  then show ?thesis by (intro queued_caps_put [OF Some, where c' = ?c]) (simp_all add: return_to_head_def Some)
qed (simp add: return_to_head_def)

lemma commit_delivery_queued: "queued_caps (snd (commit_delivery j msg s)) \<subseteq> queued_caps s"
proof -
  have "cs_channels (snd (commit_delivery j msg s)) i = Some c' \<Longrightarrow> \<exists>c. cs_channels s i = Some c \<and> c_inbox c' = c_inbox c" for i c'
    by (auto simp: commit_delivery_def Let_def split: option.splits prod.splits if_splits)
  then show ?thesis unfolding queued_caps_def by (simp add: subset_iff) metis
qed

lemma chan_drop_queued: "queued_caps (chan_drop j s) \<subseteq> queued_caps s"
  by (cases "cs_channels s j") (auto simp: queued_caps_def chan_drop_def Let_def split: option.splits if_splits)

lemma receive_attempts_good:
  "runs_in P cl \<Longrightarrow> good cl X k \<Longrightarrow> others_confined cl X \<Longrightarrow> receive_attempts cl chan ra im n k = (r, k') \<Longrightarrow>
     good cl X k' \<and> (\<forall>msg. r = Inr msg \<longrightarrow> set (m_caps msg) \<subseteq> X)"
proof (induction n arbitrary: k)
  case (Suc n)
  show ?case
  proof (cases "peek_identified chan (k_chans k)")
    case (Inl e)
    then have "snd (receive_attempts cl chan ra im (Suc n) k) = k \<and> (\<exists>x. fst (receive_attempts cl chan ra im (Suc n) k) = Inl x)"
      by (cases e) simp_all
    with Suc.prems(2,4) show ?thesis by auto
  next
    case (Inr x)
    obtain i b c where peek: "peek_identified chan (k_chans k) = Inr (i, b, c)" using Inr by (cases x) auto
    obtain ok k1 where res: "reserve_handles cl (min c im) k = (ok, k1)" by fastforce
    note g1 = reserve_handles_good [OF Suc.prems(1,2) res]
    show ?thesis
    proof (cases "ra < b \<or> \<not> ok")
      case True
      with g1 Suc.prems(2,4) show ?thesis by (auto simp: peek res Let_def split: if_splits)
    next
      case False
      let ?k1 = "meanwhile cl n k1"
      obtain q s where recv: "recv_identified chan i ra MAX_MESSAGE_CAPS (k_chans ?k1) = (q, s)" by fastforce
      let ?k2 = "release_handles cl (min c im) (?k1\<lparr>k_chans := s\<rparr>)"
      have "receive_attempts cl chan ra im (Suc n) k =
          (case q of
             Inr msg \<Rightarrow> (Inr msg, ?k1\<lparr>k_chans := s\<rparr>)
           | Inl e \<Rightarrow> (case refusal_code e of None \<Rightarrow> receive_attempts cl chan ra im n ?k2 | Some x \<Rightarrow> (Inl x, ?k2)))"
        using False by (simp add: peek res recv Let_def refusal_code_def split: sum.split recv_refusal.split channel_error.split)
      note run = trans [OF this [symmetric] Suc.prems(4)]
      have "queued_caps (k_chans ?k1) \<subseteq> queued_caps (k_chans k1) \<union> X"
        using Suc.prems(3) unfolding others_confined_def meanwhile_chans by fastforce
      then have other: "queued_caps (k_chans ?k1) \<subseteq> X" using good_queued [OF g1] by blast
      have "good cl X (k1\<lparr>k_chans := s\<rparr>)" using good_chans [OF g1] recv_identified_queued(1) [OF recv] other by blast
      then have gs: "good cl X (?k1\<lparr>k_chans := s\<rparr>)" using good_frame [of "?k1\<lparr>k_chans := s\<rparr>" "k1\<lparr>k_chans := s\<rparr>"] by simp
      have "min c im \<le> length (ht_booked (table_of cl (?k1\<lparr>k_chans := s\<rparr>)))"
        using reserve_handles_kept [OF Suc.prems(1) good_wf [OF Suc.prems(2)] res] False by (simp add: table_kept_def table_of_def)
      note g2 = release_handles_good [OF gs this]
      show ?thesis
      proof (cases q)
        case (Inr msg)
        with run gs recv_identified_queued(2) [OF recv, of msg] other show ?thesis by auto
      next
        case (Inl e)
        with run g2 Suc.IH [OF Suc.prems(1) g2 Suc.prems(3)] show ?thesis by (cases "refusal_code e") auto
      qed
    qed
  qed
qed auto

lemma put_back_good:
  assumes g: "good cl X k" and n: "n \<le> length (ht_booked (table_of cl k))" and m: "set (m_caps msg) \<subseteq> X"
  shows "good cl X (put_back cl chan msg n k)"
proof -
  note g1 = release_handles_good [OF g n]
  have "queued_caps (return_to_head chan msg (k_chans (release_handles cl n k))) \<subseteq> X"
    using return_to_head_queued good_queued [OF g1] m by blast
  with good_chans [OF g1] show ?thesis by (simp add: put_back_def Let_def)
qed

lemma deliver_good: "good cl X k \<Longrightarrow> good cl X (deliver chan msg k)"
  unfolding deliver_def by (rule good_chans) (use good_queued [of cl X k] commit_delivery_queued in blast)+

lemma good_bookkeeping [simp]:
  "good cl X (k\<lparr>k_user := us\<rparr>) = good cl X k" "good cl X (record_recv cl k) = good cl X k"
  using good_frame [of "k\<lparr>k_user := us\<rparr>" k] good_frame [of "record_recv cl k" k] by (simp_all add: record_recv_def)

lemma table_of_user [simp]: "table_of cl (k\<lparr>k_user := us\<rparr>) = table_of cl k" "table_of cl (record_recv cl k) = table_of cl k"
  by (simp_all add: table_of_def record_recv_def)

lemma finish_recv_caps_good:
  assumes g: "good cl X k1" and m: "set (m_caps msg) \<subseteq> X"
    and b: "min (length (m_caps msg)) MAX_MESSAGE_CAPS \<le> length (ht_booked (table_of cl k1))"
    and run: "finish_recv_caps cl chan msg bytes_ptr caps_ptr k1 = (r, k')"
  shows "good cl X k'"
proof -
  obtain e us where copy: "copy_to_user_exact (k_user k1) bytes_ptr (m_bytes msg) = (e, us)" by fastforce
  let ?k2 = "deliver chan msg (k1\<lparr>k_user := us\<rparr>)"
  obtain raws k3 where inst: "install_all cl (take MAX_MESSAGE_CAPS (m_caps msg)) ?k2 = (raws, k3)" by fastforce
  have "set (take MAX_MESSAGE_CAPS (m_caps msg)) \<subseteq> X" using m set_take_subset by fast
  then have k3: "good cl X k3"
    using install_all_good [of cl X ?k2 "take MAX_MESSAGE_CAPS (m_caps msg)"] deliver_good [of cl X "k1\<lparr>k_user := us\<rparr>"] g b
    by (simp add: inst)
  show ?thesis
  proof (cases e)
    case None
    with run k3 show ?thesis unfolding finish_recv_caps_def copy
      by (auto simp: inst Let_def close_handles_good split: prod.splits option.splits)
  next
    case (Some e')
    with run put_back_good [of cl X "k1\<lparr>k_user := us\<rparr>"] g m b show ?thesis
      by (auto simp: finish_recv_caps_def copy)
  qed
qed

lemma finish_recv_good:
  assumes g: "good cl X k1" and m: "set (m_caps msg) \<subseteq> X"
    and b: "min (length (m_caps msg)) (if out_ptr \<noteq> 0 then 1 else 0) \<le> length (ht_booked (table_of cl k1))"
    and run: "finish_recv cl chan msg bytes_ptr bytes_cap out_ptr k1 = (r, k')"
  shows "good cl X k'"
proof -
  let ?n = "min (length (m_bytes msg)) bytes_cap"
  obtain e us where copy: "copy_truncated (k_user k1) bytes_ptr (take ?n (m_bytes msg)) = (e, us)" by fastforce
  let ?k2 = "record_recv cl (deliver chan msg (k1\<lparr>k_user := us\<rparr>))"
  have k2: "good cl X ?k2" using deliver_good [of cl X "k1\<lparr>k_user := us\<rparr>"] g by simp
  have k3: "good cl X k3" if "out_ptr \<noteq> 0" "(case m_caps msg of [] \<Rightarrow> (0, ?k2) | cap # _ \<Rightarrow> install_reserved cl cap ?k2) = (h, k3)" for h k3
  proof (cases "m_caps msg")
    case (Cons c rest)
    then have "good cl X (snd (install_reserved cl c ?k2))" using m b that(1) by (intro install_reserved_good [OF k2]) auto
    with that(2) Cons show ?thesis by simp
  qed (use that k2 in simp)
  show ?thesis
  proof (cases e)
    case None
    with run k2 k3 show ?thesis unfolding finish_recv_def copy
      by (auto simp: copy Let_def close_handle_good split: prod.splits option.splits if_splits)
  next
    case (Some e')
    with run put_back_good [of cl X "k1\<lparr>k_user := us\<rparr>"] g m b show ?thesis
      by (auto simp: finish_recv_def copy Let_def)
  qed
qed

lemma recv_calls_good:
  assumes in_P: "runs_in P cl" and g: "good cl X k" and kb: "koids_below (k_next_koid k) (k_chans k)"
    and ok: "others_ok cl" and conf: "others_confined cl X"
  shows "sys_channel_recv_caps cl ch bytes_ptr bytes_cap caps_ptr k = (r, k') \<Longrightarrow> good cl X k'"
    and "sys_channel_recv cl ch bytes_ptr bytes_cap out_ptr k = (r, k') \<Longrightarrow> good cl X k'"
proof -
  note att = receive_attempts_good [OF in_P g conf] and rec = receive_attempts_received [OF in_P good_wf [OF g] kb ok]
  have hand: "good cl X k1 \<and> set (m_caps msg) \<subseteq> X \<and> min (length (m_caps msg)) im \<le> length (ht_booked (table_of cl k1))"
    if "receive_attempts cl chan ra im n k = (Inr msg, k1)" for chan ra im n msg k1
    using att [OF that] rec [OF that] by (simp add: received_def table_kept_def)
  have nomsg: "good cl X k1" if "receive_attempts cl chan ra im n k = (Inl e, k1)" for chan ra im n e k1
    using att [OF that] by simp
  show "good cl X k'" if "sys_channel_recv_caps cl ch bytes_ptr bytes_cap caps_ptr k = (r, k')"
    using that
  proof (cases rule: recv_caps_cases)
    case none
    from none(1) show ?thesis by (rule nomsg)
  next
    case taken
    with hand [OF taken(1)] finish_recv_caps_good [OF _ _ _ taken(2)] show ?thesis by blast
  qed (simp add: g)
  show "good cl X k'" if "sys_channel_recv cl ch bytes_ptr bytes_cap out_ptr k = (r, k')"
    using that
  proof (cases rule: recv_cases)
    case none
    from none(1) show ?thesis by (rule nomsg)
  next
    case taken
    with hand [OF taken(1)] finish_recv_good [OF _ _ _ taken(2)] show ?thesis by blast
  qed (simp add: g)
qed

section \<open>Creating and duplicating\<close>

lemma try_insert_good:
  assumes "runs_in P cl" and g: "good cl X k" and c: "c \<in> X"
    and run: "ht_try_insert (cl_heap cl) (k_domains k) c (table_of cl k) = (h, ds, t)"
  shows "good cl X (set_domains ds (set_table cl t k))"
proof (cases h)
  case None
  from ht_try_insert_refused [OF good_wf [OF g] run [unfolded None]] show ?thesis
    using good_table [OF g good_wf [OF g] good_caps [OF g]] by simp
next
  case (Some h')
  have hp: "heap_bounded (cl_heap cl)" using assms(1) by (simp add: runs_in_def)
  note e = ht_try_insert_granted [OF good_wf [OF g] hp run [unfolded Some]]
  have "table_caps t \<subseteq> X" using table_caps_simps(1) [of t "table_of cl k" h' c] e c good_caps [OF g] by blast
  with e show ?thesis by (intro good_table [OF g]) (simp_all add: sound_move_def)
qed

lemma drop_endpoint_good: "good cl X k \<Longrightarrow> good cl X (drop_endpoint c k)"
  unfolding drop_endpoint_def by (rule good_chans) (use good_queued [of cl X k] chan_drop_queued in blast)+

lemma install_pair_good:
  assumes in_P: "runs_in P cl" and g: "good cl X k1" and X: "\<And>d. cap_object d \<in> {ka, kb} \<Longrightarrow> d \<in> X"
    and run: "install_pair cl ka kb out0 out1 k1 = (r, k')"
  shows "good cl X k'"
proof -
  note unwind = drop_endpoint_good close_handle_good
  obtain h0 ds t where one: "ht_try_insert_object (cl_heap cl) (k_objects k1) (k_domains k1) ka RIGHTS_ALL (table_of cl k1) = (h0, ds, t)"
    using prod_cases3 by blast
  let ?k2 = "set_domains ds (set_table cl t k1)"
  have k2: "good cl X ?k2"
    by (rule try_insert_good [OF in_P g _ one [unfolded ht_try_insert_object_def]]) (simp add: X capability_new_def)
  obtain h1 ds' t' where two: "ht_try_insert_object (cl_heap cl) (k_objects ?k2) (k_domains ?k2) kb RIGHTS_ALL (table_of cl ?k2) = (h1, ds', t')"
    using prod_cases3 by blast
  have k3: "good cl X (set_domains ds' (set_table cl t' ?k2))"
    by (rule try_insert_good [OF in_P k2 _ two [unfolded ht_try_insert_object_def]]) (simp add: X capability_new_def)
  show ?thesis
  proof (cases h0)
    case None
    with run show ?thesis unfolding install_pair_def one by (auto intro!: unwind k2)
  next
    case Some0: (Some g0)
    show ?thesis
    proof (cases h1)
      case None
      with run Some0 show ?thesis unfolding install_pair_def one prod.case Let_def two by (auto intro!: unwind k3)
    next
      case (Some g1)
      with run Some0 k3 show ?thesis
        unfolding install_pair_def one prod.case Let_def two
        by (auto intro!: unwind split: prod.splits option.splits)
    qed
  qed
qed

lemma create_good:
  assumes in_P: "runs_in P cl" and g: "good cl X k"
    and X: "\<And>d. cap_object d \<in> {k_next_koid k, k_next_koid k + 1} \<Longrightarrow> d \<in> X"
    and run: "sys_channel_create cl out0 out1 depth k = (r, k')"
  shows "good cl X k'"
proof -
  let ?a = "k_next_koid k" let ?b = "k_next_koid k + 1"
  obtain fa fb where fits: "cl_arc_fits cl = (fa, fb)" by fastforce
  obtain x s where made: "try_create_with_depth fa fb ?a ?b depth (k_chans k) = (x, s)" by fastforce
  then have "queued_caps s \<subseteq> queued_caps (k_chans k)"
    by (auto simp: try_create_with_depth_def Let_def queued_caps_def channel_endpoint_def split: if_splits) blast
  then have s: "good cl X (k\<lparr>k_next_koid := n, k_chans := s, k_objects := objs\<rparr>)" for n objs
    using good_chans [OF g, of s] good_queued [OF g]
      good_frame [of "k\<lparr>k_next_koid := n, k_chans := s, k_objects := objs\<rparr>" "k\<lparr>k_chans := s\<rparr>" cl X] by simp
  from run consider "k' = k" | "k' = k\<lparr>k_next_koid := (if fa then ?b + 1 else ?b), k_chans := s, k_objects := k_objects k\<rparr>"
    | "install_pair cl ?a ?b out0 out1
        (k\<lparr>k_next_koid := ?b + 1, k_chans := s, k_objects := new_channel_object ?b (new_channel_object ?a (k_objects k))\<rparr>) = (r, k')"
    unfolding sys_channel_create_def fits Let_def prod.case made by (cases x) (auto split: if_split_asm)
  then show ?thesis
  proof cases
    case 2
    show ?thesis unfolding 2 by (rule s)
  next
    case 3
    from install_pair_good [OF in_P s X 3] show ?thesis .
  qed (simp add: g)
qed

lemma duplicate_good:
  assumes in_P: "runs_in P cl" and g: "good cl X k" and closed: "derive_closed X"
    and run: "sys_handle_duplicate cl h bits k = (r, k')"
  shows "good cl X k'"
proof -
  obtain q ds t where dup: "ht_duplicate (cl_heap cl) (k_objects k) (k_domains k) h (rights_from_bits (ucast bits)) (table_of cl k) = (q, ds, t)"
    using prod_cases3 by blast
  then have k': "k' = set_domains ds (set_table cl t k)" using run by (simp add: sys_handle_duplicate_def)
  show ?thesis
  proof (cases q)
    case (Inl e)
    from ht_duplicate_refused [OF good_wf [OF g] dup [unfolded Inl]] show ?thesis
      using good_table [OF g good_wf [OF g] good_caps [OF g]] by (simp add: k')
  next
    case (Inr h')
    have hp: "heap_bounded (cl_heap cl)" using in_P by (simp add: runs_in_def)
    from ht_duplicate_granted [OF good_wf [OF g] hp dup [unfolded Inr]] obtain c where
      c: "cspace (table_of cl k) h = Some c" "cap_is_valid (k_objects k) c" "rights_contains (cap_rights c) (rights_from_bits (ucast bits))"
      "sound_move (k_domains k) (table_of cl k) ds t"
      "cspace t = (cspace (table_of cl k))(h' \<mapsto> capability_new (k_objects k) (cap_object c) (rights_from_bits (ucast bits)))"
      by blast
    have "c \<in> X" using good_caps [OF g] c(1) by (auto simp: table_caps_def)
    moreover have "cap_derives c (capability_new (k_objects k) (cap_object c) (rights_from_bits (ucast bits)))"
      using c(2,3) by (simp add: cap_derives_def capability_new_def cap_is_valid_def)
    ultimately have "table_caps t \<subseteq> X"
      using closed table_caps_simps(1) [OF c(5)] good_caps [OF g] unfolding derive_closed_def by blast
    with c(4) show ?thesis unfolding k' by (intro good_table [OF g]) (simp_all add: sound_move_def)
  qed
qed

lemma dispatch_good:
  assumes in_P: "runs_in P cl" and g: "good cl X k" and kb: "koids_below (k_next_koid k) (k_chans k)"
    and ok: "others_ok cl" and conf: "others_confined cl X" and closed: "derive_closed X"
    and X: "num = SYS_CHANNEL_CREATE \<Longrightarrow> \<forall>d. cap_object d \<in> {k_next_koid k, k_next_koid k + 1} \<longrightarrow> d \<in> X"
    and run: "syscall_dispatch cl num a0 a1 a2 a3 k = Some (r, k')"
  shows "good cl X k'"
proof -
  note recv = recv_calls_good [OF in_P g kb ok conf]
  from run show ?thesis
  proof (cases rule: dispatch_cases)
    case duplicate
    then show ?thesis by (rule duplicate_good [OF in_P g closed])
  next
    case close
    with close_handle_good [OF g, of a0] show ?thesis by (auto simp: sys_handle_close_def split: prod.splits)
  next
    case create
    with create_good [OF in_P g _ create(2)] X show ?thesis by blast
  next
    case send
    with sends_good [OF g _ closed] show ?thesis by blast
  qed (use g recv in simp_all)
qed

end
