(* ===== verification/Ipc_Outcomes.thy ===== *)
theory Ipc_Outcomes
  imports Ipc_Runs
begin

text \<open>
  What a send and a receive leave behind, outcome by outcome: a send that failed leaves channels,
  accounts and the caller's handles as they were; one that succeeded moved exactly the named
  capabilities into one message at the end of the peer's queue; a receive that failed gave back what
  it had booked and installed.
\<close>

section \<open>Sending\<close>

definition send_calls :: "u64 set" where
  "send_calls = {SYS_CHANNEL_SEND, SYS_CHANNEL_SEND_ATTENUATED, SYS_CHANNEL_SEND_CAPS, SYS_CHANNEL_SEND_CAPS_ATTENUATED}"

lemma dispatch_sends:
  assumes run: "syscall_dispatch cl num a0 a1 a2 a3 k = Some (r, k')" and num: "num \<in> send_calls"
  shows "\<exists>hs att. sends cl a0 hs att k r k'"
proof -
  from num consider "num = SYS_CHANNEL_SEND" | "num = SYS_CHANNEL_SEND_ATTENUATED" | "num = SYS_CHANNEL_SEND_CAPS"
    | "num = SYS_CHANNEL_SEND_CAPS_ATTENUATED" by (auto simp: send_calls_def)
  then show ?thesis
  proof cases
    case 1
    with run have "sys_channel_send cl a0 (unat a1) (unat a2) a3 k = (r, k')" by (simp add: syscall_dispatch_def sys_numbers)
    from send_sends [OF this] show ?thesis by blast
  next
    case 2
    with run have "sys_channel_send_attenuated cl a0 (unat a1) (unat a2) (unat a3) k = (r, k')" by (simp add: syscall_dispatch_def sys_numbers)
    from send_attenuated_sends [OF this] show ?thesis by blast
  next
    case 3
    with run have "sys_channel_send_caps cl a0 (unat a1) (unat a2) (unat a3) k = (r, k')" by (simp add: syscall_dispatch_def sys_numbers)
    from send_caps_sends [OF this] show ?thesis by blast
  next
    case 4
    with run have "sys_channel_send_caps_attenuated cl a0 (unat a1) (unat a2) (unat a3) k = (r, k')" by (simp add: syscall_dispatch_def sys_numbers)
    from send_caps_attenuated_sends [OF this] show ?thesis by blast
  qed
qed

text \<open>A refused message changes nothing but the next message identity.\<close>

lemma send_message_refused:
  assumes can: "can_send cl k" and len: "length bytes \<le> MAX_MESSAGE_BYTES"
    and run: "send_message cl chan bytes caps k = (Some ec, k')"
  shows "k_chans k' = k_chans k"
proof -
  obtain msg k1 where new: "new_message k bytes caps = (msg, k1)" by fastforce
  then have k1: "k_chans k1 = k_chans k" and msg: "m_charge msg = None" "m_bytes msg = bytes"
    by (auto simp: new_message_def message_new_def)
  obtain e c where ec: "ec = (e, c)" by fastforce
  obtain s where sent: "send_inner (cl_ring_fits cl) chan msg (Some (cl_domain cl)) (k_chans k) = (Some (e, c), s)"
    and k': "k' = k1\<lparr>k_chans := s\<rparr>"
    using run by (auto simp: send_message_def new send_charged_or_return_def k1 ec split: prod.splits)
  note r = send_inner_refused [OF sent]
  have room: "spare (cs_domains (k_chans k)) IpcQueue (cl_domain cl) (length (m_bytes msg))"
    using can len by (auto simp: can_send_def k_domains_def msg(2) intro: spare_le)
  have "cs_domains s = cs_domains (k_chans k)" using r charge_queue_effect [OF room _ msg(1)] by blast
  with r show ?thesis by (simp add: k')
qed

lemma restore_all_open:
  "table_wf (table_of cl k) \<Longrightarrow> \<not> ht_closed (table_of cl k) \<Longrightarrow> distinct (map fst l) \<Longrightarrow>
     (\<forall>x \<in> set l. in_transfer (table_of cl k) (fst x)) \<Longrightarrow> k_chans (restore_all cl l k) = k_chans k"
proof (induction l arbitrary: k)
  case (Cons x l)
  obtain h c where x: "x = (h, c)" by fastforce
  have h: "in_transfer (table_of cl k) h" and d: "h \<notin> fst ` set l" "distinct (map fst l)" using Cons.prems by (simp_all add: x)
  obtain ds t where run: "ht_restore_taken (cl_heap cl) (k_domains k) h c (table_of cl k) = (ds, t)" by fastforce
  note e = ht_restore_taken_open [OF Cons.prems(1) h Cons.prems(2) run]
  have one: "k_chans (restore_one cl h c k) = k_chans k"
    unfolding restore_one_def run prod.case using e by (simp add: k_domains_def set_table_def)
  have "\<forall>y \<in> set l. in_transfer (table_of cl (restore_one cl h c k)) (fst y)"
    using restore_one_keeps [OF Cons.prems(1) h, of c] Cons.prems(4) d(1) by fastforce
  moreover have "table_wf (table_of cl (restore_one cl h c k))" "\<not> ht_closed (table_of cl (restore_one cl h c k))"
    using e Cons.prems(2) by (simp_all add: restore_one_def run)
  ultimately have "k_chans (restore_all cl l (restore_one cl h c k)) = k_chans (restore_one cl h c k)"
    using Cons.IH d(2) by blast
  with one show ?case by (simp add: restore_all_def x)
qed (simp add: restore_all_def)

lemma send_body_failed:
  assumes wf: "table_wf (table_of cl k)" and o: "\<not> ht_closed (table_of cl k)" and can: "can_send cl k"
    and len: "length bytes \<le> MAX_MESSAGE_BYTES" and run: "send_body cl chan bytes hs att k = (False, k')"
  shows "cspace (table_of cl k') = cspace (table_of cl k) \<and> k_chans k' = k_chans k"
proof -
  obtain r k1 where took: "take_all cl hs [] k = (r, k1)" by fastforce
  note t0 = transfers.take_list_took [OF transfers.took_nothing [OF wf] took [unfolded take_all_def]]
  have chans1: "k_chans k1 = k_chans k" "can_send cl k1"
    using take_all_frame [of cl hs "[]" k] can_send_frame [of k1 k cl] can by (simp_all add: took)
  have undo: "cspace (table_of cl (restore_all cl l k2)) = cspace (table_of cl k) \<and> k_chans (restore_all cl l k2) = k_chans k"
    if l: "transfers.took cl k l k1" and k2: "table_of cl k2 = table_of cl k1" "k_chans k2 = k_chans k" for l k2
  proof -
    have "transfers.took cl k l k2" using l unfolding transfers.took_def by (simp add: k2(1))
    from transfers.take_restore [OF this] o have "cspace (table_of cl (restore_all cl l k2)) = cspace (table_of cl k)"
      by (simp add: restore_all_def)
    moreover have "k_chans (restore_all cl l k2) = k_chans k2"
      using l o unfolding transfers.took_def k2(1) [symmetric] by (intro restore_all_open) auto
    ultimately show ?thesis using k2(2) by simp
  qed
  show ?thesis
  proof (cases r)
    case (Inl x)
    obtain e l where x: "x = (e, l)" by fastforce
    from run took Inl x have "k' = restore_all cl l k1" by (simp add: send_body_def)
    with undo [OF _ refl chans1(1)] t0 Inl x show ?thesis by simp
  next
    case (Inr l)
    obtain q k2 where sent: "send_message cl chan bytes (att (map snd l)) k1 = (q, k2)" by fastforce
    with run took Inr obtain ec where q: "q = Some ec" "k' = restore_all cl l k2"
      by (cases q) (auto simp: send_body_def)
    have "table_of cl k2 = table_of cl k1"
      using sent by (auto simp: send_message_def new_message_def table_of_def split: prod.splits)
    moreover have "k_chans k2 = k_chans k" using send_message_refused [OF chans1(2) len sent [unfolded q(1)]] chans1(1) by simp
    ultimately show ?thesis using undo t0 Inr q(2) by simp
  qed
qed

text \<open>A message that was sent is the last of the peer's queue.\<close>

lemma send_message_sent:
  assumes run: "send_message cl chan bytes caps k = (None, k')"
  shows "\<exists>p c msg. chan_peer (k_chans k) chan = Some p \<and> cs_channels (k_chans k) p = Some c \<and>
    cs_channels (k_chans k') = (cs_channels (k_chans k))(p \<mapsto> c\<lparr>c_inbox := c_inbox c @ [msg]\<rparr>) \<and>
    m_bytes msg = bytes \<and> m_caps msg = caps \<and> cs_wakes (k_chans k') = WakeMessage p # cs_wakes (k_chans k)"
proof -
  obtain msg k1 where new: "new_message k bytes caps = (msg, k1)" by fastforce
  then have k1: "k_chans k1 = k_chans k" and msg: "m_bytes msg = bytes" "m_caps msg = caps"
    by (auto simp: new_message_def message_new_def)
  obtain s where sent: "send_inner (cl_ring_fits cl) chan msg (Some (cl_domain cl)) (k_chans k) = (None, s)"
    and k': "k' = k1\<lparr>k_chans := s\<rparr>"
    using run by (auto simp: send_message_def new send_charged_or_return_def k1 split: prod.splits)
  from sent show ?thesis
    by (rule send_inner_sent) (use msg in \<open>auto simp: k' payload_def\<close>)
qed

lemma commit_all_channels: "cs_channels (k_chans (commit_all cl hs k)) = cs_channels (k_chans k)"
proof (induction hs arbitrary: k)
  case (Cons h hs)
  have "cs_channels (k_chans (commit_one cl h k)) = cs_channels (k_chans k)" by (simp add: commit_one_def split: prod.split)
  with Cons.IH [of "commit_one cl h k"] show ?case by (simp add: commit_all_def)
qed (simp add: commit_all_def)

lemma send_body_done:
  assumes wf: "table_wf (table_of cl k)" and run: "send_body cl chan bytes hs att k = (True, k')"
  shows "\<exists>p c msg l. chan_peer (k_chans k) chan = Some p \<and> cs_channels (k_chans k) p = Some c \<and>
    cs_channels (k_chans k') = (cs_channels (k_chans k))(p \<mapsto> c\<lparr>c_inbox := c_inbox c @ [msg]\<rparr>) \<and>
    m_bytes msg = bytes \<and> m_caps msg = att l \<and> map (cspace (table_of cl k)) hs = map Some l \<and> distinct hs \<and>
    cspace (table_of cl k') = (\<lambda>h. if h \<in> set hs then None else cspace (table_of cl k) h)"
proof -
  obtain r k1 where took: "take_all cl hs [] k = (r, k1)" by fastforce
  from run took obtain l k2 where r: "r = Inr l" and sent: "send_message cl chan bytes (att (map snd l)) k1 = (None, k2)"
    and k': "k' = record_send cl (commit_all cl (map fst l) k2)"
    by (auto simp: send_body_def split: sum.splits prod.splits option.splits)
  note t0 = transfers.take_list_took [OF transfers.took_nothing [OF wf] took [unfolded take_all_def], unfolded r sum.case]
  note t = t0 [unfolded transfers.took_def]
  have hs: "map fst l = hs" using t by simp
  have wf1: "table_wf (table_of cl k1)" and d0: "distinct (map fst l)"
    and tr: "\<forall>x \<in> set l. in_transfer (table_of cl k1) (fst x)"
    and sp: "cspace (table_of cl k1) = (\<lambda>h. if h \<in> fst ` set l then None else cspace (table_of cl k) h)"
    using t by blast+
  have named: "map (cspace (table_of cl k)) hs = map Some (map snd l)"
    unfolding hs [symmetric] map_map comp_def using t by (intro map_cong [OF refl]) blast
  have tab: "table_of cl k2 = table_of cl k1"
    using sent by (auto simp: send_message_def new_message_def table_of_def split: prod.splits)
  have "cspace (table_of cl (commit_all cl (map fst l) k2)) = cspace (table_of cl k1)"
    unfolding commit_all_def tab [symmetric]
    by (rule conjunct2, rule transfers.commit_list_space [OF _ d0]) (use wf1 tr in \<open>simp_all add: tab\<close>)
  moreover have "table_of cl k' = table_of cl (commit_all cl (map fst l) k2)" by (simp add: k' record_send_def table_of_def)
  moreover have "fst ` set l = set hs" unfolding hs [symmetric] by simp
  ultimately have space: "cspace (table_of cl k') = (\<lambda>h. if h \<in> set hs then None else cspace (table_of cl k) h)"
    by (simp add: sp)
  have d: "distinct hs" unfolding hs [symmetric] by (rule d0)
  have "k_chans k1 = k_chans k" using take_all_frame [of cl hs "[]" k] by (simp add: took)
  with send_message_sent [OF sent] obtain p c msg where m: "chan_peer (k_chans k) chan = Some p" "cs_channels (k_chans k) p = Some c"
    "cs_channels (k_chans k2) = (cs_channels (k_chans k))(p \<mapsto> c\<lparr>c_inbox := c_inbox c @ [msg]\<rparr>)"
    "m_bytes msg = bytes" "m_caps msg = att (map snd l)"
    by auto
  have ch: "cs_channels (k_chans k') = cs_channels (k_chans k2)"
    using commit_all_channels [of cl "map fst l" k2] by (simp add: k' record_send_def)
  show ?thesis
    by (rule exI [of _ p], rule exI [of _ c], rule exI [of _ msg], rule exI [of _ "map snd l"])
      (use m named space d ch in \<open>simp only: simp_thms\<close>)
qed

section \<open>Receiving\<close>

definition installs :: "caller \<Rightarrow> capability list \<Rightarrow> kernel \<Rightarrow> handle list \<Rightarrow> kernel \<Rightarrow> bool" where
  "installs cl caps k hs k' \<longleftrightarrow> table_wf (table_of cl k') \<and>
     ht_booked (table_of cl k') = drop (length caps) (ht_booked (table_of cl k)) \<and>
     (numbered (table_of cl k) \<longrightarrow> numbered (table_of cl k')) \<and>
     (if ht_closed (table_of cl k) then cspace (table_of cl k') = cspace (table_of cl k) \<and> set hs \<subseteq> {0}
      else length hs = length caps \<and> distinct hs \<and> (\<forall>h \<in> set hs. cspace (table_of cl k) h = None) \<and>
        cspace (table_of cl k') = cspace (table_of cl k) ++ map_of (zip hs caps))"

lemma installs_more:
  assumes e: "table_wf (table_of cl k)" "ht_booked (table_of cl k) \<noteq> []" "install_reserved cl c k = (h, k1)"
    and i: "installs cl caps k1 hs k'"
  shows "installs cl (c # caps) k (h # hs) k'"
proof -
  note one = install_reserved_kept [OF e]
  have booked: "ht_booked (table_of cl k') = drop (length (c # caps)) (ht_booked (table_of cl k))"
    using i one by (simp add: installs_def drop_Suc)
  show ?thesis
  proof (cases "ht_closed (table_of cl k)")
    case True
    with i one booked show ?thesis by (simp add: installs_def)
  next
    case False
    with one have c1: "cspace (table_of cl k1) = (cspace (table_of cl k))(h \<mapsto> c)" "cspace (table_of cl k) h = None"
      "\<not> ht_closed (table_of cl k1)" by simp_all
    with i have r: "distinct hs" "length hs = length caps" "\<forall>g \<in> set hs. cspace (table_of cl k1) g = None"
      "cspace (table_of cl k') = cspace (table_of cl k1) ++ map_of (zip hs caps)" by (simp_all add: installs_def)
    have fresh: "h \<notin> set hs" "\<forall>g \<in> set hs. cspace (table_of cl k) g = None"
      using r(3) by (auto simp: c1 split: if_splits)
    have "h \<notin> dom (map_of (zip hs caps))" using fresh(1) by (auto dest: map_of_SomeD set_zip_leftD)
    then have "cspace (table_of cl k') = cspace (table_of cl k) ++ map_of (zip (h # hs) (c # caps))"
      unfolding r(4) c1 by (simp add: map_add_upd_left)
    moreover have "table_wf (table_of cl k')" "numbered (table_of cl k) \<longrightarrow> numbered (table_of cl k')"
      using i one by (simp_all add: installs_def)
    ultimately show ?thesis using False r(1,2) fresh c1(2) booked unfolding installs_def by simp
  qed
qed

lemma install_all_installs:
  "table_wf (table_of cl k) \<Longrightarrow> length caps \<le> length (ht_booked (table_of cl k)) \<Longrightarrow>
     install_all cl caps k = (hs, k') \<Longrightarrow> installs cl caps k hs k'"
proof (induction caps arbitrary: k hs)
  case (Cons c caps)
  obtain h k1 where one: "install_reserved cl c k = (h, k1)" by fastforce
  obtain hs1 where rest: "install_all cl caps k1 = (hs1, k')" and hs: "hs = h # hs1"
    using Cons.prems(3) by (auto simp: one split: prod.splits)
  have b: "ht_booked (table_of cl k) \<noteq> []" using Cons.prems(2) by auto
  have "installs cl caps k1 hs1 k'"
    using install_reserved_kept [OF Cons.prems(1) b one] Cons.prems(2) by (intro Cons.IH [OF _ _ rest]) simp_all
  from installs_more [OF Cons.prems(1) b one this] show ?case by (simp add: hs)
qed (simp add: installs_def)

lemma close_handle_live:
  assumes wf: "table_wf (table_of cl k)" and h: "cspace (table_of cl k) h \<noteq> None"
  defines "k' \<equiv> snd (close_handle cl h k)"
  shows "table_wf (table_of cl k') \<and> cspace (table_of cl k') = (cspace (table_of cl k))(h := None) \<and>
    ht_booked (table_of cl k') = ht_booked (table_of cl k)"
proof -
  obtain r ds t where run: "ht_close (k_objects k) (k_domains k) h (table_of cl k) = (r, ds, t)"
    using prod_cases3 by blast
  obtain rel where r: "r = Inr rel" using ht_close_refused [of _ _ h] run h by (cases r) auto
  have "table_of cl k' = t"
    unfolding k'_def close_handle_def run r by (simp add: table_of_def set_table_def)
  with ht_close_granted [OF wf run [unfolded r]] show ?thesis by auto
qed

lemma close_handles_live:
  "table_wf (table_of cl k) \<Longrightarrow> distinct hs \<Longrightarrow> (\<forall>h \<in> set hs. cspace (table_of cl k) h \<noteq> None) \<Longrightarrow>
     cspace (table_of cl (close_handles cl hs k)) = (\<lambda>h. if h \<in> set hs then None else cspace (table_of cl k) h) \<and>
     ht_booked (table_of cl (close_handles cl hs k)) = ht_booked (table_of cl k)"
proof (induction hs arbitrary: k)
  case (Cons h hs)
  let ?k1 = "snd (close_handle cl h k)"
  have e: "table_wf (table_of cl ?k1)" "cspace (table_of cl ?k1) = (cspace (table_of cl k))(h := None)"
    "ht_booked (table_of cl ?k1) = ht_booked (table_of cl k)"
    using close_handle_live [OF Cons.prems(1)] Cons.prems(3) by auto
  have "\<forall>g \<in> set hs. cspace (table_of cl ?k1) g \<noteq> None" "distinct hs" using Cons.prems(2,3) by (auto simp: e(2))
  with Cons.IH [OF e(1)] show ?case by (auto simp: e(2,3) fun_eq_iff)
qed simp

text \<open>The number zero is refused by a close, which then changes nothing in the table.\<close>

lemma close_zero:
  assumes "numbered (table_of cl k)"
  shows "table_of cl (snd (close_handle cl 0 k)) = table_of cl k"
proof -
  obtain r ds t where run: "ht_close (k_objects k) (k_domains k) 0 (table_of cl k) = (r, ds, t)"
    using prod_cases3 by blast
  have "r = Inl BadHandle \<and> t = table_of cl k"
    using run assms
    by (auto simp: ht_close_def slot_at_def numbered_def handle_generation_def split: option.splits if_splits)
  then show ?thesis unfolding close_handle_def run by (auto simp: table_of_def set_table_def)
qed

lemma close_zeros: "numbered (table_of cl k) \<Longrightarrow> set hs \<subseteq> {0} \<Longrightarrow> table_of cl (close_handles cl hs k) = table_of cl k"
  by (induction hs arbitrary: k) (simp_all add: close_zero)

text \<open>
  Installing and then closing what was installed leaves the space as it was, and of the booked slots
  those that were there before the booking.
\<close>

lemma install_close:
  assumes wf: "table_wf (table_of cl k)" and n: "numbered (table_of cl k)"
    and len: "length caps \<le> length (ht_booked (table_of cl k))" and inst: "install_all cl caps k = (hs, k1)"
    and k2: "table_of cl k2 = table_of cl k1"
  shows "cspace (table_of cl (close_handles cl hs k2)) = cspace (table_of cl k) \<and>
    ht_booked (table_of cl (close_handles cl hs k2)) = drop (length caps) (ht_booked (table_of cl k))"
proof (cases "ht_closed (table_of cl k)")
  case True
  with install_all_installs [OF wf len inst] n close_zeros [of cl k2 hs] show ?thesis by (simp add: installs_def k2)
next
  case False
  note e = install_all_installs [OF wf len inst, unfolded installs_def if_not_P [OF False]]
  have dom: "dom (map_of (zip hs caps)) = set hs" using e by simp
  have live: "\<forall>h \<in> set hs. cspace (table_of cl k2) h \<noteq> None"
    using e dom unfolding k2 by (metis domD map_add_find_right option.distinct(1))
  note c = close_handles_live [of cl k2 hs, unfolded k2, OF conjunct1 [OF e] _ live [unfolded k2]]
  have "(if h \<in> set hs then None else cspace (table_of cl k1) h) = cspace (table_of cl k) h" for h
  proof (cases "h \<in> set hs")
    case False
    then have "map_of (zip hs caps) h = None" using dom by blast
    moreover have "cspace (table_of cl k1) = cspace (table_of cl k) ++ map_of (zip hs caps)" using e by blast
    ultimately show ?thesis using False by (simp only: map_add_def if_False option.case)
  qed (use e in simp)
  with c e show ?thesis by (simp add: k2)
qed

definition handles_kept :: "caller \<Rightarrow> kernel \<Rightarrow> kernel \<Rightarrow> bool" where
  "handles_kept cl k k' \<longleftrightarrow> cspace (table_of cl k') = cspace (table_of cl k) \<and>
     ht_booked (table_of cl k') = ht_booked (table_of cl k)"

lemma put_back_kept:
  assumes "table_wf (table_of cl k1)" and "n \<le> length (ht_booked (table_of cl k1))"
  shows "cspace (table_of cl (put_back cl chan msg n k1)) = cspace (table_of cl k1) \<and>
    ht_booked (table_of cl (put_back cl chan msg n k1)) = drop n (ht_booked (table_of cl k1))"
  using release_handles_kept [OF assms] by (simp add: put_back_def Let_def table_of_def)

lemma finish_recv_caps_failed:
  assumes kept: "table_kept cl k k1 (min (length (m_caps msg)) MAX_MESSAGE_CAPS)" and num: "numbered (table_of cl k)"
    and run: "finish_recv_caps cl chan msg bytes_ptr caps_ptr k1 = (r, k')" and r: "r < 0"
  shows "handles_kept cl k k'"
proof -
  let ?n = "min (length (m_caps msg)) MAX_MESSAGE_CAPS"
  have t: "table_wf (table_of cl k1)" "numbered (table_of cl k1)" "cspace (table_of cl k1) = cspace (table_of cl k)"
    "?n \<le> length (ht_booked (table_of cl k1))" "drop ?n (ht_booked (table_of cl k1)) = ht_booked (table_of cl k)"
    using kept num by (simp_all add: table_kept_def)
  obtain e us where copy: "copy_to_user_exact (k_user k1) bytes_ptr (m_bytes msg) = (e, us)" by fastforce
  let ?k1 = "k1\<lparr>k_user := us\<rparr>"
  have t1: "table_of cl ?k1 = table_of cl k1" by (simp add: table_of_def)
  show ?thesis
  proof (cases e)
    case (Some e')
    then have "k' = put_back cl chan msg ?n ?k1" using run copy by (simp add: finish_recv_caps_def)
    with put_back_kept [of cl ?k1 ?n chan msg] t show ?thesis by (simp add: handles_kept_def t1)
  next
    case None
    obtain raws k3 where inst: "install_all cl (take MAX_MESSAGE_CAPS (m_caps msg)) (deliver chan msg ?k1) = (raws, k3)" by fastforce
    from run None copy inst r obtain us' where "k' = close_handles cl raws (k3\<lparr>k_user := us'\<rparr>)"
      by (auto simp: finish_recv_caps_def Let_def split: prod.splits option.splits)
    with install_close [OF _ _ _ inst, of "k3\<lparr>k_user := us'\<rparr>"] t show ?thesis
      by (simp add: handles_kept_def t1) (simp add: table_of_def)
  qed
qed

lemma finish_recv_failed:
  assumes kept: "table_kept cl k k1 (min (length (m_caps msg)) (if out_ptr \<noteq> 0 then 1 else 0))"
    and num: "numbered (table_of cl k)"
    and run: "finish_recv cl chan msg bytes_ptr bytes_cap out_ptr k1 = (r, k')" and r: "r < 0"
  shows "handles_kept cl k k'"
proof -
  let ?n = "min (length (m_caps msg)) (if out_ptr \<noteq> 0 then 1 else 0)"
  have t: "table_wf (table_of cl k1)" "numbered (table_of cl k1)" "cspace (table_of cl k1) = cspace (table_of cl k)"
    "?n \<le> length (ht_booked (table_of cl k1))" "drop ?n (ht_booked (table_of cl k1)) = ht_booked (table_of cl k)"
    using kept num by (simp_all add: table_kept_def)
  obtain e us where copy: "copy_truncated (k_user k1) bytes_ptr (take (min (length (m_bytes msg)) bytes_cap) (m_bytes msg)) = (e, us)"
    by fastforce
  let ?k1 = "k1\<lparr>k_user := us\<rparr>" let ?k2 = "record_recv cl (deliver chan msg ?k1)"
  have t1: "table_of cl ?k1 = table_of cl k1" "table_of cl ?k2 = table_of cl k1" by (simp_all add: table_of_def record_recv_def deliver_def)
  show ?thesis
  proof (cases e)
    case (Some e')
    then have "k' = put_back cl chan msg ?n ?k1" using run copy by (simp add: finish_recv_def Let_def)
    with put_back_kept [of cl ?k1 ?n chan msg] t show ?thesis by (simp add: handles_kept_def t1)
  next
    case None
    obtain h k3 where one: "(case m_caps msg of [] \<Rightarrow> (0, ?k2) | cap # _ \<Rightarrow> install_reserved cl cap ?k2) = (h, k3)"
      by (rule prod.exhaust)
    from run None copy one r obtain us' where out: "out_ptr \<noteq> 0" and
      k': "k' = (if h \<noteq> 0 then snd (close_handle cl h (k3\<lparr>k_user := us'\<rparr>)) else k3\<lparr>k_user := us'\<rparr>)"
      unfolding finish_recv_def copy prod.case option.case None Let_def one
      by (auto split: prod.splits option.splits if_split_asm)
    have t3: "table_of cl (k3\<lparr>k_user := us'\<rparr>) = table_of cl k3" by (simp add: table_of_def)
    show ?thesis
    proof (cases "m_caps msg")
      case Nil
      with one k' t t1 t3 show ?thesis by (simp add: handles_kept_def)
    next
      case (Cons c caps)
      with one have inst: "install_all cl [c] ?k2 = ([h], k3)" by simp
      have len: "length [c] \<le> length (ht_booked (table_of cl ?k2))" using t(4) out Cons by (simp add: t1)
      note i = install_close [OF _ _ len inst t3]
      have "numbered (table_of cl k3)"
        using install_all_installs [OF _ len inst] t by (simp add: installs_def t1)
      then have "table_of cl k' = table_of cl (close_handles cl [h] (k3\<lparr>k_user := us'\<rparr>))"
        using close_zero [of cl "k3\<lparr>k_user := us'\<rparr>"] by (cases "h = 0") (simp_all add: k' t3)
      with i t out Cons show ?thesis by (simp add: handles_kept_def t1)
    qed
  qed
qed

lemma receive_failed:
  assumes in_P: "runs_in P cl" and wf: "table_wf (table_of cl k)" and kb: "koids_below (k_next_koid k) (k_chans k)"
    and ok: "others_ok cl" and num: "numbered (table_of cl k)" and r: "r < 0"
  shows "sys_channel_recv_caps cl ch bytes_ptr bytes_cap caps_ptr k = (r, k') \<Longrightarrow> handles_kept cl k k'"
    and "sys_channel_recv cl ch bytes_ptr bytes_cap out_ptr k = (r, k') \<Longrightarrow> handles_kept cl k k'"
proof -
  note rec = receive_attempts_received [OF in_P wf kb ok]
  have nomsg: "handles_kept cl k k'" if "receive_attempts cl chan ra im n k = (Inl e, k')" for chan ra im n e
    using rec [OF that] by (simp add: received_def handles_kept_def table_kept_def)
  have hand: "table_kept cl k k1 (min (length (m_caps msg)) im)"
    if "receive_attempts cl chan ra im n k = (Inr msg, k1)" for chan ra im n msg k1
    using rec [OF that] by (simp add: received_def)
  show "handles_kept cl k k'" if "sys_channel_recv_caps cl ch bytes_ptr bytes_cap caps_ptr k = (r, k')"
    using that
  proof (cases rule: recv_caps_cases)
    case (taken chan msg k1)
    from finish_recv_caps_failed [OF hand [OF taken(1)] num taken(2) r] show ?thesis .
  next
    case none
    from none(1) show ?thesis by (rule nomsg)
  qed (simp add: handles_kept_def)
  show "handles_kept cl k k'" if "sys_channel_recv cl ch bytes_ptr bytes_cap out_ptr k = (r, k')"
    using that
  proof (cases rule: recv_cases)
    case (taken chan msg k1)
    from finish_recv_failed [OF hand [OF taken(1)] num taken(2) r] show ?thesis .
  next
    case none
    from none(1) show ?thesis by (rule nomsg)
  qed (simp add: handles_kept_def)
qed

end
