(* ===== verification/Ipc_Properties.thy ===== *)
theory Ipc_Properties
  imports Ipc_Authority Ipc_Outcomes Handle_Properties
begin

text \<open>
  The properties of the handle and channel syscalls over the whole kernel: what every sequence of
  syscalls keeps, where authority can go, and what a failure leaves behind. The instances run on one
  process with two handles, a channel endpoint and an object it may transfer, under the two domains
  of the handle properties; the other processor of the receives takes a message at the wrong moment.
\<close>

section \<open>A concrete kernel\<close>

definition sample_user :: user_space where
  "sample_user = \<lparr>us_ring3 = False, us_va_end = 0, us_flags = (\<lambda>_. None), us_reads = (\<lambda>_. True), us_writes = (\<lambda>_. True),
     us_bytes = (\<lambda>_. 0)\<rparr>"

definition endpoint_cap :: capability where
  "endpoint_cap = capability_new sample_objects 1 RIGHTS_ALL"

definition ipc_table :: handle_table where
  "ipc_table = \<lparr>ht_slots = [\<lparr>s_cap = Some endpoint_cap, s_generation = 1, s_reserved = False\<rparr>,
        \<lparr>s_cap = Some sample_cap, s_generation = 1, s_reserved = False\<rparr>],
     ht_free = [], ht_booked = [], ht_closed = False, ht_domain = None\<rparr>"

definition ipc_chans :: "message list \<Rightarrow> message list \<Rightarrow> chan_state" where
  "ipc_chans a b = \<lparr>cs_domains = sample_domains,
     cs_channels = [1 \<mapsto> (channel_endpoint 2 (Some 2))\<lparr>c_inbox := a\<rparr>, 2 \<mapsto> (channel_endpoint 2 (Some 1))\<lparr>c_inbox := b\<rparr>],
     cs_wakes = []\<rparr>"

definition sample_kernel :: "message list \<Rightarrow> message list \<Rightarrow> kernel" where
  "sample_kernel a b = \<lparr>k_objects = sample_objects, k_next_koid = 10, k_chans = ipc_chans a b, k_held = {#}, k_next_msg = 5,
     k_tables = (\<lambda>p. if p = 3 then ipc_table else ht_new), k_sent = (\<lambda>_. 0), k_received = (\<lambda>_. 0), k_released = [],
     k_user = sample_user\<rparr>"

text \<open>The other processor takes the head of endpoint 1, once, unless the next message has its identity.\<close>

definition takes_head :: "nat \<Rightarrow> chan_state \<times> held \<Rightarrow> chan_state \<times> held" where
  "takes_head i x =
     (let s = fst x; s' = snd (chan_recv 1 s) in
      if map_option m_id (head_of s' 1) = map_option m_id (head_of s 1) \<and> head_of s' 1 \<noteq> None then x else (s', snd x))"

definition sample_caller :: caller where
  "sample_caller = \<lparr>cl_process = 3, cl_domain = 2, cl_heap = sample_heap, cl_vec_fits = (\<lambda>_. True), cl_ring_fits = True,
     cl_arc_fits = (True, True), cl_other = takes_head\<rparr>"

lemma sample_runs_in: "runs_in {3} sample_caller"
  by (simp add: runs_in_def sample_caller_def sample_heap_bounded)

lemma chan_recv_ends: "ends_kept s (snd (chan_recv k s))"
proof -
  obtain r s' where run: "chan_recv k s = (r, s')" by fastforce
  show ?thesis
  proof (cases r)
    case (Inl e)
    with run have "cs_channels s' = cs_channels s"
      by (auto simp: chan_recv_def Let_def split: option.splits list.splits if_splits prod.splits)
    then show ?thesis by (simp add: run ends_kept_same)
  next
    case (Inr m)
    from run [unfolded Inr] obtain c msg rest where "cs_channels s k = Some c"
      "cs_channels s' = (cs_channels s)(k \<mapsto> c\<lparr>c_inbox := rest\<rparr>)"
      by (rule chan_recv_taken) (rule that)
    then show ?thesis by (simp add: run ends_kept_def)
  qed
qed

lemma sample_others_ok: "others_ok sample_caller"
proof -
  have "other_step\<^sup>*\<^sup>* x (takes_head i x)" for i x
  proof -
    obtain r s' where run: "chan_recv 1 (fst x) = (r, s')" by fastforce
    have "other_step x (s', snd x)"
      using on_recv [OF run, of "snd x"] chan_recv_ends [of "fst x" 1, unfolded run] by (simp add: other_step_def)
    then show ?thesis unfolding takes_head_def Let_def run by auto
  qed
  moreover have "m_caps m' = m_caps m"
    if "head_of (fst x) j = Some m" "head_of (fst (takes_head i x)) j = Some m'" "m_id m' = m_id m" for i x j m m'
  proof (cases "j = 1")
    case True
    with that show ?thesis by (auto simp: takes_head_def Let_def split: if_splits)
  next
    case False
    obtain r s' where run: "chan_recv 1 (fst x) = (r, s')" by fastforce
    have "cs_channels s' j = cs_channels (fst x) j"
    proof (cases r)
      case (Inl e)
      with run show ?thesis by (auto simp: chan_recv_def Let_def split: option.splits list.splits if_splits prod.splits)
    next
      case (Inr m)
      from run [unfolded Inr] obtain c rest where "cs_channels s' = (cs_channels (fst x))(1 \<mapsto> c\<lparr>c_inbox := rest\<rparr>)"
        by (rule chan_recv_taken) (rule that)
      with False show ?thesis by simp
    qed
    then have "head_of s' j = head_of (fst x) j" by (simp add: head_of_def)
    moreover have "takes_head i x = x \<or> takes_head i x = (s', snd x)" unfolding takes_head_def Let_def run by simp
    ultimately show ?thesis using that by auto
  qed
  ultimately show ?thesis by (simp add: others_ok_def sample_caller_def)
qed

lemma ipc_table_wf: "table_wf ipc_table"
  by (simp add: table_wf_def ipc_table_def)

lemma sample_inv:
  assumes "\<forall>m \<in> set a \<union> set b. \<not> m_slot_reserved m" and "length a \<le> 2" and "length b \<le> 2"
  shows "k_inv {3} (sample_kernel a b) {#}"
  using assms
  by (auto simp: k_inv_def sample_kernel_def ipc_table_wf chan_wf_def endpoint_wf_def ipc_chans_def channel_endpoint_def
      chan_depth_def CHANNEL_QUEUE_MAX_def koids_below_def split: if_splits)

lemma sample_accounts:
  assumes "\<forall>m \<in> set a \<union> set b. m_charge m = None"
  shows "k_accounts {3} (sample_kernel a b) {#}"
proof -
  have "tables_owe {3} (sample_kernel a b) d = 0" for d
    by (simp add: tables_owe_def table_owes_def table_payers_def sample_kernel_def ipc_table_def)
  moreover have "used sample_domains Handles d = 0" for d
    by (simp add: counter_of_def sample_domains_def sample_domain_def account_new_def counter_new_def)
  moreover have "list_owes sample_domains d ms = 0" if "set ms \<subseteq> set a \<union> set b" for d ms
    using assms that by (induction ms) (auto simp: list_owes_def msg_owes_def)
  then have "covered (ipc_chans a b) {#}"
    by (auto simp: covered_def owed_def queued_def in_hand_def ipc_chans_def channel_endpoint_def)
  ultimately show ?thesis
    by (simp add: k_accounts_def k_domains_def sample_kernel_def ipc_chans_def ipc_table_def U64_MAX_def)
qed

lemma sample_spare: "spare (k_domains (sample_kernel a b)) IpcQueue 2 MAX_MESSAGE_BYTES"
proof -
  have "used sample_domains IpcQueue x = 0" for x
    by (simp add: counter_of_def sample_domains_def sample_domain_def account_new_def counter_new_def)
  then show ?thesis
    by (simp add: spare_def headroom_def k_domains_def sample_kernel_def ipc_chans_def sample_line(3) MAX_MESSAGE_BYTES_def U64_MAX_def)
qed

lemma sample_fields [simp]:
  "k_chans (sample_kernel a b) = ipc_chans a b" "k_held (sample_kernel a b) = {#}" "k_objects (sample_kernel a b) = sample_objects"
  "k_user (sample_kernel a b) = sample_user" "table_of sample_caller (sample_kernel a b) = ipc_table"
  "k_next_koid (sample_kernel a b) = 10" "k_tables (sample_kernel a b) 3 = ipc_table" "cl_process sample_caller = 3" "cl_domain sample_caller = 2"
  "cl_vec_fits sample_caller = (\<lambda>_. True)" "cl_ring_fits sample_caller = True" "cl_heap sample_caller = sample_heap"
  "cl_other sample_caller = takes_head"
  by (simp_all add: sample_kernel_def sample_caller_def table_of_def)

lemma sample_buffers [simp]: "user_buf_ok sample_user ptr len" "user_buf_writable sample_user ptr len"
  by (simp_all add: user_buf_ok_def user_buf_writable_def user_range_ok_def sample_user_def)

lemma sample_endpoint [simp]:
  "current_object sample_caller (sample_kernel a b) (handle_new 1 0) Channel RIGHT_SEND = Inr 1"
  "current_object sample_caller (sample_kernel a b) (handle_new 1 0) Channel RIGHT_RECEIVE = Inr 1"
  by (simp_all add: current_object_def ht_lookup_typed_def ht_live_cap_of_def ht_cap_of_def slot_at_def ipc_table_def endpoint_cap_def
      cap_is_valid_def capability_new_def cap_object_type_def sample_objects_def object_new_def rights_contains_def
      RIGHTS_ALL_def right_defs)

lemma sample_spaces [simp]:
  "cspace ipc_table (handle_new 1 1) = Some sample_cap" "cspace ipc_table (handle_new 1 0) = Some endpoint_cap"
  by (simp_all add: cspace_def ipc_table_def)

definition ipc_table_taken :: handle_table where
  "ipc_table_taken = ipc_table\<lparr>ht_slots := (ht_slots ipc_table)[1 := \<lparr>s_cap = None, s_generation = 1, s_reserved = True\<rparr>]\<rparr>"

lemma sample_take:
  assumes "table_of cl k = ipc_table" and "k_objects k = sample_objects"
  shows "take_one cl (handle_new 1 1) k = (Inr sample_cap, set_table cl ipc_table_taken k)"
  using assms
  by (simp add: take_one_def ht_take_for_transfer_def ht_live_cap_of_def ht_cap_of_def slot_at_def ipc_table_def put_slot_def
      sample_cap_def cap_is_valid_def capability_new_def rights_contains_def right_defs ipc_table_taken_def)

lemma sample_handle [simp]: "handle_new 1 1 \<noteq> 0"
  using handle_generation_new [of 1 1] by (auto simp: handle_generation_def)

lemma sample_empty_payload [simp]: "read_bytes cl k 0 0 = Inr []"
  by (simp add: read_bytes_def)

lemma sample_peer [simp]:
  "chan_peer (ipc_chans a b) 1 = Some 2" "cs_channels (ipc_chans a b) 2 = Some ((channel_endpoint 2 (Some 1))\<lparr>c_inbox := b\<rparr>)"
  "cs_channels (ipc_chans a b) 1 = Some ((channel_endpoint 2 (Some 2))\<lparr>c_inbox := a\<rparr>)"
  by (simp_all add: chan_peer_def ipc_chans_def channel_endpoint_def)

section \<open>Properties\<close>

text \<open>
  One step of the kernel: a handle or channel call of one process of \<open>P\<close>, under whatever the other
  processors do meanwhile, or the drop of an endpoint whose last reference is gone
  (\<^verbatim>\<open>Channel::drop\<close>). That last reference can be the capability of a closed handle, one in a message
  that was dropped, or one a thread held for the length of its call, so the drop comes with the close
  or at any moment later, once nothing in the kernel names the endpoint any more and no receive on it
  has a message in hand.
\<close>

definition unreferenced :: "koid \<Rightarrow> kernel \<Rightarrow> bool" where
  "unreferenced c k \<longleftrightarrow> (\<forall>d \<in> authority k. cap_object d \<noteq> c) \<and>
     (\<forall>(j, m) \<in># k_held k. j \<noteq> c \<and> (\<forall>d \<in> set (m_caps m). cap_object d \<noteq> c))"

inductive kernel_step :: "process_id set \<Rightarrow> kernel \<Rightarrow> kernel \<Rightarrow> bool" for P where
  call: "runs_in P cl \<Longrightarrow> others_ok cl \<Longrightarrow> spare (k_domains k) IpcQueue (cl_domain cl) MAX_MESSAGE_BYTES \<Longrightarrow>
      syscall_dispatch cl num a0 a1 a2 a3 k = Some (r, k') \<Longrightarrow> kernel_step P k k'"
| last_reference: "unreferenced c k \<Longrightarrow> kernel_step P k (drop_endpoint c k)"

lemma unreferenced_held: "unreferenced c k \<Longrightarrow> held_at c (k_held k) = 0"
  by (auto simp: unreferenced_def held_at_def filter_mset_eq_conv)

lemma kernel_step_goes:
  assumes "kernel_step P k k'" and inv: "k_inv P k (k_held k)"
  shows "goes P k (k_held k) k' (k_held k')"
  using assms(1)
proof cases
  case (call cl num a0 a1 a2 a3 r)
  from dispatch_goes [OF call(1) inv call(2-4)] show ?thesis .
next
  case (last_reference c)
  have "koids_below (k_next_koid k) (k_chans k)" using inv by (simp add: k_inv_def)
  from drop_endpoint_goes(1) [OF unreferenced_held [OF last_reference(2)] this] show ?thesis
    by (simp add: last_reference(1))
qed

text \<open>
  C1. The kernel stays sound and its accounts exact through any sequence of syscalls and of drops of
  endpoints nothing references. Whatever handle and channel calls the processes make, with any
  arguments, any outcome of allocation and copying and any interference between the look and the
  take of a receive: every table stays well formed, every channel keeps its invariant, every object
  number stays below the next one, and the two counters of every domain move by exactly what all the
  tables and all the undelivered messages of the kernel hold for it. The undelivered messages are
  those in a queue and those the receives of other processors have in hand: a call that returns has
  committed the message it took or put it back.
\<close>

theorem syscalls_keep_the_kernel_sound:
  assumes "(kernel_step P)\<^sup>*\<^sup>* k k'" and "k_inv P k (k_held k)" and "k_accounts P k (k_held k)"
  shows "k_inv P k' (k_held k') \<and> k_accounts P k' (k_held k') \<and> k_balanced P k (k_held k) k' (k_held k')"
  using assms(1)
proof (rule run_invariant)
  show "k_inv P k (k_held k) \<and> k_accounts P k (k_held k) \<and> k_balanced P k (k_held k) k (k_held k)"
    using assms(2,3) by (auto simp: k_balanced_def balanced_def k_accounts_def covered_def)
next
  fix x y
  assume step: "kernel_step P x y"
    and x: "k_inv P x (k_held x) \<and> k_accounts P x (k_held x) \<and> k_balanced P k (k_held k) x (k_held x)"
  have "(kstep P)\<^sup>*\<^sup>* (x, k_held x) (y, k_held y)"
    using kernel_step_goes [OF step] x by (simp add: goes_def)
  from krun_sound [OF this] x k_balanced_trans
  show "k_inv P y (k_held y) \<and> k_accounts P y (k_held y) \<and> k_balanced P k (k_held k) y (k_held y)" by blast
qed

text \<open>The instance: the only handle of an endpoint with a message in its queue is closed, and the endpoint dropped.\<close>

definition filler :: message where
  "filler = message_new 1 [] []"

definition closed_table :: handle_table where
  "closed_table = ipc_table\<lparr>ht_slots := [\<lparr>s_cap = None, s_generation = 2, s_reserved = False\<rparr>,
      \<lparr>s_cap = Some sample_cap, s_generation = 1, s_reserved = False\<rparr>], ht_free := [0]\<rparr>"

lemma sample_closed:
  "syscall_dispatch sample_caller SYS_HANDLE_CLOSE (handle_new 1 0) 0 0 0 (sample_kernel [filler] []) =
     Some (0, set_table sample_caller closed_table (sample_kernel [filler] []))"
proof -
  have "ht_close sample_objects ds (handle_new 1 0) ipc_table = (Inr None, ds, closed_table)" for ds
    by (simp add: ht_close_def slot_at_def ipc_table_def closed_table_def retire_or_recycle_def put_slot_def Let_def
        claim_released_def cap_object_type_def endpoint_cap_def capability_new_def sample_objects_def object_new_def
        refund_table_def)
  then have "sys_handle_close sample_caller (handle_new 1 0) (sample_kernel [filler] []) =
      (0, set_table sample_caller closed_table (sample_kernel [filler] []))"
    by (simp add: sys_handle_close_def close_handle_def set_domains_def set_table_def k_domains_def)
  then show ?thesis by (simp add: syscall_dispatch_def sys_numbers)
qed

lemma sample_unreferenced: "unreferenced 1 (set_table sample_caller closed_table (sample_kernel [filler] []))"
proof -
  have "cap_object c = 7" if "cspace closed_table h = Some c" for h c
    using that by (auto simp: cspace_def closed_table_def nth_Cons' sample_cap_def capability_new_def split: if_splits)
  moreover have "cspace ht_new h = None" for h by (simp add: cspace_def ht_new_def)
  ultimately show ?thesis
    by (fastforce simp: unreferenced_def authority_def table_caps_def queued_caps_def sample_kernel_def set_table_def ipc_chans_def
        sample_caller_def channel_endpoint_def filler_def message_new_def split: if_splits)
qed

theorem syscalls_keep_the_kernel_sound_witness:
  "\<exists>k'. (kernel_step {3})\<^sup>*\<^sup>* (sample_kernel [filler] []) k' \<and> cs_channels (k_chans k') 1 = None \<and>
     cspace (k_tables k' 3) (handle_new 1 0) = None \<and>
     k_inv {3} k' {#} \<and> k_accounts {3} k' {#} \<and> k_balanced {3} (sample_kernel [filler] []) {#} k' {#}"
proof -
  let ?k = "sample_kernel [filler] []" let ?k1 = "set_table sample_caller closed_table ?k" let ?k2 = "drop_endpoint 1 ?k1"
  have "spare (k_domains ?k) IpcQueue (cl_domain sample_caller) MAX_MESSAGE_BYTES" using sample_spare by simp
  from kernel_step.call [OF sample_runs_in sample_others_ok this sample_closed] last_reference [OF sample_unreferenced, of "{3}"]
  have run: "(kernel_step {3})\<^sup>*\<^sup>* ?k ?k2" by (rule converse_rtranclp_into_rtranclp [OF _ r_into_rtranclp])
  have inv: "k_inv {3} ?k (k_held ?k)" by (simp, rule sample_inv) (simp_all add: filler_def message_new_def)
  have acc: "k_accounts {3} ?k (k_held ?k)" by (simp, rule sample_accounts) (simp_all add: filler_def message_new_def)
  have "cs_channels (k_chans ?k2) 1 = None"
    by (simp add: drop_endpoint_def set_table_def chan_drop_effect del: One_nat_def)
  moreover have "cspace (k_tables ?k2 3) (handle_new 1 0) = None"
    by (simp add: drop_endpoint_def set_table_def cspace_def closed_table_def)
  ultimately show ?thesis using syscalls_keep_the_kernel_sound [OF run inv acc] run by auto
qed

text \<open>
  C2. Authority is confined. After any handle or channel call, every capability in any table and in
  any queued message derives, with the same object and no further right, from one that was in a
  table or a message before the call; only the creation of a channel adds capabilities, and those
  name the two new endpoints.
\<close>

theorem authority_is_confined:
  assumes "runs_in P cl" and "others_ok cl" and "k_inv P k H"
    and "others_confined cl {d. \<exists>c \<in> authority k. cap_derives c d}"
    and "syscall_dispatch cl num a0 a1 a2 a3 k = Some (r, k')" and "d \<in> authority k'"
  shows "(\<exists>c \<in> authority k. cap_derives c d) \<or>
    num = SYS_CHANNEL_CREATE \<and> cap_object d \<in> {k_next_koid k, k_next_koid k + 1}"
proof -
  let ?X = "{d. (\<exists>c \<in> authority k. cap_derives c d) \<or>
    num = SYS_CHANNEL_CREATE \<and> cap_object d \<in> {k_next_koid k, k_next_koid k + 1}}"
  have "authority k \<subseteq> ?X" using cap_derives_refl by blast
  then have g: "good cl ?X k" using assms(1,3) by (auto simp: good_def k_inv_def runs_in_def table_of_def)
  have kb: "koids_below (k_next_koid k) (k_chans k)" using assms(3) by (simp add: k_inv_def)
  have conf: "others_confined cl ?X" using assms(4) unfolding others_confined_def by blast
  have closed: "derive_closed ?X"
    unfolding derive_closed_def using cap_derives_trans by (auto simp: cap_derives_def)
  from dispatch_good [OF assms(1) g kb assms(2) conf closed _ assms(5)] assms(6) show ?thesis
    unfolding good_def by blast
qed

lemma sample_confined: "others_confined sample_caller X"
proof -
  have "queued_caps (snd (chan_recv 1 s)) \<subseteq> queued_caps s" for s
  proof -
    obtain r s' where run: "chan_recv 1 s = (r, s')" by fastforce
    show ?thesis
    proof (cases r)
      case (Inl e)
      with run have "s' = s" by (auto simp: chan_recv_def Let_def split: option.splits list.splits if_splits prod.splits)
      then show ?thesis unfolding run by simp
    next
      case (Inr m)
      from run [unfolded Inr] obtain c msg rest where c: "cs_channels s 1 = Some c" "c_inbox c = msg # rest"
        "cs_channels s' = (cs_channels s)(1 \<mapsto> c\<lparr>c_inbox := rest\<rparr>)"
        by (rule chan_recv_taken) (rule that)
      then have "\<forall>x \<in> set (c_inbox (c\<lparr>c_inbox := rest\<rparr>)). set (m_caps x) \<subseteq> queued_caps s \<union> {}"
        using queued_capsI [OF c(1)] by auto
      from queued_caps_put [OF c(1,3) this] show ?thesis unfolding run by simp
    qed
  qed
  then show ?thesis by (fastforce simp: others_confined_def sample_caller_def takes_head_def Let_def)
qed

theorem authority_is_confined_witness:
  "\<exists>r k'. syscall_dispatch sample_caller SYS_CHANNEL_SEND (handle_new 1 0) 64 2 (handle_new 1 1) (sample_kernel [] []) = Some (r, k') \<and>
     (\<forall>d \<in> authority k'. \<exists>c \<in> authority (sample_kernel [] []). cap_derives c d)"
proof -
  obtain r k' where run: "syscall_dispatch sample_caller SYS_CHANNEL_SEND (handle_new 1 0) 64 2 (handle_new 1 1) (sample_kernel [] []) = Some (r, k')"
    by (cases "sys_channel_send sample_caller (handle_new 1 0) 64 2 (handle_new 1 1) (sample_kernel [] [])")
      (simp add: syscall_dispatch_def sys_numbers)
  have inv: "k_inv {3} (sample_kernel [] []) {#}" by (rule sample_inv) simp_all
  have "\<exists>c \<in> authority (sample_kernel [] []). cap_derives c d" if "d \<in> authority k'" for d
    using authority_is_confined [OF sample_runs_in sample_others_ok inv sample_confined run that] by (simp add: sys_numbers)
  with run show ?thesis by blast
qed

text \<open>
  C16. A send that fails is invisible. Whichever of the four sends, and wherever it failed, at the
  checks, in the middle of taking the capabilities, at a full or closed channel or at the sender's
  quota: the channels, the accounts of every domain and the wake-ups are as before, and every handle
  of the caller names what it named before.
\<close>

theorem failed_send_is_invisible:
  assumes "k_inv P k H" and "runs_in P cl" and "\<not> ht_closed (table_of cl k)"
    and "spare (k_domains k) IpcQueue (cl_domain cl) MAX_MESSAGE_BYTES" and "num \<in> send_calls"
    and "syscall_dispatch cl num a0 a1 a2 a3 k = Some (r, k')" and "r \<noteq> 0"
  shows "cspace (table_of cl k') = cspace (table_of cl k) \<and> k_chans k' = k_chans k"
proof -
  have wf: "table_wf (table_of cl k)" and can: "can_send cl k"
    using assms(1,2,4) by (auto simp: k_inv_def runs_in_def table_of_def can_send_def)
  from dispatch_sends [OF assms(6,5)] assms(7) send_body_failed [OF wf assms(3) can] show ?thesis
    by (auto simp: sends_def)
qed

text \<open>The instance: the queue of the peer is full.\<close>

lemma sample_send_full:
  "fst (sys_channel_send sample_caller (handle_new 1 0) 0 0 (handle_new 1 1) (sample_kernel [] [filler, filler])) = ERR_WOULD_BLOCK"
proof -
  have "k_chans (set_table sample_caller t (sample_kernel [] [filler, filler])) = ipc_chans [] [filler, filler]" for t
    by (simp add: set_table_def)
  then show ?thesis
    by (simp add: sys_channel_send_def MAX_MESSAGE_BYTES_def sample_take send_message_def new_message_def
        send_charged_or_return_def send_inner_def channel_endpoint_def chan_depth_def send_error_def del: One_nat_def)
qed

theorem failed_send_is_invisible_witness:
  "\<exists>k'. syscall_dispatch sample_caller SYS_CHANNEL_SEND (handle_new 1 0) 0 0 (handle_new 1 1) (sample_kernel [] [filler, filler])
       = Some (ERR_WOULD_BLOCK, k') \<and>
     cspace (table_of sample_caller k') (handle_new 1 1) = Some sample_cap \<and> k_chans k' = ipc_chans [] [filler, filler]"
proof -
  let ?k = "sample_kernel [] [filler, filler]"
  obtain k' where run: "syscall_dispatch sample_caller SYS_CHANNEL_SEND (handle_new 1 0) 0 0 (handle_new 1 1) ?k = Some (ERR_WOULD_BLOCK, k')"
    using sample_send_full
    by (cases "sys_channel_send sample_caller (handle_new 1 0) 0 0 (handle_new 1 1) ?k") (simp add: syscall_dispatch_def sys_numbers)
  have inv: "k_inv {3} ?k {#}" by (rule sample_inv) (simp_all add: filler_def message_new_def)
  have o: "\<not> ht_closed (table_of sample_caller ?k)" by (simp add: ipc_table_def)
  have room: "spare (k_domains ?k) IpcQueue (cl_domain sample_caller) MAX_MESSAGE_BYTES" using sample_spare by simp
  have "SYS_CHANNEL_SEND \<in> send_calls" by (simp add: send_calls_def)
  from failed_send_is_invisible [OF inv sample_runs_in o room this run] run show ?thesis by (simp add: err_defs)
qed

text \<open>
  C29. A send that succeeds moves exactly the capabilities it names. After a successful transfer of
  several capabilities, each with a mask, the peer's queue has one message more, at its end, with the
  payload read from the caller and, in the order of the array, the capabilities the array named,
  each reduced to its mask; the handles of the array, which are pairwise different, name nothing
  any more and every other handle of the caller names what it did.
\<close>

theorem send_moves_exactly_the_named_capabilities:
  assumes "table_wf (table_of cl k)" and "sys_channel_send_caps_attenuated cl ch bytes_ptr bytes_len caps_ptr k = (0, k')"
  defines "trs \<equiv> read_transfers k caps_ptr (unat (read_user_u64 (k_user k) caps_ptr))"
  shows "\<exists>chan p c msg caps. current_object cl k ch Channel RIGHT_SEND = Inr chan \<and>
    chan_peer (k_chans k) chan = Some p \<and> cs_channels (k_chans k) p = Some c \<and>
    cs_channels (k_chans k') = (cs_channels (k_chans k))(p \<mapsto> c\<lparr>c_inbox := c_inbox c @ [msg]\<rparr>) \<and>
    map (cspace (table_of cl k)) (map ct_handle trs) = map Some caps \<and> distinct (map ct_handle trs) \<and>
    m_caps msg = map2 (\<lambda>tr c. cap_attenuated c (rights_from_bits (ct_rights tr))) trs caps \<and>
    cspace (table_of cl k') = (\<lambda>h. if h \<in> ct_handle ` set trs then None else cspace (table_of cl k) h)"
proof -
  let ?att = "map2 (\<lambda>tr c. cap_attenuated c (rights_from_bits (ct_rights tr))) trs"
  from send_caps_attenuated_sends [OF assms(2)] obtain chan bytes where
    chan: "current_object cl k ch Channel RIGHT_SEND = Inr chan"
    and body: "send_body cl chan bytes (map ct_handle trs) ?att k = (True, k')"
    unfolding sends_def trs_def by auto
  from send_body_done [OF assms(1) body] chan show ?thesis by (simp only: set_map) blast
qed

text \<open>The instance: one capability, reduced to the right to read.\<close>

definition transfer_kernel :: kernel where
  "transfer_kernel = (sample_kernel [] [])\<lparr>k_user := sample_user\<lparr>us_bytes := (\<lambda>a. if a \<in> {64, 72, 76, 80} then 1 else 0)\<rparr>\<rparr>"

lemma transfer_read:
  "read_user_u64 (k_user transfer_kernel) 64 = 1"
  "read_transfers transfer_kernel 64 1 = [\<lparr>ct_handle = handle_new 1 1, ct_rights = 1\<rparr>]"
proof -
  have all: "takeWhile (us_reads (k_user transfer_kernel)) xs = xs" for xs
    by (simp add: transfer_kernel_def sample_user_def)
  show "read_user_u64 (k_user transfer_kernel) 64 = 1"
    unfolding read_user_u64_def read_user_def copy_from_user_def all
    by (simp add: transfer_kernel_def upt_rec bytes_word_def)
  show "read_transfers transfer_kernel 64 1 = [\<lparr>ct_handle = handle_new 1 1, ct_rights = 1\<rparr>]"
    unfolding read_transfers_def read_user_transfer_def read_user_def copy_from_user_def all
    by (simp add: transfer_kernel_def upt_rec bytes_word_def handle_new_def)
qed

lemma sample_charge: "\<exists>ds. try_charge_hier sample_domains 2 n IpcQueue = (True, ds)" if "n \<le> 100"
proof -
  have "used sample_domains IpcQueue x = 0" "limit sample_domains IpcQueue x = UNLIMITED" if "x \<in> {1, 2}" for x
    using that by (auto simp: counter_of_def sample_domains_def sample_domain_def account_new_def counter_new_def)
  moreover have "headroom sample_domains IpcQueue 2 n"
    using that calculation by (simp add: headroom_def sample_line(2) U64_MAX_def del: One_nat_def)
  ultimately show ?thesis
    using sample_line(3) by (simp add: try_charge_hier_spec fits_def sample_line(2) del: One_nat_def)
qed

lemma transfer_done:
  "fst (sys_channel_send_caps_attenuated sample_caller (handle_new 1 0) 0 0 64 transfer_kernel) = 0"
proof -
  obtain ds where c: "try_charge_hier sample_domains 2 0 IpcQueue = (True, ds)" using sample_charge [of 0] by auto
  have user: "user_buf_ok (k_user transfer_kernel) p n" for p n
    by (simp add: transfer_kernel_def user_buf_ok_def user_range_ok_def sample_user_def)
  have look: "current_object sample_caller transfer_kernel (handle_new 1 0) Channel RIGHT_SEND = Inr 1"
    using sample_endpoint(1) [of "[]" "[]"] by (simp add: transfer_kernel_def current_object_def table_of_def)
  have took: "take_one sample_caller (handle_new 1 1) transfer_kernel =
      (Inr sample_cap, set_table sample_caller ipc_table_taken transfer_kernel)"
    by (rule sample_take) (simp_all add: transfer_kernel_def table_of_def)
  have chans: "k_chans (set_table sample_caller t transfer_kernel) = ipc_chans [] []" for t
    by (simp add: set_table_def transfer_kernel_def)
  have ds: "cs_domains (ipc_chans [] []) = sample_domains" by (simp add: ipc_chans_def)
  show ?thesis
    by (simp add: sys_channel_send_caps_attenuated_def user look transfer_read MAX_MESSAGE_CAPS_def
        read_payload_def copy_from_user_exact_def has_repeat_def take_all_one took send_message_def new_message_def chans
        send_charged_or_return_def send_inner_def channel_endpoint_def chan_depth_def charge_queue_def message_new_def
        try_charge_ipc_queue_def ds c del: One_nat_def)
qed

theorem send_moves_exactly_the_named_capabilities_witness:
  "\<exists>k' msg. sys_channel_send_caps_attenuated sample_caller (handle_new 1 0) 0 0 64 transfer_kernel = (0, k') \<and>
     m_caps msg = [cap_attenuated sample_cap (rights_from_bits 1)] \<and>
     cs_channels (k_chans k') 2 = Some ((channel_endpoint 2 (Some 1))\<lparr>c_inbox := [msg]\<rparr>) \<and>
     cspace (table_of sample_caller k') (handle_new 1 1) = None \<and>
     cspace (table_of sample_caller k') (handle_new 1 0) = Some endpoint_cap"
proof -
  obtain k' where run: "sys_channel_send_caps_attenuated sample_caller (handle_new 1 0) 0 0 64 transfer_kernel = (0, k')"
    using transfer_done by (metis prod.collapse)
  have tab: "table_of sample_caller transfer_kernel = ipc_table" "k_chans transfer_kernel = ipc_chans [] []"
    by (simp_all add: transfer_kernel_def table_of_def)
  have wf: "table_wf (table_of sample_caller transfer_kernel)" by (simp add: tab ipc_table_wf)
  have look: "current_object sample_caller transfer_kernel (handle_new 1 0) Channel RIGHT_SEND = Inr 1"
    using sample_endpoint(1) [of "[]" "[]"] by (simp add: transfer_kernel_def current_object_def table_of_def)
  have diff: "handle_new 1 0 \<noteq> handle_new 1 1" using handle_index_new [of 1 0] handle_index_new [of 1 1] by auto
  have trs: "read_transfers transfer_kernel 64 (unat (read_user_u64 (k_user transfer_kernel) 64)) = [\<lparr>ct_handle = handle_new 1 1, ct_rights = 1\<rparr>]"
    using transfer_read by simp
  from send_moves_exactly_the_named_capabilities [OF wf run, unfolded trs look tab] run diff show ?thesis
    by (auto simp: channel_endpoint_def simp del: One_nat_def)
qed

text \<open>
  C17. A receive that fails leaves the caller's handles alone. Whichever of the two receives, and
  wherever it failed, no message, a message taken by another receiver at each attempt, no room for
  the handles, a payload that did not land or handles whose numbers did not land, in a live table or
  in one that is already closed: every handle of the caller names what it named before, and the slots
  booked are exactly those that were booked before. No slot of the table has generation zero, which
  every table starts with and every operation keeps.
\<close>

theorem failed_receive_keeps_handles:
  assumes "runs_in P cl" and "k_inv P k H" and "others_ok cl" and "numbered (table_of cl k)"
    and "num = SYS_CHANNEL_RECV \<or> num = SYS_CHANNEL_RECV_CAPS"
    and "syscall_dispatch cl num a0 a1 a2 a3 k = Some (r, k')" and "r < 0"
  shows "cspace (table_of cl k') = cspace (table_of cl k) \<and> ht_booked (table_of cl k') = ht_booked (table_of cl k)"
proof -
  have wf: "table_wf (table_of cl k)" and kb: "koids_below (k_next_koid k) (k_chans k)"
    using assms(1,2) by (auto simp: k_inv_def runs_in_def table_of_def)
  from assms(5,6) consider "sys_channel_recv cl a0 (unat a1) (unat a2) (unat a3) k = (r, k')"
    | "sys_channel_recv_caps cl a0 (unat a1) (unat a2) (unat a3) k = (r, k')"
    by (auto simp: syscall_dispatch_def sys_numbers)
  then have "handles_kept cl k k'"
    by cases (rule receive_failed [OF assms(1) wf kb assms(3,4,7)], assumption)+
  then show ?thesis by (simp add: handles_kept_def)
qed

text \<open>The instance: another receiver takes the only message between the look and the take.\<close>

lemma sample_taken_away: "takes_head i (ipc_chans [filler] [], H) = (ipc_chans [] [], H)"
  by (simp add: takes_head_def chan_recv_def ipc_chans_def channel_endpoint_def filler_def message_new_def chan_depth_def
      release_queue_charge_def take_queue_charge_def drop_charge_def put_channel_def head_of_def Let_def fun_upd_twist
      del: One_nat_def)

lemma sample_recv_refused:
  "fst (sys_channel_recv_caps sample_caller (handle_new 1 0) 64 16 128 (sample_kernel [filler] [])) = ERR_WOULD_BLOCK"
proof -
  let ?k = "sample_kernel [filler] []"
  have peek: "peek_identified 1 (ipc_chans [filler] []) = Inr (1, 0, 0)"
    by (simp add: peek_identified_def filler_def message_new_def del: One_nat_def)
  have "ht_reserve sample_heap (k_domains ?k) 0 ipc_table = (True, k_domains ?k, ipc_table)"
    by (simp add: ht_reserve_def sample_heap_def ipc_table_def)
  moreover have "set_table sample_caller ipc_table ?k = ?k" using set_table_same [of sample_caller ?k] by simp
  ultimately have res: "reserve_handles sample_caller 0 ?k = (True, ?k)" by (simp add: reserve_handles_def)
  have recv: "recv_identified 1 1 16 MAX_MESSAGE_CAPS (ipc_chans [] []) = (Inl (Gone Empty), ipc_chans [] [])"
    by (simp add: recv_identified_def gone_def is_peer_closed_def del: One_nat_def)
  have "fst (receive_attempts sample_caller 1 16 MAX_MESSAGE_CAPS (Suc n) ?k) = Inl ERR_WOULD_BLOCK" for n
    by (simp add: peek res meanwhile_chans sample_taken_away recv del: One_nat_def)
  moreover have "RECEIVE_ATTEMPTS = Suc 7" by (simp add: RECEIVE_ATTEMPTS_def)
  ultimately have "fst (receive_transactionally sample_caller 1 16 MAX_MESSAGE_CAPS ?k) = Inl ERR_WOULD_BLOCK"
    unfolding receive_transactionally_def by metis
  then show ?thesis
    by (cases "receive_transactionally sample_caller 1 16 MAX_MESSAGE_CAPS ?k")
      (simp add: sys_channel_recv_caps_def del: One_nat_def)
qed

theorem failed_receive_keeps_handles_witness:
  "\<exists>k'. syscall_dispatch sample_caller SYS_CHANNEL_RECV_CAPS (handle_new 1 0) 64 16 128 (sample_kernel [filler] []) =
       Some (ERR_WOULD_BLOCK, k') \<and>
     cspace (table_of sample_caller k') = cspace ipc_table \<and> ht_booked (table_of sample_caller k') = []"
proof -
  let ?k = "sample_kernel [filler] []"
  obtain k' where "sys_channel_recv_caps sample_caller (handle_new 1 0) 64 16 128 ?k = (ERR_WOULD_BLOCK, k')"
    using sample_recv_refused by (metis prod.collapse)
  then have run: "syscall_dispatch sample_caller SYS_CHANNEL_RECV_CAPS (handle_new 1 0) 64 16 128 ?k = Some (ERR_WOULD_BLOCK, k')"
    by (simp add: syscall_dispatch_def sys_numbers)
  have inv: "k_inv {3} ?k {#}" by (rule sample_inv) (simp_all add: filler_def message_new_def)
  have num: "numbered (table_of sample_caller ?k)" by (simp add: numbered_def ipc_table_def)
  from failed_receive_keeps_handles [OF sample_runs_in inv sample_others_ok num _ run] run show ?thesis
    by (simp add: err_defs ipc_table_def)
qed

text \<open>
  The check that refuses a transfer naming one handle twice, a scan of every value against those
  before it, decides exactly whether the values are pairwise different.
\<close>

theorem has_repeat_exact: "has_repeat vs \<longleftrightarrow> \<not> distinct vs"
proof -
  have "distinct before \<Longrightarrow> has_repeat_from before vs \<longleftrightarrow> \<not> distinct (before @ vs)" for before
  proof (induction vs arbitrary: before)
    case (Cons v vs)
    then show ?case using Cons.IH [of "before @ [v]"] by (cases "v \<in> set before") auto
  qed simp
  from this [of "[]"] show ?thesis by (simp add: has_repeat_def)
qed

text \<open>
  A word written to the caller's memory is the word read back from there, when the bytes can be
  read and the write reported success.
\<close>

theorem user_word_round_trip:
  assumes "write_user us ptr value = (None, us')" and "\<forall>i < 8. us_reads us (ptr + i)"
  shows "read_user_u64 us' ptr = value"
  using assms by (rule write_user_read_user)

theorem user_word_round_trip_witness:
  "\<exists>us'. write_user sample_user 64 513 = (None, us') \<and> read_user_u64 us' 64 = 513"
proof -
  have "takeWhile (\<lambda>_. True) [64 ..< 72 :: nat] = [64 ..< 72]" by simp
  then obtain us' where run: "write_user sample_user 64 513 = (None, us')"
    by (simp add: write_user_def copy_to_user_exact_def copy_to_user_def Let_def sample_user_def user_buf_writable_def
        user_range_ok_def u64_bytes_def)
  moreover have "\<forall>i < 8. us_reads sample_user (64 + i)" by (simp add: sample_user_def)
  ultimately show ?thesis using user_word_round_trip by blast
qed

end
