(* ===== verification/Buddy.thy ===== *)
theory Buddy
  imports Kernel_Prelude
begin

text \<open>
  The physical frame allocator (\<^verbatim>\<open>src/src/buddy/src/lib.rs\<close>): a binary buddy allocator over one
  bitmap per order, packed order after order into one vector of words, with a hint and a count per
  order. Addresses, page numbers and block indices are \<^typ>\<open>nat\<close>; \<^verbatim>\<open>Buddy::new\<close> refuses an extent
  whose end does not fit a \<^verbatim>\<open>u64\<close>, and every address computed afterwards lies in the extent. The words
  of the bitmaps keep their width.

  The loops are recursions over the rounds they have left: the orders up to \<open>MAX_ORDER\<close>, the words of
  one bitmap, the pages of a span.
\<close>

unbundle bit_operations_syntax

section \<open>The allocator\<close>

definition PAGE_SIZE :: nat where "PAGE_SIZE = 4096"

definition MAX_ORDER :: nat where "MAX_ORDER = 18"

record buddy =
  bu_base :: nat
  bu_pages :: nat
  bu_bits :: "u64 list"
  bu_offsets :: "nat list"
  bu_words :: "nat list"
  bu_hint :: "nat list"
  bu_counts :: "nat list"
  bu_free :: nat

text \<open>\<^verbatim>\<open>trailing_zeros\<close> and \<^verbatim>\<open>leading_zeros\<close> of a machine word.\<close>

definition trailing_zeros :: "u64 \<Rightarrow> nat" where
  "trailing_zeros w = length (takeWhile (\<lambda>n. \<not> bit w n) [0 ..< 64])"

definition leading_zeros :: "u64 \<Rightarrow> nat" where
  "leading_zeros w = length (takeWhile (\<lambda>n. \<not> bit w (63 - n)) [0 ..< 64])"

section \<open>Construction\<close>

text \<open>The layout of the bitmaps: for each order where it starts and how many words it has.\<close>

fun layout :: "nat \<Rightarrow> nat \<Rightarrow> nat \<Rightarrow> nat \<Rightarrow> (nat list \<times> nat list \<times> nat) option" where
  "layout 0 order pages at_word = Some ([], [], at_word)"
| "layout (Suc n) order pages at_word =
     (let blocks = max (pages div 2 ^ order) 1;
          w = (blocks + 63) div 64
      in case checked_add at_word w of
           None \<Rightarrow> None
         | Some sum_words \<Rightarrow>
             (case layout n (order + 1) pages sum_words of
                None \<Rightarrow> None
              | Some (offsets, words, all) \<Rightarrow> Some (at_word # offsets, w # words, all)))"

text \<open>\<open>reserved\<close> is the answer of \<^verbatim>\<open>try_reserve_exact\<close>.\<close>

definition buddy_new :: "(nat \<Rightarrow> bool) \<Rightarrow> nat \<Rightarrow> nat \<Rightarrow> buddy option" where
  "buddy_new reserved base pages =
     (if pages = 0 \<or> base mod PAGE_SIZE \<noteq> 0 then None
      else if U64_MAX < pages * PAGE_SIZE then None
      else
        (case checked_add base (pages * PAGE_SIZE) of
           None \<Rightarrow> None
         | Some _ \<Rightarrow>
             (case layout (MAX_ORDER + 1) 0 pages 0 of
                None \<Rightarrow> None
              | Some (offsets, words, at_word) \<Rightarrow>
                  (if \<not> reserved at_word then None
                   else Some \<lparr>bu_base = base, bu_pages = pages, bu_bits = replicate at_word 0, bu_offsets = offsets,
                       bu_words = words, bu_hint = replicate (MAX_ORDER + 1) U64_MAX,
                       bu_counts = replicate (MAX_ORDER + 1) 0, bu_free = 0\<rparr>))))"

section \<open>One bit\<close>

definition blocks_at :: "buddy \<Rightarrow> nat \<Rightarrow> nat" where
  "blocks_at b order = max (bu_pages b div 2 ^ order) 1"

definition bgetw :: "buddy \<Rightarrow> nat \<Rightarrow> nat \<Rightarrow> u64" where
  "bgetw b order word = bu_bits b ! (bu_offsets b ! order + word)"

definition bget :: "buddy \<Rightarrow> nat \<Rightarrow> nat \<Rightarrow> bool" where
  "bget b order index =
     (if blocks_at b order \<le> index then False
      else bgetw b order (index div 64) AND push_bit (index mod 64) 1 \<noteq> 0)"

definition bset :: "nat \<Rightarrow> nat \<Rightarrow> buddy \<Rightarrow> buddy" where
  "bset order index b =
     (let word = bu_offsets b ! order + index div 64;
          b1 = (if bu_bits b ! word AND push_bit (index mod 64) 1 = 0 then
                  b\<lparr>bu_bits := (bu_bits b)[word := bu_bits b ! word OR push_bit (index mod 64) 1],
                    bu_counts := (bu_counts b)[order := bu_counts b ! order + 1]\<rparr>
                else b);
          w = index div 64
      in if w < bu_hint b1 ! order then b1\<lparr>bu_hint := (bu_hint b1)[order := w]\<rparr> else b1)"

definition bclear :: "nat \<Rightarrow> nat \<Rightarrow> buddy \<Rightarrow> buddy" where
  "bclear order index b =
     (let word = bu_offsets b ! order + index div 64 in
      if bu_bits b ! word AND push_bit (index mod 64) 1 \<noteq> 0 then
        b\<lparr>bu_bits := (bu_bits b)[word := bu_bits b ! word AND NOT (push_bit (index mod 64) 1)],
          bu_counts := (bu_counts b)[order := bu_counts b ! order - 1]\<rparr>
      else b)"

section \<open>Looking\<close>

text \<open>Word at a time, with the two ends masked.\<close>

definition masked_word :: "buddy \<Rightarrow> nat \<Rightarrow> nat \<Rightarrow> nat \<Rightarrow> nat \<Rightarrow> u64" where
  "masked_word b order start stop word =
     (let v = bgetw b order word;
          v1 = (if word = start div 64 then v AND push_bit (start mod 64) (- 1) else v)
      in if word = (stop - 1) div 64 \<and> stop mod 64 \<noteq> 0 then v1 AND drop_bit (64 - stop mod 64) (- 1) else v1)"

definition any_bit_in_range :: "buddy \<Rightarrow> nat \<Rightarrow> nat \<Rightarrow> nat \<Rightarrow> bool" where
  "any_bit_in_range b order start cnt =
     (let stop = min (start + cnt) (blocks_at b order) in
      if stop \<le> start then False
      else list_ex (\<lambda>word. masked_word b order start stop word \<noteq> 0) [start div 64 ..< Suc ((stop - 1) div 64)])"

definition block_touches_free :: "buddy \<Rightarrow> nat \<Rightarrow> nat \<Rightarrow> bool" where
  "block_touches_free b page order =
     (list_ex (\<lambda>at. bget b at (page div 2 ^ at)) [order ..< Suc MAX_ORDER] \<or>
      list_ex (\<lambda>at. any_bit_in_range b at (page div 2 ^ at) (2 ^ (order - at))) [0 ..< order])"

text \<open>The first word from \<open>word\<close> on that has a bit set, among \<open>n\<close> words.\<close>

fun scan_words :: "buddy \<Rightarrow> nat \<Rightarrow> nat \<Rightarrow> nat \<Rightarrow> nat option" where
  "scan_words b order 0 word = None"
| "scan_words b order (Suc n) word = (if bgetw b order word = 0 then scan_words b order n (word + 1) else Some word)"

definition found_index :: "buddy \<Rightarrow> nat \<Rightarrow> nat \<Rightarrow> nat option" where
  "found_index b order word =
     (let index = word * 64 + trailing_zeros (bgetw b order word) in
      if index < blocks_at b order then Some index else None)"

definition first_free :: "nat \<Rightarrow> buddy \<Rightarrow> nat option \<times> buddy" where
  "first_free order b =
     (if bu_counts b ! order = 0 then (None, b)
      else
        (let start = min (bu_hint b ! order) (bu_words b ! order) in
         case scan_words b order (bu_words b ! order - start) start of
           None \<Rightarrow> (None, b\<lparr>bu_hint := (bu_hint b)[order := bu_words b ! order]\<rparr>)
         | Some word \<Rightarrow> (found_index b order word, b\<lparr>bu_hint := (bu_hint b)[order := word]\<rparr>)))"

definition peek_first_free :: "buddy \<Rightarrow> nat \<Rightarrow> nat option" where
  "peek_first_free b order =
     (if bu_counts b ! order = 0 then None
      else
        (let start = min (bu_hint b ! order) (bu_words b ! order) in
         case scan_words b order (bu_words b ! order - start) start of
           None \<Rightarrow> None
         | Some word \<Rightarrow> found_index b order word))"

definition page_index :: "buddy \<Rightarrow> nat \<Rightarrow> nat option" where
  "page_index b phys =
     (if phys < bu_base b then None
      else
        (let offset = phys - bu_base b in
         if offset mod PAGE_SIZE \<noteq> 0 then None
         else
           (let page = offset div PAGE_SIZE in
            if bu_pages b \<le> page then None else Some page)))"

definition is_free_page :: "buddy \<Rightarrow> nat \<Rightarrow> bool" where
  "is_free_page b phys =
     (if phys < bu_base b then False
      else
        (let page = (phys - bu_base b) div PAGE_SIZE in
         if bu_pages b \<le> page then False
         else list_ex (\<lambda>order. bget b order (page div 2 ^ order)) [0 ..< Suc MAX_ORDER]))"

definition any_free :: "buddy \<Rightarrow> nat \<Rightarrow> nat \<Rightarrow> bool" where
  "any_free b phys pages =
     (case page_index b phys of
        None \<Rightarrow> False
      | Some first \<Rightarrow>
          (let last = min (min (first + (pages - 1)) U64_MAX) (bu_pages b - 1) in
           if pages = 0 \<or> bu_pages b \<le> first then False
           else list_ex (\<lambda>page. list_ex (\<lambda>order. bget b order (page div 2 ^ order)) [0 ..< Suc MAX_ORDER])
                  [first ..< Suc last]))"

section \<open>Taking and giving back\<close>

text \<open>The smallest order from \<open>larger\<close> on that has a free block.\<close>

fun find_larger :: "nat \<Rightarrow> nat \<Rightarrow> buddy \<Rightarrow> (nat \<times> nat) option \<times> buddy" where
  "find_larger 0 larger b = (None, b)"
| "find_larger (Suc n) larger b =
     (case first_free larger b of
        (Some index, b') \<Rightarrow> (Some (larger, index), b')
      | (None, b') \<Rightarrow> find_larger n (larger + 1) b')"

text \<open>Halve the block in hand \<open>n\<close> times, freeing the upper half each time.\<close>

fun split_down :: "nat \<Rightarrow> nat \<Rightarrow> nat \<Rightarrow> buddy \<Rightarrow> nat \<times> buddy" where
  "split_down 0 at_order index b = (index, b)"
| "split_down (Suc n) at_order index b =
     split_down n (at_order - 1) (index * 2) (bset (at_order - 1) (index * 2 + 1) b)"

definition take_block :: "nat \<Rightarrow> nat \<Rightarrow> nat \<Rightarrow> buddy \<Rightarrow> nat \<times> buddy" where
  "take_block order at_order index b =
     (case split_down (at_order - order) at_order index (bclear at_order index b) of
        (i, b') \<Rightarrow> (bu_base b' + i * 2 ^ order * PAGE_SIZE, b'\<lparr>bu_free := bu_free b' - 2 ^ order\<rparr>))"

definition buddy_alloc :: "nat \<Rightarrow> buddy \<Rightarrow> nat option \<times> buddy" where
  "buddy_alloc order b =
     (if MAX_ORDER < order then (None, b)
      else
        (case find_larger (Suc MAX_ORDER - order) order b of
           (None, b') \<Rightarrow> (None, b')
         | (Some (at_order, index), b') \<Rightarrow>
             (case take_block order at_order index b' of (phys, b'') \<Rightarrow> (Some phys, b''))))"

text \<open>Merge with the buddy \<open>index XOR 1\<close> for as long as it is free and the pair lies in the extent.\<close>

fun merge_up :: "nat \<Rightarrow> nat \<Rightarrow> nat \<Rightarrow> buddy \<Rightarrow> nat \<times> nat \<times> buddy" where
  "merge_up 0 at index b = (at, index, b)"
| "merge_up (Suc n) at index b =
     (let partner = index XOR 1 in
      if \<not> bget b at partner then (at, index, b)
      else if bu_pages b < (index div 2 * 2) * 2 ^ at + 2 * 2 ^ at then (at, index, b)
      else merge_up n (at + 1) (index div 2) (bclear at partner b))"

definition free_inner :: "nat \<Rightarrow> nat \<Rightarrow> bool \<Rightarrow> buddy \<Rightarrow> bool \<times> buddy" where
  "free_inner phys order refuse_double b =
     (if MAX_ORDER < order \<or> phys < bu_base b then (False, b)
      else if (phys - bu_base b) mod PAGE_SIZE \<noteq> 0 then (False, b)
      else
        (let page = (phys - bu_base b) div PAGE_SIZE in
         if page mod 2 ^ order \<noteq> 0 \<or> bu_pages b \<le> page then (False, b)
         else if bu_pages b < page + 2 ^ order then (False, b)
         else if refuse_double \<and> block_touches_free b page order then (False, b)
         else
           (case merge_up (MAX_ORDER - order) order (page div 2 ^ order) b of
              (at, index, b') \<Rightarrow>
                (case bset at index b' of b'' \<Rightarrow> (True, b''\<lparr>bu_free := bu_free b'' + 2 ^ order\<rparr>)))))"

definition buddy_free :: "nat \<Rightarrow> nat \<Rightarrow> buddy \<Rightarrow> bool \<times> buddy" where
  "buddy_free phys order b = free_inner phys order True b"

definition free_ignoring_double :: "nat \<Rightarrow> nat \<Rightarrow> buddy \<Rightarrow> bool \<times> buddy" where
  "free_ignoring_double phys order b = free_inner phys order False b"

fun free_block_or_split :: "nat \<Rightarrow> nat \<Rightarrow> buddy \<Rightarrow> nat \<times> buddy" where
  "free_block_or_split phys 0 b = (case buddy_free phys 0 b of (ok, b') \<Rightarrow> (if ok then 1 else 0, b'))"
| "free_block_or_split phys (Suc half) b =
     (case buddy_free phys (Suc half) b of
        (True, b') \<Rightarrow> (2 ^ Suc half, b')
      | (False, b') \<Rightarrow>
          (case free_block_or_split phys half b' of
             (n1, b1) \<Rightarrow>
               (case free_block_or_split (phys + 2 ^ half * PAGE_SIZE) half b1 of (n2, b2) \<Rightarrow> (n1 + n2, b2))))"

definition span_order :: "nat \<Rightarrow> nat \<Rightarrow> nat" where
  "span_order page left =
     (let by_alignment = (if page = 0 then MAX_ORDER else min (trailing_zeros (of_nat page)) MAX_ORDER);
          by_size = min (63 - leading_zeros (of_nat left)) MAX_ORDER
      in min by_alignment by_size)"

function free_span_loop :: "nat \<Rightarrow> nat \<Rightarrow> nat \<Rightarrow> buddy \<Rightarrow> nat \<times> buddy" where
  "free_span_loop left at taken_total b =
     (if left = 0 then (taken_total, b)
      else
        (let page = (at - bu_base b) div PAGE_SIZE;
             order = span_order page left;
             taken = 2 ^ order
         in case free_block_or_split at order b of
              (n, b') \<Rightarrow> free_span_loop (left - taken) (at + taken * PAGE_SIZE) (taken_total + n) b'))"
  by pat_completeness auto
termination
  by (relation "measure (\<lambda>(left, _). left)") (simp_all add: Let_def)

declare free_span_loop.simps [simp del]

definition free_span :: "nat \<Rightarrow> nat \<Rightarrow> buddy \<Rightarrow> nat \<times> buddy" where
  "free_span phys pages b =
     (if phys < bu_base b \<or> (phys - bu_base b) mod PAGE_SIZE \<noteq> 0 then (0, b)
      else
        (let first = (phys - bu_base b) div PAGE_SIZE in
         if bu_pages b \<le> first then (0, b)
         else free_span_loop (min pages (bu_pages b - first)) phys 0 b))"

text \<open>The smallest order whose block holds \<open>pages\<close>, counting up at most to \<open>MAX_ORDER + 1\<close>.\<close>

fun order_from :: "nat \<Rightarrow> nat \<Rightarrow> nat \<Rightarrow> nat" where
  "order_from 0 order pages = order"
| "order_from (Suc n) order pages = (if 2 ^ order < pages then order_from n (order + 1) pages else order)"

definition order_for :: "nat \<Rightarrow> nat" where
  "order_for pages = order_from (MAX_ORDER + 1) 0 pages"

definition hand_back :: "nat \<Rightarrow> nat \<Rightarrow> nat \<Rightarrow> buddy \<Rightarrow> buddy" where
  "hand_back phys order pages b =
     (if pages < 2 ^ order then snd (free_span (phys + pages * PAGE_SIZE) (2 ^ order - pages) b) else b)"

definition alloc_contiguous :: "nat \<Rightarrow> buddy \<Rightarrow> nat option \<times> buddy" where
  "alloc_contiguous pages b =
     (if pages = 0 then (None, b)
      else
        (let order = order_for pages in
         if MAX_ORDER < order then (None, b)
         else
           (case buddy_alloc order b of
              (None, b') \<Rightarrow> (None, b')
            | (Some phys, b') \<Rightarrow> (Some phys, hand_back phys order pages b'))))"

definition below_limit :: "buddy \<Rightarrow> nat \<Rightarrow> nat \<Rightarrow> nat \<Rightarrow> bool" where
  "below_limit b bytes lim larger =
     (case peek_first_free b larger of
        None \<Rightarrow> False
      | Some index \<Rightarrow>
          (case checked_add (bu_base b + index * 2 ^ larger * PAGE_SIZE) bytes of
             None \<Rightarrow> False
           | Some stop \<Rightarrow> stop \<le> lim))"

definition alloc_contiguous_below :: "nat \<Rightarrow> nat \<Rightarrow> buddy \<Rightarrow> nat option \<times> buddy" where
  "alloc_contiguous_below pages lim b =
     (if pages = 0 then (None, b)
      else
        (let order = order_for pages in
         if MAX_ORDER < order then (None, b)
         else if U64_MAX < pages * PAGE_SIZE then (None, b)
         else
           (case find (below_limit b (pages * PAGE_SIZE) lim) [order ..< Suc MAX_ORDER] of
              None \<Rightarrow> (None, b)
            | Some larger \<Rightarrow>
                (case first_free larger b of
                   (None, b') \<Rightarrow> (None, b')
                 | (Some index, b') \<Rightarrow>
                     (case take_block order larger index b' of
                        (phys, b'') \<Rightarrow> (Some phys, hand_back phys order pages b''))))))"

section \<open>Walking every free block\<close>

text \<open>
  \<^verbatim>\<open>while value != 0 { ..; value &= value - 1 }\<close>: a word has at most 64 rounds, one for each bit set.
\<close>

fun set_bits :: "nat \<Rightarrow> u64 \<Rightarrow> nat list" where
  "set_bits 0 value = []"
| "set_bits (Suc n) value = (if value = 0 then [] else trailing_zeros value # set_bits n (value AND (value - 1)))"

definition word_blocks :: "buddy \<Rightarrow> nat \<Rightarrow> nat \<Rightarrow> (nat \<times> nat) list" where
  "word_blocks b order word =
     map (\<lambda>index. (order, bu_base b + index * 2 ^ order * PAGE_SIZE))
       (filter (\<lambda>index. index < blocks_at b order) (map (\<lambda>n. word * 64 + n) (set_bits 64 (bgetw b order word))))"

definition for_each_free_block :: "buddy \<Rightarrow> (nat \<times> nat) list" where
  "for_each_free_block b =
     concat (map (\<lambda>order. concat (map (word_blocks b order) [0 ..< bu_words b ! order])) [0 ..< Suc MAX_ORDER])"

end
