(* ===== verification/Buddy_Bits.thy ===== *)
theory Buddy_Bits
  imports Buddy
begin

text \<open>
  The bitmaps of the buddy allocator refine a set of blocks: \<open>bits_ok\<close> is the representation
  invariant (the layout of the packed words, the unused tail of each bitmap, the counts and the
  hints), and below it \<open>get\<close>, \<open>set\<close>, \<open>clear\<close>, the masked range scan and the hinted search are
  membership, insertion, deletion, a bounded search and the least element of that set.
\<close>

section \<open>Words\<close>

lemma takeWhile_upt:
  defines "t P n \<equiv> length (takeWhile P [0 ..< n])"
  shows "j < t P n \<Longrightarrow> P j" and "t P n \<le> n" and "t P n < n \<Longrightarrow> \<not> P (t P n)"
proof -
  show le: "t P n \<le> n"
    unfolding t_def using length_takeWhile_le [of P "[0 ..< n]"] by simp
  show "P j" if "j < t P n"
  proof -
    have "takeWhile P [0 ..< n] ! j = j"
      using that le unfolding t_def by (simp add: takeWhile_nth)
    then show ?thesis
      using that unfolding t_def by (metis nth_mem set_takeWhileD)
  qed
  show "\<not> P (t P n)" if "t P n < n"
    using that nth_length_takeWhile [of P "[0 ..< n]"] unfolding t_def by simp
qed

lemma word_zero_bits: "(v :: u64) = 0 \<longleftrightarrow> (\<forall>n < 64. \<not> bit v n)"
  by (auto intro: bit_word_eqI)

lemma trailing_zeros_below: "n < trailing_zeros v \<Longrightarrow> \<not> bit v n"
  unfolding trailing_zeros_def by (drule takeWhile_upt(1)) simp

lemma trailing_zeros_bit:
  assumes "v \<noteq> 0"
  shows "trailing_zeros v < 64" and "bit v (trailing_zeros v)"
proof -
  obtain n where n: "n < 64" "bit v n"
    using assms word_zero_bits by blast
  show "trailing_zeros v < 64"
    using n trailing_zeros_below [of n v] by (meson leI le_less_trans)
  then show "bit v (trailing_zeros v)"
    unfolding trailing_zeros_def using takeWhile_upt(3) [of "\<lambda>n. \<not> bit v n" 64] by simp
qed

lemma bit_probe: "n < 64 \<Longrightarrow> ((v :: u64) AND push_bit n 1 = 0) \<longleftrightarrow> \<not> bit v n"
  by (auto simp: word_zero_bits bit_simps)

lemma bit_or_probe:
  "n < 64 \<Longrightarrow> m < 64 \<Longrightarrow> bit ((v :: u64) OR push_bit n 1) m \<longleftrightarrow> m = n \<or> bit v m"
  by (auto simp: bit_simps)

lemma bit_clear_probe:
  "n < 64 \<Longrightarrow> m < 64 \<Longrightarrow> bit ((v :: u64) AND NOT (push_bit n 1)) m \<longleftrightarrow> m \<noteq> n \<and> bit v m"
  by (auto simp: bit_simps)

lemma bit_low_mask: "m < 64 \<Longrightarrow> bit ((v :: u64) AND push_bit n (- 1)) m \<longleftrightarrow> n \<le> m \<and> bit v m"
  by (auto simp: bit_simps)

lemma bit_high_mask:
  "0 < n \<Longrightarrow> n < 64 \<Longrightarrow> m < 64 \<Longrightarrow> bit ((v :: u64) AND drop_bit (64 - n) (- 1)) m \<longleftrightarrow> m < n \<and> bit v m"
  by (auto simp: bit_simps)

section \<open>The representation\<close>

definition bu_shape :: "buddy \<Rightarrow> bool" where
  "bu_shape b \<longleftrightarrow>
     length (bu_offsets b) = Suc MAX_ORDER \<and> length (bu_words b) = Suc MAX_ORDER \<and>
     length (bu_hint b) = Suc MAX_ORDER \<and> length (bu_counts b) = Suc MAX_ORDER \<and>
     (\<forall>order \<le> MAX_ORDER. bu_words b ! order = (blocks_at b order + 63) div 64 \<and>
        bu_offsets b ! order + bu_words b ! order \<le> length (bu_bits b)) \<and>
     (\<forall>order \<le> MAX_ORDER. \<forall>above < order. bu_offsets b ! above + bu_words b ! above \<le> bu_offsets b ! order)"

definition raw_bit :: "buddy \<Rightarrow> nat \<Rightarrow> nat \<Rightarrow> bool" where
  "raw_bit b order index = bit (bgetw b order (index div 64)) (index mod 64)"

definition bits_ok :: "buddy \<Rightarrow> bool" where
  "bits_ok b \<longleftrightarrow>
     bu_shape b \<and>
     (\<forall>order \<le> MAX_ORDER. \<forall>index. blocks_at b order \<le> index \<longrightarrow> index div 64 < bu_words b ! order \<longrightarrow>
        \<not> raw_bit b order index) \<and>
     (\<forall>order \<le> MAX_ORDER. bu_counts b ! order = card {index. bget b order index}) \<and>
     (\<forall>order \<le> MAX_ORDER. \<forall>word < bu_words b ! order. word < bu_hint b ! order \<longrightarrow> bgetw b order word = 0)"

lemma bget_raw: "bget b order index \<longleftrightarrow> index < blocks_at b order \<and> raw_bit b order index"
  using bit_probe [of "index mod 64" "bgetw b order (index div 64)"] by (auto simp: bget_def raw_bit_def)

lemma finite_blocks [simp]: "finite {index. bget b order index}"
  by (rule finite_subset [of _ "{..< blocks_at b order}"]) (auto simp: bget_raw)

lemma bits_shape: "bits_ok b \<Longrightarrow> bu_shape b"
  by (simp add: bits_ok_def)

lemma bits_tail:
  "bits_ok b \<Longrightarrow> order \<le> MAX_ORDER \<Longrightarrow> index div 64 < bu_words b ! order \<Longrightarrow> raw_bit b order index \<Longrightarrow>
   index < blocks_at b order"
  unfolding bits_ok_def by (meson not_le)

lemma bits_counts: "bits_ok b \<Longrightarrow> order \<le> MAX_ORDER \<Longrightarrow> bu_counts b ! order = card {index. bget b order index}"
  unfolding bits_ok_def by blast

lemma bits_hint:
  "bits_ok b \<Longrightarrow> order \<le> MAX_ORDER \<Longrightarrow> word < bu_words b ! order \<Longrightarrow> word < bu_hint b ! order \<Longrightarrow>
   bgetw b order word = 0"
  unfolding bits_ok_def by blast

lemma shape_words: "bu_shape b \<Longrightarrow> order \<le> MAX_ORDER \<Longrightarrow> bu_words b ! order = (blocks_at b order + 63) div 64"
  unfolding bu_shape_def by blast

lemma shape_index:
  "bu_shape b \<Longrightarrow> order \<le> MAX_ORDER \<Longrightarrow> index < blocks_at b order \<Longrightarrow> index div 64 < bu_words b ! order"
  by (simp add: shape_words)

lemma shape_slot:
  "bu_shape b \<Longrightarrow> order \<le> MAX_ORDER \<Longrightarrow> word < bu_words b ! order \<Longrightarrow>
   bu_offsets b ! order + word < length (bu_bits b)"
  unfolding bu_shape_def by (metis add_less_cancel_left order_less_le_trans)

lemma shape_slot_inject:
  assumes "bu_shape b" "order \<le> MAX_ORDER" "word < bu_words b ! order"
    and "order' \<le> MAX_ORDER" "word' < bu_words b ! order'"
  shows "bu_offsets b ! order + word = bu_offsets b ! order' + word' \<longleftrightarrow> order = order' \<and> word = word'"
proof -
  have "bu_offsets b ! o1 + w1 \<noteq> bu_offsets b ! o2 + w2"
    if "o1 < o2" "o2 \<le> MAX_ORDER" "w1 < bu_words b ! o1" for o1 o2 w1 w2
  proof -
    have "bu_offsets b ! o1 + bu_words b ! o1 \<le> bu_offsets b ! o2"
      using assms(1) that unfolding bu_shape_def by blast
    with that show ?thesis
      by linarith
  qed
  from this [of order order' word word'] this [of order' order word' word] assms show ?thesis
    by (metis add_left_cancel linorder_neqE_nat)
qed

lemma bgetw_update:
  assumes "bu_shape b" "order \<le> MAX_ORDER" "word < bu_words b ! order"
    and "order' \<le> MAX_ORDER" "word' < bu_words b ! order'"
  shows "bgetw (b\<lparr>bu_bits := (bu_bits b)[bu_offsets b ! order + word := v], bu_counts := c\<rparr>) order' word' =
         (if order' = order \<and> word' = word then v else bgetw b order' word')"
  using shape_slot_inject [OF assms] shape_slot [OF assms(1-3)] by (auto simp: bgetw_def nth_list_update)

lemma blocks_at_update [simp]:
  "blocks_at (b\<lparr>bu_bits := x\<rparr>) order = blocks_at b order"
  "blocks_at (b\<lparr>bu_counts := y\<rparr>) order = blocks_at b order"
  "blocks_at (b\<lparr>bu_hint := z\<rparr>) order = blocks_at b order"
  "blocks_at (b\<lparr>bu_free := n\<rparr>) order = blocks_at b order"
  by (simp_all add: blocks_at_def)

lemma bget_update [simp]:
  "bget (b\<lparr>bu_hint := z\<rparr>) = bget b"
  "bget (b\<lparr>bu_free := n\<rparr>) = bget b"
  "raw_bit (b\<lparr>bu_hint := z\<rparr>) = raw_bit b"
  "raw_bit (b\<lparr>bu_free := n\<rparr>) = raw_bit b"
  "bgetw (b\<lparr>bu_hint := z\<rparr>) = bgetw b"
  "bgetw (b\<lparr>bu_free := n\<rparr>) = bgetw b"
  by (simp_all add: fun_eq_iff bget_def bgetw_def raw_bit_def)

lemma bits_ok_free [simp]: "bits_ok (b\<lparr>bu_free := n\<rparr>) = bits_ok b"
  by (simp add: bits_ok_def bu_shape_def)

section \<open>Insertion and deletion\<close>

lemma index_eq_parts: "i = j \<longleftrightarrow> i div 64 = j div 64 \<and> i mod 64 = j mod 64" for i j :: nat
  by (metis div_mult_mod_eq)

lemma bset_simps [simp]:
  "bu_base (bset order index b) = bu_base b" "bu_pages (bset order index b) = bu_pages b"
  "bu_free (bset order index b) = bu_free b" "bu_offsets (bset order index b) = bu_offsets b"
  "bu_words (bset order index b) = bu_words b" "length (bu_bits (bset order index b)) = length (bu_bits b)"
  "length (bu_hint (bset order index b)) = length (bu_hint b)"
  "length (bu_counts (bset order index b)) = length (bu_counts b)"
  "blocks_at (bset order index b) = blocks_at b"
  by (simp_all add: bset_def Let_def blocks_at_def fun_eq_iff)

lemma bclear_simps [simp]:
  "bu_base (bclear order index b) = bu_base b" "bu_pages (bclear order index b) = bu_pages b"
  "bu_free (bclear order index b) = bu_free b" "bu_offsets (bclear order index b) = bu_offsets b"
  "bu_words (bclear order index b) = bu_words b" "length (bu_bits (bclear order index b)) = length (bu_bits b)"
  "bu_hint (bclear order index b) = bu_hint b"
  "length (bu_counts (bclear order index b)) = length (bu_counts b)"
  "blocks_at (bclear order index b) = blocks_at b"
  by (simp_all add: bclear_def Let_def blocks_at_def fun_eq_iff)

lemma bu_shape_kept [simp]:
  "bu_shape (bset order index b) = bu_shape b" "bu_shape (bclear order index b) = bu_shape b"
  by (simp_all add: bu_shape_def)

lemma or_probe_set: "n < 64 \<Longrightarrow> (v :: u64) AND push_bit n 1 \<noteq> 0 \<Longrightarrow> v OR push_bit n 1 = v"
  by (rule bit_word_eqI) (auto simp: bit_probe bit_or_probe simp del: push_bit_of_1)

lemma clear_probe_unset: "n < 64 \<Longrightarrow> (v :: u64) AND push_bit n 1 = 0 \<Longrightarrow> v AND NOT (push_bit n 1) = v"
  by (rule bit_word_eqI) (auto simp: bit_probe bit_clear_probe simp del: push_bit_of_1)

lemma bgetw_bset:
  assumes "bu_shape b" "order \<le> MAX_ORDER" "index < blocks_at b order"
    and "order' \<le> MAX_ORDER" "word' < bu_words b ! order'"
  shows "bgetw (bset order index b) order' word' =
         (if order' = order \<and> word' = index div 64 then bgetw b order word' OR push_bit (index mod 64) 1
          else bgetw b order' word')"
  unfolding bset_def Let_def
  using bgetw_update [OF assms(1,2) shape_index [OF assms(1-3)] assms(4,5)] or_probe_set [of "index mod 64" "bgetw b order word'"]
  by (auto simp: bgetw_def simp del: push_bit_of_1)

lemma bgetw_bclear:
  assumes "bu_shape b" "order \<le> MAX_ORDER" "index < blocks_at b order"
    and "order' \<le> MAX_ORDER" "word' < bu_words b ! order'"
  shows "bgetw (bclear order index b) order' word' =
         (if order' = order \<and> word' = index div 64 then bgetw b order word' AND NOT (push_bit (index mod 64) 1)
          else bgetw b order' word')"
  unfolding bclear_def Let_def
  using bgetw_update [OF assms(1,2) shape_index [OF assms(1-3)] assms(4,5)] clear_probe_unset [of "index mod 64" "bgetw b order word'"]
  by (auto simp: bgetw_def simp del: push_bit_of_1)

lemma raw_bit_bset:
  assumes "bu_shape b" "order \<le> MAX_ORDER" "index < blocks_at b order"
    and "order' \<le> MAX_ORDER" "index' div 64 < bu_words b ! order'"
  shows "raw_bit (bset order index b) order' index' \<longleftrightarrow> order' = order \<and> index' = index \<or> raw_bit b order' index'"
  unfolding raw_bit_def bgetw_bset [OF assms]
  by (auto simp: bit_or_probe index_eq_parts [of index' index] simp del: push_bit_of_1)

lemma raw_bit_bclear:
  assumes "bu_shape b" "order \<le> MAX_ORDER" "index < blocks_at b order"
    and "order' \<le> MAX_ORDER" "index' div 64 < bu_words b ! order'"
  shows "raw_bit (bclear order index b) order' index' \<longleftrightarrow> \<not> (order' = order \<and> index' = index) \<and> raw_bit b order' index'"
  unfolding raw_bit_def bgetw_bclear [OF assms]
  by (auto simp: bit_clear_probe index_eq_parts [of index' index] simp del: push_bit_of_1)

lemma bget_bset:
  assumes "bu_shape b" "order \<le> MAX_ORDER" "index < blocks_at b order" "order' \<le> MAX_ORDER"
  shows "bget (bset order index b) order' index' \<longleftrightarrow> order' = order \<and> index' = index \<or> bget b order' index'"
  using raw_bit_bset [OF assms shape_index [OF assms(1,4)]] assms(3) by (auto simp: bget_raw)

lemma bget_bclear:
  assumes "bu_shape b" "order \<le> MAX_ORDER" "index < blocks_at b order" "order' \<le> MAX_ORDER"
  shows "bget (bclear order index b) order' index' \<longleftrightarrow> \<not> (order' = order \<and> index' = index) \<and> bget b order' index'"
  using raw_bit_bclear [OF assms shape_index [OF assms(1,4)]] by (auto simp: bget_raw)

lemma bset_counts:
  assumes "bu_shape b" "order \<le> MAX_ORDER" "index < blocks_at b order" "order' \<le> MAX_ORDER"
  shows "bu_counts (bset order index b) ! order' =
         (if order' = order \<and> \<not> bget b order index then bu_counts b ! order + 1 else bu_counts b ! order')"
  using assms bit_probe [of "index mod 64" "bgetw b order (index div 64)"]
  by (auto simp: bset_def Let_def bget_raw raw_bit_def bgetw_def bu_shape_def nth_list_update simp del: push_bit_of_1)

lemma bclear_counts:
  assumes "bu_shape b" "order \<le> MAX_ORDER" "index < blocks_at b order" "order' \<le> MAX_ORDER"
  shows "bu_counts (bclear order index b) ! order' =
         (if order' = order \<and> bget b order index then bu_counts b ! order - 1 else bu_counts b ! order')"
  using assms bit_probe [of "index mod 64" "bgetw b order (index div 64)"]
  by (auto simp: bclear_def Let_def bget_raw raw_bit_def bgetw_def bu_shape_def nth_list_update simp del: push_bit_of_1)

lemma bset_hint:
  assumes "bu_shape b" "order \<le> MAX_ORDER" "order' \<le> MAX_ORDER"
  shows "bu_hint (bset order index b) ! order' =
         (if order' = order then min (bu_hint b ! order) (index div 64) else bu_hint b ! order')"
  using assms by (auto simp: bset_def Let_def bu_shape_def nth_list_update)

lemma bset_ok:
  assumes ok: "bits_ok b" and place: "order \<le> MAX_ORDER" "index < blocks_at b order"
  shows "bits_ok (bset order index b)"
proof -
  note at = bits_shape [OF ok] place
  have sets: "{i. bget (bset order index b) o' i} =
      (if o' = order then insert index {i. bget b order i} else {i. bget b o' i})" if "o' \<le> MAX_ORDER" for o'
    using bget_bset [OF at that] by auto
  have "bu_counts (bset order index b) ! o' = card {i. bget (bset order index b) o' i}" if "o' \<le> MAX_ORDER" for o'
    unfolding bset_counts [OF at that] sets [OF that] using bits_counts [OF ok that] bits_counts [OF ok place(1)] by (simp add: card_insert_if)
  moreover have "bgetw (bset order index b) o' w = 0"
    if "o' \<le> MAX_ORDER" "w < bu_words b ! o'" "w < bu_hint (bset order index b) ! o'" for o' w
    using that bits_hint [OF ok that(1,2)] bgetw_bset [OF at that(1,2)] bset_hint [OF at(1,2) that(1)]
    by (auto split: if_splits)
  moreover have "\<not> raw_bit (bset order index b) o' i"
    if "o' \<le> MAX_ORDER" "i div 64 < bu_words b ! o'" "blocks_at b o' \<le> i" for o' i
    using that bits_tail [OF ok that(1,2)] raw_bit_bset [OF at that(1,2)] place by auto
  ultimately show ?thesis
    using bits_shape [OF ok] by (simp add: bits_ok_def)
qed

lemma bclear_ok:
  assumes ok: "bits_ok b" and place: "order \<le> MAX_ORDER" "index < blocks_at b order"
  shows "bits_ok (bclear order index b)"
proof -
  note at = bits_shape [OF ok] place
  have sets: "{i. bget (bclear order index b) o' i} =
      (if o' = order then {i. bget b order i} - {index} else {i. bget b o' i})" if "o' \<le> MAX_ORDER" for o'
    using bget_bclear [OF at that] by auto
  have "bu_counts (bclear order index b) ! o' = card {i. bget (bclear order index b) o' i}" if "o' \<le> MAX_ORDER" for o'
    unfolding bclear_counts [OF at that] sets [OF that] using bits_counts [OF ok that] bits_counts [OF ok place(1)] by (simp add: card_Diff_singleton_if)
  moreover have "bgetw (bclear order index b) o' w = 0"
    if "o' \<le> MAX_ORDER" "w < bu_words b ! o'" "w < bu_hint b ! o'" for o' w
    using that bits_hint [OF ok that] bgetw_bclear [OF at that(1,2)] by (auto split: if_splits)
  moreover have "\<not> raw_bit (bclear order index b) o' i"
    if "o' \<le> MAX_ORDER" "i div 64 < bu_words b ! o'" "blocks_at b o' \<le> i" for o' i
    using that bits_tail [OF ok that(1,2)] raw_bit_bclear [OF at that(1,2)] by auto
  ultimately show ?thesis
    using bits_shape [OF ok] by (simp add: bits_ok_def)
qed

section \<open>The hinted search\<close>

definition least_block :: "buddy \<Rightarrow> nat \<Rightarrow> nat option \<Rightarrow> bool" where
  "least_block b order r \<longleftrightarrow>
     (case r of None \<Rightarrow> \<forall>i. \<not> bget b order i | Some i \<Rightarrow> bget b order i \<and> (\<forall>j < i. \<not> bget b order j))"

lemma scan_words_None: "scan_words b order n word = None \<Longrightarrow> word \<le> w \<Longrightarrow> w < word + n \<Longrightarrow> bgetw b order w = 0"
proof (induction n arbitrary: word)
  case (Suc n)
  then show ?case
    by (cases "w = word") (simp_all split: if_splits)
qed simp

lemma scan_words_Some:
  "scan_words b order n word = Some w \<Longrightarrow>
   word \<le> w \<and> w < word + n \<and> bgetw b order w \<noteq> 0 \<and> (\<forall>w'. word \<le> w' \<longrightarrow> w' < w \<longrightarrow> bgetw b order w' = 0)"
proof (induction n arbitrary: word)
  case (Suc n)
  show ?case
  proof (cases "bgetw b order word = 0")
    case True
    with Suc.prems have "scan_words b order n (word + 1) = Some w"
      by simp
    from Suc.IH [OF this] have IH: "word < w" "w < word + Suc n" "bgetw b order w \<noteq> 0"
      and rest: "\<And>w'. word < w' \<Longrightarrow> w' < w \<Longrightarrow> bgetw b order w' = 0"
      by simp_all
    have "bgetw b order w' = 0" if "word \<le> w'" "w' < w" for w'
      using rest [of w'] True that by (cases "w' = word") simp_all
    with IH show ?thesis
      by simp
  qed (use Suc.prems in simp)
qed simp

lemma zero_word_blocks: "bgetw b order (i div 64) = 0 \<Longrightarrow> \<not> bget b order i"
  by (simp add: bget_raw raw_bit_def)

lemma found_index_least:
  assumes ok: "bits_ok b" and order: "order \<le> MAX_ORDER" and w: "w < bu_words b ! order"
    and found: "bgetw b order w \<noteq> 0" and below: "\<And>w'. w' < w \<Longrightarrow> bgetw b order w' = 0"
  shows "least_block b order (found_index b order w)"
proof -
  let ?t = "trailing_zeros (bgetw b order w)"
  let ?i = "w * 64 + ?t"
  have t: "?t < 64" "bit (bgetw b order w) ?t"
    using trailing_zeros_bit [OF found] by blast+
  have parts: "?i div 64 = w" "?i mod 64 = ?t"
    using t(1) by simp_all
  have raw: "raw_bit b order ?i"
    unfolding raw_bit_def parts by (rule t(2))
  have inside: "?i < blocks_at b order"
    using bits_tail [OF ok order _ raw] parts w by simp
  have "\<not> bget b order j" if "j < ?i" for j
  proof (cases "j div 64 = w")
    case True
    then have "j mod 64 < ?t"
      using that by (metis div_mult_mod_eq nat_add_left_cancel_less)
    then show ?thesis
      using trailing_zeros_below True by (auto simp: bget_raw raw_bit_def)
  next
    case False
    then have "j div 64 < w"
      using that t(1) by (metis div_le_mono le_neq_implies_less less_imp_le_nat parts(1))
    then show ?thesis
      using below zero_word_blocks by blast
  qed
  with inside raw show ?thesis
    by (simp add: least_block_def found_index_def Let_def bget_raw)
qed

lemma count_zero: "bits_ok b \<Longrightarrow> order \<le> MAX_ORDER \<Longrightarrow> bu_counts b ! order = 0 \<longleftrightarrow> (\<forall>i. \<not> bget b order i)"
  using bits_counts [of b order] card_eq_0_iff [of "{i. bget b order i}"] by auto

lemma hinted_scan:
  assumes ok: "bits_ok b" and order: "order \<le> MAX_ORDER"
    and start: "start = min (bu_hint b ! order) (bu_words b ! order)"
  shows "case scan_words b order (bu_words b ! order - start) start of
           None \<Rightarrow> \<forall>w < bu_words b ! order. bgetw b order w = 0
         | Some w \<Rightarrow> w < bu_words b ! order \<and> bgetw b order w \<noteq> 0 \<and> (\<forall>w' < w. bgetw b order w' = 0)"
proof -
  have low: "bgetw b order w = 0" if "w < start" for w
    using bits_hint [OF ok order] that start by simp
  have le: "start \<le> bu_words b ! order"
    using start by simp
  show ?thesis
  proof (cases "scan_words b order (bu_words b ! order - start) start")
    case None
    have "bgetw b order w = 0" if "w < bu_words b ! order" for w
      using low scan_words_None [OF None, of w] that by (cases "w < start") simp_all
    with None show ?thesis
      by simp
  next
    case (Some w)
    have "bgetw b order w' = 0" if "w' < w" for w'
      using low scan_words_Some [OF Some] that by (cases "w' < start") simp_all
    with Some scan_words_Some [OF Some] le show ?thesis
      by simp
  qed
qed

lemma no_words_no_blocks:
  "bits_ok b \<Longrightarrow> order \<le> MAX_ORDER \<Longrightarrow> \<forall>w < bu_words b ! order. bgetw b order w = 0 \<Longrightarrow> \<not> bget b order i"
  using shape_index [OF bits_shape, of b order i] zero_word_blocks [of b order i] bget_raw [of b order i] by blast

lemma bu_shape_hint [simp]: "bu_shape (b\<lparr>bu_hint := (bu_hint b)[order := h]\<rparr>) = bu_shape b"
  by (simp add: bu_shape_def)

lemma hint_ok:
  assumes ok: "bits_ok b" and order: "order \<le> MAX_ORDER"
    and low: "\<And>w. w < h \<Longrightarrow> w < bu_words b ! order \<Longrightarrow> bgetw b order w = 0"
  shows "bits_ok (b\<lparr>bu_hint := (bu_hint b)[order := h]\<rparr>)"
proof -
  have "length (bu_hint b) = Suc MAX_ORDER"
    using bits_shape [OF ok] by (simp add: bu_shape_def)
  then have "bgetw b o' w = 0"
    if "o' \<le> MAX_ORDER" "w < bu_words b ! o'" "w < (bu_hint b)[order := h] ! o'" for o' w
    using that low bits_hint [OF ok that(1,2)] order by (cases "o' = order") (simp_all add: nth_list_update)
  then show ?thesis
    using ok unfolding bits_ok_def by simp
qed

lemma peek_first_free_least:
  assumes ok: "bits_ok b" "order \<le> MAX_ORDER"
  shows "least_block b order (peek_first_free b order)"
proof (cases "bu_counts b ! order = 0")
  case True
  then show ?thesis
    using count_zero [OF ok] by (simp add: peek_first_free_def least_block_def)
next
  case False
  let ?start = "min (bu_hint b ! order) (bu_words b ! order)"
  show ?thesis
  proof (cases "scan_words b order (bu_words b ! order - ?start) ?start")
    case None
    with hinted_scan [OF ok refl] no_words_no_blocks [OF ok] False show ?thesis
      by (simp add: peek_first_free_def Let_def least_block_def)
  next
    case (Some w)
    with hinted_scan [OF ok refl] have "least_block b order (found_index b order w)"
      by (intro found_index_least [OF ok]) simp_all
    with Some False show ?thesis
      by (simp add: peek_first_free_def Let_def)
  qed
qed

lemma first_free_peek: "fst (first_free order b) = peek_first_free b order"
  by (simp add: first_free_def peek_first_free_def Let_def split: option.split)

lemma first_free_same:
  assumes "first_free order b = (r, b')"
  shows "bget b' = bget b" "bu_base b' = bu_base b" "bu_pages b' = bu_pages b" "bu_free b' = bu_free b"
    "blocks_at b' = blocks_at b"
  using assms by (auto simp: first_free_def Let_def fun_eq_iff split: if_splits option.splits)

lemma first_free_ok:
  assumes ok: "bits_ok b" "order \<le> MAX_ORDER" and take: "first_free order b = (r, b')"
  shows "bits_ok b'" "least_block b order r"
proof -
  show "least_block b order r"
    using peek_first_free_least [OF ok] first_free_peek [of order b] take by simp
  show "bits_ok b'"
  proof (cases "bu_counts b ! order = 0")
    case False
    let ?start = "min (bu_hint b ! order) (bu_words b ! order)"
    let ?scan = "scan_words b order (bu_words b ! order - ?start) ?start"
    have "b' = b\<lparr>bu_hint := (bu_hint b)[order := case ?scan of None \<Rightarrow> bu_words b ! order | Some w \<Rightarrow> w]\<rparr>"
      using take False by (auto simp: first_free_def Let_def split: option.splits)
    then show ?thesis
      using hinted_scan [OF ok refl] hint_ok [OF ok] by (simp split: option.splits)
  qed (use take ok in \<open>simp add: first_free_def\<close>)
qed

section \<open>The masked range\<close>

lemma above_start:
  fixes start word m :: nat
  assumes "start div 64 \<le> word" "m < 64"
  shows "start \<le> word * 64 + m \<longleftrightarrow> word \<noteq> start div 64 \<or> start mod 64 \<le> m"
proof -
  obtain q r where s: "start = q * 64 + r" "r < 64"
    by (metis div_mult_mod_eq mod_less_divisor zero_less_numeral)
  have "q \<le> word"
    using assms s by simp
  with assms s show ?thesis
    by (cases "word = q") auto
qed

lemma below_stop:
  fixes stop word m :: nat
  assumes "word \<le> (stop - 1) div 64" "m < 64" "0 < stop"
  shows "word * 64 + m < stop \<longleftrightarrow> \<not> (word = (stop - 1) div 64 \<and> stop mod 64 \<noteq> 0) \<or> m < stop mod 64"
proof -
  obtain q r where s: "stop = q * 64 + r" "r < 64"
    by (metis div_mult_mod_eq mod_less_divisor zero_less_numeral)
  show ?thesis
  proof (cases "r = 0")
    case True
    with s assms(3) obtain q' where "q = Suc q'"
      by (cases q) auto
    with True s have "(stop - 1) div 64 = q'" "stop = q' * 64 + 64"
      by simp_all
    with assms True s show ?thesis
      by auto
  next
    case False
    with s have "(stop - 1) div 64 = q" "stop mod 64 = r"
      by (simp_all add: div_nat_eqI)
    with assms False s show ?thesis
      by (cases "word = q") auto
  qed
qed

lemma masked_word_bit:
  assumes "start < stop" "m < 64" "start div 64 \<le> word" "word \<le> (stop - 1) div 64"
  shows "bit (masked_word b order start stop word) m \<longleftrightarrow>
         start \<le> word * 64 + m \<and> word * 64 + m < stop \<and> bit (bgetw b order word) m"
proof -
  have stop: "0 < stop"
    using assms(1) by simp
  show ?thesis
    unfolding masked_word_def Let_def above_start [OF assms(3,2)] below_stop [OF assms(4,2) stop]
    using assms(2) by (auto simp: bit_simps)
qed

lemma any_bit_in_range_iff:
  assumes ok: "bits_ok b" and order: "order \<le> MAX_ORDER"
  shows "any_bit_in_range b order start n \<longleftrightarrow> (\<exists>i. start \<le> i \<and> i < start + n \<and> bget b order i)"
proof -
  let ?stop = "min (start + n) (blocks_at b order)"
  have member: "masked_word b order start ?stop word \<noteq> 0 \<longleftrightarrow>
      (\<exists>m < 64. start \<le> word * 64 + m \<and> word * 64 + m < ?stop \<and> bit (bgetw b order word) m)"
    if "start < ?stop" "start div 64 \<le> word" "word \<le> (?stop - 1) div 64" for word
    using masked_word_bit [OF that(1) _ that(2,3), of _ b order] word_zero_bits by blast
  show ?thesis
  proof (cases "start < ?stop")
    case True
    have "any_bit_in_range b order start n \<longleftrightarrow>
        (\<exists>word. start div 64 \<le> word \<and> word \<le> (?stop - 1) div 64 \<and> masked_word b order start ?stop word \<noteq> 0)"
      using True unfolding any_bit_in_range_def Let_def list_ex_iff set_upt less_Suc_eq_le by auto
    also have "\<dots> \<longleftrightarrow> (\<exists>word m. m < 64 \<and> start \<le> word * 64 + m \<and> word * 64 + m < ?stop \<and> bit (bgetw b order word) m)"
    proof -
      have "start div 64 \<le> word \<and> word \<le> (?stop - 1) div 64"
        if "m < 64" "start \<le> word * 64 + m" "word * 64 + m < ?stop" for word m
        using that by linarith
      then show ?thesis
        using member [OF True] by blast
    qed
    also have "\<dots> \<longleftrightarrow> (\<exists>i. start \<le> i \<and> i < ?stop \<and> raw_bit b order i)"
    proof
      assume "\<exists>word m. m < 64 \<and> start \<le> word * 64 + m \<and> word * 64 + m < ?stop \<and> bit (bgetw b order word) m"
      then obtain word m where "m < 64" "start \<le> word * 64 + m" "word * 64 + m < ?stop" "bit (bgetw b order word) m"
        by blast
      then show "\<exists>i. start \<le> i \<and> i < ?stop \<and> raw_bit b order i"
        by (intro exI [of _ "word * 64 + m"]) (simp add: raw_bit_def)
    next
      assume "\<exists>i. start \<le> i \<and> i < ?stop \<and> raw_bit b order i"
      then show "\<exists>word m. m < 64 \<and> start \<le> word * 64 + m \<and> word * 64 + m < ?stop \<and> bit (bgetw b order word) m"
        unfolding raw_bit_def by (metis div_mult_mod_eq mod_less_divisor zero_less_numeral)
    qed
    finally show ?thesis
      by (auto simp: bget_raw)
  next
    case False
    then show ?thesis
      by (auto simp: any_bit_in_range_def Let_def bget_raw)
  qed
qed

section \<open>The bits of a word, lowest first\<close>

lemma int_clear_lowest:
  fixes a :: int
  shows "bit a t \<Longrightarrow> (\<And>m. m < t \<Longrightarrow> \<not> bit a m) \<Longrightarrow> bit (a AND (a - 1)) n \<longleftrightarrow> bit a n \<and> n \<noteq> t"
proof (induction t arbitrary: a n)
  case 0
  then obtain c where "a = 2 * c + 1"
    by (auto simp: bit_0 elim: oddE)
  then show ?case
    unfolding bit_and_iff by (cases n) (simp_all add: bit_0 bit_Suc)
next
  case (Suc t)
  from Suc.prems(2) [of 0] obtain c where c: "a = 2 * c"
    by (auto simp: bit_0)
  have "(2 * c - 1) div 2 = c - 1"
    by simp
  moreover have "bit c t" "\<And>m. m < t \<Longrightarrow> \<not> bit c m"
    using Suc.prems c by (auto simp: bit_Suc dest: Suc.prems(2) [OF Suc_mono])
  ultimately show ?case
    using Suc.IH [of c] c unfolding bit_and_iff by (cases n) (simp_all add: bit_0 bit_Suc)
qed

lemma clear_lowest:
  assumes "v \<noteq> (0 :: u64)"
  shows "bit (v AND (v - 1)) n \<longleftrightarrow> bit v n \<and> n \<noteq> trailing_zeros v"
proof -
  have word: "v - 1 = word_of_int (uint v - 1)"
    by simp
  have bits: "bit v m \<longleftrightarrow> bit (uint v) m" for m
    by (auto simp: bit_uint_iff dest: bit_imp_le_length)
  have "bit (v - 1) n \<longleftrightarrow> n < 64 \<and> bit (uint v - 1) n"
    by (simp only: word bit_word_of_int_iff) simp
  then have "bit (v AND (v - 1)) n \<longleftrightarrow> bit v n \<and> bit (uint v AND (uint v - 1)) n"
    using bits [of n] bit_imp_le_length [of v n] by (auto simp: bit_and_iff)
  then show ?thesis
    using int_clear_lowest [of "uint v" "trailing_zeros v" n] trailing_zeros_bit [OF assms] trailing_zeros_below [of _ v]
    by (auto simp: bits)
qed

lemma finite_word_bits [simp]: "finite {n. bit (v :: u64) n}"
  by (rule finite_subset [of _ "{..< 64}"]) (auto dest: bit_imp_le_length)

lemma set_bits_all:
  "card {n. bit v n} \<le> k \<Longrightarrow> set (set_bits k v) = {n. bit v n} \<and> distinct (set_bits k v)"
proof (induction k arbitrary: v)
  case 0
  then show ?case
    by simp
next
  case (Suc k)
  show ?case
  proof (cases "v = 0")
    case False
    let ?t = "trailing_zeros v"
    have rest: "{n. bit (v AND (v - 1)) n} = {n. bit v n} - {?t}"
      using clear_lowest [OF False] by auto
    have in_v: "?t \<in> {n. bit v n}"
      using trailing_zeros_bit [OF False] by simp
    then have "card {n. bit (v AND (v - 1)) n} \<le> k"
      unfolding rest using Suc.prems by simp
    from Suc.IH [OF this] in_v False show ?thesis
      unfolding rest by auto
  qed simp
qed

lemma set_bits_64: "set (set_bits 64 v) = {n. bit v n}" "distinct (set_bits 64 v)"
proof -
  have "card {n. bit v n} \<le> card {..< 64 :: nat}"
    by (rule card_mono) (auto dest: bit_imp_le_length)
  then have "card {n. bit v n} \<le> 64"
    by simp
  from set_bits_all [OF this] show "set (set_bits 64 v) = {n. bit v n}" "distinct (set_bits 64 v)"
    by blast+
qed

end
