(* ===== verification/Buddy_Blocks.thy ===== *)
theory Buddy_Blocks
  imports Buddy_Bits
begin

text \<open>
  The blocks of the buddy allocator as sets of pages. A page \<open>p\<close> lies in the block \<open>p div 2 ^ order\<close> of
  every order, so the free set is read off the bitmaps page by page. \<open>blocks_ok\<close> says that the free
  blocks lie in the extent, that no page lies in two of them, and that no two halves of a larger block
  are free on their own; splitting and merging keep it and move exactly one block in or out.
\<close>

section \<open>Blocks of pages\<close>

definition block :: "nat \<Rightarrow> nat \<Rightarrow> nat set" where
  "block order index = {p. p div 2 ^ order = index}"

lemma block_interval: "block order index = {index * 2 ^ order ..< (index + 1) * 2 ^ order}"
  by (auto simp: block_def div_nat_eqI algebra_simps dividend_less_times_div less_mult_imp_div_less
      intro: div_nat_eqI)

lemma card_block [simp]: "card (block order index) = 2 ^ order"
  by (simp add: block_interval)

lemma finite_block [simp]: "finite (block order index)"
  by (simp add: block_interval)

lemma block_start: "index * 2 ^ order \<in> block order index"
  by (simp add: block_def)

lemma block_halves: "block (Suc order) index = block order (2 * index) \<union> block order (2 * index + 1)"
  unfolding block_def by (auto simp: power_Suc2 div_mult2_eq simp del: power_Suc)

lemma block_disjoint: "index \<noteq> index' \<Longrightarrow> block order index \<inter> block order index' = {}"
  by (auto simp: block_def)

lemma div_power_le: "order \<le> at \<Longrightarrow> p div 2 ^ at = p div 2 ^ order div 2 ^ (at - order)" for p :: nat
  by (metis div_mult2_eq le_add_diff_inverse power_add)

lemma block_within: "order \<le> at \<Longrightarrow> block order index \<subseteq> block at (index div 2 ^ (at - order))"
  by (auto simp: block_def div_power_le)

lemma xor_one: "n XOR 1 = (if even n then n + 1 else n - 1)" for n :: nat
  unfolding One_nat_def xor_Suc_0_eq by simp

lemma xor_one_div: "(n XOR 1) div 2 = n div 2" for n :: nat
  unfolding xor_one by (auto elim!: evenE oddE)

lemma xor_one_neq: "n XOR 1 \<noteq> (n :: nat)"
  unfolding xor_one by (auto elim: oddE)

lemma xor_one_halves: "{n, n XOR 1} = {2 * (n div 2), 2 * (n div 2) + 1}" for n :: nat
  unfolding xor_one by (auto elim!: evenE oddE)

lemma block_partner: "block (Suc order) (index div 2) = block order index \<union> block order (index XOR 1)"
proof -
  have "block (Suc order) (index div 2) = (\<Union>i \<in> {2 * (index div 2), 2 * (index div 2) + 1}. block order i)"
    by (simp add: block_halves)
  also have "\<dots> = block order index \<union> block order (index XOR 1)"
    unfolding xor_one_halves [symmetric] by simp
  finally show ?thesis .
qed

section \<open>The free set\<close>

definition free_set :: "buddy \<Rightarrow> nat set" where
  "free_set b = {p. \<exists>order \<le> MAX_ORDER. bget b order (p div 2 ^ order)}"

definition inside :: "buddy \<Rightarrow> nat \<Rightarrow> nat \<Rightarrow> bool" where
  "inside b order index \<longleftrightarrow> order \<le> MAX_ORDER \<and> (index + 1) * 2 ^ order \<le> bu_pages b"

definition blocks_ok :: "buddy \<Rightarrow> bool" where
  "blocks_ok b \<longleftrightarrow>
     bits_ok b \<and>
     (\<forall>order \<le> MAX_ORDER. \<forall>index. bget b order index \<longrightarrow> inside b order index) \<and>
     (\<forall>p. \<forall>order \<le> MAX_ORDER. \<forall>order' \<le> MAX_ORDER.
        bget b order (p div 2 ^ order) \<longrightarrow> bget b order' (p div 2 ^ order') \<longrightarrow> order = order') \<and>
     (\<forall>order < MAX_ORDER. \<forall>index. bget b order index \<longrightarrow> \<not> bget b order (index XOR 1))"

lemma ok_bits: "blocks_ok b \<Longrightarrow> bits_ok b"
  by (simp add: blocks_ok_def)

lemma ok_inside: "blocks_ok b \<Longrightarrow> order \<le> MAX_ORDER \<Longrightarrow> bget b order index \<Longrightarrow> inside b order index"
  unfolding blocks_ok_def by blast

lemma ok_one_order:
  "blocks_ok b \<Longrightarrow> order \<le> MAX_ORDER \<Longrightarrow> order' \<le> MAX_ORDER \<Longrightarrow>
   bget b order (p div 2 ^ order) \<Longrightarrow> bget b order' (p div 2 ^ order') \<Longrightarrow> order = order'"
  unfolding blocks_ok_def by blast

lemma ok_merged: "blocks_ok b \<Longrightarrow> order < MAX_ORDER \<Longrightarrow> bget b order index \<Longrightarrow> \<not> bget b order (index XOR 1)"
  unfolding blocks_ok_def by blast

lemma inside_index: "inside b order index \<Longrightarrow> index < blocks_at b order"
proof -
  assume "inside b order index"
  then have "index + 1 \<le> bu_pages b div 2 ^ order"
    by (simp add: inside_def less_eq_div_iff_mult_less_eq)
  then show ?thesis
    by (simp add: blocks_at_def)
qed

lemma inside_below: "inside b order index \<Longrightarrow> p \<in> block order index \<Longrightarrow> p < bu_pages b"
  by (auto simp: inside_def block_interval)

lemma free_set_block: "order \<le> MAX_ORDER \<Longrightarrow> bget b order index \<Longrightarrow> block order index \<subseteq> free_set b"
  by (auto simp: free_set_def block_def)

lemma free_set_below: "blocks_ok b \<Longrightarrow> p \<in> free_set b \<Longrightarrow> p < bu_pages b"
  using inside_below ok_inside by (fastforce simp: free_set_def block_def)

lemma finite_free_set: "blocks_ok b \<Longrightarrow> finite (free_set b)"
  by (rule finite_subset [of _ "{..< bu_pages b}"]) (auto dest: free_set_below)

lemma free_set_cong: "bget b' = bget b \<Longrightarrow> free_set b' = free_set b"
  by (simp add: free_set_def)

lemma free_set_update [simp]: "free_set (b\<lparr>bu_free := n\<rparr>) = free_set b"
  by (rule free_set_cong) simp

lemma inside_update [simp]: "inside (b\<lparr>bu_free := n\<rparr>) = inside b"
  by (simp add: inside_def fun_eq_iff)

lemma blocks_ok_free [simp]: "blocks_ok (b\<lparr>bu_free := n\<rparr>) = blocks_ok b"
  by (simp add: blocks_ok_def)

lemma inside_bset [simp]: "inside (bset order index b) = inside b" "inside (bclear order index b) = inside b"
  by (simp_all add: inside_def fun_eq_iff)

lemma free_set_bset:
  assumes "blocks_ok b" "inside b order index"
  shows "free_set (bset order index b) = free_set b \<union> block order index"
proof -
  note at = bits_shape [OF ok_bits [OF assms(1)]] _ inside_index [OF assms(2)]
  show ?thesis
    using bget_bset [OF at] assms(2) by (auto simp: free_set_def block_def inside_def)
qed

lemma free_set_bclear:
  assumes ok: "blocks_ok b" and place: "order \<le> MAX_ORDER" and free: "bget b order index"
  shows "free_set (bclear order index b) = free_set b - block order index"
proof -
  note ins = ok_inside [OF ok place free]
  note get = bget_bclear [OF bits_shape [OF ok_bits [OF ok]] place inside_index [OF ins]]
  show ?thesis
  proof (intro set_eqI iffI)
    fix p
    assume "p \<in> free_set (bclear order index b)"
    then obtain o' where o': "o' \<le> MAX_ORDER" "bget b o' (p div 2 ^ o')" "\<not> (o' = order \<and> p div 2 ^ o' = index)"
      using get by (auto simp: free_set_def)
    then have "p div 2 ^ order \<noteq> index"
      using ok_one_order [OF ok place o'(1), of p] free o'(2) by blast
    with o' show "p \<in> free_set b - block order index"
      by (auto simp: free_set_def block_def)
  next
    fix p
    assume "p \<in> free_set b - block order index"
    then show "p \<in> free_set (bclear order index b)"
      using get by (auto simp: free_set_def block_def)
  qed
qed

lemma bclear_blocks_ok:
  assumes ok: "blocks_ok b" and place: "order \<le> MAX_ORDER" and free: "bget b order index"
  shows "blocks_ok (bclear order index b)"
proof -
  note ins = inside_index [OF ok_inside [OF ok place free]]
  note get = bget_bclear [OF bits_shape [OF ok_bits [OF ok]] place ins]
  have "bits_ok (bclear order index b)"
    by (rule bclear_ok [OF ok_bits [OF ok] place ins])
  then show ?thesis
    unfolding blocks_ok_def using get ok_inside [OF ok] ok_one_order [OF ok] ok_merged [OF ok]
    by (auto simp: less_imp_le)
qed

lemma bset_blocks_ok:
  assumes ok: "blocks_ok b" and ins: "inside b order index" and apart: "block order index \<inter> free_set b = {}"
    and lone: "order < MAX_ORDER \<Longrightarrow> \<not> bget b order (index XOR 1)"
  shows "blocks_ok (bset order index b)"
proof -
  have place: "order \<le> MAX_ORDER"
    using ins by (simp add: inside_def)
  note get = bget_bset [OF bits_shape [OF ok_bits [OF ok]] place inside_index [OF ins]]
  have "bits_ok (bset order index b)"
    by (rule bset_ok [OF ok_bits [OF ok] place inside_index [OF ins]])
  moreover have "o1 = o2"
    if "o1 \<le> MAX_ORDER" "o2 \<le> MAX_ORDER" "bget (bset order index b) o1 (p div 2 ^ o1)"
      "bget (bset order index b) o2 (p div 2 ^ o2)" for p o1 o2
  proof -
    have "\<not> bget b o' (p div 2 ^ o')" if "p div 2 ^ order = index" "o' \<le> MAX_ORDER" for o'
      using apart that by (auto simp: block_def free_set_def)
    with that get ok_one_order [OF ok, of o1 o2 p] show ?thesis
      by metis
  qed
  moreover have "\<not> bget (bset order index b) o' (i XOR 1)"
    if "o' < MAX_ORDER" "bget (bset order index b) o' i" for o' i
  proof -
    have flip: "i XOR 1 = index \<Longrightarrow> i = index XOR 1"
      by (drule sym) (simp add: xor.assoc)
    show ?thesis
      using that get [of o'] lone ok_merged [OF ok, of o' i] flip xor_one_neq [of i] by (metis less_imp_le)
  qed
  moreover have "inside (bset order index b) o' i" if "o' \<le> MAX_ORDER" "bget (bset order index b) o' i" for o' i
    using that get [of o' i] ok_inside [OF ok, of o' i] ins by auto
  ultimately show ?thesis
    unfolding blocks_ok_def by blast
qed

section \<open>Splitting and merging\<close>

lemma disjoint_not_set: "order \<le> MAX_ORDER \<Longrightarrow> block order index \<inter> free_set b = {} \<Longrightarrow> \<not> bget b order index"
  using free_set_block [of order b index] block_start [of index order] by blast

lemma inside_half: "inside b (Suc order) index \<Longrightarrow> inside b order (2 * index) \<and> inside b order (2 * index + 1)"
  by (simp add: inside_def algebra_simps)

lemma split_down_spec:
  assumes "blocks_ok b" "inside b at index" "block at index \<inter> free_set b = {}" "n \<le> at"
    and "split_down n at index b = (index', b')"
  shows "index' = index * 2 ^ n \<and> blocks_ok b' \<and>
    free_set b' = free_set b \<union> (block at index - block (at - n) index') \<and>
    block (at - n) index' \<inter> free_set b' = {} \<and>
    bu_base b' = bu_base b \<and> bu_pages b' = bu_pages b \<and> bu_free b' = bu_free b"
  using assms
proof (induction n arbitrary: at index b)
  case 0
  then show ?case
    by auto
next
  case (Suc n)
  from Suc.prems(4) obtain low where at: "at = Suc low"
    by (cases at) auto
  let ?b = "bset low (2 * index + 1) b"
  have halves: "inside b low (2 * index)" "inside b low (2 * index + 1)"
    using inside_half Suc.prems(2) at by blast+
  have apart: "block low (2 * index) \<inter> free_set b = {}" "block low (2 * index + 1) \<inter> free_set b = {}"
    using Suc.prems(3) unfolding at block_halves by blast+
  have low: "low \<le> MAX_ORDER"
    using halves(1) by (simp add: inside_def)
  have lone: "\<not> bget b low ((2 * index + 1) XOR 1)"
    using disjoint_not_set [OF low apart(1)] by (simp add: xor_one del: One_nat_def)
  have ok: "blocks_ok ?b"
    by (rule bset_blocks_ok [OF Suc.prems(1) halves(2) apart(2) lone])
  have set: "free_set ?b = free_set b \<union> block low (2 * index + 1)"
    by (rule free_set_bset [OF Suc.prems(1) halves(2)])
  have "split_down n low (2 * index) ?b = (index', b')"
    using Suc.prems(5) by (simp add: at mult.commute)
  moreover have "inside ?b low (2 * index)" "n \<le> low"
    using halves(1) Suc.prems(4) at by simp_all
  moreover have "block low (2 * index) \<inter> free_set ?b = {}"
    using apart(1) block_disjoint [of "2 * index" "2 * index + 1" low] unfolding set by auto
  ultimately have IH: "index' = 2 * index * 2 ^ n \<and> blocks_ok b' \<and>
      free_set b' = free_set ?b \<union> (block low (2 * index) - block (low - n) index') \<and>
      block (low - n) index' \<inter> free_set b' = {} \<and>
      bu_base b' = bu_base b \<and> bu_pages b' = bu_pages b \<and> bu_free b' = bu_free b"
    using Suc.IH [OF ok, of low "2 * index"] unfolding bset_simps by blast
  have "block (low - n) index' \<subseteq> block low (2 * index)"
    using block_within [of "low - n" low index'] IH Suc.prems(4) at by simp
  then have moved: "free_set b' = free_set b \<union> (block at index - block (low - n) index')"
    using IH set block_disjoint [of "2 * index" "2 * index + 1" low] unfolding at block_halves by auto
  have names: "index' = index * 2 ^ Suc n" "at - Suc n = low - n"
    using IH at by simp_all
  show ?case
    unfolding names(2) using IH moved names(1) by blast
qed

lemma merge_up_spec:
  assumes "blocks_ok b" "inside b at index" "block at index \<inter> free_set b = {}" "at + n = MAX_ORDER"
    and "merge_up n at index b = (at', index', b')"
  shows "blocks_ok b' \<and> inside b' at' index' \<and> block at' index' \<inter> free_set b' = {} \<and>
    (at' < MAX_ORDER \<longrightarrow> \<not> bget b' at' (index' XOR 1)) \<and>
    free_set b' \<union> block at' index' = free_set b \<union> block at index \<and>
    bu_base b' = bu_base b \<and> bu_pages b' = bu_pages b \<and> bu_free b' = bu_free b"
  using assms
proof (induction n arbitrary: at index b)
  case 0
  then show ?case
    by auto
next
  case (Suc n)
  let ?partner = "index XOR 1"
  let ?b = "bclear at ?partner b"
  have at: "at < MAX_ORDER"
    using Suc.prems(4) by simp
  show ?case
  proof (cases "bget b at ?partner")
    case False
    then show ?thesis
      using Suc.prems by (auto simp: Let_def simp del: One_nat_def)
  next
    case True
    have "index \<in> {2 * (index div 2), 2 * (index div 2) + 1}" "?partner \<in> {2 * (index div 2), 2 * (index div 2) + 1}"
      using xor_one_halves [of index] by blast+
    moreover have "inside b at ?partner"
      using ok_inside [OF Suc.prems(1) _ True] at by simp
    ultimately have "inside b at (2 * (index div 2) + 1)"
      using Suc.prems(2) xor_one_neq [of index] by (metis insertE singletonD)
    then have pair: "inside b (Suc at) (index div 2)"
      using at by (simp add: inside_def algebra_simps)
    have ok: "blocks_ok ?b" and set: "free_set ?b = free_set b - block at ?partner"
      using bclear_blocks_ok [OF Suc.prems(1) _ True] free_set_bclear [OF Suc.prems(1) _ True] at by simp_all
    have "block (Suc at) (index div 2) \<inter> free_set ?b = {}"
      using Suc.prems(3) unfolding set block_partner by auto
    moreover have "merge_up n (Suc at) (index div 2) ?b = (at', index', b')"
      using Suc.prems(5) True pair by (simp add: Let_def inside_def algebra_simps)
    ultimately have "blocks_ok b' \<and> inside b' at' index' \<and> block at' index' \<inter> free_set b' = {} \<and>
      (at' < MAX_ORDER \<longrightarrow> \<not> bget b' at' (index' XOR 1)) \<and>
      free_set b' \<union> block at' index' = free_set ?b \<union> block (Suc at) (index div 2) \<and>
      bu_base b' = bu_base b \<and> bu_pages b' = bu_pages b \<and> bu_free b' = bu_free b"
      using Suc.IH [OF ok, of "Suc at" "index div 2"] pair Suc.prems(4) by simp
    moreover have "free_set ?b \<union> block (Suc at) (index div 2) = free_set b \<union> block at index"
      using free_set_block [OF _ True] at unfolding set block_partner by auto
    ultimately show ?thesis
      by simp
  qed
qed

section \<open>Asking whether a block is free\<close>

lemma block_touches_free_iff:
  assumes ok: "bits_ok b" and order: "order \<le> MAX_ORDER"
  shows "block_touches_free b (index * 2 ^ order) order \<longleftrightarrow> block order index \<inter> free_set b \<noteq> {}"
proof -
  let ?page = "index * 2 ^ order"
  have above: "p div 2 ^ at = ?page div 2 ^ at" if "p \<in> block order index" "order \<le> at" for p at
    using that by (simp add: block_def div_power_le)
  have page: "?page \<in> block order index"
    by (simp add: block_def)
  have start: "?page div 2 ^ at = index * 2 ^ (order - at)" if "at < order" for at
    using that by (metis div_mult_self_is_m le_add_diff_inverse2 less_imp_le_nat mult.assoc power_add zero_less_numeral zero_less_power)
  have below: "p div 2 ^ order = index \<longleftrightarrow>
      index * 2 ^ (order - at) \<le> p div 2 ^ at \<and> p div 2 ^ at < index * 2 ^ (order - at) + 2 ^ (order - at)"
    if "at < order" for p at
  proof -
    have "p div 2 ^ order = index \<longleftrightarrow> p div 2 ^ at \<in> block (order - at) index"
      using that by (simp add: block_def div_power_le [of at order])
    then show ?thesis
      by (simp add: block_interval algebra_simps)
  qed
  have "block_touches_free b ?page order \<longleftrightarrow>
      (\<exists>at. order \<le> at \<and> at \<le> MAX_ORDER \<and> bget b at (?page div 2 ^ at)) \<or>
      (\<exists>at < order. \<exists>i. index * 2 ^ (order - at) \<le> i \<and> i < index * 2 ^ (order - at) + 2 ^ (order - at) \<and> bget b at i)"
    unfolding block_touches_free_def list_ex_iff using order start any_bit_in_range_iff [OF ok]
    by (auto simp: atLeastLessThanSuc_atLeastAtMost simp del: upt_Suc)
  also have "\<dots> \<longleftrightarrow> (\<exists>p \<in> block order index. \<exists>at \<le> MAX_ORDER. bget b at (p div 2 ^ at))"
  proof
    assume "\<exists>p \<in> block order index. \<exists>at \<le> MAX_ORDER. bget b at (p div 2 ^ at)"
    then obtain p at where p: "p \<in> block order index" "at \<le> MAX_ORDER" "bget b at (p div 2 ^ at)"
      by blast
    show "(\<exists>at. order \<le> at \<and> at \<le> MAX_ORDER \<and> bget b at (?page div 2 ^ at)) \<or>
      (\<exists>at < order. \<exists>i. index * 2 ^ (order - at) \<le> i \<and> i < index * 2 ^ (order - at) + 2 ^ (order - at) \<and> bget b at i)"
    proof (cases "order \<le> at")
      case True
      then show ?thesis
        using p above [OF p(1) True] by auto
    next
      case False
      then show ?thesis
        using p below [of at p] by (auto simp: block_def)
    qed
  next
    assume "(\<exists>at. order \<le> at \<and> at \<le> MAX_ORDER \<and> bget b at (?page div 2 ^ at)) \<or>
      (\<exists>at < order. \<exists>i. index * 2 ^ (order - at) \<le> i \<and> i < index * 2 ^ (order - at) + 2 ^ (order - at) \<and> bget b at i)"
    then show "\<exists>p \<in> block order index. \<exists>at \<le> MAX_ORDER. bget b at (p div 2 ^ at)"
    proof
      assume "\<exists>at. order \<le> at \<and> at \<le> MAX_ORDER \<and> bget b at (?page div 2 ^ at)"
      then show ?thesis
        using page by blast
    next
      assume "\<exists>at < order. \<exists>i. index * 2 ^ (order - at) \<le> i \<and> i < index * 2 ^ (order - at) + 2 ^ (order - at) \<and> bget b at i"
      then obtain at i where i: "at < order" "index * 2 ^ (order - at) \<le> i" "i < index * 2 ^ (order - at) + 2 ^ (order - at)"
        "bget b at i"
        by blast
      have "i * 2 ^ at \<in> block order index"
        using below [OF i(1), of "i * 2 ^ at"] i by (simp add: block_def)
      with i order show ?thesis
        by (intro bexI [of _ "i * 2 ^ at"] exI [of _ at]) simp_all
    qed
  qed
  finally show ?thesis
    by (auto simp: free_set_def)
qed

end
