(* ===== verification/Buddy_Ops.thy ===== *)
theory Buddy_Ops
  imports Buddy_Blocks
begin

text \<open>
  The public operations of the buddy allocator against the set of free pages. \<open>buddy_ok\<close> is the
  invariant of the type: the blocks are in order, \<open>free_pages\<close> counts the free set and the extent
  fits the address space. Each operation keeps it, and moves the free set by exactly the pages it
  answers for.
\<close>

definition buddy_ok :: "buddy \<Rightarrow> bool" where
  "buddy_ok b \<longleftrightarrow> blocks_ok b \<and> bu_free b = card (free_set b) \<and>
     bu_base b mod PAGE_SIZE = 0 \<and> bu_base b + bu_pages b * PAGE_SIZE \<le> U64_MAX"

definition address :: "buddy \<Rightarrow> nat \<Rightarrow> nat" where
  "address b page = bu_base b + page * PAGE_SIZE"

lemma buddy_blocks: "buddy_ok b \<Longrightarrow> blocks_ok b"
  by (simp add: buddy_ok_def)

lemma buddy_count: "buddy_ok b \<Longrightarrow> bu_free b = card (free_set b)"
  by (simp add: buddy_ok_def)

lemma page_size_pos [simp]: "0 < PAGE_SIZE" "PAGE_SIZE \<noteq> 0"
  by (simp_all add: PAGE_SIZE_def)

lemma buddy_pages_bound: "buddy_ok b \<Longrightarrow> bu_pages b < 2 ^ 64"
  by (simp add: buddy_ok_def PAGE_SIZE_def U64_MAX_def)

section \<open>Every run of free pages is found\<close>

lemma free_block_covered:
  assumes ok: "blocks_ok b"
  shows "order \<le> MAX_ORDER \<Longrightarrow> block order index \<subseteq> free_set b \<Longrightarrow>
    \<exists>at. order \<le> at \<and> at \<le> MAX_ORDER \<and> bget b at (index div 2 ^ (at - order))"
proof (induction order arbitrary: index)
  case 0
  then have "index \<in> free_set b"
    using block_start [of index 0] by auto
  then show ?case
    by (auto simp: free_set_def)
next
  case (Suc order)
  have halves: "block order (2 * index) \<subseteq> free_set b" "block order (2 * index + 1) \<subseteq> free_set b"
    using Suc.prems(2) unfolding block_halves by blast+
  have order: "order \<le> MAX_ORDER"
    using Suc.prems(1) by simp
  obtain o1 where o1: "order \<le> o1" "o1 \<le> MAX_ORDER" "bget b o1 (2 * index div 2 ^ (o1 - order))"
    using Suc.IH [OF order halves(1)] by blast
  obtain o2 where o2: "order \<le> o2" "o2 \<le> MAX_ORDER" "bget b o2 ((2 * index + 1) div 2 ^ (o2 - order))"
    using Suc.IH [OF order halves(2)] by blast
  have up: "(2 * index) div 2 ^ (at - order) = index div 2 ^ (at - Suc order)"
    "(2 * index + 1) div 2 ^ (at - order) = index div 2 ^ (at - Suc order)" if "Suc order \<le> at" for at
  proof -
    have "at - order = Suc (at - Suc order)"
      using that by simp
    then show "(2 * index) div 2 ^ (at - order) = index div 2 ^ (at - Suc order)"
      "(2 * index + 1) div 2 ^ (at - order) = index div 2 ^ (at - Suc order)"
      by (simp_all add: div_mult2_eq)
  qed
  show ?case
  proof (cases "o1 = order \<and> o2 = order")
    case True
    then have "bget b order (2 * index)" "bget b order ((2 * index) XOR 1)"
      using o1 o2 by (simp_all add: xor_one del: One_nat_def)
    then show ?thesis
      using ok_merged [OF ok] Suc.prems(1) by (meson Suc_le_lessD)
  next
    case False
    then have "Suc order \<le> o1 \<or> Suc order \<le> o2"
      using o1(1) o2(1) by linarith
    then show ?thesis
      using up o1 o2 by metis
  qed
qed

section \<open>alloc\<close>

lemma find_larger_spec:
  assumes "blocks_ok b" "larger + n = Suc MAX_ORDER" "find_larger n larger b = (r, b')"
  shows "blocks_ok b' \<and> bget b' = bget b \<and> bu_base b' = bu_base b \<and> bu_pages b' = bu_pages b \<and> bu_free b' = bu_free b \<and>
    (case r of
       None \<Rightarrow> \<forall>at i. larger \<le> at \<longrightarrow> at \<le> MAX_ORDER \<longrightarrow> \<not> bget b at i
     | Some (at, i) \<Rightarrow> larger \<le> at \<and> at \<le> MAX_ORDER \<and> bget b at i)"
  using assms
proof (induction n arbitrary: larger b)
  case 0
  then show ?case
    by auto
next
  case (Suc n)
  obtain r1 b1 where first: "first_free larger b = (r1, b1)"
    by fastforce
  have larger: "larger \<le> MAX_ORDER"
    using Suc.prems(2) by simp
  note same = first_free_same [OF first]
  note bits = first_free_ok [OF ok_bits [OF Suc.prems(1)] larger first]
  have ok1: "blocks_ok b1"
    using Suc.prems(1) bits(1) same unfolding blocks_ok_def inside_def by simp
  show ?case
  proof (cases r1)
    case None
    then have "find_larger n (larger + 1) b1 = (r, b')"
      using Suc.prems(3) first by simp
    from Suc.IH [OF ok1 _ this] Suc.prems(2)
    have IH: "blocks_ok b'" "bget b' = bget b" "bu_base b' = bu_base b" "bu_pages b' = bu_pages b" "bu_free b' = bu_free b"
      "case r of None \<Rightarrow> \<forall>at i. larger + 1 \<le> at \<longrightarrow> at \<le> MAX_ORDER \<longrightarrow> \<not> bget b at i
       | Some (at, i) \<Rightarrow> larger + 1 \<le> at \<and> at \<le> MAX_ORDER \<and> bget b at i"
      unfolding same by simp_all
    moreover have "\<not> bget b larger i" for i
      using bits(2) None by (simp add: least_block_def)
    ultimately show ?thesis
      by (auto split: option.splits) (metis le_antisym not_less_eq_eq)
  next
    case (Some i)
    then show ?thesis
      using Suc.prems(3) first ok1 same bits(2) larger by (auto simp: least_block_def)
  qed
qed

lemma take_block_spec:
  assumes ok: "buddy_ok b" and at: "order \<le> at" "at \<le> MAX_ORDER" "bget b at index"
    and took: "take_block order at index b = (phys, b')"
  shows "phys = address b (index * 2 ^ at) \<and> inside b order (index * 2 ^ (at - order)) \<and> buddy_ok b' \<and>
    block order (index * 2 ^ (at - order)) \<subseteq> free_set b \<and>
    free_set b' = free_set b - block order (index * 2 ^ (at - order)) \<and>
    bu_base b' = bu_base b \<and> bu_pages b' = bu_pages b"
proof -
  let ?b = "bclear at index b"
  note okb = buddy_blocks [OF ok]
  have ins: "inside b at index"
    by (rule ok_inside [OF okb at(2,3)])
  have set: "free_set ?b = free_set b - block at index"
    by (rule free_set_bclear [OF okb at(2,3)])
  obtain i b1 where split: "split_down (at - order) at index ?b = (i, b1)"
    by fastforce
  have S: "i = index * 2 ^ (at - order)" "blocks_ok b1"
    "free_set b1 = free_set ?b \<union> (block at index - block order i)"
    "bu_base b1 = bu_base b" "bu_pages b1 = bu_pages b" "bu_free b1 = bu_free b"
    using split_down_spec [OF bclear_blocks_ok [OF okb at(2,3)] _ _ _ split] ins at(1) unfolding set by auto
  have b': "phys = bu_base b1 + i * 2 ^ order * PAGE_SIZE" "b' = b1\<lparr>bu_free := bu_free b1 - 2 ^ order\<rparr>"
    using took split by (simp_all add: take_block_def)
  have sub: "block order i \<subseteq> block at index"
    using block_within [OF at(1), of i] S(1) by simp
  have inb: "block at index \<subseteq> free_set b"
    by (rule free_set_block [OF at(2,3)])
  have moved: "free_set b1 = free_set b - block order i"
    using S(3) set sub inb by auto
  have count: "card (free_set b1) = bu_free b - 2 ^ order"
    unfolding moved using buddy_count [OF ok] sub inb by (subst card_Diff_subset) auto
  have "i * 2 ^ order = index * 2 ^ at"
    unfolding S(1) using at(1) by (simp add: power_add [symmetric])
  moreover have "inside b order i"
  proof -
    have "(i + 1) * 2 ^ order \<le> (index + 1) * 2 ^ at"
      using calculation at(1) by (simp add: power_increasing)
    with ins at show ?thesis
      by (simp add: inside_def)
  qed
  moreover have "buddy_ok b'"
    using ok S count unfolding buddy_ok_def b' by simp
  ultimately show ?thesis
    using b' S moved sub inb unfolding address_def by auto
qed

lemma alloc_spec:
  assumes ok: "buddy_ok b" and alloc: "buddy_alloc order b = (r, b')"
  shows "buddy_ok b' \<and> bu_base b' = bu_base b \<and> bu_pages b' = bu_pages b \<and>
    (case r of
       None \<Rightarrow> bget b' = bget b \<and> (MAX_ORDER < order \<or> (\<forall>i. \<not> block order i \<subseteq> free_set b))
     | Some phys \<Rightarrow> \<exists>i. phys = address b (i * 2 ^ order) \<and> inside b order i \<and>
         block order i \<subseteq> free_set b \<and> free_set b' = free_set b - block order i)"
proof (cases "MAX_ORDER < order")
  case True
  then show ?thesis
    using ok alloc by (auto simp: buddy_alloc_def)
next
  case False
  obtain r1 b1 where find: "find_larger (Suc MAX_ORDER - order) order b = (r1, b1)"
    by fastforce
  have F: "blocks_ok b1" "bget b1 = bget b" "bu_base b1 = bu_base b" "bu_pages b1 = bu_pages b" "bu_free b1 = bu_free b"
    "case r1 of None \<Rightarrow> \<forall>at i. order \<le> at \<longrightarrow> at \<le> MAX_ORDER \<longrightarrow> \<not> bget b at i
     | Some (at, i) \<Rightarrow> order \<le> at \<and> at \<le> MAX_ORDER \<and> bget b at i"
    using find_larger_spec [OF buddy_blocks [OF ok] _ find] False by simp_all
  have set1: "free_set b1 = free_set b"
    by (rule free_set_cong [OF F(2)])
  have ok1: "buddy_ok b1"
    using ok F unfolding buddy_ok_def set1 by simp
  show ?thesis
  proof (cases r1)
    case None
    then have "r = None" "b' = b1"
      using alloc False find by (simp_all add: buddy_alloc_def)
    moreover have "\<not> block order i \<subseteq> free_set b" for i
      using free_block_covered [OF buddy_blocks [OF ok], of order i] F(6) False None by auto
    ultimately show ?thesis
      using F ok1 by simp
  next
    case (Some ai)
    then obtain at i where at: "r1 = Some (at, i)" "order \<le> at" "at \<le> MAX_ORDER" "bget b1 at i"
      using F(2,6) by (cases ai) auto
    obtain phys b2 where took: "take_block order at i b1 = (phys, b2)"
      by fastforce
    have r: "r = Some phys" "b' = b2"
      using alloc False find at(1) took by (simp_all add: buddy_alloc_def)
    have "i * 2 ^ (at - order) * 2 ^ order = i * 2 ^ at"
      using at(2) by (simp add: power_add [symmetric])
    then show ?thesis
      using take_block_spec [OF ok1 at(2-4) took] F(3,4) unfolding r set1 address_def inside_def
      by (auto intro!: exI [of _ "i * 2 ^ (at - order)"])
  qed
qed

section \<open>free\<close>

text \<open>The blocks a caller may give back: aligned, in the extent, and free nowhere.\<close>

definition freeable :: "buddy \<Rightarrow> nat \<Rightarrow> nat \<Rightarrow> nat \<Rightarrow> bool" where
  "freeable b phys order index \<longleftrightarrow>
     phys = address b (index * 2 ^ order) \<and> inside b order index \<and> block order index \<inter> free_set b = {}"

lemma address_page: "(address b page - bu_base b) div PAGE_SIZE = page" "(address b page - bu_base b) mod PAGE_SIZE = 0"
  "bu_base b \<le> address b page" "\<not> address b page < bu_base b"
  by (simp_all add: address_def)

lemma merge_set_spec:
  assumes ok: "buddy_ok b" and ins: "inside b order index" and apart: "block order index \<inter> free_set b = {}"
    and merge: "merge_up (MAX_ORDER - order) order index b = (at, i, b1)"
  defines "b' \<equiv> (bset at i b1)\<lparr>bu_free := bu_free (bset at i b1) + 2 ^ order\<rparr>"
  shows "buddy_ok b' \<and> free_set b' = free_set b \<union> block order index \<and> bu_base b' = bu_base b \<and> bu_pages b' = bu_pages b"
proof -
  have "order + (MAX_ORDER - order) = MAX_ORDER"
    using ins by (simp add: inside_def)
  from merge_up_spec [OF buddy_blocks [OF ok] ins apart this merge]
  have M: "blocks_ok b1" "inside b1 at i" "block at i \<inter> free_set b1 = {}" "at < MAX_ORDER \<Longrightarrow> \<not> bget b1 at (i XOR 1)"
    "free_set b1 \<union> block at i = free_set b \<union> block order index"
    "bu_base b1 = bu_base b" "bu_pages b1 = bu_pages b" "bu_free b1 = bu_free b"
    by blast+
  have ok2: "blocks_ok (bset at i b1)"
    by (rule bset_blocks_ok [OF M(1-4)])
  have set: "free_set b' = free_set b \<union> block order index"
    unfolding b'_def using free_set_bset [OF M(1,2)] M(5) by simp
  have "card (free_set b') = card (free_set b) + 2 ^ order"
    unfolding set using apart finite_free_set [OF buddy_blocks [OF ok]] by (simp add: card_Un_disjoint Int_commute)
  then show ?thesis
    using ok ok2 set M(6-8) unfolding buddy_ok_def b'_def by simp
qed

lemma free_inner_refuses:
  assumes "\<And>index. phys = address b (index * 2 ^ order) \<Longrightarrow> inside b order index \<Longrightarrow>
      refuse_double \<and> block order index \<inter> free_set b \<noteq> {}" and ok: "bits_ok b"
  shows "free_inner phys order refuse_double b = (False, b)"
proof -
  let ?page = "(phys - bu_base b) div PAGE_SIZE"
  let ?index = "?page div 2 ^ order"
  show ?thesis
  proof (cases "order \<le> MAX_ORDER \<and> bu_base b \<le> phys \<and> (phys - bu_base b) mod PAGE_SIZE = 0 \<and>
      ?page mod 2 ^ order = 0 \<and> ?page + 2 ^ order \<le> bu_pages b")
    case True
    then have page: "?page = ?index * 2 ^ order" "phys = address b ?page"
      by (auto simp: address_def dvd_eq_mod_eq_0 [symmetric])
    then have "inside b order ?index"
      using True by (simp add: inside_def algebra_simps)
    with assms(1) page have "refuse_double \<and> block order ?index \<inter> free_set b \<noteq> {}"
      by metis
    then have "refuse_double \<and> block_touches_free b ?page order"
      using block_touches_free_iff [OF ok, of order ?index] page(1) True by simp
    then show ?thesis
      by (simp add: free_inner_def Let_def)
  next
    case False
    then show ?thesis
      by (auto simp: free_inner_def Let_def)
  qed
qed

lemma free_inner_takes:
  assumes ok: "buddy_ok b" and able: "freeable b phys order index"
  shows "\<exists>b'. free_inner phys order d b = (True, b') \<and> buddy_ok b' \<and> free_set b' = free_set b \<union> block order index \<and>
    bu_base b' = bu_base b \<and> bu_pages b' = bu_pages b"
proof -
  have able: "phys = address b (index * 2 ^ order)" "inside b order index" "block order index \<inter> free_set b = {}"
    using able by (auto simp: freeable_def)
  obtain at i b1 where merge: "merge_up (MAX_ORDER - order) order index b = (at, i, b1)"
    using prod_cases3 by blast
  have ins: "order \<le> MAX_ORDER" "index * 2 ^ order + 2 ^ order \<le> bu_pages b"
    using able(2) by (simp_all add: inside_def algebra_simps)
  have less: "index * 2 ^ order < bu_pages b"
    using ins(2) zero_less_power [of "2 :: nat" order] by linarith
  have "\<not> block_touches_free b (index * 2 ^ order) order"
    using block_touches_free_iff [OF ok_bits [OF buddy_blocks [OF ok]] ins(1)] able(3) by simp
  then have "free_inner phys order d b =
      (True, (bset at i b1)\<lparr>bu_free := bu_free (bset at i b1) + 2 ^ order\<rparr>)"
    unfolding able(1) using merge ins less by (simp add: free_inner_def Let_def address_page)
  with merge_set_spec [OF ok able(2,3) merge] show ?thesis
    by blast
qed

lemma free_spec:
  assumes ok: "buddy_ok b"
  obtains (taken) index b' where "freeable b phys order index" "buddy_free phys order b = (True, b')" "buddy_ok b'"
      "free_set b' = free_set b \<union> block order index" "bu_base b' = bu_base b" "bu_pages b' = bu_pages b"
    | (refused) "\<And>index. \<not> freeable b phys order index" "buddy_free phys order b = (False, b)"
proof (cases "\<exists>index. freeable b phys order index")
  case True
  then show ?thesis
    using free_inner_takes [OF ok, of phys order _ True] taken unfolding buddy_free_def by blast
next
  case False
  then have "buddy_free phys order b = (False, b)"
    unfolding buddy_free_def
    by (intro free_inner_refuses ok_bits buddy_blocks ok) (auto simp: freeable_def)
  with False show ?thesis
    using refused by blast
qed

section \<open>free_span\<close>

lemma address_halves: "address b (page * 2 ^ Suc half) = address b (2 * page * 2 ^ half)"
  "address b (page * 2 ^ Suc half) + 2 ^ half * PAGE_SIZE = address b ((2 * page + 1) * 2 ^ half)"
  by (simp_all add: address_def algebra_simps)

lemma free_block_or_split_spec:
  assumes "buddy_ok b" "inside b order index" "free_block_or_split (address b (index * 2 ^ order)) order b = (n, b')"
  shows "buddy_ok b' \<and> free_set b' = free_set b \<union> block order index \<and> n = card (block order index - free_set b) \<and>
    bu_base b' = bu_base b \<and> bu_pages b' = bu_pages b"
  using assms
proof (induction order arbitrary: index b n b')
  case 0
  have same: "freeable b (address b index) 0 i \<longleftrightarrow> i = index \<and> index \<notin> free_set b" for i
    using 0(2) by (auto simp: freeable_def address_def block_def)
  have one: "block 0 index = {index}"
    by (auto simp: block_def)
  show ?case
  proof (cases rule: free_spec [OF 0(1), of "address b index" 0, case_names taken refused])
    case (taken i b1)
    then have "i = index" "index \<notin> free_set b"
      using same by blast+
    moreover have "{index} - free_set b = {index}"
      using calculation(2) by auto
    ultimately show ?thesis
      using taken 0(3) by (auto simp: one)
  next
    case refused
    then have "index \<in> free_set b"
      using same by blast
    with refused 0(1,3) show ?thesis
      by (auto simp: one)
  qed
next
  case (Suc half)
  let ?phys = "address b (index * 2 ^ Suc half)"
  show ?case
  proof (cases rule: free_spec [OF Suc.prems(1), of ?phys "Suc half", case_names taken refused])
    case (taken i b1)
    then have "i = index"
      by (simp add: freeable_def address_def)
    moreover have "n = 2 ^ Suc half" "b' = b1"
      using Suc.prems(3) taken(2) by simp_all
    moreover have "block (Suc half) index - free_set b = block (Suc half) index"
      using taken(1) calculation(1) by (auto simp: freeable_def)
    ultimately show ?thesis
      using taken(3-6) by simp
  next
    case refused
    obtain n1 b1 where h1: "free_block_or_split (address b (2 * index * 2 ^ half)) half b = (n1, b1)"
      by fastforce
    obtain n2 b2 where h2: "free_block_or_split (address b ((2 * index + 1) * 2 ^ half)) half b1 = (n2, b2)"
      by fastforce
    have res: "n = n1 + n2" "b' = b2"
      using Suc.prems(3) refused(2) h1 h2 unfolding address_halves(2) [symmetric] address_halves(1) [symmetric]
      by (simp_all add: address_halves(2) [symmetric] del: power_Suc)
    have halves: "inside b half (2 * index)" "inside b half (2 * index + 1)"
      using inside_half [OF Suc.prems(2)] by blast+
    from Suc.IH [OF Suc.prems(1) halves(1) h1]
    have I1: "buddy_ok b1" "free_set b1 = free_set b \<union> block half (2 * index)"
      "n1 = card (block half (2 * index) - free_set b)" "bu_base b1 = bu_base b" "bu_pages b1 = bu_pages b"
      by blast+
    have "inside b1 half (2 * index + 1)" "address b1 = address b"
      using halves(2) I1(4,5) by (simp_all add: inside_def address_def fun_eq_iff)
    with Suc.IH [OF I1(1), of "2 * index + 1"] h2
    have I2: "buddy_ok b2" "free_set b2 = free_set b1 \<union> block half (2 * index + 1)"
      "n2 = card (block half (2 * index + 1) - free_set b1)" "bu_base b2 = bu_base b" "bu_pages b2 = bu_pages b"
      using I1(4,5) by metis+
    have "block half (2 * index + 1) - free_set b1 = block half (2 * index + 1) - free_set b"
      unfolding I1(2) using block_disjoint [of "2 * index" "2 * index + 1" half] by auto
    then have "n = card (block (Suc half) index - free_set b)"
      unfolding res I1(3) I2(3) block_halves Un_Diff
      using block_disjoint [of "2 * index" "2 * index + 1" half] by (subst card_Un_disjoint) auto
    then show ?thesis
      using I1 I2 res unfolding block_halves by auto
  qed
qed

section \<open>Framing a span\<close>

lemma bit_of_nat_word: "n < 64 \<Longrightarrow> bit (of_nat k :: u64) n \<longleftrightarrow> bit k n"
  by (simp add: bit_simps)

lemma bit_nat_le: "bit k n \<Longrightarrow> 2 ^ n \<le> k" for k :: nat
  by (metis bit_iff_odd div_less even_zero not_less)

lemma nat_bit_below: "0 < k \<Longrightarrow> k < 2 ^ 64 \<Longrightarrow> \<exists>n < 64. bit k n" for k :: nat
proof -
  assume k: "0 < k" "k < 2 ^ 64"
  obtain n where n: "bit k n"
    using k(1) by (metis bit_eqI bit_0_eq bot_apply bot_bool_def neq0_conv)
  have "(2 :: nat) ^ n < 2 ^ 64"
    using bit_nat_le [OF n] k(2) by linarith
  then have "n < 64"
    by (simp only: power_strict_increasing_iff)
  with n show ?thesis
    by blast
qed

lemma trailing_zeros_dvd: "2 ^ trailing_zeros (of_nat k) dvd k"
proof -
  have le: "trailing_zeros (of_nat k) \<le> 64"
    unfolding trailing_zeros_def by (rule takeWhile_upt(2))
  have "take_bit (trailing_zeros (of_nat k)) k = 0"
    by (rule bit_eqI) (use le trailing_zeros_below [of _ "of_nat k"] bit_of_nat_word in \<open>auto simp: bit_take_bit_iff\<close>)
  then show ?thesis
    by (simp add: take_bit_eq_mod mod_eq_0_iff_dvd)
qed

lemma leading_zeros_le:
  assumes "0 < k" "k < 2 ^ 64"
  shows "2 ^ (63 - leading_zeros (of_nat k)) \<le> k"
proof -
  let ?z = "leading_zeros (of_nat k)"
  obtain n where n: "n < 64" "bit k n"
    using nat_bit_below [OF assms] by blast
  have "?z < 64"
  proof (rule ccontr)
    assume "\<not> ?z < 64"
    then have "63 - n < ?z"
      using n(1) by linarith
    then have "\<not> bit (of_nat k :: u64) (63 - (63 - n))"
      unfolding leading_zeros_def by (drule_tac takeWhile_upt(1)) simp
    with n show False
      by (simp add: bit_of_nat_word)
  qed
  then have "bit (of_nat k :: u64) (63 - ?z)"
    unfolding leading_zeros_def using takeWhile_upt(3) [of "\<lambda>n. \<not> bit (of_nat k :: u64) (63 - n)" 64] by simp
  then show ?thesis
    by (simp add: bit_of_nat_word bit_nat_le)
qed

lemma span_order_fits:
  assumes "0 < left" "left < 2 ^ 64"
  shows "2 ^ span_order page left \<le> left" "2 ^ span_order page left dvd page" "span_order page left \<le> MAX_ORDER"
proof -
  have "(2 :: nat) ^ span_order page left \<le> 2 ^ (63 - leading_zeros (of_nat left))"
    by (simp add: span_order_def Let_def)
  with leading_zeros_le [OF assms] show "2 ^ span_order page left \<le> left"
    by linarith
  show "2 ^ span_order page left dvd page"
  proof (cases "page = 0")
    case False
    then have "(2 :: nat) ^ span_order page left dvd 2 ^ trailing_zeros (of_nat page)"
      by (simp add: span_order_def Let_def le_imp_power_dvd)
    then show ?thesis
      using trailing_zeros_dvd dvd_trans by blast
  qed simp
  show "span_order page left \<le> MAX_ORDER"
    by (simp add: span_order_def Let_def)
qed

lemma free_span_loop_spec:
  assumes "buddy_ok b" "page + left \<le> bu_pages b" "free_span_loop left (address b page) total_so_far b = (n, b')"
  shows "buddy_ok b' \<and> free_set b' = free_set b \<union> {page ..< page + left} \<and>
    n = total_so_far + card ({page ..< page + left} - free_set b) \<and> bu_base b' = bu_base b \<and> bu_pages b' = bu_pages b"
  using assms
proof (induction left arbitrary: page total_so_far b rule: less_induct)
  case (less left)
  show ?case
  proof (cases "left = 0")
    case True
    then show ?thesis
      using less.prems by (simp add: free_span_loop.simps [of 0])
  next
    case False
    let ?order = "span_order page left"
    let ?taken = "2 ^ ?order :: nat"
    have left: "left < 2 ^ 64"
      using less.prems(2) buddy_pages_bound [OF less.prems(1)] by linarith
    note fits = span_order_fits [OF _ left, of page]
    obtain index where page: "page = index * ?taken"
      using fits(2) False by (metis dvd_def mult.commute neq0_conv)
    have ins: "inside b ?order index"
      using fits False less.prems(2) page by (simp add: inside_def algebra_simps)
    obtain m b1 where step: "free_block_or_split (address b page) ?order b = (m, b1)"
      by fastforce
    have "block ?order index = {page ..< page + ?taken}"
      using page by (simp add: block_interval algebra_simps)
    with free_block_or_split_spec [OF less.prems(1) ins] step page
    have S: "buddy_ok b1" "free_set b1 = free_set b \<union> {page ..< page + ?taken}"
      "m = card ({page ..< page + ?taken} - free_set b)" "bu_base b1 = bu_base b" "bu_pages b1 = bu_pages b"
      by auto
    have loop: "free_span_loop (left - ?taken) (address b1 (page + ?taken)) (total_so_far + m) b1 = (n, b')"
      using less.prems(3) False step S(4)
      by (simp add: free_span_loop.simps [of left] Let_def address_page address_def algebra_simps)
    have "left - ?taken < left" "page + ?taken + (left - ?taken) \<le> bu_pages b1"
      using fits(1) False less.prems(2) S(5) by simp_all
    from less.IH [OF this(1) S(1) this(2) loop]
    have IH: "buddy_ok b'" "free_set b' = free_set b1 \<union> {page + ?taken ..< page + left}"
      "n = total_so_far + m + card ({page + ?taken ..< page + left} - free_set b1)" "bu_base b' = bu_base b" "bu_pages b' = bu_pages b"
      using fits(1) False S(4,5) by (simp_all add: add.assoc)
    have span: "{page ..< page + left} = {page ..< page + ?taken} \<union> {page + ?taken ..< page + left}"
      using fits(1) False by auto
    have "{page + ?taken ..< page + left} - free_set b1 = {page + ?taken ..< page + left} - free_set b"
      unfolding S(2) by auto
    then have "n = total_so_far + card ({page ..< page + left} - free_set b)"
      unfolding IH(3) S(3) span Un_Diff by (subst card_Un_disjoint) auto
    then show ?thesis
      using IH S(2) span by auto
  qed
qed

lemma free_span_spec:
  assumes ok: "buddy_ok b" and page: "page < bu_pages b" and span: "free_span (address b page) pages b = (n, b')"
  defines "pool \<equiv> {page ..< page + min pages (bu_pages b - page)}"
  shows "buddy_ok b'" "free_set b' = free_set b \<union> pool" "n = card (pool - free_set b)"
    "bu_base b' = bu_base b" "bu_pages b' = bu_pages b"
proof -
  have "free_span_loop (min pages (bu_pages b - page)) (address b page) 0 b = (n, b')"
    using span page by (simp add: free_span_def address_page Let_def)
  from free_span_loop_spec [OF ok _ this] page
  show "buddy_ok b'" "free_set b' = free_set b \<union> pool" "n = card (pool - free_set b)"
    "bu_base b' = bu_base b" "bu_pages b' = bu_pages b"
    by (simp_all add: pool_def)
qed

end
