(* ===== verification/Buddy_Requests.thy ===== *)
theory Buddy_Requests
  imports Buddy_Ops
begin

text \<open>
  Requests for a number of pages rather than a power of two, the questions the frame allocator asks
  of the buddy, the walk over every free block, and construction.
\<close>

section \<open>The order of a request\<close>

lemma order_from_spec:
  assumes "\<forall>o' < order. 2 ^ o' < pages"
  shows "(\<forall>o' < order_from n order pages. 2 ^ o' < pages) \<and> order_from n order pages \<le> order + n \<and>
    (order_from n order pages < order + n \<longrightarrow> pages \<le> 2 ^ order_from n order pages)"
  using assms
proof (induction n arbitrary: order)
  case (Suc n)
  show ?case
  proof (cases "2 ^ order < pages")
    case True
    then have "\<forall>o' < order + 1. 2 ^ o' < pages"
      using Suc.prems less_Suc_eq by auto
    from Suc.IH [OF this] True show ?thesis
      by simp
  next
    case False
    then show ?thesis
      using Suc.prems by simp
  qed
qed simp

lemma order_for_least: "o' < order_for pages \<Longrightarrow> 2 ^ o' < pages"
  using order_from_spec [of 0 pages "MAX_ORDER + 1"] by (simp add: order_for_def)

lemma order_for_holds: "order_for pages \<le> MAX_ORDER \<Longrightarrow> pages \<le> 2 ^ order_for pages"
  using order_from_spec [of 0 pages "MAX_ORDER + 1"] by (simp add: order_for_def)

section \<open>A run of pages\<close>

definition run :: "nat \<Rightarrow> nat \<Rightarrow> nat set" where
  "run first pages = {first ..< first + pages}"

lemma hand_back_spec:
  assumes ok: "buddy_ok b" and fits: "pages \<le> 2 ^ order" and ins: "inside b order i"
    and taken: "block order i \<inter> free_set b = {}" and pos: "0 < pages"
  defines "b' \<equiv> hand_back (address b (i * 2 ^ order)) order pages b"
  shows "buddy_ok b' \<and> free_set b' = free_set b \<union> (block order i - run (i * 2 ^ order) pages) \<and>
    bu_base b' = bu_base b \<and> bu_pages b' = bu_pages b"
proof (cases "pages < 2 ^ order")
  case True
  let ?first = "i * 2 ^ order + pages"
  have stop: "i * 2 ^ order + 2 ^ order \<le> bu_pages b"
    using ins by (simp add: inside_def algebra_simps)
  obtain n b1 where span: "free_span (address b ?first) (2 ^ order - pages) b = (n, b1)"
    by fastforce
  have b': "b' = b1"
    using True span unfolding b'_def hand_back_def by (simp add: address_def algebra_simps)
  have "min (2 ^ order - pages) (bu_pages b - ?first) = 2 ^ order - pages"
    using stop True by simp
  moreover have "{?first ..< ?first + (2 ^ order - pages)} = block order i - run (i * 2 ^ order) pages"
    using True by (auto simp: block_interval run_def algebra_simps)
  ultimately show ?thesis
    using free_span_spec [OF ok _ span] stop True unfolding b' by simp
next
  case False
  then have "pages = 2 ^ order"
    using fits by simp
  then have "block order i - run (i * 2 ^ order) pages = {}"
    by (simp add: block_interval run_def algebra_simps)
  with False ok show ?thesis
    unfolding b'_def hand_back_def by auto
qed

lemma run_in_block: "pages \<le> 2 ^ order \<Longrightarrow> run (i * 2 ^ order) pages \<subseteq> block order i"
  by (auto simp: block_interval run_def algebra_simps)

text \<open>The block taken and its tail handed back leaves exactly the run taken.\<close>

lemma taken_run:
  assumes ok: "buddy_ok b1" and ins: "inside b order i" and sub: "block order i \<subseteq> free_set b"
    and gone: "free_set b1 = free_set b - block order i" and same: "bu_base b1 = bu_base b" "bu_pages b1 = bu_pages b"
    and fits: "0 < pages" "pages \<le> 2 ^ order"
  defines "b' \<equiv> hand_back (address b (i * 2 ^ order)) order pages b1"
  shows "buddy_ok b' \<and> run (i * 2 ^ order) pages \<subseteq> free_set b \<and> free_set b' = free_set b - run (i * 2 ^ order) pages \<and>
    bu_base b' = bu_base b \<and> bu_pages b' = bu_pages b"
proof -
  have "address b1 = address b" "inside b1 order i" "block order i \<inter> free_set b1 = {}"
    using same ins gone by (auto simp: address_def inside_def fun_eq_iff)
  with hand_back_spec [OF ok fits(2) _ _ fits(1)]
  have H: "buddy_ok b'" "free_set b' = free_set b1 \<union> (block order i - run (i * 2 ^ order) pages)"
    "bu_base b' = bu_base b" "bu_pages b' = bu_pages b"
    using same unfolding b'_def by metis+
  then show ?thesis
    using gone sub run_in_block [OF fits(2), of i] by auto
qed

lemma alloc_contiguous_spec:
  assumes ok: "buddy_ok b" and alloc: "alloc_contiguous pages b = (r, b')"
  shows "buddy_ok b' \<and> bu_base b' = bu_base b \<and> bu_pages b' = bu_pages b \<and>
    (case r of
       None \<Rightarrow> bget b' = bget b \<and>
         (pages = 0 \<or> MAX_ORDER < order_for pages \<or> (\<forall>i. \<not> block (order_for pages) i \<subseteq> free_set b))
     | Some phys \<Rightarrow> \<exists>i. phys = address b (i * 2 ^ order_for pages) \<and>
         run (i * 2 ^ order_for pages) pages \<subseteq> free_set b \<and>
         free_set b' = free_set b - run (i * 2 ^ order_for pages) pages)"
proof (cases "pages = 0 \<or> MAX_ORDER < order_for pages")
  case True
  then show ?thesis
    using ok alloc by (auto simp: alloc_contiguous_def Let_def split: if_splits)
next
  case False
  let ?order = "order_for pages"
  obtain r1 b1 where first: "buddy_alloc ?order b = (r1, b1)"
    by fastforce
  note spec = alloc_spec [OF ok first]
  show ?thesis
  proof (cases r1)
    case None
    then show ?thesis
      using spec alloc first False by (auto simp: alloc_contiguous_def Let_def)
  next
    case (Some phys)
    then obtain i where i: "phys = address b (i * 2 ^ ?order)" "inside b ?order i" "block ?order i \<subseteq> free_set b"
      "free_set b1 = free_set b - block ?order i"
      using spec by auto
    have "r = Some phys" "b' = hand_back (address b (i * 2 ^ ?order)) ?order pages b1"
      using alloc first False Some i(1) by (auto simp: alloc_contiguous_def Let_def)
    then show ?thesis
      using taken_run [OF _ i(2-4), of pages] spec order_for_holds [of pages] False i(1) by auto
  qed
qed

section \<open>Below a limit\<close>

lemma below_limit_iff:
  assumes "bits_ok b" "order \<le> MAX_ORDER"
  shows "below_limit b bytes lim order \<longleftrightarrow> (\<exists>i. bget b order i \<and> address b (i * 2 ^ order) + bytes \<le> min lim U64_MAX)"
proof (cases "peek_first_free b order")
  case None
  then show ?thesis
    using peek_first_free_least [OF assms] by (simp add: below_limit_def least_block_def)
next
  case (Some i0)
  then have least: "bget b order i0" "\<And>j. bget b order j \<Longrightarrow> i0 \<le> j"
    using peek_first_free_least [OF assms] by (auto simp: least_block_def not_less [symmetric])
  have "below_limit b bytes lim order \<longleftrightarrow> address b (i0 * 2 ^ order) + bytes \<le> min lim U64_MAX"
    using Some by (auto simp: below_limit_def address_def checked_add_def)
  moreover have "address b (i0 * 2 ^ order) \<le> address b (j * 2 ^ order)" if "bget b order j" for j
    using least(2) [OF that] by (simp add: address_def)
  ultimately show ?thesis
    using least(1) by (meson add_le_mono1 order_trans)
qed

lemma first_free_at_limit:
  assumes ok: "bits_ok b" "order \<le> MAX_ORDER" and below: "below_limit b bytes lim order"
  obtains i b1 where "first_free order b = (Some i, b1)" "bget b order i" "address b (i * 2 ^ order) + bytes \<le> lim"
proof -
  obtain i where i: "peek_first_free b order = Some i" "address b (i * 2 ^ order) + bytes \<le> lim"
    using below by (auto simp: below_limit_def address_def split: option.splits)
  then have "bget b order i"
    using peek_first_free_least [OF ok] by (simp add: least_block_def)
  with i that show ?thesis
    by (metis first_free_peek prod.collapse)
qed

lemma address_bound:
  assumes ok: "buddy_ok b" and "page \<le> bu_pages b"
  shows "address b page \<le> U64_MAX"
proof -
  have "page * PAGE_SIZE \<le> bu_pages b * PAGE_SIZE"
    using assms(2) by simp
  then show ?thesis
    using ok unfolding buddy_ok_def address_def by linarith
qed

lemma run_end_bound:
  assumes ok: "buddy_ok b" and ins: "inside b order i" and fits: "pages \<le> 2 ^ order"
  shows "address b (i * 2 ^ order) + pages * PAGE_SIZE \<le> U64_MAX"
proof -
  have "i * 2 ^ order + pages \<le> bu_pages b"
    using ins fits by (simp add: inside_def algebra_simps)
  from address_bound [OF ok this] show ?thesis
    by (simp add: address_def algebra_simps)
qed

lemma no_run_below:
  assumes ok: "buddy_ok b" and fits: "order \<le> MAX_ORDER" "pages \<le> 2 ^ order"
    and none: "\<And>at. order \<le> at \<Longrightarrow> at \<le> MAX_ORDER \<Longrightarrow> \<not> below_limit b (pages * PAGE_SIZE) lim at"
    and free: "block order i \<subseteq> free_set b"
  shows "lim < address b (i * 2 ^ order) + pages * PAGE_SIZE"
proof (rule ccontr)
  assume "\<not> ?thesis"
  then have low: "address b (i * 2 ^ order) + pages * PAGE_SIZE \<le> lim"
    by simp
  obtain at where at: "order \<le> at" "at \<le> MAX_ORDER" "bget b at (i div 2 ^ (at - order))"
    using free_block_covered [OF buddy_blocks [OF ok] fits(1) free] by blast
  have "i div 2 ^ (at - order) * 2 ^ at = i div 2 ^ (at - order) * 2 ^ (at - order) * 2 ^ order"
    using at(1) by (simp add: power_add [symmetric])
  also have "\<dots> \<le> i * 2 ^ order"
    by simp
  finally have head: "address b (i div 2 ^ (at - order) * 2 ^ at) \<le> address b (i * 2 ^ order)"
    by (simp add: address_def)
  have "inside b at (i div 2 ^ (at - order))"
    by (rule ok_inside [OF buddy_blocks [OF ok] at(2,3)])
  moreover have "pages \<le> 2 ^ at"
    by (rule le_trans [OF fits(2)]) (simp add: at(1))
  ultimately have "address b (i div 2 ^ (at - order) * 2 ^ at) + pages * PAGE_SIZE \<le> U64_MAX"
    by (rule run_end_bound [OF ok])
  with head low none [OF at(1,2)] at(3) below_limit_iff [OF ok_bits [OF buddy_blocks [OF ok]] at(2)] show False
    by fastforce
qed

lemma request_bytes: "order_for pages \<le> MAX_ORDER \<Longrightarrow> pages * PAGE_SIZE \<le> U64_MAX"
proof -
  assume small: "order_for pages \<le> MAX_ORDER"
  have "pages \<le> 2 ^ MAX_ORDER"
    by (rule le_trans [OF order_for_holds [OF small]]) (simp add: small)
  then have "pages \<le> 262144"
    by (simp add: MAX_ORDER_def)
  then show ?thesis
    by (simp add: PAGE_SIZE_def U64_MAX_def)
qed

lemma alloc_contiguous_below_spec:
  assumes ok: "buddy_ok b" and alloc: "alloc_contiguous_below pages lim b = (r, b')"
  defines "order \<equiv> order_for pages"
  shows "buddy_ok b' \<and> bu_base b' = bu_base b \<and> bu_pages b' = bu_pages b \<and>
    (case r of
       None \<Rightarrow> b' = b \<and> (pages = 0 \<or> MAX_ORDER < order \<or>
         (\<forall>i. block order i \<subseteq> free_set b \<longrightarrow> lim < address b (i * 2 ^ order) + pages * PAGE_SIZE))
     | Some phys \<Rightarrow> \<exists>i. phys = address b (i * 2 ^ order) \<and> phys + pages * PAGE_SIZE \<le> lim \<and>
         run (i * 2 ^ order) pages \<subseteq> free_set b \<and> free_set b' = free_set b - run (i * 2 ^ order) pages)"
proof (cases "pages = 0 \<or> MAX_ORDER < order")
  case True
  then show ?thesis
    using ok alloc by (auto simp: alloc_contiguous_below_def Let_def order_def split: if_splits)
next
  case False
  then have order: "order \<le> MAX_ORDER" "pages \<le> 2 ^ order" "pages * PAGE_SIZE \<le> U64_MAX" "0 < pages"
    using order_for_holds request_bytes by (auto simp: order_def)
  note bits = ok_bits [OF buddy_blocks [OF ok]]
  let ?find = "find (below_limit b (pages * PAGE_SIZE) lim) [order ..< Suc MAX_ORDER]"
  show ?thesis
  proof (cases ?find)
    case None
    then have none: "\<not> below_limit b (pages * PAGE_SIZE) lim at" if "order \<le> at" "at \<le> MAX_ORDER" for at
      using that by (auto simp: find_None_iff simp del: upt_Suc)
    have "r = None" "b' = b"
      using alloc None False order(3) by (simp_all add: alloc_contiguous_below_def Let_def order_def [symmetric] del: upt_Suc)
    then show ?thesis
      using ok no_run_below [OF ok order(1,2) none] by simp
  next
    case (Some at)
    then have at: "below_limit b (pages * PAGE_SIZE) lim at" "order \<le> at" "at \<le> MAX_ORDER"
      by (auto simp: find_Some_iff simp del: upt_Suc dest!: nth_mem)
    obtain i b1 where first: "first_free at b = (Some i, b1)" "bget b at i"
      "address b (i * 2 ^ at) + pages * PAGE_SIZE \<le> lim"
      using first_free_at_limit [OF bits at(3,1)] by blast
    obtain phys b2 where took: "take_block order at i b1 = (phys, b2)"
      by fastforce
    have r: "r = Some phys" "b' = hand_back phys order pages b2"
      using alloc Some first(1) took False order(3)
      by (simp_all add: alloc_contiguous_below_def Let_def order_def [symmetric] del: upt_Suc)
    note same = first_free_same [OF first(1)]
    have set1: "free_set b1 = free_set b"
      by (rule free_set_cong [OF same(1)])
    have ok1: "buddy_ok b1"
      using ok first_free_ok(1) [OF bits at(3) first(1)] same
      unfolding buddy_ok_def blocks_ok_def inside_def set1 by simp
    let ?i = "i * 2 ^ (at - order)"
    have addr: "address b1 (i * 2 ^ at) = address b (?i * 2 ^ order)"
      using same(2) at(2) by (simp add: address_def power_add [symmetric])
    from take_block_spec [OF ok1 at(2,3) _ took] first(2)
    have T: "phys = address b (?i * 2 ^ order)" "inside b order ?i" "buddy_ok b2" "block order ?i \<subseteq> free_set b"
      "free_set b2 = free_set b - block order ?i" "bu_base b2 = bu_base b" "bu_pages b2 = bu_pages b"
      unfolding same set1 addr inside_def by blast+
    have "address b1 = address b"
      by (simp add: address_def same fun_eq_iff)
    then have "phys + pages * PAGE_SIZE \<le> lim"
      using first(3) addr T(1) by metis
    then show ?thesis
      using taken_run [OF T(3,2,4-7) order(4,2)] T(1) unfolding r by auto
  qed
qed

section \<open>Questions\<close>

lemma list_ex_orders: "list_ex (\<lambda>order. bget b order (page div 2 ^ order)) [0 ..< Suc MAX_ORDER] \<longleftrightarrow> page \<in> free_set b"
  by (auto simp: list_ex_iff free_set_def atLeastLessThanSuc_atLeastAtMost simp del: upt_Suc)

lemma is_free_page_address:
  assumes "blocks_ok b"
  shows "is_free_page b (address b page) \<longleftrightarrow> page \<in> free_set b"
  using free_set_below [OF assms, of page] unfolding is_free_page_def Let_def address_page list_ex_orders
  by (auto simp: address_page)

lemma page_index_address: "page_index b (address b page) = (if page < bu_pages b then Some page else None)"
  by (simp add: page_index_def Let_def address_page)

lemma page_index_Some: "page_index b phys = Some page \<longleftrightarrow> phys = address b page \<and> page < bu_pages b"
  by (auto simp: page_index_def Let_def address_def split: if_splits)

lemma any_free_address:
  assumes ok: "buddy_ok b" and page: "page < bu_pages b"
  shows "any_free b (address b page) pages \<longleftrightarrow> run page pages \<inter> free_set b \<noteq> {}"
proof (cases "pages = 0")
  case True
  then show ?thesis
    using page by (simp add: any_free_def page_index_address run_def)
next
  case False
  let ?last = "min (min (page + (pages - 1)) U64_MAX) (bu_pages b - 1)"
  have "bu_pages b - 1 \<le> U64_MAX"
    using buddy_pages_bound [OF ok] by (simp add: U64_MAX_def)
  then have last: "?last = min (page + (pages - 1)) (bu_pages b - 1)"
    by linarith
  have "any_free b (address b page) pages \<longleftrightarrow> (\<exists>p \<in> {page ..< Suc ?last}. p \<in> free_set b)"
    using False page unfolding any_free_def page_index_address list_ex_orders
    unfolding list_ex_iff set_upt by simp
  also have "\<dots> \<longleftrightarrow> (\<exists>p \<in> run page pages. p \<in> free_set b)"
    using free_set_below [OF buddy_blocks [OF ok]] False page unfolding last run_def by fastforce
  finally show ?thesis
    by auto
qed

section \<open>The walk over every free block\<close>

lemma word_blocks_set:
  assumes ok: "bits_ok b" and order: "order \<le> MAX_ORDER" and word: "word < bu_words b ! order"
  shows "set (word_blocks b order word) = {(order, address b (i * 2 ^ order)) | i. bget b order i \<and> i div 64 = word}"
proof -
  have "(\<lambda>n. word * 64 + n) ` {n. bit (bgetw b order word) n} = {i. raw_bit b order i \<and> i div 64 = word}"
  proof (intro set_eqI iffI)
    fix i
    assume "i \<in> (\<lambda>n. word * 64 + n) ` {n. bit (bgetw b order word) n}"
    then obtain n where "i = word * 64 + n" "bit (bgetw b order word) n"
      by blast
    then show "i \<in> {i. raw_bit b order i \<and> i div 64 = word}"
      using bit_imp_le_length [of "bgetw b order word" n] by (simp add: raw_bit_def)
  next
    fix i
    assume "i \<in> {i. raw_bit b order i \<and> i div 64 = word}"
    then have "i = word * 64 + i mod 64" "bit (bgetw b order word) (i mod 64)"
      by (auto simp: raw_bit_def)
    then show "i \<in> (\<lambda>n. word * 64 + n) ` {n. bit (bgetw b order word) n}"
      by blast
  qed
  then have "set (filter (\<lambda>index. index < blocks_at b order) (map (\<lambda>n. word * 64 + n) (set_bits 64 (bgetw b order word)))) =
      {i. bget b order i \<and> i div 64 = word}"
    by (auto simp: set_bits_64 bget_raw)
  then show ?thesis
    unfolding word_blocks_def set_map address_def by auto
qed

lemma for_each_free_block_set:
  assumes ok: "bits_ok b"
  shows "set (for_each_free_block b) = {(order, address b (i * 2 ^ order)) | order i. order \<le> MAX_ORDER \<and> bget b order i}"
proof -
  have words: "(\<Union>word < bu_words b ! order. set (word_blocks b order word)) =
      {(order, address b (i * 2 ^ order)) | i. bget b order i}" if "order \<le> MAX_ORDER" for order
    using word_blocks_set [OF ok that] shape_index [OF bits_shape [OF ok] that] bget_raw by fastforce
  have "set (for_each_free_block b) = (\<Union>order \<le> MAX_ORDER. \<Union>word < bu_words b ! order. set (word_blocks b order word))"
    unfolding for_each_free_block_def
    by (simp add: atLeastLessThanSuc_atLeastAtMost atLeast0AtMost atLeast0LessThan del: upt_Suc)
  also have "\<dots> = (\<Union>order \<le> MAX_ORDER. {(order, address b (i * 2 ^ order)) | i. bget b order i})"
    using words by simp
  finally show ?thesis
    by auto
qed

section \<open>Construction\<close>

lemma layout_spec:
  assumes "layout n order pages at = Some (offsets, words, tot)"
  shows "length offsets = n \<and> length words = n \<and> at \<le> tot \<and>
    (\<forall>k < n. words ! k = (max (pages div 2 ^ (order + k)) 1 + 63) div 64) \<and>
    (\<forall>k < n. at \<le> offsets ! k \<and> offsets ! k + words ! k \<le> tot) \<and>
    (\<forall>k < n. \<forall>j < k. offsets ! j + words ! j \<le> offsets ! k)"
  using assms
proof (induction n arbitrary: order at offsets words tot)
  case 0
  then show ?case
    by simp
next
  case (Suc n)
  let ?w = "(max (pages div 2 ^ order) 1 + 63) div 64"
  from Suc.prems obtain os ws where rest: "layout n (order + 1) pages (at + ?w) = Some (os, ws, tot)"
    and lists: "offsets = at # os" "words = ?w # ws"
    by (auto simp: Let_def split: option.splits prod.splits)
  from Suc.IH [OF rest] have len: "length os = n" "length ws = n" "at + ?w \<le> tot"
    and sizes: "\<And>k. k < n \<Longrightarrow> ws ! k = (max (pages div 2 ^ (order + 1 + k)) 1 + 63) div 64"
    and ends: "\<And>k. k < n \<Longrightarrow> at + ?w \<le> os ! k" "\<And>k. k < n \<Longrightarrow> os ! k + ws ! k \<le> tot"
    and steps: "\<And>k j. k < n \<Longrightarrow> j < k \<Longrightarrow> os ! j + ws ! j \<le> os ! k"
    by blast+
  have "words ! k = (max (pages div 2 ^ (order + k)) 1 + 63) div 64" if "k < Suc n" for k
    using sizes [of "k - 1"] that by (cases k) (simp_all add: lists)
  moreover have "at \<le> offsets ! k \<and> offsets ! k + words ! k \<le> tot" if "k < Suc n" for k
    using ends [of "k - 1"] len(3) that by (cases k) (simp_all add: lists)
  moreover have "offsets ! j + words ! j \<le> offsets ! k" if "k < Suc n" "j < k" for k j
  proof (cases j)
    case 0
    then show ?thesis
      using ends(1) [of "k - 1"] that by (cases k) (simp_all add: lists)
  next
    case (Suc j')
    then show ?thesis
      using steps [of "k - 1" j'] that by (cases k) (simp_all add: lists)
  qed
  moreover have "length offsets = Suc n" "length words = Suc n" "at \<le> tot"
    using len by (simp_all add: lists)
  ultimately show ?case
    by blast
qed

lemma buddy_new_ok:
  assumes new: "buddy_new reserved base pages = Some b"
  shows "buddy_ok b" "free_set b = {}" "bu_base b = base" "bu_pages b = pages"
proof -
  from new obtain offsets words tot where lay: "layout (MAX_ORDER + 1) 0 pages 0 = Some (offsets, words, tot)"
    and extent: "base mod PAGE_SIZE = 0" "base + pages * PAGE_SIZE \<le> U64_MAX"
    and b: "b = \<lparr>bu_base = base, bu_pages = pages, bu_bits = replicate tot 0, bu_offsets = offsets,
        bu_words = words, bu_hint = replicate (MAX_ORDER + 1) U64_MAX, bu_counts = replicate (MAX_ORDER + 1) 0, bu_free = 0\<rparr>"
    by (auto simp: buddy_new_def split: if_splits option.splits prod.splits)
  have L: "length offsets = Suc MAX_ORDER" "length words = Suc MAX_ORDER"
    "\<forall>k \<le> MAX_ORDER. words ! k = (max (pages div 2 ^ k) 1 + 63) div 64"
    "\<forall>k \<le> MAX_ORDER. offsets ! k + words ! k \<le> tot"
    "\<forall>k \<le> MAX_ORDER. \<forall>j < k. offsets ! j + words ! j \<le> offsets ! k"
    using layout_spec [OF lay] unfolding Suc_eq_plus1 [symmetric] less_Suc_eq_le add_0 by blast+
  have shape: "bu_shape b"
    unfolding bu_shape_def b blocks_at_def buddy.select_convs using L by (simp only: length_replicate) auto
  have zero: "bgetw b order word = 0" if "order \<le> MAX_ORDER" "word < bu_words b ! order" for order word
    using shape_slot [OF shape that] by (simp add: bgetw_def b)
  have none: "\<not> bget b order i" if "order \<le> MAX_ORDER" for order i
    using zero [OF that shape_index [OF shape that]] by (auto simp: bget_raw raw_bit_def)
  have counts: "bu_counts b ! order = card {i. bget b order i}" if "order \<le> MAX_ORDER" for order
  proof -
    have "bu_counts b ! order = 0"
      unfolding b buddy.select_convs using that by (subst nth_replicate) auto
    then show ?thesis
      using none [OF that] by simp
  qed
  have bits: "bits_ok b"
    unfolding bits_ok_def using shape zero counts by (simp add: raw_bit_def)
  show set: "free_set b = {}"
    using none by (auto simp: free_set_def)
  show "bu_base b = base" "bu_pages b = pages"
    by (simp_all add: b)
  have "blocks_ok b"
    unfolding blocks_ok_def using bits none by (auto simp: less_imp_le)
  then show "buddy_ok b"
    unfolding buddy_ok_def set using extent by (simp add: b)
qed

end
