(* ===== verification/Buddy_Properties.thy ===== *)
theory Buddy_Properties
  imports Buddy_Requests "HOL-Library.Code_Target_Nat"
begin

text \<open>
  What the buddy allocator promises, stated over the set of free pages: allocation and release are
  exact and complete, a span enters the pool page for page, the state depends on the free pages and
  not on the calls that led to them, and the masked scan is the bit-by-bit one. The witnesses use an extent of eight pages at
  \<open>0x1000\<close> whose pages 1 to 6 have been freed in.
\<close>

section \<open>Aligned runs and blocks\<close>

lemma block_run: "block order i = run (i * 2 ^ order) (2 ^ order)"
  by (simp add: block_interval run_def algebra_simps)

lemma aligned_run: "2 ^ order dvd page \<Longrightarrow> run page (2 ^ order) = block order (page div 2 ^ order)"
  by (simp add: block_run)

text \<open>A free block is a largest aligned run of free pages.\<close>

lemma bget_iff_maximal:
  assumes ok: "blocks_ok b" and order: "order \<le> MAX_ORDER"
  shows "bget b order i \<longleftrightarrow>
    block order i \<subseteq> free_set b \<and> (order < MAX_ORDER \<longrightarrow> \<not> block (Suc order) (i div 2) \<subseteq> free_set b)"
proof -
  have larger: "at = order" if "order \<le> at" "at \<le> MAX_ORDER" "bget b at (i div 2 ^ (at - order))" "bget b order i" for at
    using ok_one_order [OF ok order that(2), of "i * 2 ^ order"] that
    by (simp add: div_power_le [OF that(1)])
  show ?thesis
  proof
    assume get: "bget b order i"
    have "\<not> block (Suc order) (i div 2) \<subseteq> free_set b" if lt: "order < MAX_ORDER"
    proof
      assume "block (Suc order) (i div 2) \<subseteq> free_set b"
      then obtain at where at: "Suc order \<le> at" "at \<le> MAX_ORDER" "bget b at (i div 2 div 2 ^ (at - Suc order))"
        using free_block_covered [OF ok, of "Suc order" "i div 2"] lt by (meson Suc_leI)
      moreover have "at - order = Suc (at - Suc order)"
        using at(1) by simp
      ultimately have "bget b at (i div 2 ^ (at - order))"
        by (simp add: div_mult2_eq)
      with larger [of at] at get show False
        by simp
    qed
    with free_set_block [OF order get]
    show "block order i \<subseteq> free_set b \<and> (order < MAX_ORDER \<longrightarrow> \<not> block (Suc order) (i div 2) \<subseteq> free_set b)"
      by blast
  next
    assume max: "block order i \<subseteq> free_set b \<and> (order < MAX_ORDER \<longrightarrow> \<not> block (Suc order) (i div 2) \<subseteq> free_set b)"
    then obtain at where at: "order \<le> at" "at \<le> MAX_ORDER" "bget b at (i div 2 ^ (at - order))"
      using free_block_covered [OF ok order] by blast
    have "at = order"
    proof (rule ccontr)
      assume "at \<noteq> order"
      then have le: "Suc order \<le> at" and "at - order = Suc (at - Suc order)"
        using at(1) by simp_all
      then have "block (Suc order) (i div 2) \<subseteq> block at (i div 2 ^ (at - order))"
        using block_within [OF le, of "i div 2"] by (simp add: div_mult2_eq)
      with free_set_block [OF at(2,3)] max le at(2) show False
        by auto
    qed
    with at(3) show "bget b order i"
      by simp
  qed
qed

section \<open>Runs of calls\<close>

inductive buddy_call :: "buddy \<Rightarrow> buddy \<Rightarrow> bool" where
  call_alloc: "buddy_alloc order b = (r, b') \<Longrightarrow> buddy_call b b'"
| call_free: "buddy_free phys order b = (ok, b') \<Longrightarrow> buddy_call b b'"
| call_free_span: "free_span phys pages b = (n, b') \<Longrightarrow> buddy_call b b'"
| call_contiguous: "alloc_contiguous pages b = (r, b') \<Longrightarrow> buddy_call b b'"
| call_contiguous_below: "alloc_contiguous_below pages lim b = (r, b') \<Longrightarrow> buddy_call b b'"

lemma free_span_keeps:
  assumes "buddy_ok b" "free_span phys pages b = (n, b')"
  shows "buddy_ok b' \<and> bu_base b' = bu_base b \<and> bu_pages b' = bu_pages b"
proof (cases "phys < bu_base b \<or> (phys - bu_base b) mod PAGE_SIZE \<noteq> 0 \<or> bu_pages b \<le> (phys - bu_base b) div PAGE_SIZE")
  case True
  with assms show ?thesis
    by (auto simp: free_span_def Let_def split: if_splits)
next
  case False
  then have "address b ((phys - bu_base b) div PAGE_SIZE) = phys"
    by (auto simp: address_def dvd_div_mult_self mod_eq_0_iff_dvd)
  with free_span_spec [OF assms(1), of "(phys - bu_base b) div PAGE_SIZE" pages n b'] assms(2) False show ?thesis
    by simp
qed

lemma buddy_call_keeps:
  assumes "buddy_call b b'" "buddy_ok b"
  shows "buddy_ok b' \<and> bu_base b' = bu_base b \<and> bu_pages b' = bu_pages b"
  using assms(1)
proof cases
  case (call_free phys order ok)
  show ?thesis
    using assms(2) by (cases rule: free_spec [of b phys order]) (use call_free assms(2) in auto)
next
  case (call_free_span phys pages n)
  then show ?thesis
    by (rule free_span_keeps [OF assms(2)])
qed (use alloc_spec [OF assms(2)] alloc_contiguous_spec [OF assms(2)] alloc_contiguous_below_spec [OF assms(2)] in blast)+

lemma buddy_run_keeps:
  assumes "buddy_call\<^sup>*\<^sup>* b b'" "buddy_ok b"
  shows "buddy_ok b' \<and> bu_base b' = bu_base b \<and> bu_pages b' = bu_pages b"
  using assms(1) by induction (use assms(2) buddy_call_keeps in fastforce)+

text \<open>The search for a block answers by the bits alone: the smallest order that has one, and its lowest block.\<close>

lemma least_block_unique: "least_block b order r \<Longrightarrow> least_block b order r' \<Longrightarrow> r = r'"
  by (auto simp: least_block_def split: option.splits) (metis nat_neq_iff)

lemma find_larger_by_bits:
  assumes "blocks_ok b" "blocks_ok c" "\<forall>order \<le> MAX_ORDER. bget c order = bget b order" "larger + n = Suc MAX_ORDER"
  shows "fst (find_larger n larger c) = fst (find_larger n larger b)"
  using assms
proof (induction n arbitrary: larger b c)
  case (Suc n)
  obtain r b' q c' where first: "first_free larger b = (r, b')" "first_free larger c = (q, c')"
    by fastforce
  have larger: "larger \<le> MAX_ORDER"
    using Suc.prems(4) by simp
  note B = first_free_same [OF first(1)] first_free_ok [OF ok_bits [OF Suc.prems(1)] larger first(1)]
  note C = first_free_same [OF first(2)] first_free_ok [OF ok_bits [OF Suc.prems(2)] larger first(2)]
  have "least_block b larger q"
    using C(7) unfolding least_block_def Suc.prems(3) [rule_format, OF larger] .
  with B(7) have q: "q = r"
    by (metis least_block_unique)
  have "blocks_ok b'" "blocks_ok c'" "\<forall>order \<le> MAX_ORDER. bget c' order = bget b' order"
    using Suc.prems(1-3) B C unfolding blocks_ok_def inside_def by simp_all
  with Suc.IH [of b' c' "larger + 1"] Suc.prems(4) show ?case
    by (simp add: first q split: option.split)
qed simp

lemma alloc_by_bits:
  assumes "buddy_ok b" "buddy_ok c" "\<forall>order \<le> MAX_ORDER. bget c order = bget b order" "bu_base c = bu_base b"
  shows "fst (buddy_alloc order c) = fst (buddy_alloc order b)"
proof (cases "MAX_ORDER < order")
  case True
  then show ?thesis
    by (simp add: buddy_alloc_def)
next
  case False
  let ?n = "Suc MAX_ORDER - order"
  obtain r b1 q c1 where find: "find_larger ?n order b = (r, b1)" "find_larger ?n order c = (q, c1)"
    by fastforce
  have n: "order + ?n = Suc MAX_ORDER"
    using False by simp
  have q: "q = r"
    using find_larger_by_bits [OF buddy_blocks [OF assms(1)] buddy_blocks [OF assms(2)] assms(3) n] find by simp
  note B = find_larger_spec [OF buddy_blocks [OF assms(1)] n find(1)]
  note C = find_larger_spec [OF buddy_blocks [OF assms(2)] n find(2)]
  have ok: "buddy_ok b1" "buddy_ok c1"
    using assms(1,2) B C free_set_cong [of b1 b] free_set_cong [of c1 c] by (simp_all add: buddy_ok_def)
  show ?thesis
  proof (cases r)
    case None
    with False find q show ?thesis
      by (simp add: buddy_alloc_def)
  next
    case (Some ai)
    then obtain at i where r: "r = Some (at, i)" "order \<le> at" "at \<le> MAX_ORDER" "bget b1 at i" "bget c1 at i"
      using B C q by (cases ai) auto
    obtain p b2 p' c2 where took: "take_block order at i b1 = (p, b2)" "take_block order at i c1 = (p', c2)"
      by fastforce
    have "p' = p"
      using take_block_spec [OF ok(1) r(2-4) took(1)] take_block_spec [OF ok(2) r(2,3,5) took(2)] B C assms(4)
      by (simp add: address_def)
    with False find q r(1) took show ?thesis
      by (simp add: buddy_alloc_def)
  qed
qed

section \<open>A sample pool\<close>

definition sample_empty :: buddy where
  "sample_empty = \<lparr>bu_base = 4096, bu_pages = 8, bu_bits = replicate 19 0, bu_offsets = [0 ..< 19],
     bu_words = replicate 19 1, bu_hint = replicate 19 U64_MAX, bu_counts = replicate 19 0, bu_free = 0\<rparr>"

definition sample_pool :: buddy where
  "sample_pool = snd (free_span 8192 6 sample_empty)"

lemma sample_new: "buddy_new (\<lambda>_. True) 4096 8 = Some sample_empty"
  by code_simp

lemma sample_empty_ok: "buddy_ok sample_empty" "free_set sample_empty = {}"
  using buddy_new_ok [OF sample_new] by simp_all

lemma sample_pool_ok: "buddy_ok sample_pool" "free_set sample_pool = {1 ..< 7}" "bu_base sample_pool = 4096"
  "bu_pages sample_pool = 8"
proof -
  have "address sample_empty 1 = 8192"
    by (simp add: address_def sample_empty_def PAGE_SIZE_def)
  then have "free_span (address sample_empty 1) 6 sample_empty = (fst (free_span 8192 6 sample_empty), sample_pool)"
    by (simp add: sample_pool_def)
  from free_span_spec [OF sample_empty_ok(1) _ this]
  show "buddy_ok sample_pool" "free_set sample_pool = {1 ..< 7}" "bu_base sample_pool = 4096" "bu_pages sample_pool = 8"
    using sample_empty_ok(2) by (simp_all add: sample_empty_def)
qed

section \<open>Properties\<close>

text \<open>
  C13: Allocation of a block is exact and complete. \<^verbatim>\<open>alloc(order)\<close> answers an aligned run of
  \<open>2 ^ order\<close> pages that were all free and takes exactly those pages out of the pool; it answers
  \<^verbatim>\<open>None\<close> only when no aligned run of that size is free, and then takes nothing. In both cases the
  allocator's invariant is kept.
\<close>

theorem alloc_is_exact:
  assumes "buddy_ok b" and "buddy_alloc order b = (r, b')"
  shows "buddy_ok b' \<and>
    (case r of
       None \<Rightarrow> free_set b' = free_set b \<and>
         (order \<le> MAX_ORDER \<longrightarrow> \<not> (\<exists>page. 2 ^ order dvd page \<and> run page (2 ^ order) \<subseteq> free_set b))
     | Some phys \<Rightarrow> \<exists>page. phys = address b page \<and> 2 ^ order dvd page \<and> run page (2 ^ order) \<subseteq> free_set b \<and>
         free_set b' = free_set b - run page (2 ^ order) \<and> bu_free b' = bu_free b - 2 ^ order)"
proof (cases r)
  case None
  with alloc_spec [OF assms] have none: "buddy_ok b'" "bget b' = bget b"
    "MAX_ORDER < order \<or> (\<forall>i. \<not> block order i \<subseteq> free_set b)"
    by simp_all
  have "\<not> (\<exists>page. 2 ^ order dvd page \<and> run page (2 ^ order) \<subseteq> free_set b)" if "order \<le> MAX_ORDER"
    using none(3) that aligned_run [of order] by (metis not_less)
  with none(1) free_set_cong [OF none(2)] None show ?thesis
    by simp
next
  case (Some phys)
  with alloc_spec [OF assms] obtain i where i: "buddy_ok b'" "phys = address b (i * 2 ^ order)"
    "block order i \<subseteq> free_set b" "free_set b' = free_set b - block order i"
    by (simp only: option.case) blast
  have "bu_free b' = bu_free b - 2 ^ order"
    unfolding buddy_count [OF i(1)] buddy_count [OF assms(1)] i(4)
    using card_Diff_subset [OF finite_block i(3)] by simp
  moreover have "2 ^ order dvd i * 2 ^ order"
    by simp
  ultimately show ?thesis
    using i unfolding Some block_run option.case by blast
qed

theorem alloc_is_exact_witness:
  "\<exists>r b'. buddy_ok sample_pool \<and> buddy_alloc 1 sample_pool = (r, b') \<and> r \<noteq> None \<and> buddy_ok b' \<and> bu_free b' = 4"
proof -
  obtain r b' where take: "buddy_alloc 1 sample_pool = (r, b')"
    by fastforce
  have six: "bu_free sample_pool = 6"
    using buddy_count [OF sample_pool_ok(1)] by (simp add: sample_pool_ok)
  have "2 ^ 1 dvd (2 :: nat)" "run 2 (2 ^ 1) \<subseteq> free_set sample_pool"
    by (auto simp: run_def sample_pool_ok)
  with alloc_is_exact [OF sample_pool_ok(1) take] have "r \<noteq> None"
    by (cases r) (auto simp: MAX_ORDER_def)
  with alloc_is_exact [OF sample_pool_ok(1) take] take sample_pool_ok(1) six show ?thesis
    by (intro exI [of _ r] exI [of _ b']) (auto split: option.splits)
qed

text \<open>
  C14: A release is accepted exactly when it is legal. \<^verbatim>\<open>free(phys, order)\<close> answers true if and only
  if \<open>phys\<close> is the address of an aligned run of \<open>2 ^ order\<close> pages inside the extent, none of which is
  free already in any form; then exactly those pages enter the free set. Every other call, a double
  free of a whole block, of a part of a larger free block or around a smaller one included, leaves the
  allocator as it was.
\<close>

theorem free_is_exact:
  assumes "buddy_ok b"
  shows "case buddy_free phys order b of
     (True, b') \<Rightarrow> buddy_ok b' \<and> (\<exists>page. order \<le> MAX_ORDER \<and> phys = address b page \<and> 2 ^ order dvd page \<and>
        page + 2 ^ order \<le> bu_pages b \<and> run page (2 ^ order) \<inter> free_set b = {} \<and>
        free_set b' = free_set b \<union> run page (2 ^ order) \<and> bu_free b' = bu_free b + 2 ^ order)
   | (False, b') \<Rightarrow> b' = b \<and> \<not> (\<exists>page. order \<le> MAX_ORDER \<and> phys = address b page \<and> 2 ^ order dvd page \<and>
        page + 2 ^ order \<le> bu_pages b \<and> run page (2 ^ order) \<inter> free_set b = {})"
proof (cases rule: free_spec [OF assms, of phys order, case_names taken refused])
  case (taken i b')
  have "card (free_set b') = card (free_set b) + 2 ^ order"
    using taken(1,4) finite_free_set [OF buddy_blocks [OF assms]]
    by (simp add: freeable_def card_Un_disjoint Int_commute)
  then have "bu_free b' = bu_free b + 2 ^ order"
    using buddy_count [OF assms] buddy_count [OF taken(3)] by simp
  moreover have "2 ^ order dvd i * 2 ^ order" "i * 2 ^ order + 2 ^ order \<le> bu_pages b"
    using taken(1) by (simp_all add: freeable_def inside_def algebra_simps)
  ultimately show ?thesis
    using taken unfolding freeable_def inside_def block_run by auto
next
  case refused
  have "freeable b phys order (page div 2 ^ order)"
    if "order \<le> MAX_ORDER" "phys = address b page" "2 ^ order dvd page" "page + 2 ^ order \<le> bu_pages b"
      "run page (2 ^ order) \<inter> free_set b = {}" for page
    using that by (auto simp: freeable_def inside_def aligned_run algebra_simps)
  with refused show ?thesis
    by auto
qed

theorem free_is_exact_witness:
  "buddy_ok sample_pool \<and> buddy_free 8192 0 sample_pool = (False, sample_pool) \<and> fst (buddy_free 4096 0 sample_pool)"
proof -
  have at: "8192 = address sample_pool page \<longleftrightarrow> page = 1" "4096 = address sample_pool page \<longleftrightarrow> page = 0" for page
    by (auto simp: address_def sample_pool_ok PAGE_SIZE_def)
  obtain ok1 b1 where first: "buddy_free 8192 0 sample_pool = (ok1, b1)"
    by fastforce
  obtain ok2 b2 where second: "buddy_free 4096 0 sample_pool = (ok2, b2)"
    by fastforce
  have "1 \<in> run 1 (2 ^ 0) \<inter> free_set sample_pool"
    by (simp add: run_def sample_pool_ok)
  then have "\<not> ok1 \<and> b1 = sample_pool"
    using free_is_exact [OF sample_pool_ok(1), where phys = 8192 and order = 0] unfolding first at by (cases ok1) auto
  moreover have "run 0 (2 ^ 0) \<inter> free_set sample_pool = {}" "0 + 2 ^ 0 \<le> bu_pages sample_pool"
    by (simp_all add: run_def sample_pool_ok)
  then have ok2
    using free_is_exact [OF sample_pool_ok(1), where phys = 4096 and order = 0] unfolding second at by (cases ok2) auto
  ultimately show ?thesis
    using first second sample_pool_ok(1) by simp
qed

text \<open>
  C30: A span enters the pool page for page. \<^verbatim>\<open>free_span\<close> of any number of pages from a page of the
  extent ends with every page of the span that lies in the extent free, whatever part of it was free
  before and however the free part falls against the block boundaries, and answers the number of
  pages that were not free already.
\<close>

theorem free_span_is_exact:
  assumes "buddy_ok b" and "page < bu_pages b" and "free_span (address b page) pages b = (n, b')"
  shows "buddy_ok b' \<and> free_set b' = free_set b \<union> (run page pages \<inter> {..< bu_pages b}) \<and>
    n = card (run page pages \<inter> {..< bu_pages b} - free_set b) \<and> bu_free b' = bu_free b + n"
proof -
  have pool: "{page ..< page + min pages (bu_pages b - page)} = run page pages \<inter> {..< bu_pages b}"
    using assms(2) by (auto simp: run_def)
  note spec = free_span_spec [OF assms, unfolded pool]
  let ?new = "run page pages \<inter> {..< bu_pages b} - free_set b"
  have "card (free_set b \<union> ?new) = card (free_set b) + card ?new"
    using finite_free_set [OF buddy_blocks [OF assms(1)]] by (intro card_Un_disjoint) (simp_all add: run_def Diff_disjoint)
  then have "card (free_set b') = card (free_set b) + n"
    unfolding spec(2,3) by (simp only: Un_Diff_cancel)
  then show ?thesis
    using spec buddy_count [OF assms(1)] buddy_count [OF spec(1)] by (simp only: simp_thms)
qed

theorem free_span_is_exact_witness:
  "\<exists>b'. buddy_ok sample_pool \<and> 0 < bu_pages sample_pool \<and> free_span (address sample_pool 0) 8 sample_pool = (2, b') \<and>
    free_set b' = {..< 8}"
proof -
  obtain n b' where span: "free_span (address sample_pool 0) 8 sample_pool = (n, b')"
    by fastforce
  have pages: "0 < bu_pages sample_pool"
    by (simp add: sample_pool_ok)
  have pool: "run 0 8 \<inter> {..< bu_pages sample_pool} = {..< 8}"
    by (auto simp: run_def sample_pool_ok)
  have "{..< 8} - {1 ..< 7} = {0, 7 :: nat}"
    by (rule set_eqI) (simp, arith)
  then have two: "card ({..< 8} - {1 ..< 7 :: nat}) = 2"
    by simp
  have eight: "{1 ..< 7} \<union> {..< 8} = {..< 8 :: nat}"
    by (rule set_eqI) (simp, arith)
  have "n = 2" "free_set b' = {..< 8}"
    using free_span_is_exact [OF sample_pool_ok(1) pages span] unfolding pool sample_pool_ok(2) two eight by blast+
  with span pages sample_pool_ok(1) show ?thesis
    by blast
qed

text \<open>
  C31: A contiguous run below an address limit is found whenever there is one. A successful
  \<^verbatim>\<open>alloc_contiguous_below(pages, limit)\<close> answers a run of exactly \<open>pages\<close> free pages that ends at or
  below the limit and takes those pages and no others, the rounding remainder included in what is
  handed back; it fails only when every free aligned block large enough for the request has its run
  end above the limit.
\<close>

theorem contiguous_below_is_exact:
  assumes "buddy_ok b" and "0 < pages" and "alloc_contiguous_below pages lim b = (r, b')"
  shows "buddy_ok b' \<and>
    (case r of
       None \<Rightarrow> b' = b \<and> (order_for pages \<le> MAX_ORDER \<longrightarrow>
         (\<forall>page. 2 ^ order_for pages dvd page \<longrightarrow> run page (2 ^ order_for pages) \<subseteq> free_set b \<longrightarrow>
            lim < address b page + pages * PAGE_SIZE))
     | Some phys \<Rightarrow> phys + pages * PAGE_SIZE \<le> lim \<and>
         (\<exists>page. phys = address b page \<and> run page pages \<subseteq> free_set b \<and> free_set b' = free_set b - run page pages))"
proof (cases r)
  case None
  with alloc_contiguous_below_spec [OF assms(1,3)] assms(2) have none: "b' = b" "buddy_ok b'"
    "MAX_ORDER < order_for pages \<or> (\<forall>i. block (order_for pages) i \<subseteq> free_set b \<longrightarrow>
       lim < address b (i * 2 ^ order_for pages) + pages * PAGE_SIZE)"
    by auto
  have "lim < address b page + pages * PAGE_SIZE"
    if "order_for pages \<le> MAX_ORDER" "2 ^ order_for pages dvd page" "run page (2 ^ order_for pages) \<subseteq> free_set b" for page
    using none(3) that(1,3) unfolding aligned_run [OF that(2)]
    by (metis dvd_div_mult_self not_less that(2))
  with none None show ?thesis
    by simp
next
  case (Some phys)
  with alloc_contiguous_below_spec [OF assms(1,3)] show ?thesis
    by (simp only: option.case) blast
qed

theorem contiguous_below_is_exact_witness:
  "\<exists>r b'. buddy_ok sample_pool \<and> alloc_contiguous_below 2 24576 sample_pool = (r, b') \<and> r \<noteq> None \<and> buddy_ok b'"
proof -
  obtain r b' where take: "alloc_contiguous_below 2 24576 sample_pool = (r, b')"
    by fastforce
  have order: "order_for 2 = 1"
    by (simp add: order_for_def MAX_ORDER_def eval_nat_numeral)
  have two: "(0 :: nat) < 2"
    by simp
  note exact = contiguous_below_is_exact [OF sample_pool_ok(1) two take, unfolded order]
  have "2 ^ 1 dvd (2 :: nat)" "run 2 (2 ^ 1) \<subseteq> free_set sample_pool" "\<not> 24576 < address sample_pool 2 + 2 * PAGE_SIZE"
    by (auto simp: run_def sample_pool_ok address_def PAGE_SIZE_def)
  then have "r \<noteq> None"
    using exact by (cases r) (auto simp: MAX_ORDER_def)
  with exact take sample_pool_ok(1) show ?thesis
    by blast
qed

text \<open>
  C32: The allocator forgets its history. Take an allocator as it is constructed and any two sequences
  of allocations, contiguous allocations and releases, of blocks and of spans, granted or refused: if
  they leave the same pages free, they leave the same blocks recorded at every order and the same
  count, and the next allocation of any order answers the same block. Splitting and merging therefore
  undo each other exactly, and neither a hint nor a count left behind by an earlier call decides what
  is handed out.
\<close>

theorem allocator_forgets_its_history:
  assumes "buddy_new reserved base pages = Some b" and "buddy_call\<^sup>*\<^sup>* b b1" and "buddy_call\<^sup>*\<^sup>* b b2"
    and "free_set b1 = free_set b2"
  shows "(\<forall>order \<le> MAX_ORDER. \<forall>i. bget b1 order i = bget b2 order i) \<and> bu_free b1 = bu_free b2 \<and>
    fst (buddy_alloc order b1) = fst (buddy_alloc order b2)"
proof -
  have ok: "buddy_ok b1" "buddy_ok b2" "bu_base b1 = bu_base b2"
    using buddy_run_keeps [OF assms(2)] buddy_run_keeps [OF assms(3)] buddy_new_ok(1) [OF assms(1)] by simp_all
  have same: "bget b1 order i = bget b2 order i" if "order \<le> MAX_ORDER" for order i
    using bget_iff_maximal [OF buddy_blocks [OF ok(1)] that] bget_iff_maximal [OF buddy_blocks [OF ok(2)] that] assms(4) by simp
  moreover have "bu_free b1 = bu_free b2"
    using buddy_count [OF ok(1)] buddy_count [OF ok(2)] assms(4) by simp
  moreover have "fst (buddy_alloc order b1) = fst (buddy_alloc order b2)"
    using alloc_by_bits [OF ok(2,1) _ ok(3)] same by (simp add: fun_eq_iff)
  ultimately show ?thesis
    by blast
qed

text \<open>The instance: six pages freed in at once, and in two spans that end inside a block.\<close>

theorem allocator_forgets_its_history_witness:
  "\<exists>n b1 m b2. free_span 8192 4 sample_empty = (n, b1) \<and> free_span 24576 2 b1 = (m, b2) \<and>
     bget b2 1 1 = bget sample_pool 1 1 \<and> bu_free b2 = 6 \<and> fst (buddy_alloc 1 b2) = fst (buddy_alloc 1 sample_pool)"
proof -
  obtain n b1 m b2 where spans: "free_span 8192 4 sample_empty = (n, b1)" "free_span 24576 2 b1 = (m, b2)"
    by fastforce
  have "free_span (address sample_empty 1) 4 sample_empty = (n, b1)"
    using spans(1) by (simp add: address_def sample_empty_def PAGE_SIZE_def)
  from free_span_spec [OF sample_empty_ok(1) _ this]
  have b1: "buddy_ok b1" "free_set b1 = {1 ..< 5}" "bu_base b1 = 4096" "bu_pages b1 = 8"
    using sample_empty_ok(2) by (simp_all add: sample_empty_def)
  then have "free_span (address b1 5) 2 b1 = (m, b2)"
    using spans(2) by (simp add: address_def PAGE_SIZE_def)
  from free_span_spec [OF b1(1) _ this] b1 have b2: "free_set b2 = free_set sample_pool"
    by (auto simp: sample_pool_ok)
  have run1: "buddy_call\<^sup>*\<^sup>* sample_empty b2"
    using call_free_span [OF spans(1)] call_free_span [OF spans(2)] by (rule converse_rtranclp_into_rtranclp [OF _ r_into_rtranclp])
  have run2: "buddy_call\<^sup>*\<^sup>* sample_empty sample_pool"
    unfolding sample_pool_def by (rule r_into_rtranclp) (rule call_free_span [OF surjective_pairing])
  have "bu_free sample_pool = 6" "(1 :: nat) \<le> MAX_ORDER"
    using buddy_count [OF sample_pool_ok(1)] by (simp_all add: sample_pool_ok MAX_ORDER_def)
  with allocator_forgets_its_history [OF sample_new run1 run2 b2, of 1] spans show ?thesis
    by auto
qed

text \<open>
  The masked word scan is the bit-by-bit one. \<^verbatim>\<open>any_bit_in_range\<close>, which reads a word at a time
  with both ends masked, answers what asking \<^verbatim>\<open>get\<close> for every index of the range would.
\<close>

theorem range_scan_is_bitwise:
  assumes "buddy_ok b" and "order \<le> MAX_ORDER"
  shows "any_bit_in_range b order start n = list_ex (bget b order) [start ..< start + n]"
  using any_bit_in_range_iff [OF ok_bits [OF buddy_blocks [OF assms(1)]] assms(2)] by (auto simp: list_ex_iff)

theorem range_scan_is_bitwise_witness:
  "buddy_ok sample_pool \<and> (1 :: nat) \<le> MAX_ORDER \<and>
   any_bit_in_range sample_pool 1 0 4 = list_ex (bget sample_pool 1) [0 ..< 0 + 4]"
proof -
  have "(1 :: nat) \<le> MAX_ORDER"
    by (simp add: MAX_ORDER_def)
  from range_scan_is_bitwise [OF sample_pool_ok(1) this, of 0 4] this sample_pool_ok(1) show ?thesis
    by blast
qed

end
