(* ===== verification/Topology.thy ===== *)
theory Topology
  imports Kernel_Prelude "HOL-Library.Product_Lexorder"
begin

text \<open>
  The memory topology (\<^verbatim>\<open>src/src/topology/src/lib.rs\<close>): records of firmware tables are collected by a
  builder, checked at once, and either refused or turned into a table of disjoint ranges sorted by
  address that a binary search reads. Whether the cells of the distance matrix can be reserved is a
  parameter. \<^verbatim>\<open>partition_point\<close> and \<^verbatim>\<open>binary_search\<close> are the positions they find in a table that is
  partitioned, respectively sorted.
\<close>

section \<open>Data\<close>

definition MAX_NODES :: nat where "MAX_NODES = 16"
definition MAX_RANGES :: nat where "MAX_RANGES = 64"
definition MAX_CPUS :: nat where "MAX_CPUS = 256"
definition LOCAL_DISTANCE :: nat where "LOCAL_DISTANCE = 10"
definition REMOTE_DISTANCE :: nat where "REMOTE_DISTANCE = 20"

type_synonym node_id = nat

datatype affinity = Node node_id | Unknown

datatype topology_error =
    TooManyNodes | TooManyRanges | TooManyCpus | DuplicateCpu | ContradictoryOverlap | MalformedRange
  | MalformedMatrix | UnknownNode | Truncated | BadChecksum | WrongSignature

record mrange =
  mr_base :: nat
  mr_len :: nat
  mr_node :: node_id

definition range_end :: "mrange \<Rightarrow> nat" where
  "range_end r = saturating_add (mr_base r) (mr_len r)"

definition range_contains :: "mrange \<Rightarrow> nat \<Rightarrow> bool" where
  "range_contains r address \<longleftrightarrow> mr_base r \<le> address \<and> address < range_end r"

definition range_overlaps :: "mrange \<Rightarrow> mrange \<Rightarrow> bool" where
  "range_overlaps r other \<longleftrightarrow> mr_base r < range_end other \<and> mr_base other < range_end r"

record distances =
  ds_cells :: "nat list"
  ds_size :: nat

definition distances_none :: distances where
  "distances_none = \<lparr>ds_cells = [], ds_size = 0\<rparr>"

definition is_measured :: "distances \<Rightarrow> bool" where
  "is_measured d \<longleftrightarrow> 0 < ds_size d"

record topology =
  tp_nodes :: "node_id list"
  tp_memory :: "mrange list"
  tp_cpus :: "(nat \<times> node_id) list"
  tp_distances :: distances

section \<open>Questions\<close>

definition node_of_address :: "topology \<Rightarrow> nat \<Rightarrow> affinity" where
  "node_of_address t physical =
     (let at = partition_point (\<lambda>r. range_end r \<le> physical) (tp_memory t) in
      if at < length (tp_memory t) \<and> range_contains (tp_memory t ! at) physical
      then Node (mr_node (tp_memory t ! at)) else Unknown)"

definition node_of_cpu :: "topology \<Rightarrow> nat \<Rightarrow> affinity" where
  "node_of_cpu t hardware_id =
     (case position (\<lambda>(id, _). id = hardware_id) (tp_cpus t) of
        Some at \<Rightarrow> Node (snd (tp_cpus t ! at))
      | None \<Rightarrow> Unknown)"

definition index_of :: "topology \<Rightarrow> node_id \<Rightarrow> nat option" where
  "index_of t node = position (\<lambda>n. n = node) (tp_nodes t)"

definition distance :: "topology \<Rightarrow> node_id \<Rightarrow> node_id \<Rightarrow> nat" where
  "distance t from to =
     (if from = to then LOCAL_DISTANCE
      else
        (case (index_of t from, index_of t to) of
           (Some a, Some b) \<Rightarrow>
             (if \<not> is_measured (tp_distances t) then REMOTE_DISTANCE
              else ds_cells (tp_distances t) ! (a * ds_size (tp_distances t) + b))
         | _ \<Rightarrow> REMOTE_DISTANCE))"

definition fallback_order :: "topology \<Rightarrow> node_id \<Rightarrow> node_id list" where
  "fallback_order t from = sort_key (\<lambda>node. (node \<noteq> from, distance t from node, node)) (tp_nodes t)"

definition memory_bearing_nodes :: "topology \<Rightarrow> node_id list" where
  "memory_bearing_nodes t =
     sort (fold (\<lambda>r out. if mr_node r \<in> set out then out else out @ [mr_node r]) (tp_memory t) [])"

definition memory_of :: "topology \<Rightarrow> node_id \<Rightarrow> nat" where
  "memory_of t node = sum_list (map mr_len (filter (\<lambda>r. mr_node r = node) (tp_memory t)))"

section \<open>The builder\<close>

record builder =
  bl_memory :: "mrange list"
  bl_cpus :: "(nat \<times> node_id) list"
  bl_nodes :: "node_id list"
  bl_matrix :: "nat list"
  bl_matrix_size :: nat
  bl_matrix_ids :: "node_id list"
  bl_seedable :: "(nat \<times> nat) list"

definition builder_new :: builder where
  "builder_new = \<lparr>bl_memory = [], bl_cpus = [], bl_nodes = [], bl_matrix = [], bl_matrix_size = 0,
     bl_matrix_ids = [], bl_seedable = []\<rparr>"

definition note_node :: "node_id \<Rightarrow> builder \<Rightarrow> builder" where
  "note_node node b = (if node \<in> set (bl_nodes b) then b else b\<lparr>bl_nodes := bl_nodes b @ [node]\<rparr>)"

definition restrict_to_seedable :: "(nat \<times> nat) list \<Rightarrow> builder \<Rightarrow> builder" where
  "restrict_to_seedable spans b = b\<lparr>bl_seedable := sort_key fst spans\<rparr>"

definition add_memory :: "nat \<Rightarrow> nat \<Rightarrow> node_id \<Rightarrow> builder \<Rightarrow> builder" where
  "add_memory base len node b =
     (let b = note_node node b in b\<lparr>bl_memory := bl_memory b @ [\<lparr>mr_base = base, mr_len = len, mr_node = node\<rparr>]\<rparr>)"

definition add_cpu :: "nat \<Rightarrow> node_id \<Rightarrow> builder \<Rightarrow> builder" where
  "add_cpu hardware_id node b = (let b = note_node node b in b\<lparr>bl_cpus := bl_cpus b @ [(hardware_id, node)]\<rparr>)"

definition set_matrix_for :: "node_id list \<Rightarrow> nat list \<Rightarrow> builder \<Rightarrow> builder" where
  "set_matrix_for ids cells b = b\<lparr>bl_matrix_size := length ids, bl_matrix_ids := ids, bl_matrix := cells\<rparr>"

definition set_matrix :: "nat \<Rightarrow> nat list \<Rightarrow> builder \<Rightarrow> builder" where
  "set_matrix n cells b = set_matrix_for [0 ..< n] cells b"

text \<open>Each range intersected with every seedable span, in that order.\<close>

definition seed_pieces :: "(nat \<times> nat) list \<Rightarrow> mrange \<Rightarrow> mrange list" where
  "seed_pieces seedable r =
     concat (map (\<lambda>(base, len).
        let low = max (mr_base r) base; high = min (range_end r) (saturating_add base len) in
        if low < high then [\<lparr>mr_base = low, mr_len = high - low, mr_node = mr_node r\<rparr>] else []) seedable)"

text \<open>The merge over the sorted ranges; the last range merged is the head of the accumulator.\<close>

fun merge_ranges :: "mrange list \<Rightarrow> mrange list \<Rightarrow> topology_error + mrange list" where
  "merge_ranges merged [] = Inr (rev merged)"
| "merge_ranges [] (r # rs) = merge_ranges [r] rs"
| "merge_ranges (previous # merged) (r # rs) =
     (if range_overlaps previous r \<or> range_end previous = mr_base r then
        (if mr_node previous \<noteq> mr_node r then
           (if range_overlaps previous r then Inl ContradictoryOverlap
            else merge_ranges (r # previous # merged) rs)
         else
           (let stop = max (range_end previous) (range_end r) in
            merge_ranges (previous\<lparr>mr_len := stop - mr_base previous\<rparr> # merged) rs))
      else merge_ranges (r # previous # merged) rs)"

definition build_memory :: "builder \<Rightarrow> topology_error + mrange list" where
  "build_memory b =
     (if list_ex (\<lambda>r. mr_len r = 0 \<or> checked_add (mr_base r) (mr_len r) = None) (bl_memory b)
      then Inl MalformedRange
      else
        (let kept = (if bl_seedable b = [] then bl_memory b else concat (map (seed_pieces (bl_seedable b)) (bl_memory b))) in
         if bl_seedable b \<noteq> [] \<and> MAX_RANGES < length kept then Inl TooManyRanges
         else merge_ranges [] (sort_key (\<lambda>r. (mr_base r, mr_len r)) kept)))"

text \<open>\<^verbatim>\<open>dedup_by_key\<close>: of neighbours with equal keys the first stays.\<close>

fun dedup_by_key :: "('a \<Rightarrow> 'b) \<Rightarrow> 'a list \<Rightarrow> 'a list" where
  "dedup_by_key f [] = []"
| "dedup_by_key f [x] = [x]"
| "dedup_by_key f (x # y # xs) = (if f x = f y then dedup_by_key f (x # xs) else x # dedup_by_key f (y # xs))"

fun contradicts :: "(nat \<times> node_id) list \<Rightarrow> bool" where
  "contradicts (p # q # ps) = (fst p = fst q \<and> snd p \<noteq> snd q \<or> contradicts (q # ps))"
| "contradicts _ = False"

definition build_cpus :: "builder \<Rightarrow> topology_error + (nat \<times> node_id) list" where
  "build_cpus b =
     (let cpus = sort_key fst (bl_cpus b) in
      if contradicts cpus then Inl DuplicateCpu else Inr (dedup_by_key fst cpus))"

fun matrix_cells :: "builder \<Rightarrow> (node_id \<times> node_id) list \<Rightarrow> topology_error + nat list" where
  "matrix_cells b [] = Inr []"
| "matrix_cells b ((from, to) # pairs) =
     (case (position (\<lambda>id. id = from) (bl_matrix_ids b), position (\<lambda>id. id = to) (bl_matrix_ids b)) of
        (Some i, Some j) \<Rightarrow>
          (case matrix_cells b pairs of
             Inl e \<Rightarrow> Inl e
           | Inr cells \<Rightarrow> Inr (bl_matrix b ! (i * bl_matrix_size b + j) # cells))
      | _ \<Rightarrow> Inl UnknownNode)"

definition build_distances :: "bool \<Rightarrow> builder \<Rightarrow> node_id list \<Rightarrow> topology_error + distances" where
  "build_distances reserved b nodes =
     (let n = bl_matrix_size b in
      if n = 0 then Inr distances_none
      else if length (bl_matrix b) \<noteq> n * n then Inl MalformedMatrix
      else if length (bl_matrix_ids b) \<noteq> n then Inl MalformedMatrix
      else if list_ex (\<lambda>i. bl_matrix b ! (i * n + i) \<noteq> LOCAL_DISTANCE) [0 ..< n] then Inl MalformedMatrix
      else if list_ex (\<lambda>from. list_ex (\<lambda>to. from \<noteq> to \<and> bl_matrix b ! (from * n + to) < LOCAL_DISTANCE) [0 ..< n]) [0 ..< n]
      then Inl MalformedMatrix
      else if \<not> reserved then Inl TooManyNodes
      else
        (case matrix_cells b (List.product nodes nodes) of
           Inl e \<Rightarrow> Inl e
         | Inr cells \<Rightarrow> Inr \<lparr>ds_cells = cells, ds_size = length nodes\<rparr>))"

definition build :: "bool \<Rightarrow> builder \<Rightarrow> topology_error + topology" where
  "build reserved b =
     (if MAX_NODES < length (bl_nodes b) then Inl TooManyNodes
      else if MAX_RANGES < length (bl_memory b) then Inl TooManyRanges
      else if MAX_CPUS < length (bl_cpus b) then Inl TooManyCpus
      else
        (case build_memory b of
           Inl e \<Rightarrow> Inl e
         | Inr memory \<Rightarrow>
             (case build_cpus b of
                Inl e \<Rightarrow> Inl e
              | Inr cpus \<Rightarrow>
                  (let nodes = remdups_adj (sort (bl_nodes b)) in
                   case build_distances reserved b nodes of
                     Inl e \<Rightarrow> Inl e
                   | Inr ds \<Rightarrow> Inr \<lparr>tp_nodes = nodes, tp_memory = memory, tp_cpus = cpus, tp_distances = ds\<rparr>))))"

section \<open>From a device tree\<close>

definition UNKNOWN_NODE :: nat where "UNKNOWN_NODE = 4294967295"

fun note_ids :: "(nat \<times> nat \<times> nat) list \<Rightarrow> node_id list \<Rightarrow> builder \<Rightarrow> node_id list \<times> builder" where
  "note_ids [] ids b = (ids, b)"
| "note_ids ((from, to, _) # triples) ids b =
     (let ids1 = (if from \<in> set ids then ids else ids @ [from]);
          ids2 = (if to \<in> set ids1 then ids1 else ids1 @ [to])
      in note_ids triples ids2 (note_node to (note_node from b)))"

text \<open>Every id of a triple was collected into \<open>ids\<close>, so the last branch, a panic of the source, is not reached.\<close>

fun state_cells :: "node_id list \<Rightarrow> (nat \<times> nat \<times> nat) list \<Rightarrow> (nat \<times> nat) list \<Rightarrow> nat list \<Rightarrow> topology_error + nat list" where
  "state_cells ids [] stated cells = Inr cells"
| "state_cells ids ((from, to, d) # triples) stated cells =
     (case (position (\<lambda>id. id = from) ids, position (\<lambda>id. id = to) ids) of
        (Some i, Some j) \<Rightarrow>
          (if (i, j) \<in> set stated \<and> cells ! (i * length ids + j) \<noteq> d then Inl MalformedMatrix
           else state_cells ids triples (stated @ [(i, j)]) (cells[i * length ids + j := d]))
      | _ \<Rightarrow> Inl UnknownNode)"

definition from_device_tree ::
    "bool \<Rightarrow> (nat \<times> nat \<times> nat) list \<Rightarrow> (nat \<times> nat) list \<Rightarrow> (nat \<times> nat \<times> nat) list \<Rightarrow> topology_error + topology" where
  "from_device_tree reserved banks cpus triples =
     (let b0 = fold (\<lambda>(base, len, node) b. if node \<noteq> UNKNOWN_NODE then add_memory base len node b else b) banks builder_new;
          b1 = fold (\<lambda>(hardware_id, node) b. if node \<noteq> UNKNOWN_NODE then add_cpu hardware_id node b else b) cpus b0
      in if triples = [] then build reserved b1
         else
           (case note_ids triples [] b1 of
              (ids0, b2) \<Rightarrow>
                (let ids = sort ids0; n = length ids in
                 if MAX_NODES < n then Inl TooManyNodes
                 else if \<not> reserved then Inl TooManyNodes
                 else
                   (case state_cells ids triples []
                       (map (\<lambda>(from, to). if from = to then LOCAL_DISTANCE else REMOTE_DISTANCE) (List.product [0 ..< n] [0 ..< n])) of
                      Inl e \<Rightarrow> Inl e
                    | Inr cells \<Rightarrow> build reserved (set_matrix_for ids cells b2)))))"

end
