(* ===== verification/Topology_Properties.thy ===== *)
theory Topology_Properties
  imports Topology "HOL-Library.Code_Target_Nat"
begin

text \<open>
  The table the builder makes says about every address what the firmware's records said, and the
  builder refuses for a contradiction only when there is one.
\<close>

section \<open>What a list of ranges says about an address\<close>

definition says :: "mrange list \<Rightarrow> nat \<Rightarrow> node_id \<Rightarrow> bool" where
  "says rs a n \<longleftrightarrow> (\<exists>r \<in> set rs. range_contains r a \<and> mr_node r = n)"

definition good_range :: "mrange \<Rightarrow> bool" where
  "good_range r \<longleftrightarrow> 0 < mr_len r \<and> mr_base r + mr_len r \<le> U64_MAX"

definition ascending :: "mrange list \<Rightarrow> bool" where
  "ascending rs \<longleftrightarrow> sorted_wrt (\<lambda>r s. range_end r \<le> mr_base s) rs"

lemma says_simps [simp]:
  "\<not> says [] a n" "says (r # rs) a n \<longleftrightarrow> range_contains r a \<and> mr_node r = n \<or> says rs a n"
  "says (rs @ ss) a n \<longleftrightarrow> says rs a n \<or> says ss a n" "says (rev rs) a n \<longleftrightarrow> says rs a n"
  by (auto simp: says_def)

lemma good_end: "good_range r \<Longrightarrow> range_end r = mr_base r + mr_len r"
  by (simp add: good_range_def range_end_def)

lemma good_below_end: "good_range r \<Longrightarrow> mr_base r < range_end r"
  by (simp add: good_end) (simp add: good_range_def)

section \<open>The merge\<close>

text \<open>The accumulator holds what has been merged, last first, and lies at or before the ranges to come.\<close>

definition merging :: "mrange list \<Rightarrow> mrange list \<Rightarrow> bool" where
  "merging acc rs \<longleftrightarrow> (\<forall>r \<in> set acc \<union> set rs. good_range r) \<and> ascending (rev acc) \<and> sorted (map mr_base rs) \<and>
     (\<forall>r. acc \<noteq> [] \<longrightarrow> r \<in> set rs \<longrightarrow> mr_base (hd acc) \<le> mr_base r)"

lemma merging_push:
  assumes "merging (p # acc) (r # rs)" "range_end p \<le> mr_base r"
  shows "merging (r # p # acc) rs"
proof -
  have "range_end q \<le> mr_base r" if "q \<in> set acc" for q
  proof -
    have "range_end q \<le> mr_base p" "good_range p"
      using assms(1) that by (auto simp: merging_def ascending_def sorted_wrt_append)
    then show ?thesis
      using assms(2) good_below_end [of p] by linarith
  qed
  with assms show ?thesis
    by (auto simp: merging_def ascending_def sorted_wrt_append)
qed

lemma merging_join:
  assumes m: "merging (p # acc) (r # rs)" and touch: "mr_base r \<le> range_end p"
  defines "joined \<equiv> p\<lparr>mr_len := max (range_end p) (range_end r) - mr_base p\<rparr>"
  shows "merging (joined # acc) rs" and "range_contains joined a \<longleftrightarrow> range_contains p a \<or> range_contains r a"
proof -
  have good: "good_range p" "good_range r" "mr_base p \<le> mr_base r"
    using m by (auto simp: merging_def)
  have ends: "range_end p = mr_base p + mr_len p" "range_end r = mr_base r + mr_len r"
    using good good_end by blast+
  have "good_range joined"
    using good unfolding good_range_def joined_def ends by auto
  moreover from this have stop: "range_end joined = max (range_end p) (range_end r)"
    using good_end [of joined] good_below_end [OF good(1)] by (simp add: joined_def)
  moreover have base: "mr_base joined = mr_base p"
    by (simp add: joined_def)
  ultimately show "merging (joined # acc) rs"
    using m by (auto simp: merging_def ascending_def sorted_wrt_append)
  show "range_contains joined a \<longleftrightarrow> range_contains p a \<or> range_contains r a"
    unfolding range_contains_def base stop using good(3) touch by auto
qed

lemma merging_overlap:
  assumes "merging (p # acc) (r # rs)"
  shows "range_overlaps p r \<longleftrightarrow> mr_base r < range_end p"
proof -
  have "mr_base p \<le> mr_base r" "good_range r"
    using assms by (auto simp: merging_def)
  then show ?thesis
    using good_below_end [of r] by (auto simp: range_overlaps_def)
qed

definition contradiction :: "mrange list \<Rightarrow> bool" where
  "contradiction rs \<longleftrightarrow> (\<exists>a n n'. n \<noteq> n' \<and> says rs a n \<and> says rs a n')"

lemma merge_ranges_spec:
  assumes "merging acc rs"
  shows "case merge_ranges acc rs of
     Inr out \<Rightarrow> (\<forall>r \<in> set out. good_range r) \<and> ascending out \<and> (\<forall>a n. says out a n \<longleftrightarrow> says acc a n \<or> says rs a n)
   | Inl e \<Rightarrow> e = ContradictoryOverlap \<and> contradiction (acc @ rs)"
  using assms
proof (induction acc rs rule: merge_ranges.induct)
  case (1 merged)
  then show ?case
    by (auto simp: merging_def)
next
  case (2 r rs)
  from "2.prems" have "merging [r] rs"
    by (auto simp: merging_def ascending_def)
  from "2.IH" [OF this] show ?case
    by (auto simp: contradiction_def split: sum.splits)
next
  case (3 p acc r rs)
  note overlap = merging_overlap [OF "3.prems"]
  consider (join) "mr_base r \<le> range_end p" "mr_node p = mr_node r"
    | (refuse) "mr_base r < range_end p" "mr_node p \<noteq> mr_node r"
    | (push) "range_end p \<le> mr_base r" "\<not> (mr_base r \<le> range_end p \<and> mr_node p = mr_node r)"
    by linarith
  then show ?case
  proof cases
    case join
    let ?joined = "p\<lparr>mr_len := max (range_end p) (range_end r) - mr_base p\<rparr>"
    have cond: "range_overlaps p r \<or> range_end p = mr_base r"
      using join(1) overlap by auto
    have "merging (?joined # acc) rs" and "\<And>a. range_contains ?joined a \<longleftrightarrow> range_contains p a \<or> range_contains r a"
      using merging_join [OF "3.prems" join(1)] by blast+
    with "3.IH"(2) [OF cond _ refl] cond join(2) show ?thesis
      by (auto simp: Let_def contradiction_def split: sum.splits)
  next
    case refuse
    have "range_contains p (mr_base r)" "range_contains r (mr_base r)"
      using "3.prems" refuse(1) good_below_end [of r] by (auto simp: merging_def range_contains_def)
    with refuse overlap show ?thesis
      by (auto simp: contradiction_def)
  next
    case push
    have not: "\<not> range_overlaps p r"
      using push(1) overlap by simp
    have m: "merging (r # p # acc) rs"
      by (rule merging_push [OF "3.prems" push(1)])
    have "merge_ranges (p # acc) (r # rs) = merge_ranges (r # p # acc) rs"
      using not push by auto
    moreover have "case merge_ranges (r # p # acc) rs of
       Inr out \<Rightarrow> (\<forall>r \<in> set out. good_range r) \<and> ascending out \<and> (\<forall>a n. says out a n \<longleftrightarrow> says (r # p # acc) a n \<or> says rs a n)
     | Inl e \<Rightarrow> e = ContradictoryOverlap \<and> contradiction ((r # p # acc) @ rs)"
      using "3.IH"(1,3) m not push by (cases "range_end p = mr_base r") auto
    ultimately show ?thesis
      by (auto simp: contradiction_def split: sum.splits)
  qed
qed

section \<open>The lookup\<close>

lemma node_of_address_says:
  assumes asc: "ascending (tp_memory t)" and good: "\<forall>r \<in> set (tp_memory t). good_range r"
  shows "node_of_address t a = Node n \<longleftrightarrow> says (tp_memory t) a n"
proof -
  let ?rs = "tp_memory t"
  let ?at = "partition_point (\<lambda>r. range_end r \<le> a) ?rs"
  have below: "range_end (?rs ! i) \<le> a" if "i < ?at" for i
    using that unfolding partition_point_def by (metis nth_mem set_takeWhileD takeWhile_nth)
  have at: "\<not> range_end (?rs ! ?at) \<le> a" if "?at < length ?rs"
    using that nth_length_takeWhile unfolding partition_point_def by blast
  show ?thesis
  proof
    assume "node_of_address t a = Node n"
    then show "says ?rs a n"
      by (auto simp: node_of_address_def Let_def says_def split: if_splits)
  next
    assume "says ?rs a n"
    then obtain i where i: "i < length ?rs" "range_contains (?rs ! i) a" "mr_node (?rs ! i) = n"
      by (auto simp: says_def in_set_conv_nth)
    have "\<not> i < ?at"
      using below [of i] i(2) by (auto simp: range_contains_def)
    moreover have "\<not> ?at < i"
    proof
      assume less: "?at < i"
      then have "range_end (?rs ! ?at) \<le> mr_base (?rs ! i)"
        using asc i(1) by (simp add: ascending_def sorted_wrt_iff_nth_less)
      then show False
        using at less i by (simp add: range_contains_def)
    qed
    ultimately have "?at = i"
      by simp
    with i show "node_of_address t a = Node n"
      by (simp add: node_of_address_def Let_def)
  qed
qed

section \<open>The build\<close>

definition seeded :: "(nat \<times> nat) list \<Rightarrow> nat \<Rightarrow> bool" where
  "seeded spans a \<longleftrightarrow> (\<exists>(base, len) \<in> set spans. base \<le> a \<and> a < saturating_add base len)"

lemma seed_pieces_good:
  assumes "good_range r" "p \<in> set (seed_pieces spans r)"
  shows "good_range p"
proof -
  obtain base len where "(base, len) \<in> set spans" "max (mr_base r) base < min (range_end r) (saturating_add base len)"
    and p: "p = \<lparr>mr_base = max (mr_base r) base, mr_len = min (range_end r) (saturating_add base len) - max (mr_base r) base, mr_node = mr_node r\<rparr>"
    using assms(2) by (auto simp: seed_pieces_def Let_def split: if_splits)
  then show ?thesis
    using assms(1) good_end [OF assms(1)] unfolding good_range_def by (simp add: min.coboundedI1)
qed

lemma matrix_cells_error: "matrix_cells b pairs = Inl e \<Longrightarrow> e = UnknownNode"
  by (induction b pairs rule: matrix_cells.induct) (auto split: option.splits sum.splits)

lemma seed_pieces_says:
  assumes "good_range r"
  shows "says (seed_pieces spans r) a n \<longleftrightarrow> range_contains r a \<and> mr_node r = n \<and> seeded spans a"
proof (induction spans)
  case Nil
  then show ?case
    by (simp add: seed_pieces_def seeded_def)
next
  case (Cons span spans)
  obtain base len where span: "span = (base, len)"
    by fastforce
  let ?low = "max (mr_base r) base" and ?high = "min (range_end r) (saturating_add base len)"
  let ?piece = "\<lparr>mr_base = ?low, mr_len = ?high - ?low, mr_node = mr_node r\<rparr>"
  have "range_contains ?piece a \<longleftrightarrow> ?low \<le> a \<and> a < ?high" if "?low < ?high"
  proof -
    have "?low + (?high - ?low) = ?high" "?high \<le> U64_MAX"
      using that assms good_end [OF assms] by (auto simp: good_range_def)
    then have "range_end ?piece = ?high"
      by (simp only: range_end_def mrange.select_convs saturating_add_exact)
    then show ?thesis
      by (simp only: range_contains_def mrange.select_convs)
  qed
  then have "says (if ?low < ?high then [?piece] else []) a n \<longleftrightarrow>
      range_contains r a \<and> mr_node r = n \<and> base \<le> a \<and> a < saturating_add base len"
    by (auto simp: range_contains_def)
  moreover have "seed_pieces (span # spans) r = (if ?low < ?high then [?piece] else []) @ seed_pieces spans r"
    by (simp add: seed_pieces_def span Let_def)
  ultimately show ?case
    using Cons.IH by (auto simp: seeded_def span)
qed

lemma says_concat: "says (concat (map f rs)) a n \<longleftrightarrow> (\<exists>r \<in> set rs. says (f r) a n)"
  by (auto simp: says_def)

definition reported :: "builder \<Rightarrow> nat \<Rightarrow> node_id \<Rightarrow> bool" where
  "reported b a n \<longleftrightarrow> says (bl_memory b) a n \<and> (bl_seedable b = [] \<or> seeded (bl_seedable b) a)"

lemma build_memory_spec:
  "case build_memory b of
     Inr out \<Rightarrow> (\<forall>r \<in> set out. good_range r) \<and> ascending out \<and> (\<forall>a n. says out a n \<longleftrightarrow> reported b a n)
   | Inl e \<Rightarrow> e = ContradictoryOverlap \<longrightarrow> (\<exists>a n n'. n \<noteq> n' \<and> reported b a n \<and> reported b a n')"
proof (cases "list_ex (\<lambda>r. mr_len r = 0 \<or> checked_add (mr_base r) (mr_len r) = None) (bl_memory b)")
  case True
  then show ?thesis
    by (simp add: build_memory_def)
next
  case False
  then have good: "good_range r" if "r \<in> set (bl_memory b)" for r
    using that by (auto simp: list_ex_iff good_range_def checked_add_def split: if_splits)
  define kept where "kept = (if bl_seedable b = [] then bl_memory b else concat (map (seed_pieces (bl_seedable b)) (bl_memory b)))"
  let ?sorted = "sort_key (\<lambda>r. (mr_base r, mr_len r)) kept"
  have kept: "says kept a n \<longleftrightarrow> reported b a n" for a n
    using good seed_pieces_says by (auto simp: kept_def reported_def says_concat says_def [of "bl_memory b"])
  have "says ?sorted a n \<longleftrightarrow> reported b a n" for a n
    using kept by (simp add: says_def)
  moreover have "merging [] ?sorted"
  proof -
    have "sorted (map (\<lambda>r. (mr_base r, mr_len r)) ?sorted)"
      by simp
    then have "sorted (map mr_base ?sorted)"
      by (auto simp: sorted_wrt_map less_eq_prod_def elim!: sorted_wrt_mono_rel [rotated])
    then show ?thesis
      using good seed_pieces_good by (auto simp: merging_def ascending_def kept_def)
  qed
  moreover have "build_memory b = (if bl_seedable b \<noteq> [] \<and> MAX_RANGES < length kept then Inl TooManyRanges else merge_ranges [] ?sorted)"
    using False by (simp add: build_memory_def Let_def kept_def)
  ultimately show ?thesis
    using merge_ranges_spec [of "[]" ?sorted] by (auto simp: contradiction_def split: sum.splits)
qed

section \<open>Properties\<close>

text \<open>
  C33: The topology says what the firmware said. If the builder accepts its records, then for every
  address the binary search answers node \<open>n\<close> exactly when a memory record for \<open>n\<close> covers the address
  (and the address lies in a span the allocator is seeded with, where the caller gave such spans), and
  the table is well formed: non-empty ranges in ascending order without overlap. If it refuses for a
  contradictory overlap, two records really give one address to two nodes.
\<close>

theorem topology_reads_the_tables:
  "case build reserved b of
     Inr t \<Rightarrow> (\<forall>a n. node_of_address t a = Node n \<longleftrightarrow> reported b a n) \<and>
       sorted_wrt (\<lambda>r s. range_end r \<le> mr_base s) (tp_memory t) \<and> (\<forall>r \<in> set (tp_memory t). 0 < mr_len r)
   | Inl e \<Rightarrow> e = ContradictoryOverlap \<longrightarrow> (\<exists>a n n'. n \<noteq> n' \<and> reported b a n \<and> reported b a n')"
proof (cases "build reserved b")
  case (Inl e)
  then show ?thesis
    using build_memory_spec [of b]
    by (auto simp: build_def build_cpus_def build_distances_def Let_def split: if_splits sum.splits dest: matrix_cells_error)
next
  case (Inr t)
  then obtain memory where mem: "build_memory b = Inr memory" "tp_memory t = memory"
    by (auto simp: build_def Let_def split: if_splits sum.splits)
  with build_memory_spec [of b] have spec: "\<forall>r \<in> set (tp_memory t). good_range r" "ascending (tp_memory t)"
    "\<And>a n. says (tp_memory t) a n \<longleftrightarrow> reported b a n"
    by simp_all
  have "\<forall>a n. node_of_address t a = Node n \<longleftrightarrow> reported b a n"
    using node_of_address_says [OF spec(2,1)] spec(3) by blast
  with spec(1,2) Inr show ?thesis
    by (simp add: ascending_def good_range_def)
qed

definition sample_tables :: builder where
  "sample_tables = add_memory 8192 4096 1 (add_memory 4096 4096 0 (add_memory 0 8192 0 builder_new))"

theorem topology_reads_the_tables_witness:
  "\<exists>t. build True sample_tables = Inr t \<and> node_of_address t 8192 = Node 1 \<and> node_of_address t 4095 = Node 0 \<and>
    (\<forall>n. node_of_address t 12288 \<noteq> Node n)"
proof -
  have "(case build True sample_tables of Inr _ \<Rightarrow> True | Inl _ \<Rightarrow> False)"
    by code_simp
  then obtain t where t: "build True sample_tables = Inr t"
    by (auto split: sum.splits)
  have reads: "\<forall>a n. node_of_address t a = Node n \<longleftrightarrow> reported sample_tables a n"
    using topology_reads_the_tables [where reserved = True and b = sample_tables] unfolding t by simp
  have "reported sample_tables 8192 1" "reported sample_tables 4095 0" "\<And>n. \<not> reported sample_tables 12288 n"
    by (simp_all add: reported_def says_def sample_tables_def add_memory_def note_node_def builder_new_def Let_def
        range_contains_def range_end_def saturating_add_def U64_MAX_def)
  with reads t show ?thesis
    by blast
qed

end
