(* ===== verification/Acpi.thy ===== *)
theory Acpi
  imports Topology "HOL-Library.Monad_Syntax"
begin

text \<open>
  The decoders of the firmware's affinity and distance tables (\<^verbatim>\<open>src/src/topology/src/acpi.rs\<close>). A table is
  a list of bytes; a read outside it is a panic of the source and the value \<^term>\<open>None\<close> here, so that a
  decoder returns \<open>Some\<close> of a result and of the builder it has fed, which keeps what was added before an
  error. Whether the cells of a distance table can be reserved is an argument. The builders of tables
  in \<^verbatim>\<open>src/src/topology/src/tests.rs\<close> follow at the end: they are what a decoder is measured against.
\<close>

section \<open>Reading\<close>

definition HEADER_LEN :: nat where "HEADER_LEN = 36"
definition SRAT_PROCESSOR_LOCAL_APIC :: nat where "SRAT_PROCESSOR_LOCAL_APIC = 0"
definition SRAT_MEMORY :: nat where "SRAT_MEMORY = 1"
definition SRAT_PROCESSOR_LOCAL_X2APIC :: nat where "SRAT_PROCESSOR_LOCAL_X2APIC = 2"
definition FLAG_ENABLED :: nat where "FLAG_ENABLED = 1"
definition FLAG_HOT_PLUGGABLE :: nat where "FLAG_HOT_PLUGGABLE = 2"

definition byte :: "u8 list \<Rightarrow> nat \<Rightarrow> nat option" where
  "byte bytes at = (if at < length bytes then Some (unat (bytes ! at)) else None)"

definition from_le_bytes :: "nat list \<Rightarrow> nat" where
  "from_le_bytes bs = foldr (\<lambda>b n. b + 256 * n) bs 0"

fun le_bytes :: "nat \<Rightarrow> u8 list \<Rightarrow> nat \<Rightarrow> nat list option" where
  "le_bytes 0 bytes at = Some []"
| "le_bytes (Suc n) bytes at = do { b \<leftarrow> byte bytes at; bs \<leftarrow> le_bytes n bytes (at + 1); Some (b # bs) }"

definition le16 :: "u8 list \<Rightarrow> nat \<Rightarrow> nat option" where
  "le16 bytes at = map_option from_le_bytes (le_bytes 2 bytes at)"

definition le32 :: "u8 list \<Rightarrow> nat \<Rightarrow> nat option" where
  "le32 bytes at = map_option from_le_bytes (le_bytes 4 bytes at)"

definition le64 :: "u8 list \<Rightarrow> nat \<Rightarrow> nat option" where
  "le64 bytes at = map_option from_le_bytes (le_bytes 8 bytes at)"

definition header_ok :: "u8 list \<Rightarrow> u8 list \<Rightarrow> (topology_error + nat) option" where
  "header_ok bytes signature =
     (if length bytes < HEADER_LEN then Some (Inl Truncated)
      else if take 4 bytes \<noteq> signature then Some (Inl WrongSignature)
      else do {
        len \<leftarrow> le32 bytes 4;
        if len < HEADER_LEN \<or> length bytes < len then Some (Inl Truncated)
        else if fold (\<lambda>b acc. acc + b) (take len bytes) 0 \<noteq> 0 then Some (Inl BadChecksum)
        else Some (Inr len)
      })"

section \<open>Affinities\<close>

definition SRAT :: "u8 list" where "SRAT = [83, 82, 65, 84]"
definition SLIT :: "u8 list" where "SLIT = [83, 76, 73, 84]"

definition declared :: "nat \<Rightarrow> nat option" where
  "declared kind =
     (if kind = SRAT_PROCESSOR_LOCAL_APIC then Some 16
      else if kind = SRAT_PROCESSOR_LOCAL_X2APIC then Some 24
      else if kind = SRAT_MEMORY then Some 40
      else None)"

definition srat_entry :: "u8 list \<Rightarrow> nat \<Rightarrow> nat \<Rightarrow> nat \<Rightarrow> builder \<Rightarrow> builder option" where
  "srat_entry bytes at kind entry_len into =
     (if kind = SRAT_PROCESSOR_LOCAL_APIC \<and> 16 \<le> entry_len then do {
        flags \<leftarrow> le32 bytes (at + 4);
        if flags AND FLAG_ENABLED \<noteq> 0 then do {
          low \<leftarrow> byte bytes (at + 2);
          b9 \<leftarrow> byte bytes (at + 9);
          b10 \<leftarrow> byte bytes (at + 10);
          b11 \<leftarrow> byte bytes (at + 11);
          let high = b9 OR push_bit 8 b10 OR push_bit 16 b11;
          apic \<leftarrow> byte bytes (at + 3);
          Some (add_cpu apic (low OR push_bit 8 high) into)
        } else Some into
      } else if kind = SRAT_PROCESSOR_LOCAL_X2APIC \<and> 24 \<le> entry_len then do {
        flags \<leftarrow> le32 bytes (at + 12);
        if flags AND FLAG_ENABLED \<noteq> 0 then do {
          apic \<leftarrow> le32 bytes (at + 8);
          node \<leftarrow> le32 bytes (at + 4);
          Some (add_cpu apic node into)
        } else Some into
      } else if kind = SRAT_MEMORY \<and> 40 \<le> entry_len then do {
        node \<leftarrow> le32 bytes (at + 2);
        flags \<leftarrow> le32 bytes (at + 28);
        base_low \<leftarrow> le32 bytes (at + 8);
        base_high \<leftarrow> le32 bytes (at + 12);
        len_low \<leftarrow> le32 bytes (at + 16);
        len_high \<leftarrow> le32 bytes (at + 20);
        let base = base_low OR push_bit 32 base_high;
        let len = len_low OR push_bit 32 len_high;
        if flags AND FLAG_ENABLED \<noteq> 0 \<and> flags AND FLAG_HOT_PLUGGABLE = 0 \<and> 0 < len then Some (add_memory base len node into)
        else if flags AND FLAG_ENABLED \<noteq> 0 then Some (note_node node into)
        else Some into
      } else Some into)"

text \<open>The loop over the entries. It ends because an entry is at least two bytes long and lies inside the table.\<close>

function srat_loop :: "u8 list \<Rightarrow> nat \<Rightarrow> nat \<Rightarrow> builder \<Rightarrow> ((topology_error + unit) \<times> builder) option" where
  "srat_loop bytes len at into =
     (if at + 2 \<le> len then do {
        kind \<leftarrow> byte bytes at;
        entry_len \<leftarrow> byte bytes (at + 1);
        if entry_len < 2 \<or> len < at + entry_len then Some (Inl Truncated, into)
        else if (case declared kind of None \<Rightarrow> False | Some needed \<Rightarrow> entry_len < needed) then Some (Inl Truncated, into)
        else do {
          into' \<leftarrow> srat_entry bytes at kind entry_len into;
          srat_loop bytes len (at + entry_len) into'
        }
      } else Some (Inr (), into))"
  by pat_completeness auto
termination
  by (relation "measure (\<lambda>(bytes, len, at, into). len - at)") auto

declare srat_loop.simps [simp del]

definition parse_srat :: "u8 list \<Rightarrow> builder \<Rightarrow> ((topology_error + unit) \<times> builder) option" where
  "parse_srat bytes into = do {
     header \<leftarrow> header_ok bytes SRAT;
     case header of
       Inl e \<Rightarrow> Some (Inl e, into)
     | Inr len \<Rightarrow> do {
         result \<leftarrow> srat_loop bytes len 48 into;
         case fst result of
           Inl e \<Rightarrow> Some result
         | Inr _ \<Rightarrow> do { _ \<leftarrow> le16 bytes 0; _ \<leftarrow> le64 bytes 0; Some result }
       }
   }"

section \<open>Distances\<close>

definition parse_slit :: "bool \<Rightarrow> u8 list \<Rightarrow> builder \<Rightarrow> ((topology_error + unit) \<times> builder) option" where
  "parse_slit reserved bytes into = do {
     header \<leftarrow> header_ok bytes SLIT;
     case header of
       Inl e \<Rightarrow> Some (Inl e, into)
     | Inr len \<Rightarrow>
         if len < HEADER_LEN + 8 then Some (Inl Truncated, into)
         else do {
           n \<leftarrow> le64 bytes HEADER_LEN;
           if n = 0 \<or> MAX_NODES < n then Some (Inl TooManyNodes, into)
           else
             let cells_at = HEADER_LEN + 8 in
             if len < cells_at + n * n then Some (Inl Truncated, into)
             else if \<not> reserved then Some (Inl TooManyNodes, into)
             else do {
               cells \<leftarrow> le_bytes (n * n) bytes cells_at;
               if list_ex (\<lambda>index. cells ! (index * n + index) \<noteq> LOCAL_DISTANCE) [0 ..< n] then Some (Inl MalformedMatrix, into)
               else if list_ex (\<lambda>from. list_ex (\<lambda>to. from \<noteq> to \<and> cells ! (from * n + to) < LOCAL_DISTANCE) [0 ..< n]) [0 ..< n]
               then Some (Inl MalformedMatrix, into)
               else Some (Inr (), set_matrix n cells into)
             }
         }
   }"

section \<open>Tables\<close>

definition to_le_bytes :: "nat \<Rightarrow> nat \<Rightarrow> u8 list" where
  "to_le_bytes n x = map (\<lambda>i. of_nat (x div 256 ^ i)) [0 ..< n]"

definition srat_memory :: "nat \<Rightarrow> nat \<Rightarrow> nat \<Rightarrow> nat \<Rightarrow> u8 list" where
  "srat_memory node base len flags =
     [1, 40] @ to_le_bytes 4 node @ [0, 0] @ to_le_bytes 4 base @ to_le_bytes 4 (base div 2 ^ 32) @
     to_le_bytes 4 len @ to_le_bytes 4 (len div 2 ^ 32) @ [0, 0, 0, 0] @ to_le_bytes 4 flags @ replicate 8 0"

definition srat_cpu :: "nat \<Rightarrow> nat \<Rightarrow> nat \<Rightarrow> u8 list" where
  "srat_cpu node apic flags =
     [0, 16, of_nat node, of_nat apic] @ to_le_bytes 4 flags @
     [0, of_nat (node div 256), of_nat (node div 65536), of_nat (node div 16777216)] @ replicate 4 0"

definition srat_x2apic :: "nat \<Rightarrow> nat \<Rightarrow> nat \<Rightarrow> u8 list" where
  "srat_x2apic node apic flags =
     [2, 24, 0, 0] @ to_le_bytes 4 node @ to_le_bytes 4 apic @ to_le_bytes 4 flags @ replicate 8 0"

definition finish :: "u8 list \<Rightarrow> u8 list \<Rightarrow> u8 list" where
  "finish bytes signature =
     (let bytes = signature @ drop 4 bytes;
          bytes = take 4 bytes @ to_le_bytes 4 (length bytes) @ drop 8 bytes;
          bytes = bytes[9 := 0];
          all_bytes = fold (\<lambda>b acc. acc + b) bytes 0
      in bytes[9 := 0 - all_bytes])"

definition srat :: "u8 list list \<Rightarrow> u8 list" where
  "srat entries = finish (replicate 48 0 @ concat entries) SRAT"

definition slit :: "nat \<Rightarrow> u8 list \<Rightarrow> u8 list" where
  "slit n cells = finish (replicate 36 0 @ to_le_bytes 8 n @ cells) SLIT"

end
