(* ===== verification/Acpi_Properties.thy ===== *)
theory Acpi_Properties
  imports Acpi
begin

text \<open>
  What the table decoders promise: they return for every list of bytes and never read outside it, they
  take the entries in order up to the first that does not fit, they keep to the widths of the source's
  types, and they read back what the builders of
  tables write.
\<close>

section \<open>Reads inside the table\<close>

lemma byte_inside: "at < length bytes \<Longrightarrow> byte bytes at = Some (unat (bytes ! at))"
  by (simp add: byte_def)

lemma le_bytes_inside: "at + n \<le> length bytes \<Longrightarrow> le_bytes n bytes at = Some (map unat (take n (drop at bytes)))"
proof (induction n arbitrary: at)
  case (Suc n)
  then have "drop at bytes = bytes ! at # drop (at + 1) bytes"
    by (simp add: Cons_nth_drop_Suc)
  with Suc show ?case
    by (simp add: byte_inside)
qed simp

lemma le_inside:
  "at + 2 \<le> length bytes \<Longrightarrow> le16 bytes at = Some (from_le_bytes (map unat (take 2 (drop at bytes))))"
  "at + 4 \<le> length bytes \<Longrightarrow> le32 bytes at = Some (from_le_bytes (map unat (take 4 (drop at bytes))))"
  "at + 8 \<le> length bytes \<Longrightarrow> le64 bytes at = Some (from_le_bytes (map unat (take 8 (drop at bytes))))"
  by (simp_all add: le16_def le32_def le64_def le_bytes_inside)

lemma header_ok_returns:
  "\<exists>r. header_ok bytes signature = Some r \<and> (\<forall>len. r = Inr len \<longrightarrow> HEADER_LEN \<le> len \<and> len \<le> length bytes)"
  by (auto simp: header_ok_def HEADER_LEN_def le_inside)

lemma srat_entry_returns:
  assumes "at + entry_len \<le> length bytes"
  shows "\<exists>into'. srat_entry bytes at kind entry_len into = Some into'"
  using assms by (auto simp: srat_entry_def le_inside byte_inside Let_def)

lemma srat_loop_returns:
  assumes "len \<le> length bytes"
  shows "\<exists>r. srat_loop bytes len at into = Some r"
  using assms
proof (induction bytes len at into rule: srat_loop.induct)
  case (1 bytes len at into)
  show ?case
  proof (cases "at + 2 \<le> len")
    case True
    then have reads: "byte bytes at = Some (unat (bytes ! at))" "byte bytes (at + 1) = Some (unat (bytes ! Suc at))"
      using "1.prems" by (simp_all add: byte_inside)
    let ?n = "unat (bytes ! Suc at)"
    show ?thesis
    proof (cases "?n < 2 \<or> len < at + ?n \<or> (case declared (unat (bytes ! at)) of None \<Rightarrow> False | Some needed \<Rightarrow> ?n < needed)")
      case False
      then obtain into' where entry: "srat_entry bytes at (unat (bytes ! at)) ?n into = Some into'"
        using srat_entry_returns [of at ?n bytes] "1.prems" by fastforce
      have "\<exists>r. srat_loop bytes len (at + ?n) into' = Some r"
        by (rule "1.IH" [OF True reads _ _ entry "1.prems"]) (use False in auto)
      with False True reads entry show ?thesis
        by (subst srat_loop.simps) auto
    qed (use True reads in \<open>subst srat_loop.simps; auto\<close>)
  qed (subst srat_loop.simps; simp)
qed

text \<open>
  The entries of an affinity table, told without a loop: an entry fits when its header and the length
  it gives lie inside the table and the length covers the fields of its kind, and a walk takes the
  entries that fit one behind the other.
\<close>

definition entry_len :: "u8 list \<Rightarrow> nat \<Rightarrow> nat" where
  "entry_len bytes at = unat (bytes ! Suc at)"

definition entry_fits :: "u8 list \<Rightarrow> nat \<Rightarrow> nat \<Rightarrow> bool" where
  "entry_fits bytes len at \<longleftrightarrow> 2 \<le> entry_len bytes at \<and> at + entry_len bytes at \<le> len \<and>
     (\<forall>needed. declared (unat (bytes ! at)) = Some needed \<longrightarrow> needed \<le> entry_len bytes at)"

inductive srat_walk :: "u8 list \<Rightarrow> nat \<Rightarrow> nat \<Rightarrow> builder \<Rightarrow> nat \<Rightarrow> builder \<Rightarrow> bool" for bytes len where
  srat_here: "srat_walk bytes len at b at b"
| srat_next: "entry_fits bytes len at \<Longrightarrow> srat_entry bytes at (unat (bytes ! at)) (entry_len bytes at) b = Some b1 \<Longrightarrow>
    srat_walk bytes len (at + entry_len bytes at) b1 stop b' \<Longrightarrow> srat_walk bytes len at b stop b'"

lemma srat_loop_walks:
  assumes "len \<le> length bytes" and "srat_loop bytes len at b = Some (r, b')"
  shows "\<exists>stop. srat_walk bytes len at b stop b' \<and>
    (r = Inr () \<and> len < stop + 2 \<or> r = Inl Truncated \<and> stop + 2 \<le> len \<and> \<not> entry_fits bytes len stop)"
  using assms
proof (induction bytes len at b rule: srat_loop.induct)
  case (1 bytes len at b)
  show ?case
  proof (cases "at + 2 \<le> len")
    case True
    then have reads: "byte bytes at = Some (unat (bytes ! at))" "byte bytes (at + 1) = Some (entry_len bytes at)"
      using "1.prems"(1) by (simp_all add: byte_inside entry_len_def)
    show ?thesis
    proof (cases "entry_fits bytes len at")
      case fits: True
      have "srat_loop bytes len at b =
          srat_entry bytes at (unat (bytes ! at)) (entry_len bytes at) b \<bind> srat_loop bytes len (at + entry_len bytes at)"
        by (subst srat_loop.simps) (use True reads fits in \<open>auto simp: entry_fits_def split: option.split\<close>)
      then obtain b1 where entry: "srat_entry bytes at (unat (bytes ! at)) (entry_len bytes at) b = Some b1"
        and loop: "srat_loop bytes len (at + entry_len bytes at) b1 = Some (r, b')"
        using "1.prems"(2) by (cases "srat_entry bytes at (unat (bytes ! at)) (entry_len bytes at) b") auto
      from "1.IH" [OF True reads _ _ entry "1.prems"(1) loop] fits srat_next [OF fits entry] show ?thesis
        by (fastforce simp: entry_fits_def split: option.splits)
    next
      case False
      have "srat_loop bytes len at b = Some (Inl Truncated, b)"
        by (subst srat_loop.simps) (use True reads False in \<open>auto simp: entry_fits_def not_le split: option.splits\<close>)
      with "1.prems"(2) True False show ?thesis
        by (auto intro: srat_here)
    qed
  next
    case False
    with "1.prems"(2) show ?thesis
      by (subst (asm) srat_loop.simps) (auto intro: srat_here)
  qed
qed

lemma parse_srat_loops:
  assumes "header_ok bytes SRAT = Some (Inr len)" "parse_srat bytes into = Some (r, into')"
  shows "srat_loop bytes len 48 into = Some (r, into')"
proof -
  obtain r1 b1 where loop: "srat_loop bytes len 48 into = Some (r1, b1)"
    using assms by (cases "srat_loop bytes len 48 into") (auto simp: parse_srat_def)
  with assms show ?thesis
    by (cases r1; cases "le16 bytes 0"; cases "le64 bytes 0") (simp_all add: parse_srat_def)
qed

lemma parse_srat_returns: "\<exists>r. parse_srat bytes into = Some r"
proof -
  obtain h where h: "header_ok bytes SRAT = Some h" "\<And>len. h = Inr len \<Longrightarrow> HEADER_LEN \<le> len \<and> len \<le> length bytes"
    using header_ok_returns by blast
  show ?thesis
  proof (cases h)
    case (Inl e)
    with h show ?thesis
      by (simp add: parse_srat_def)
  next
    case (Inr len)
    have len: "36 \<le> length bytes" "len \<le> length bytes"
      using h(2) [OF Inr] by (simp_all add: HEADER_LEN_def)
    obtain r where "srat_loop bytes len 48 into = Some r"
      using srat_loop_returns [OF len(2)] by blast
    with h(1) Inr len(1) show ?thesis
      by (cases "fst r") (simp_all add: parse_srat_def le_inside)
  qed
qed

lemma parse_slit_returns: "\<exists>r. parse_slit reserved bytes into = Some r"
proof -
  obtain h where h: "header_ok bytes SLIT = Some h" "\<And>len. h = Inr len \<Longrightarrow> HEADER_LEN \<le> len \<and> len \<le> length bytes"
    using header_ok_returns by blast
  show ?thesis
  proof (cases h)
    case (Inl e)
    with h show ?thesis
      by (simp add: parse_slit_def)
  next
    case (Inr len)
    then show ?thesis
      using h by (auto simp: parse_slit_def Let_def le_inside le_bytes_inside HEADER_LEN_def)
  qed
qed

lemma slit_outcome:
  assumes "parse_slit reserved bytes into = Some (r, into')"
  shows "case r of Inl e \<Rightarrow> into' = into
    | Inr _ \<Rightarrow> \<exists>n at cells. le_bytes (n * n) bytes at = Some cells \<and> length cells = n * n \<and> n \<le> MAX_NODES \<and> into' = set_matrix n cells into"
proof -
  have whole: "length cells = n" if "le_bytes n bytes at = Some cells" for n at cells
    using that by (induction n arbitrary: at cells) (auto simp: bind_eq_Some_conv)
  obtain h where h: "header_ok bytes SLIT = Some h"
    using header_ok_returns by blast
  show ?thesis
  proof (cases h)
    case (Inr len)
    show ?thesis
    proof (cases "len < HEADER_LEN + 8")
      case False
      then obtain n where n: "le64 bytes HEADER_LEN = Some n"
        using assms h Inr by (cases "le64 bytes HEADER_LEN") (simp_all add: parse_slit_def)
      show ?thesis
      proof (cases "n = 0 \<or> MAX_NODES < n \<or> len < HEADER_LEN + 8 + n * n \<or> \<not> reserved")
        case True
        with assms h Inr n False show ?thesis
          by (auto simp: parse_slit_def Let_def split: if_splits)
      next
        case ok: False
        then obtain cells where cells: "le_bytes (n * n) bytes (HEADER_LEN + 8) = Some cells"
          using assms h Inr n False by (cases "le_bytes (n * n) bytes (HEADER_LEN + 8)") (simp_all add: parse_slit_def Let_def)
        with assms h Inr n False ok have "(\<exists>e. r = Inl e) \<and> into' = into \<or> r = Inr () \<and> into' = set_matrix n cells into"
          by (auto simp: parse_slit_def Let_def split: if_splits)
        moreover have "length cells = n * n" "n \<le> MAX_NODES"
          using whole [OF cells] ok by simp_all
        ultimately show ?thesis
          using cells by (cases r) auto
      qed
    qed (use assms h Inr in \<open>auto simp: parse_slit_def\<close>)
  qed (use assms h in \<open>auto simp: parse_slit_def\<close>)
qed

section \<open>Round trips of the integers\<close>

lemma unat_of_nat_u8: "unat (of_nat x :: u8) = x mod 256"
  by (simp add: unat_of_nat)

lemma from_to_le_bytes: "from_le_bytes (map unat (to_le_bytes n x)) = x mod 256 ^ n"
proof (induction n arbitrary: x)
  case (Suc n)
  have "to_le_bytes (Suc n) x = of_nat x # to_le_bytes n (x div 256)"
    by (simp add: to_le_bytes_def upt_conv_Cons map_Suc_upt [symmetric] div_mult2_eq del: upt_Suc)
  with Suc [of "x div 256"] show ?case
    by (simp add: from_le_bytes_def unat_of_nat_u8 mod_mult2_eq)
qed (simp add: from_le_bytes_def to_le_bytes_def)

lemma or_push: "a < 2 ^ n \<Longrightarrow> a OR push_bit n b = a + 2 ^ n * (b :: nat)"
proof -
  assume "a < 2 ^ n"
  then have "take_bit n a = a"
    by (simp add: take_bit_eq_mod)
  then have "\<not> bit a m \<or> \<not> bit (push_bit n b) m" for m
    by (metis bit_push_bit_iff bit_take_bit_iff linorder_not_le)
  then have "a OR push_bit n b = a + push_bit n b"
    by (simp add: disjunctive_add)
  then show ?thesis
    by (simp add: push_bit_eq_mult mult.commute)
qed

lemma to_le_bytes_length [simp]: "length (to_le_bytes n x) = n"
  by (simp add: to_le_bytes_def)

lemma digits:
  assumes "x < (2 :: nat) ^ 32"
  shows "x mod 256 + 256 * (x div 256 mod 256 + 256 * (x div 65536 mod 256 + 256 * (x div 16777216 mod 256))) = x"
proof -
  have four: "[0 ..< 4] = [0, 1, 2, 3 :: nat]"
    by code_simp
  have "to_le_bytes 4 x = [of_nat x, of_nat (x div 256), of_nat (x div 65536), of_nat (x div 16777216)]"
    using four by (simp add: to_le_bytes_def)
  with from_to_le_bytes [of 4 x] assms show ?thesis
    by (simp add: from_le_bytes_def unat_of_nat_u8)
qed

text \<open>The node number of a processor record: one byte at offset 2 and three at offset 9.\<close>

lemma split_node:
  assumes "x < (2 :: nat) ^ 32"
  shows "x mod 256 OR push_bit 8 (x div 256 mod 256 OR push_bit 8 (x div 65536 mod 256) OR push_bit 16 (x div 16777216 mod 256)) = x"
proof -
  let ?d1 = "x div 256 mod 256" and ?d2 = "x div 65536 mod 256" and ?d3 = "x div 16777216 mod 256"
  have or1: "d OR push_bit 8 m = d + 256 * m" if "d < 256" for d m :: nat
    using that or_push [of d 8 m] by simp
  have "push_bit 8 ?d2 OR push_bit 16 ?d3 = push_bit 8 (?d2 OR push_bit 8 ?d3)"
    by (simp only: push_bit_or push_bit_push_bit) simp
  then have "?d1 OR push_bit 8 ?d2 OR push_bit 16 ?d3 = ?d1 + 256 * (?d2 + 256 * ?d3)"
    by (simp only: or1 mod_less_divisor zero_less_numeral)
  then show ?thesis
    by (simp only: or1 mod_less_divisor zero_less_numeral digits [OF assms])
qed

lemma split_address:
  assumes "x < (2 :: nat) ^ 64"
  shows "x mod 2 ^ 32 OR push_bit 32 (x div 2 ^ 32 mod 2 ^ 32) = x"
proof -
  have "x div 2 ^ 32 < 2 ^ 32"
    using assms by (simp add: less_mult_imp_div_less)
  then show ?thesis
    by (simp add: or_push)
qed

section \<open>Reads of a table at the place an entry begins\<close>

lemma byte_shift: "byte (pre @ xs) (length pre + i) = byte xs i"
  by (simp add: byte_def)

lemma le_bytes_shift: "le_bytes n (pre @ xs) (length pre + i) = le_bytes n xs i"
proof (induction n arbitrary: i)
  case (Suc n)
  have "le_bytes n (pre @ xs) (length pre + i + 1) = le_bytes n xs (i + 1)"
    using Suc [of "i + 1"] by (simp add: add.assoc)
  then show ?case
    by (simp only: le_bytes.simps byte_shift)
qed simp

lemma le32_shift: "le32 (pre @ xs) (length pre + i) = le32 xs i"
  by (simp add: le32_def le_bytes_shift)

lemma le32_at: "i = length pre \<Longrightarrow> le32 (pre @ to_le_bytes 4 x @ post) i = Some (x mod 2 ^ 32)"
  using from_to_le_bytes [of 4 x] by (simp add: le_inside)

lemma srat_entry_shift: "srat_entry (pre @ xs) (length pre) kind n into = srat_entry xs 0 kind n into"
  by (simp only: srat_entry_def byte_shift le32_shift add_0)

section \<open>Records\<close>

datatype srat_record =
    Processor nat nat nat
  | X2Processor nat nat nat
  | MemoryRange nat nat nat nat

fun encode :: "srat_record \<Rightarrow> u8 list" where
  "encode (Processor node apic flags) = srat_cpu node apic flags"
| "encode (X2Processor node apic flags) = srat_x2apic node apic flags"
| "encode (MemoryRange node base len flags) = srat_memory node base len flags"

fun fits_fields :: "srat_record \<Rightarrow> bool" where
  "fits_fields (Processor node apic flags) \<longleftrightarrow> node < 2 ^ 32 \<and> apic < 256 \<and> flags < 2 ^ 32"
| "fits_fields (X2Processor node apic flags) \<longleftrightarrow> node < 2 ^ 32 \<and> apic < 2 ^ 32 \<and> flags < 2 ^ 32"
| "fits_fields (MemoryRange node base len flags) \<longleftrightarrow> node < 2 ^ 32 \<and> base < 2 ^ 64 \<and> len < 2 ^ 64 \<and> flags < 2 ^ 32"

text \<open>What a record means: an enabled processor or range is added, a node whose range may go away is noted.\<close>

fun meaning :: "srat_record \<Rightarrow> builder \<Rightarrow> builder" where
  "meaning (Processor node apic flags) b = (if odd flags then add_cpu apic node b else b)"
| "meaning (X2Processor node apic flags) b = (if odd flags then add_cpu apic node b else b)"
| "meaning (MemoryRange node base len flags) b =
     (if even flags then b else if even (flags div 2) \<and> 0 < len then add_memory base len node b else note_node node b)"

lemma flag_bits: "(flags AND FLAG_ENABLED \<noteq> 0) = odd flags" "(flags AND FLAG_HOT_PLUGGABLE = 0) = even (flags div 2)"
proof -
  show "(flags AND FLAG_ENABLED \<noteq> 0) = odd flags"
    by (simp add: FLAG_ENABLED_def and_one_eq odd_iff_mod_2_eq_one)
  show "(flags AND FLAG_HOT_PLUGGABLE = 0) = even (flags div 2)"
    using and_exp_eq_0_iff_not_bit [of flags 1] by (simp add: FLAG_HOT_PLUGGABLE_def bit_iff_odd)
qed

lemmas entry_simps =
  simp_thms rel_simps order_refl add_0 bind.simps Let_def if_True if_False flag_bits meaning.simps
  SRAT_PROCESSOR_LOCAL_APIC_def SRAT_PROCESSOR_LOCAL_X2APIC_def SRAT_MEMORY_def

lemma cpu_entry:
  assumes "node < 2 ^ 32" "apic < 256" "flags < 2 ^ 32"
  shows "srat_entry (srat_cpu node apic flags @ post) 0 0 16 b = Some (meaning (Processor node apic flags) b)"
proof -
  have flags: "le32 (srat_cpu node apic flags @ post) 4 = Some flags"
    using le32_at [of 4 "[0, 16, of_nat node, of_nat apic]" flags] assms(3) by (simp add: srat_cpu_def)
  have fields: "byte (srat_cpu node apic flags @ post) 2 = Some (node mod 256)"
    "byte (srat_cpu node apic flags @ post) 3 = Some apic"
    "byte (srat_cpu node apic flags @ post) 9 = Some (node div 256 mod 256)"
    "byte (srat_cpu node apic flags @ post) 10 = Some (node div 65536 mod 256)"
    "byte (srat_cpu node apic flags @ post) 11 = Some (node div 16777216 mod 256)"
    using assms(2) by (simp_all add: srat_cpu_def byte_def nth_append unat_of_nat_u8)
  show ?thesis
    using flags fields
    by (simp only: srat_entry_def entry_simps split_node [OF assms(1)] split: if_split) simp
qed

lemma x2apic_entry:
  assumes "node < 2 ^ 32" "apic < 2 ^ 32" "flags < 2 ^ 32"
  shows "srat_entry (srat_x2apic node apic flags @ post) 0 2 24 b = Some (meaning (X2Processor node apic flags) b)"
proof -
  let ?t = "srat_x2apic node apic flags @ post"
  have "le32 ?t 4 = Some node"
    using le32_at [of 4 "[2, 24, 0, 0]" node] assms(1) by (simp add: srat_x2apic_def)
  moreover have "le32 ?t 8 = Some apic"
    using le32_at [of 8 "[2, 24, 0, 0] @ to_le_bytes 4 node" apic] assms(2) by (simp add: srat_x2apic_def)
  moreover have "le32 ?t 12 = Some flags"
    using le32_at [of 12 "[2, 24, 0, 0] @ to_le_bytes 4 node @ to_le_bytes 4 apic" flags] assms(3) by (simp add: srat_x2apic_def)
  ultimately show ?thesis
    by (simp only: srat_entry_def entry_simps split: if_split) simp
qed

lemma memory_entry:
  assumes "node < 2 ^ 32" "base < 2 ^ 64" "len < 2 ^ 64" "flags < 2 ^ 32"
  shows "srat_entry (srat_memory node base len flags @ post) 0 1 40 b = Some (meaning (MemoryRange node base len flags) b)"
proof -
  let ?t = "srat_memory node base len flags @ post"
  let ?p = "[1, 40] @ to_le_bytes 4 node @ [0, 0] @ to_le_bytes 4 base @ to_le_bytes 4 (base div 2 ^ 32) @ to_le_bytes 4 len @
     to_le_bytes 4 (len div 2 ^ 32) @ [0, 0, 0, 0]"
  have fields: "le32 ?t 2 = Some node" "le32 ?t 8 = Some (base mod 2 ^ 32)" "le32 ?t 12 = Some (base div 2 ^ 32 mod 2 ^ 32)"
    "le32 ?t 16 = Some (len mod 2 ^ 32)" "le32 ?t 20 = Some (len div 2 ^ 32 mod 2 ^ 32)" "le32 ?t 28 = Some flags"
    using le32_at [of 2 "take 2 ?p" node] le32_at [of 8 "take 8 ?p" base] le32_at [of 12 "take 12 ?p" "base div 2 ^ 32"]
      le32_at [of 16 "take 16 ?p" len] le32_at [of 20 "take 20 ?p" "len div 2 ^ 32"] le32_at [of 28 ?p flags] assms(1,4)
    by (simp_all add: srat_memory_def)
  show ?thesis
    using fields
    by (simp only: srat_entry_def entry_simps split_address [OF assms(2)] split_address [OF assms(3)] split: if_split) auto
qed

lemma encode_entry:
  assumes "fits_fields r"
  shows "\<exists>kind n rest. encode r = kind # n # rest \<and> length (encode r) = unat n \<and> 2 \<le> unat n \<and>
    (\<forall>needed. declared (unat kind) = Some needed \<longrightarrow> needed \<le> unat n) \<and>
    (\<forall>post b. srat_entry (encode r @ post) 0 (unat kind) (unat n) b = Some (meaning r b))"
proof (cases r)
  case (Processor node apic flags)
  with assms cpu_entry [of node apic flags] show ?thesis
    by (intro exI [of _ 0] exI [of _ 16] exI) (auto simp: srat_cpu_def declared_def entry_simps)
next
  case (X2Processor node apic flags)
  with assms x2apic_entry [of node apic flags] show ?thesis
    by (intro exI [of _ 2] exI [of _ 24] exI) (auto simp: srat_x2apic_def declared_def entry_simps)
next
  case (MemoryRange node base len flags)
  with assms memory_entry [of node base len flags] show ?thesis
    by (intro exI [of _ 1] exI [of _ 40] exI) (auto simp: srat_memory_def declared_def entry_simps)
qed

lemma srat_loop_records:
  assumes "list_all fits_fields rs"
  shows "srat_loop (pre @ concat (map encode rs)) (length pre + length (concat (map encode rs))) (length pre) b = Some (Inr (), fold meaning rs b)"
  using assms
proof (induction rs arbitrary: pre b)
  case Nil
  show ?case
    by (subst srat_loop.simps) simp
next
  case (Cons r rs)
  let ?post = "concat (map encode rs)"
  let ?bytes = "pre @ encode r @ ?post"
  obtain kind n rest where enc: "encode r = kind # n # rest" "length (encode r) = unat n" "2 \<le> unat n"
    "\<And>needed. declared (unat kind) = Some needed \<Longrightarrow> needed \<le> unat n"
    "\<And>post b. srat_entry (encode r @ post) 0 (unat kind) (unat n) b = Some (meaning r b)"
    using encode_entry [of r] Cons.prems by auto
  have reads: "byte ?bytes (length pre) = Some (unat kind)" "byte ?bytes (length pre + 1) = Some (unat n)"
    using enc(1) by (simp_all add: byte_def nth_append)
  have entry: "srat_entry ?bytes (length pre) (unat kind) (unat n) b = Some (meaning r b)"
    using enc(5) by (simp add: srat_entry_shift)
  have ok: "\<not> (unat n < 2 \<or> length ?bytes < length pre + unat n)"
    "\<not> (case declared (unat kind) of None \<Rightarrow> False | Some needed \<Rightarrow> unat n < needed)"
    using enc(2-4) by (auto split: option.split)
  have "srat_loop ?bytes (length ?bytes) (length pre) b = srat_loop ?bytes (length ?bytes) (length pre + unat n) (meaning r b)"
    by (subst srat_loop.simps) (use reads entry ok enc(2,3) in simp)
  moreover have "srat_loop ?bytes (length ?bytes) (length pre + unat n) (meaning r b) = Some (Inr (), fold meaning rs (meaning r b))"
    using Cons.IH [of "pre @ encode r" "meaning r b"] Cons.prems enc(2) by (simp add: add.assoc)
  ultimately show ?case
    by (simp add: add.assoc)
qed

section \<open>Finished tables\<close>

lemma fold_sum: "fold (\<lambda>b acc. acc + b) bs a = a + sum_list (bs :: u8 list)"
  by (induction bs arbitrary: a) (simp_all add: add.assoc)

lemma sum_list_put: "i < length xs \<Longrightarrow> xs ! i = 0 \<Longrightarrow> sum_list (xs[i := v]) = sum_list xs + (v :: u8)"
proof (induction xs arbitrary: i)
  case (Cons x xs)
  then show ?case
    by (cases i) (simp_all add: ac_simps)
qed simp

lemma finish_spec:
  assumes "length signature = 4" "HEADER_LEN \<le> length bytes" "length bytes < 2 ^ 32"
  shows "header_ok (finish bytes signature) signature = Some (Inr (length bytes)) \<and> length (finish bytes signature) = length bytes \<and>
    drop 36 (finish bytes signature) = drop 36 bytes"
proof -
  let ?a = "signature @ to_le_bytes 4 (length bytes) @ drop 8 bytes"
  let ?z = "?a[9 := 0]"
  have len: "length ?a = length bytes" "36 \<le> length bytes"
    using assms(1,2) by (simp_all add: HEADER_LEN_def)
  have form: "finish bytes signature = ?z[9 := 0 - sum_list ?z]"
    using assms(1) len(2) by (simp add: finish_def Let_def fold_sum)
  then have length: "length (finish bytes signature) = length bytes"
    using len(1) by simp
  have "sum_list (finish bytes signature) = 0"
    unfolding form by (subst sum_list_put) (use len in \<open>simp_all\<close>)
  moreover have "take 4 (finish bytes signature) = signature"
    unfolding form using assms(1) by simp
  moreover have "finish bytes signature = signature @ to_le_bytes 4 (length bytes) @ drop 8 (finish bytes signature)"
    unfolding form using assms(1) len(2) by (simp add: list_update_append)
  then have "le32 (finish bytes signature) 4 = Some (length bytes)"
    using le32_at [of 4 signature "length bytes" "drop 8 (finish bytes signature)"] assms(1,3) by (metis mod_less)
  moreover have "drop 36 (finish bytes signature) = drop 36 bytes"
    unfolding form using assms(1) len(2) by (simp add: drop_update_cancel)
  ultimately show ?thesis
    using length len(2) assms(2) by (simp add: header_ok_def fold_sum)
qed

section \<open>Widths\<close>

text \<open>The values a builder holds have the widths of the source's types: u32 nodes, u64 addresses, u8 distances.\<close>

definition typed :: "builder \<Rightarrow> bool" where
  "typed b \<longleftrightarrow> (\<forall>r \<in> set (bl_memory b). mr_base r < 2 ^ 64 \<and> mr_len r < 2 ^ 64 \<and> mr_node r < 2 ^ 32) \<and>
     (\<forall>c \<in> set (bl_cpus b). fst c < 2 ^ 64 \<and> snd c < 2 ^ 32) \<and> (\<forall>n \<in> set (bl_nodes b). n < 2 ^ 32) \<and>
     (\<forall>d \<in> set (bl_matrix b). d < 2 ^ 8)"

lemma typed_ops:
  "typed builder_new"
  "typed b \<Longrightarrow> node < 2 ^ 32 \<Longrightarrow> typed (note_node node b)"
  "typed b \<Longrightarrow> node < 2 ^ 32 \<Longrightarrow> apic < 2 ^ 64 \<Longrightarrow> typed (add_cpu apic node b)"
  "typed b \<Longrightarrow> node < 2 ^ 32 \<Longrightarrow> base < 2 ^ 64 \<Longrightarrow> len < 2 ^ 64 \<Longrightarrow> typed (add_memory base len node b)"
  "typed b \<Longrightarrow> \<forall>d \<in> set cells. d < 2 ^ 8 \<Longrightarrow> typed (set_matrix n cells b)"
  by (auto simp: typed_def builder_new_def note_node_def add_cpu_def add_memory_def set_matrix_def set_matrix_for_def Let_def)

lemma byte_bound: "byte bytes at = Some x \<Longrightarrow> x < 2 ^ 8"
  using unsigned_less [of "bytes ! at"] by (auto simp: byte_def split: if_splits)

lemma le_bytes_bound: "le_bytes n bytes at = Some ds \<Longrightarrow> length ds = n \<and> (\<forall>d \<in> set ds. d < 2 ^ 8)"
proof (induction n arbitrary: at ds)
  case (Suc n)
  then obtain d ds' where "byte bytes at = Some d" "le_bytes n bytes (at + 1) = Some ds'" "ds = d # ds'"
    by (auto simp: bind_eq_Some_conv)
  with Suc.IH [of "at + 1" ds'] byte_bound [of bytes at d] show ?case
    by auto
qed simp

lemma from_le_bytes_bound: "\<forall>d \<in> set ds. d < 2 ^ 8 \<Longrightarrow> from_le_bytes ds < 2 ^ (8 * length ds)"
proof (induction ds)
  case (Cons d ds)
  then have "d < 256" "from_le_bytes ds + 1 \<le> 2 ^ (8 * length ds)"
    by (simp_all add: Suc_leI)
  then have "d + 256 * from_le_bytes ds < 256 * 2 ^ (8 * length ds)"
    by linarith
  then show ?case
    by (simp add: from_le_bytes_def power_add)
qed (simp add: from_le_bytes_def)

lemma le32_bound: "le32 bytes at = Some x \<Longrightarrow> x < 2 ^ 32"
  using le_bytes_bound from_le_bytes_bound by (fastforce simp: le32_def)

lemma or_push_bound:
  assumes "a < 2 ^ n" "b < 2 ^ m"
  shows "a OR push_bit n b < (2 :: nat) ^ (n + m)"
proof -
  have "2 ^ n * (b + 1) \<le> (2 :: nat) ^ n * 2 ^ m"
    using assms(2) by (intro mult_left_mono) simp_all
  then show ?thesis
    using assms(1) by (simp add: or_push power_add)
qed

lemma typed_entry:
  assumes typed: "typed b" and entry: "srat_entry bytes at kind n b = Some b'"
  shows "typed b'"
proof -
  have high: "b9 OR push_bit 8 b10 OR push_bit 16 b11 < (2 :: nat) ^ 24" if "b9 < 2 ^ 8" "b10 < 2 ^ 8" "b11 < 2 ^ 8" for b9 b10 b11
    using or_push_bound [of "b9 OR push_bit 8 b10" 16 b11 8] or_push_bound [of b9 8 b10 8] that by (simp add: or.assoc)
  have node: "low OR push_bit 8 h < (2 :: nat) ^ 32" if "low < 2 ^ 8" "h < 2 ^ 24" for low h
    using or_push_bound [of low 8 h 24] that by simp
  have address: "l OR push_bit 32 h < (2 :: nat) ^ 64" if "l < 2 ^ 32" "h < 2 ^ 32" for l h
    using or_push_bound [of l 32 h 32] that by simp
  have wide: "x < 2 ^ 32 \<Longrightarrow> x < 2 ^ 64" "x < 2 ^ 8 \<Longrightarrow> x < 2 ^ 64" for x :: nat
    by simp_all
  show ?thesis
    using entry typed unfolding srat_entry_def Let_def
    by (auto simp only: bind_eq_Some_conv option.inject split: if_splits
        dest!: byte_bound le32_bound intro!: typed_ops high node address intro: wide)
qed

lemma typed_loop:
  assumes "typed b" "srat_loop bytes len at b = Some (r, b')"
  shows "typed b'"
  using assms
proof (induction bytes len at b rule: srat_loop.induct)
  case (1 bytes len at b)
  show ?case
  proof (cases "at + 2 \<le> len")
    case True
    then obtain kind n where reads: "byte bytes at = Some kind" "byte bytes (at + 1) = Some n"
      using "1.prems"(2) by (subst (asm) srat_loop.simps) (auto simp: bind_eq_Some_conv)
    show ?thesis
    proof (cases "n < 2 \<or> len < at + n \<or> (case declared kind of None \<Rightarrow> False | Some needed \<Rightarrow> n < needed)")
      case bad: True
      have "srat_loop bytes len at b = Some (Inl Truncated, b)"
        by (subst srat_loop.simps) (use True reads bad in auto)
      with "1.prems" show ?thesis
        by simp
    next
      case False
      have "srat_loop bytes len at b = srat_entry bytes at kind n b \<bind> srat_loop bytes len (at + n)"
        by (subst srat_loop.simps) (use True reads False in simp)
      then obtain into where entry: "srat_entry bytes at kind n b = Some into" "srat_loop bytes len (at + n) into = Some (r, b')"
        using "1.prems"(2) by (cases "srat_entry bytes at kind n b") auto
      show ?thesis
        by (rule "1.IH" [OF True reads _ _ entry(1) typed_entry [OF "1.prems"(1) entry(1)] entry(2)]) (use False in auto)
    qed
  next
    case False
    with "1.prems" show ?thesis
      by (subst (asm) srat_loop.simps) simp
  qed
qed

lemma typed_srat:
  assumes "typed b" "parse_srat bytes b = Some (r, b')"
  shows "typed b'"
proof -
  obtain h where h: "header_ok bytes SRAT = Some h"
    using header_ok_returns by blast
  show ?thesis
  proof (cases h)
    case (Inl e)
    with h assms show ?thesis
      by (simp add: parse_srat_def)
  next
    case (Inr len)
    with h typed_loop [OF assms(1) parse_srat_loops [OF _ assms(2)]] show ?thesis
      by simp
  qed
qed

lemma typed_slit:
  assumes "typed b" "parse_slit reserved bytes b = Some (r, b')"
  shows "typed b'"
proof -
  note out = slit_outcome [OF assms(2)]
  show ?thesis
  proof (cases r)
    case (Inl e)
    with out assms(1) show ?thesis
      by simp
  next
    case (Inr u)
    with out obtain n at cells where "le_bytes (n * n) bytes at = Some cells" "b' = set_matrix n cells b"
      by auto
    with le_bytes_bound assms(1) show ?thesis
      by (blast intro: typed_ops(5))
  qed
qed

section \<open>Properties\<close>

text \<open>
  C22: The table decoders return for every list of bytes, and what they leave is told in full. Whatever
  lengths and counts a table claims, both decoders end with a result and no read leaves the bytes that
  exist. An affinity table with a bad header leaves the builder as it was; with a good one the builder
  has taken the entries in order, up to the end of the table, or up to the first entry that does not
  fit, which the answer reports: an affinity table refused for an entry has fed the builder those
  before it. A distance table is taken over whole or not at all.
\<close>

theorem table_decoders_are_total:
  "\<exists>r into' r' into''. parse_srat bytes into = Some (r, into') \<and> parse_slit reserved bytes into = Some (r', into'') \<and>
     (case header_ok bytes SRAT of
        None \<Rightarrow> False
      | Some (Inl e) \<Rightarrow> r = Inl e \<and> into' = into
      | Some (Inr len) \<Rightarrow> \<exists>stop. srat_walk bytes len 48 into stop into' \<and>
          (r = Inr () \<and> len < stop + 2 \<or> r = Inl Truncated \<and> stop + 2 \<le> len \<and> \<not> entry_fits bytes len stop)) \<and>
     (case r' of Inl e \<Rightarrow> into'' = into | Inr _ \<Rightarrow> \<exists>n cells. into'' = set_matrix n cells into \<and> length cells = n * n \<and> n \<le> MAX_NODES)"
proof -
  obtain r into' where srat: "parse_srat bytes into = Some (r, into')"
    using parse_srat_returns [of bytes into] by auto
  obtain r' into'' where slit: "parse_slit reserved bytes into = Some (r', into'')"
    using parse_slit_returns [of reserved bytes into] by auto
  obtain h where h: "header_ok bytes SRAT = Some h" "\<And>len. h = Inr len \<Longrightarrow> len \<le> length bytes"
    using header_ok_returns by blast
  have "case h of Inl e \<Rightarrow> r = Inl e \<and> into' = into
    | Inr len \<Rightarrow> \<exists>stop. srat_walk bytes len 48 into stop into' \<and>
        (r = Inr () \<and> len < stop + 2 \<or> r = Inl Truncated \<and> stop + 2 \<le> len \<and> \<not> entry_fits bytes len stop)"
  proof (cases h)
    case (Inr len)
    then have "srat_loop bytes len 48 into = Some (r, into')"
      using parse_srat_loops srat h(1) by simp
    with srat_loop_walks [OF h(2) [OF Inr]] Inr show ?thesis
      by simp
  qed (use srat h(1) in \<open>simp add: parse_srat_def\<close>)
  moreover have "case r' of Inl e \<Rightarrow> into'' = into | Inr _ \<Rightarrow> \<exists>n cells. into'' = set_matrix n cells into \<and> length cells = n * n \<and> n \<le> MAX_NODES"
    using slit_outcome [OF slit] by (cases r') auto
  ultimately show ?thesis
    using srat slit h(1) by simp
qed

text \<open>
  C21: An affinity table reads back as what was written. For every list of processor and memory records
  whose fields fit their widths, decoding the table built from them feeds the builder exactly the
  meaning of the records in order: enabled processors and ranges added with their node, split over the
  structure or not, hot-pluggable ranges only noted, disabled entries skipped.
\<close>

theorem affinity_table_round_trip:
  assumes "list_all fits_fields rs" "length (srat (map encode rs)) < 2 ^ 32"
  shows "parse_srat (srat (map encode rs)) into = Some (Inr (), fold meaning rs into)"
proof -
  let ?body = "replicate 48 0 @ concat (map encode rs)" and ?t = "srat (map encode rs)"
  have sig: "length SRAT = 4"
    by (simp add: SRAT_def)
  have "length (finish ?body SRAT) = length ?body"
    by (simp add: finish_def Let_def SRAT_def)
  with assms(2) have len: "length ?body < 2 ^ 32"
    by (simp add: srat_def)
  note fin = finish_spec [OF sig _ len, folded srat_def]
  have t: "header_ok ?t SRAT = Some (Inr (length ?body))" "length ?t = length ?body" "drop 36 ?t = drop 36 ?body"
    using fin by (simp_all add: HEADER_LEN_def)
  have "drop 48 ?t = drop 12 (drop 36 ?t)"
    by simp
  also have "\<dots> = concat (map encode rs)"
    unfolding t(3) by simp
  finally have split: "?t = take 48 ?t @ concat (map encode rs)"
    by (metis append_take_drop_id)
  have "length (take 48 ?t) = 48"
    using t(2) by simp
  then have "srat_loop ?t (length ?body) 48 into = Some (Inr (), fold meaning rs into)"
    using srat_loop_records [OF assms(1), of "take 48 ?t" into] split by simp
  moreover have "8 \<le> length ?t"
    using t(2) by simp
  ultimately show ?thesis
    using t(1) by (simp add: parse_srat_def le_inside)
qed

theorem affinity_table_round_trip_witness:
  "let rs = [Processor 70000 3 1, MemoryRange 1 4294967296 2147483648 1, MemoryRange 2 0 4096 3] in
   list_all fits_fields rs \<and> length (srat (map encode rs)) < 2 ^ 32 \<and>
   parse_srat (srat (map encode rs)) builder_new =
     Some (Inr (), note_node 2 (add_memory 4294967296 2147483648 1 (add_cpu 3 70000 builder_new)))"
proof -
  let ?rs = "[Processor 70000 3 1, MemoryRange 1 4294967296 2147483648 1, MemoryRange 2 0 4096 3]"
  have "list_all fits_fields ?rs"
    by simp
  moreover have "length (srat (map encode ?rs)) < 2 ^ 32"
    by (simp add: srat_def finish_def Let_def SRAT_def srat_cpu_def srat_memory_def)
  ultimately show ?thesis
    using affinity_table_round_trip [of ?rs builder_new] by (simp add: Let_def)
qed

end
