(* ===== verification/Word_Bitmap.thy ===== *)
theory Word_Bitmap
  imports Buddy_Bits
begin

text \<open>
  A bit per frame in a vector of words, as the ownership record of the frame allocator and the
  bitmaps of hotplugged regions keep it: reading, writing one bit, and writing a list of bits.
\<close>

definition bit_at :: "u64 list \<Rightarrow> nat \<Rightarrow> bool" where
  "bit_at bits index \<longleftrightarrow> bits ! (index div 64) AND push_bit (index mod 64) 1 \<noteq> 0"

definition bit_put :: "bool \<Rightarrow> nat \<Rightarrow> u64 list \<Rightarrow> u64 list" where
  "bit_put v index bits =
     bits[index div 64 := (if v then bits ! (index div 64) OR push_bit (index mod 64) 1
                           else bits ! (index div 64) AND NOT (push_bit (index mod 64) 1))]"

lemma length_bit_put [simp]: "length (bit_put v index bits) = length bits"
  by (simp add: bit_put_def)

lemma bit_at_bit: "bit_at bits index \<longleftrightarrow> bit (bits ! (index div 64)) (index mod 64)"
  using bit_probe [of "index mod 64" "bits ! (index div 64)"] by (simp add: bit_at_def)

lemma bit_at_put:
  assumes "index div 64 < length bits"
  shows "bit_at (bit_put v index bits) j \<longleftrightarrow> (if j = index then v else bit_at bits j)"
proof (cases "j div 64 = index div 64")
  case True
  then have "j = index \<longleftrightarrow> j mod 64 = index mod 64"
    by (metis index_eq_parts)
  with True assms show ?thesis
    unfolding bit_at_bit bit_put_def
    by (cases v) (simp_all add: bit_or_probe bit_clear_probe del: push_bit_of_1)
next
  case False
  then have "j \<noteq> index"
    by blast
  with False show ?thesis
    by (simp add: bit_at_bit bit_put_def)
qed

definition bits_put :: "bool \<Rightarrow> nat list \<Rightarrow> u64 list \<Rightarrow> u64 list" where
  "bits_put v is bits = fold (bit_put v) is bits"

lemma length_bits_put [simp]: "length (bits_put v is bits) = length bits"
  unfolding bits_put_def by (induction "is" arbitrary: bits) simp_all

lemma bit_at_bits_put:
  assumes "\<forall>i \<in> set is. i div 64 < length bits"
  shows "bit_at (bits_put v is bits) j \<longleftrightarrow> (if j \<in> set is then v else bit_at bits j)"
  using assms
proof (induction "is" arbitrary: bits)
  case (Cons i "is")
  then show ?case
    using bit_at_put [of i bits v j] by (auto simp: bits_put_def)
qed (simp add: bits_put_def)

end
