(* ===== verification/Frames.thy ===== *)
theory Frames
  imports Buddy_Requests Topology Word_Bitmap
begin

text \<open>
  The physical frame allocator (\<^verbatim>\<open>src/src/kernel/mem/frame/mod.rs\<close>) of a debug build that is not the
  test build: one buddy per memory-bearing node and one for memory no node owns, the table of free
  runs that serves before the buddies exist, and the ownership record that every hand-out and every
  free is checked against. The counters the source keeps in atomics are fields of the state, and the
  serial output is left out. The topology is the one \<^verbatim>\<open>mem::set_topology\<close> published, or none.
\<close>

section \<open>State\<close>

record frun =
  fr_base :: nat
  fr_pages :: nat

record pool =
  po_node :: "node_id option"
  po_buddy :: buddy

definition SEED_RUNS :: nat where "SEED_RUNS = 128"
definition MIN_RUNS :: nat where "MIN_RUNS = 8192"
definition MAX_POOLS :: nat where "MAX_POOLS = MAX_NODES + 1"

text \<open>The heap-backed run table carries its capacity; the seed table is the live part of its array.\<close>

record frames =
  fa_seed :: "frun list"
  fa_pools :: "pool list"
  fa_heap :: "(frun list \<times> nat) option"
  fa_free_count :: nat
  fa_total_count :: nat
  fa_owned :: "u64 list option"
  fa_seeded_base :: nat
  fa_seeded_pages :: nat
  fa_owned_base :: nat
  fa_owned_frames :: nat
  fa_owned_order :: "nat list option"
  fa_owned_seq :: "u32 list option"
  fa_allocations :: u32
  fa_refused_frees :: nat
  fa_lost_pages :: nat
  fa_retired_pages :: nat
  fa_double_allocations :: nat
  fa_free_at_start :: nat
  fa_ballooned :: nat

definition frames_new :: frames where
  "frames_new = \<lparr>fa_seed = [], fa_pools = [], fa_heap = None, fa_free_count = 0, fa_total_count = 0, fa_owned = None,
     fa_seeded_base = 0, fa_seeded_pages = 0, fa_owned_base = 0, fa_owned_frames = 0, fa_owned_order = None,
     fa_owned_seq = None, fa_allocations = 0, fa_refused_frees = 0, fa_lost_pages = 0, fa_retired_pages = 0,
     fa_double_allocations = 0, fa_free_at_start = 0, fa_ballooned = 0\<rparr>"

definition worst_case_runs :: "nat \<Rightarrow> nat" where
  "worst_case_runs pages = max (saturating_add ((pages + 1) div 2) 1) MIN_RUNS"

section \<open>The ownership record\<close>

definition record_index :: "frames \<Rightarrow> nat \<Rightarrow> nat option" where
  "record_index fa phys =
     (if phys < fa_owned_base fa then None
      else
        (let index = (phys - fa_owned_base fa) div PAGE_SIZE in
         if index < fa_owned_frames fa then Some index else None))"

definition mark_owned :: "nat \<Rightarrow> nat \<Rightarrow> bool \<Rightarrow> frames \<Rightarrow> frames" where
  "mark_owned base pages owned fa =
     (case fa_owned fa of
        None \<Rightarrow> fa
      | Some bits \<Rightarrow>
          fa\<lparr>fa_owned := Some (fold (\<lambda>page bits.
             case record_index fa (base + page * PAGE_SIZE) of
               None \<Rightarrow> bits
             | Some index \<Rightarrow> bit_put owned index bits) [0 ..< pages] bits)\<rparr>)"

definition note_handout :: "nat \<Rightarrow> nat \<Rightarrow> nat \<Rightarrow> frames \<Rightarrow> frames" where
  "note_handout base pages order fa =
     (let seq = fa_allocations fa + 1 in
      fold (\<lambda>page fa.
        case record_index fa (base + page * PAGE_SIZE) of
          None \<Rightarrow> fa
        | Some index \<Rightarrow>
            fa\<lparr>fa_owned_order := map_option (\<lambda>orders. orders[index := order]) (fa_owned_order fa),
               fa_owned_seq := map_option (\<lambda>seqs. seqs[index := seq]) (fa_owned_seq fa)\<rparr>)
        [0 ..< pages] (fa\<lparr>fa_allocations := seq\<rparr>))"

definition refuse_duplicate :: "nat \<Rightarrow> nat \<Rightarrow> bool \<Rightarrow> frames \<Rightarrow> frames" where
  "refuse_duplicate base pages credited fa =
     (let fa1 = (if credited then fa\<lparr>fa_free_count := fa_free_count fa - 1\<rparr> else fa) in
      fa1\<lparr>fa_free_count := fa_free_count fa1 - pages, fa_retired_pages := fa_retired_pages fa1 + pages,
          fa_lost_pages := fa_lost_pages fa1 + pages\<rparr>)"

definition previous_handout :: "frames \<Rightarrow> nat \<Rightarrow> nat \<times> u32" where
  "previous_handout fa phys =
     (case record_index fa phys of
        None \<Rightarrow> (255, 0)
      | Some index \<Rightarrow>
          (case fa_owned_order fa of None \<Rightarrow> 255 | Some orders \<Rightarrow> orders ! index,
           case fa_owned_seq fa of None \<Rightarrow> 0 | Some seqs \<Rightarrow> seqs ! index))"

definition check_owned_free :: "nat \<Rightarrow> nat \<Rightarrow> frames \<Rightarrow> bool" where
  "check_owned_free base pages fa =
     (case fa_owned fa of
        None \<Rightarrow> True
      | Some bits \<Rightarrow>
          (if base mod PAGE_SIZE \<noteq> 0 then False
           else list_all (\<lambda>page.
             case record_index fa (base + page * PAGE_SIZE) of
               None \<Rightarrow> False
             | Some index \<Rightarrow> bit_at bits index) [0 ..< pages]))"

definition check_not_owned :: "nat \<Rightarrow> nat \<Rightarrow> frames \<Rightarrow> bool" where
  "check_not_owned base pages fa =
     (case fa_owned fa of
        None \<Rightarrow> True
      | Some bits \<Rightarrow>
          list_all (\<lambda>page.
            case record_index fa (base + page * PAGE_SIZE) of
              None \<Rightarrow> True
            | Some index \<Rightarrow> \<not> bit_at bits index) [0 ..< pages])"

section \<open>Pools\<close>

definition topology_node_of :: "topology option \<Rightarrow> nat \<Rightarrow> affinity" where
  "topology_node_of topo physical = (case topo of Some found \<Rightarrow> node_of_address found physical | None \<Rightarrow> Unknown)"

definition topology_distance :: "topology option \<Rightarrow> node_id \<Rightarrow> node_id \<Rightarrow> nat" where
  "topology_distance topo from to = (case topo of Some found \<Rightarrow> distance found from to | None \<Rightarrow> REMOTE_DISTANCE)"

definition in_extent :: "buddy \<Rightarrow> nat \<Rightarrow> bool" where
  "in_extent b phys \<longleftrightarrow> bu_base b \<le> phys \<and> phys < bu_base b + bu_pages b * PAGE_SIZE"

definition unaffiliated :: "pool list \<Rightarrow> nat option" where
  "unaffiliated pools = position (\<lambda>p. po_node p = None) pools"

definition pool_of :: "topology option \<Rightarrow> pool list \<Rightarrow> nat \<Rightarrow> nat option" where
  "pool_of topo pools phys =
     (if length pools = 1 then Some 0
      else
        (case topology_node_of topo phys of
           Node node \<Rightarrow>
             (case position (\<lambda>p. po_node p = Some node) pools of
                Some at \<Rightarrow> (if in_extent (po_buddy (pools ! at)) phys then Some at else unaffiliated pools)
              | None \<Rightarrow> unaffiliated pools)
         | Unknown \<Rightarrow> unaffiliated pools))"

definition preference_key :: "topology option \<Rightarrow> pool list \<Rightarrow> node_id \<Rightarrow> nat \<Rightarrow> bool \<times> nat \<times> nat" where
  "preference_key topo pools want at =
     (case po_node (pools ! at) of
        Some node \<Rightarrow> (node \<noteq> want, topology_distance topo want node, node)
      | None \<Rightarrow> (True, 4294967295, 4294967295))"

fun sift :: "('a \<Rightarrow> 'k :: linorder) \<Rightarrow> nat \<Rightarrow> 'a list \<Rightarrow> 'a list" where
  "sift key 0 order = order"
| "sift key (Suc j) order =
     (if key (order ! Suc j) < key (order ! j) then sift key j (order[j := order ! Suc j, Suc j := order ! j])
      else order)"

definition preference :: "topology option \<Rightarrow> pool list \<Rightarrow> node_id option \<Rightarrow> nat list" where
  "preference topo pools want =
     (let count = min (length pools) MAX_POOLS in
      case want of
        None \<Rightarrow> [0 ..< count]
      | Some w \<Rightarrow> fold (sift (preference_key topo pools w)) [1 ..< count] [0 ..< count])"

text \<open>The pools in order of preference until one can serve the request.\<close>

fun try_pools :: "(buddy \<Rightarrow> nat option \<times> buddy) \<Rightarrow> nat list \<Rightarrow> pool list \<Rightarrow> nat option \<times> pool list" where
  "try_pools request [] pools = (None, pools)"
| "try_pools request (at # order) pools =
     (case request (po_buddy (pools ! at)) of
        (Some base, b) \<Rightarrow> (Some base, pools[at := (pools ! at)\<lparr>po_buddy := b\<rparr>])
      | (None, b) \<Rightarrow> try_pools request order (pools[at := (pools ! at)\<lparr>po_buddy := b\<rparr>]))"

section \<open>The run table\<close>

definition runs :: "frames \<Rightarrow> frun list" where
  "runs fa = (case fa_heap fa of Some (v, _) \<Rightarrow> v | None \<Rightarrow> fa_seed fa)"

definition set_runs :: "frun list \<Rightarrow> frames \<Rightarrow> frames" where
  "set_runs rs fa =
     (case fa_heap fa of
        Some (_, capacity) \<Rightarrow> fa\<lparr>fa_heap := Some (rs, capacity)\<rparr>
      | None \<Rightarrow> fa\<lparr>fa_seed := rs\<rparr>)"

definition without :: "nat \<Rightarrow> 'a list \<Rightarrow> 'a list" where
  "without at xs = take at xs @ drop (Suc at) xs"

definition insert_at :: "nat \<Rightarrow> frun \<Rightarrow> frames \<Rightarrow> bool \<times> frames" where
  "insert_at at r fa =
     (let rs = runs fa; capacity = (case fa_heap fa of Some (_, c) \<Rightarrow> c | None \<Rightarrow> SEED_RUNS) in
      if length rs = capacity then (False, fa)
      else (True, set_runs (take at rs @ [r] @ drop at rs) fa))"

definition run_end :: "frun \<Rightarrow> nat" where
  "run_end r = fr_base r + fr_pages r * PAGE_SIZE"

definition run_position :: "frun list \<Rightarrow> nat \<Rightarrow> nat" where
  "run_position rs base = partition_point (\<lambda>r. fr_base r < base) rs"

section \<open>Giving frames back\<close>

definition insert_pools :: "topology option \<Rightarrow> nat \<Rightarrow> nat \<Rightarrow> frames \<Rightarrow> frames" where
  "insert_pools topo base pages fa =
     (if \<not> check_owned_free base pages fa then fa\<lparr>fa_refused_frees := fa_refused_frees fa + 1\<rparr>
      else
        (let at = pool_of topo (fa_pools fa) base;
             already = (case at of None \<Rightarrow> False | Some i \<Rightarrow> any_free (po_buddy (fa_pools fa ! i)) base pages)
         in if already then fa\<lparr>fa_refused_frees := fa_refused_frees fa + 1\<rparr>
            else
              (let fa1 = mark_owned base pages False fa;
                   taken_pools = (case at of
                       None \<Rightarrow> (0, fa_pools fa)
                     | Some i \<Rightarrow>
                         (case free_span base pages (po_buddy (fa_pools fa ! i)) of
                            (n, b) \<Rightarrow> (n, (fa_pools fa)[i := (fa_pools fa ! i)\<lparr>po_buddy := b\<rparr>])));
                   taken = fst taken_pools;
                   fa2 = fa1\<lparr>fa_pools := snd taken_pools, fa_free_count := fa_free_count fa1 + taken\<rparr>
               in if taken \<noteq> pages then
                    mark_owned (base + taken * PAGE_SIZE) (pages - taken) True
                      (fa2\<lparr>fa_retired_pages := fa_retired_pages fa2 + (pages - taken),
                           fa_lost_pages := fa_lost_pages fa2 + (pages - taken)\<rparr>)
                  else fa2)))"

definition insert_run :: "nat \<Rightarrow> nat \<Rightarrow> nat \<Rightarrow> frames \<Rightarrow> bool \<times> frames" where
  "insert_run at base pages fa =
     (let rs = runs fa;
          left_adjacent = (0 < at \<and> run_end (rs ! (at - 1)) = base);
          right_adjacent = (at < length rs \<and> base + pages * PAGE_SIZE = fr_base (rs ! at))
      in if left_adjacent \<and> right_adjacent then
           (True, set_runs (without at (rs[at - 1 := (rs ! (at - 1))\<lparr>fr_pages := fr_pages (rs ! (at - 1)) + (pages + fr_pages (rs ! at))\<rparr>])) fa)
         else if left_adjacent then
           (True, set_runs (rs[at - 1 := (rs ! (at - 1))\<lparr>fr_pages := fr_pages (rs ! (at - 1)) + pages\<rparr>]) fa)
         else if right_adjacent then
           (True, set_runs (rs[at := \<lparr>fr_base = base, fr_pages = fr_pages (rs ! at) + pages\<rparr>]) fa)
         else insert_at at \<lparr>fr_base = base, fr_pages = pages\<rparr> fa)"

definition insert_runs :: "nat \<Rightarrow> nat \<Rightarrow> frames \<Rightarrow> frames" where
  "insert_runs base pages fa =
     (if \<not> check_owned_free base pages fa then fa\<lparr>fa_refused_frees := fa_refused_frees fa + 1\<rparr>
      else
        (let rs = runs fa;
             at = run_position rs base;
             overlaps_right = (at < length rs \<and> fr_base (rs ! at) < base + pages * PAGE_SIZE);
             overlaps_left = (0 < at \<and> base < run_end (rs ! (at - 1)))
         in if overlaps_right \<or> overlaps_left then fa\<lparr>fa_refused_frees := fa_refused_frees fa + 1\<rparr>
            else
              (case insert_run at base pages (mark_owned base pages False fa) of
                 (True, fa1) \<Rightarrow> fa1\<lparr>fa_free_count := fa_free_count fa1 + pages\<rparr>
               | (False, fa1) \<Rightarrow> fa1\<lparr>fa_lost_pages := fa_lost_pages fa1 + pages\<rparr>)))"

definition fa_insert :: "topology option \<Rightarrow> nat \<Rightarrow> nat \<Rightarrow> frames \<Rightarrow> frames" where
  "fa_insert topo base pages fa =
     (if pages = 0 then fa
      else if fa_pools fa \<noteq> [] then insert_pools topo base pages fa
      else insert_runs base pages fa)"

section \<open>Taking frames\<close>

definition hand_out :: "nat \<Rightarrow> nat \<Rightarrow> nat \<Rightarrow> frames \<Rightarrow> nat option \<times> frames" where
  "hand_out base pages order fa =
     (if \<not> check_not_owned base pages fa then
        (None, refuse_duplicate base pages False (fa\<lparr>fa_double_allocations := fa_double_allocations fa + 1\<rparr>))
      else
        (Some base, mark_owned base pages True (note_handout base pages order (fa\<lparr>fa_free_count := fa_free_count fa - pages\<rparr>))))"

definition take_run :: "nat \<Rightarrow> nat \<Rightarrow> frames \<Rightarrow> nat \<times> frames" where
  "take_run at pages fa =
     (let rs = runs fa; base = fr_base (rs ! at);
          rs1 = rs[at := \<lparr>fr_base = base + pages * PAGE_SIZE, fr_pages = fr_pages (rs ! at) - pages\<rparr>];
          rs2 = (if fr_pages (rs1 ! at) = 0 then without at rs1 else rs1);
          fa1 = set_runs rs2 fa
      in (base, mark_owned base pages True (fa1\<lparr>fa_free_count := fa_free_count fa1 - pages\<rparr>)))"

definition take_one_from :: "topology option \<Rightarrow> node_id option \<Rightarrow> frames \<Rightarrow> nat option \<times> frames" where
  "take_one_from topo want fa =
     (if fa_pools fa \<noteq> [] then
        (case try_pools (buddy_alloc 0) (preference topo (fa_pools fa) want) (fa_pools fa) of
           (None, pools) \<Rightarrow> (None, fa\<lparr>fa_pools := pools\<rparr>)
         | (Some base, pools) \<Rightarrow> hand_out base 1 0 (fa\<lparr>fa_pools := pools\<rparr>))
      else if runs fa = [] then (None, fa)
      else (case take_run 0 1 fa of (base, fa') \<Rightarrow> (Some base, fa')))"

text \<open>\<^verbatim>\<open>pages.next_power_of_two().trailing_zeros()\<close>\<close>

definition handout_order :: "nat \<Rightarrow> nat" where
  "handout_order pages = order_from 64 0 pages"

definition serves :: "nat \<Rightarrow> nat \<Rightarrow> frun \<Rightarrow> bool" where
  "serves pages lim r \<longleftrightarrow> pages \<le> fr_pages r \<and>
     (case checked_add (fr_base r) (pages * PAGE_SIZE) of None \<Rightarrow> False | Some stop \<Rightarrow> stop \<le> lim)"

definition take_contiguous_below :: "topology option \<Rightarrow> nat \<Rightarrow> node_id option \<Rightarrow> nat \<Rightarrow> frames \<Rightarrow> nat option \<times> frames" where
  "take_contiguous_below topo pages want lim fa =
     (if fa_pools fa \<noteq> [] then
        (case try_pools (if lim = U64_MAX then alloc_contiguous pages else alloc_contiguous_below pages lim)
            (preference topo (fa_pools fa) want) (fa_pools fa) of
           (None, pools) \<Rightarrow> (None, fa\<lparr>fa_pools := pools\<rparr>)
         | (Some base, pools) \<Rightarrow> hand_out base pages (handout_order pages) (fa\<lparr>fa_pools := pools\<rparr>))
      else
        (case position (serves pages lim) (runs fa) of
           None \<Rightarrow> (None, fa)
         | Some at \<Rightarrow> (case take_run at pages fa of (base, fa') \<Rightarrow> (Some base, fa'))))"

definition take_contiguous_from :: "topology option \<Rightarrow> nat \<Rightarrow> node_id option \<Rightarrow> frames \<Rightarrow> nat option \<times> frames" where
  "take_contiguous_from topo pages want fa = take_contiguous_below topo pages want U64_MAX fa"

end
