(* ===== verification/Frame_Pools.thy ===== *)
theory Frame_Pools
  imports Frames
begin

text \<open>
  The pools of the frame allocator against the set of free frames. A request that one buddy answers
  (\<open>page_request\<close>) is lifted to the walk over the pools in order of preference; the order itself is the
  insertion sort of the pools by their key; and a frame is free in at most one pool, because it is
  free only in the pool its address routes to.
\<close>

section \<open>The order of preference\<close>

lemma length_sift [simp]: "length (sift key j order) = length order"
  by (induction key j order rule: sift.induct) simp_all

lemma mset_swap_next: "Suc j < length xs \<Longrightarrow> mset (xs[j := xs ! Suc j, Suc j := xs ! j]) = mset xs"
  using mset_swap [of "Suc j" xs j] by (simp add: list_update_swap)

lemma mset_sift: "j < length order \<Longrightarrow> mset (sift key j order) = mset order"
proof (induction key j order rule: sift.induct)
  case (2 key j order)
  then show ?case
    using mset_swap_next [of j order] by simp
qed simp

text \<open>The element at \<open>j\<close> moves down into a sorted prefix.\<close>

definition sorted_but :: "('a \<Rightarrow> 'k :: linorder) \<Rightarrow> nat \<Rightarrow> nat \<Rightarrow> 'a list \<Rightarrow> bool" where
  "sorted_but key j n xs \<longleftrightarrow> n \<le> length xs \<and> (\<forall>a b. a < b \<longrightarrow> b < n \<longrightarrow> b \<noteq> j \<longrightarrow> key (xs ! a) \<le> key (xs ! b))"

lemma sift_sorts:
  assumes "sorted_but key j n order" "j < n"
  shows "\<forall>a b. a < b \<longrightarrow> b < n \<longrightarrow> key (sift key j order ! a) \<le> key (sift key j order ! b)"
  using assms
proof (induction key j order rule: sift.induct)
  case (1 key order)
  then show ?case
    by (auto simp: sorted_but_def)
next
  case (2 key j order)
  show ?case
  proof (cases "key (order ! Suc j) < key (order ! j)")
    case True
    let ?next = "order[j := order ! Suc j, Suc j := order ! j]"
    have le: "key (order ! a) \<le> key (order ! b)" if "a < b" "b < n" "b \<noteq> Suc j" for a b
      using "2.prems"(1) that by (simp add: sorted_but_def)
    have "sorted_but key j n ?next"
      unfolding sorted_but_def
    proof (intro conjI allI impI)
      show "n \<le> length ?next"
        using "2.prems" by (simp add: sorted_but_def)
      fix a b
      assume ab: "a < b" "b < n" "b \<noteq> j"
      have len: "n \<le> length order"
        using "2.prems" by (simp add: sorted_but_def)
      have nth: "?next ! k = (if k = j then order ! Suc j else if k = Suc j then order ! j else order ! k)" if "k < n" for k
        using that len "2.prems"(2) by (simp add: nth_list_update)
      have swapped: "key (order ! Suc j) \<le> key (order ! j)"
        using True by simp
      show "key (?next ! a) \<le> key (?next ! b)"
      proof (cases "b = Suc j")
        case True
        then have "a = j \<or> a < j"
          using ab by auto
        then show ?thesis
        proof
          assume "a = j"
          then show ?thesis
            using True swapped nth [of a] nth [of b] ab by simp
        next
          assume "a < j"
          then show ?thesis
            using True le [of a j] nth [of a] nth [of b] ab by simp
        qed
      next
        case False
        have "a < n"
          using ab by simp
        then show ?thesis
          using ab False le [of a b] le [of j b] le [of "Suc j" b] nth [of a] nth [of b] by (cases "a = j") auto
      qed
    qed
    then show ?thesis
      using "2.IH" [OF True] True "2.prems"(2) by simp
  next
    case False
    have "key (order ! a) \<le> key (order ! b)" if "a < b" "b < n" for a b
    proof (cases "b = Suc j")
      case True
      have "key (order ! a) \<le> key (order ! j)"
        using "2.prems" that True by (cases "a = j") (auto simp: sorted_but_def)
      with False True show ?thesis
        by simp
    qed (use "2.prems" that in \<open>simp add: sorted_but_def\<close>)
    with False show ?thesis
      by simp
  qed
qed

lemma insertion_sorts:
  assumes "n \<le> length xs"
  shows "mset (fold (sift key) [1 ..< n] xs) = mset xs \<and>
    (\<forall>a b. a < b \<longrightarrow> b < n \<longrightarrow> key (fold (sift key) [1 ..< n] xs ! a) \<le> key (fold (sift key) [1 ..< n] xs ! b))"
  using assms
proof (induction n)
  case 0
  then show ?case
    by simp
next
  case (Suc n)
  show ?case
  proof (cases "n = 0")
    case False
    let ?prev = "fold (sift key) [1 ..< n] xs"
    have step: "fold (sift key) [1 ..< Suc n] xs = sift key n ?prev"
      using False by simp
    have prev: "mset ?prev = mset xs" "\<forall>a b. a < b \<longrightarrow> b < n \<longrightarrow> key (?prev ! a) \<le> key (?prev ! b)"
      using Suc.IH [OF Suc_leD [OF Suc.prems]] by blast+
    have len: "length ?prev = length xs"
      by (rule mset_eq_length [OF prev(1)])
    have "sorted_but key n (Suc n) ?prev"
      using prev(2) Suc.prems len unfolding sorted_but_def by (auto simp: less_Suc_eq)
    note sorted = sift_sorts [OF this lessI]
    have "mset (sift key n ?prev) = mset xs"
      using mset_sift [of n ?prev key] prev(1) len Suc.prems by (simp only: Suc_le_eq)
    with sorted show ?thesis
      unfolding step by blast
  qed simp
qed

lemma preference_pools: "set (preference topo pools want) = {..< min (length pools) MAX_POOLS}"
proof (cases want)
  case None
  show ?thesis
    unfolding preference_def Let_def None option.case set_upt atLeast0LessThan ..
next
  case (Some w)
  let ?n = "min (length pools) MAX_POOLS"
  have "mset (fold (sift (preference_key topo pools w)) [1 ..< ?n] [0 ..< ?n]) = mset [0 ..< ?n]"
    by (rule conjunct1 [OF insertion_sorts]) simp
  from mset_eq_setD [OF this] show ?thesis
    unfolding preference_def Let_def Some option.case set_upt atLeast0LessThan .
qed

section \<open>Free frames\<close>

definition pool_frames :: "pool \<Rightarrow> nat set" where
  "pool_frames p = address (po_buddy p) ` free_set (po_buddy p)"

definition pools_free :: "pool list \<Rightarrow> nat set" where
  "pools_free pools = (\<Union>p \<in> set pools. pool_frames p)"

text \<open>Every free frame lies in the pool its address routes to.\<close>

definition pools_ok :: "topology option \<Rightarrow> pool list \<Rightarrow> bool" where
  "pools_ok topo pools \<longleftrightarrow>
     (\<forall>i < length pools. buddy_ok (po_buddy (pools ! i)) \<and>
        (\<forall>phys \<in> pool_frames (pools ! i). pool_of topo pools phys = Some i))"

lemma pools_ok_buddy: "pools_ok topo pools \<Longrightarrow> i < length pools \<Longrightarrow> buddy_ok (po_buddy (pools ! i))"
  by (simp add: pools_ok_def)

lemma pools_ok_route:
  "pools_ok topo pools \<Longrightarrow> i < length pools \<Longrightarrow> phys \<in> pool_frames (pools ! i) \<Longrightarrow> pool_of topo pools phys = Some i"
  by (simp add: pools_ok_def)

definition replace_buddy :: "nat \<Rightarrow> buddy \<Rightarrow> pool list \<Rightarrow> pool list" where
  "replace_buddy i b pools = pools[i := (pools ! i)\<lparr>po_buddy := b\<rparr>]"

lemma replace_buddy_nth: "j < length pools \<Longrightarrow>
  replace_buddy i b pools ! j = (if j = i then (pools ! i)\<lparr>po_buddy := b\<rparr> else pools ! j)"
  by (simp add: replace_buddy_def nth_list_update)

lemma length_replace_buddy [simp]: "length (replace_buddy i b pools) = length pools"
  by (simp add: replace_buddy_def)

text \<open>Where a pool lies: its node and its extent, which no operation changes.\<close>

definition pool_place :: "pool \<Rightarrow> node_id option \<times> nat \<times> nat" where
  "pool_place p = (po_node p, bu_base (po_buddy p), bu_pages (po_buddy p))"

lemma replace_buddy_places:
  assumes "bu_base b = bu_base (po_buddy (pools ! i))" "bu_pages b = bu_pages (po_buddy (pools ! i))"
  shows "map pool_place (replace_buddy i b pools) = map pool_place pools"
  by (rule nth_equalityI) (simp_all add: replace_buddy_nth pool_place_def assms)

lemma position_map: "position P xs = position Q ys"
  if "length xs = length ys" "\<And>i. i < length xs \<Longrightarrow> P (xs ! i) = Q (ys ! i)"
  using that
proof (induction xs ys rule: list_induct2)
  case (Cons x xs y ys)
  have "P x = Q y"
    using Cons.prems [of 0] by simp
  moreover have "position P xs = position Q ys"
  proof (rule Cons.IH)
    show "P (xs ! i) = Q (ys ! i)" if "i < length xs" for i
      using Cons.prems [of "Suc i"] that by simp
  qed
  ultimately show ?case
    by simp
qed simp

lemma position_less: "position P xs = Some i \<Longrightarrow> i < length xs \<and> P (xs ! i)"
  by (induction xs arbitrary: i) (auto split: if_splits)

lemma pool_of_less: "pools \<noteq> [] \<Longrightarrow> pool_of topo pools phys = Some i \<Longrightarrow> i < length pools"
  by (auto simp: pool_of_def unaffiliated_def dest: position_less split: if_splits affinity.splits option.splits)

lemma pool_of_replace:
  assumes "bu_base b = bu_base (po_buddy (pools ! i))" "bu_pages b = bu_pages (po_buddy (pools ! i))"
  shows "pool_of topo (replace_buddy i b pools) = pool_of topo pools"
proof -
  have pos: "position (\<lambda>p. po_node p = n) (replace_buddy i b pools) = position (\<lambda>p. po_node p = n) pools" for n
    by (rule position_map) (simp_all add: replace_buddy_nth)
  have ext: "in_extent (po_buddy (replace_buddy i b pools ! j)) phys = in_extent (po_buddy (pools ! j)) phys" if "j < length pools" for j phys
    using that assms by (simp add: replace_buddy_nth in_extent_def)
  show ?thesis
    unfolding pool_of_def unaffiliated_def pos length_replace_buddy
    by (auto simp: fun_eq_iff ext dest: position_less split: affinity.splits option.splits)
qed

lemma pools_free_replace:
  assumes ok: "pools_ok topo pools" and i: "i < length pools"
  shows "pools_free (replace_buddy i b pools) =
    (pools_free pools - pool_frames (pools ! i)) \<union> pool_frames ((pools ! i)\<lparr>po_buddy := b\<rparr>)"
proof -
  have free: "phys \<in> pools_free ps \<longleftrightarrow> (\<exists>j < length ps. phys \<in> pool_frames (ps ! j))" for phys ps
    unfolding pools_free_def by (metis UN_iff in_set_conv_nth)
  have apart: "phys \<notin> pool_frames (pools ! i)" if "j < length pools" "j \<noteq> i" "phys \<in> pool_frames (pools ! j)" for j phys
    using pools_ok_route [OF ok that(1,3)] pools_ok_route [OF ok i, of phys] that(2) by auto
  show ?thesis
  proof (intro set_eqI iffI)
    fix phys
    assume "phys \<in> pools_free (replace_buddy i b pools)"
    then obtain j where "j < length pools" "phys \<in> pool_frames (replace_buddy i b pools ! j)"
      unfolding free by auto
    then show "phys \<in> (pools_free pools - pool_frames (pools ! i)) \<union> pool_frames ((pools ! i)\<lparr>po_buddy := b\<rparr>)"
      using apart by (cases "j = i") (auto simp: replace_buddy_nth free)
  next
    fix phys
    assume "phys \<in> (pools_free pools - pool_frames (pools ! i)) \<union> pool_frames ((pools ! i)\<lparr>po_buddy := b\<rparr>)"
    then show "phys \<in> pools_free (replace_buddy i b pools)"
    proof
      assume "phys \<in> pools_free pools - pool_frames (pools ! i)"
      then obtain j where "j < length pools" "j \<noteq> i" "phys \<in> pool_frames (pools ! j)"
        using free [of phys pools] by blast
      then show ?thesis
        unfolding free by (auto simp: replace_buddy_nth intro!: exI [of _ j])
    next
      assume "phys \<in> pool_frames ((pools ! i)\<lparr>po_buddy := b\<rparr>)"
      then show ?thesis
        unfolding free using i by (auto simp: replace_buddy_nth intro!: exI [of _ i])
    qed
  qed
qed

lemma pools_ok_replace:
  assumes ok: "pools_ok topo pools" and i: "i < length pools" and b: "buddy_ok b"
    and same: "bu_base b = bu_base (po_buddy (pools ! i))" "bu_pages b = bu_pages (po_buddy (pools ! i))"
    and route: "\<And>phys. phys \<in> pool_frames ((pools ! i)\<lparr>po_buddy := b\<rparr>) \<Longrightarrow> pool_of topo pools phys = Some i"
  shows "pools_ok topo (replace_buddy i b pools)"
  unfolding pools_ok_def pool_of_replace [OF same]
  using ok b route by (auto simp: replace_buddy_nth pools_ok_def)

definition pools_count :: "pool list \<Rightarrow> nat" where
  "pools_count pools = (\<Sum>p \<leftarrow> pools. bu_free (po_buddy p))"

lemma pools_count_replace:
  "i < length pools \<Longrightarrow> pools_count (replace_buddy i b pools) + bu_free (po_buddy (pools ! i)) = pools_count pools + bu_free b"
  using elem_le_sum_list [of i "map (\<lambda>p. bu_free (po_buddy p)) pools"]
  unfolding pools_count_def replace_buddy_def by (simp add: map_update sum_list_update)

definition frames_of :: "nat \<Rightarrow> nat \<Rightarrow> nat set" where
  "frames_of base pages = {base + k * PAGE_SIZE | k. k < pages}"

lemma address_run: "address b ` run page n = frames_of (address b page) n"
proof -
  have "run page n = (\<lambda>k. page + k) ` {..< n}"
    by (simp add: run_def image_add_atLeastLessThan lessThan_atLeast0 add.commute)
  then have "address b ` run page n = (\<lambda>k. address b (page + k)) ` {..< n}"
    by (simp add: image_image)
  also have "\<dots> = frames_of (address b page) n"
    by (auto simp: frames_of_def address_def algebra_simps)
  finally show ?thesis .
qed

lemma inj_address: "inj (address b)"
  by (auto simp: inj_def address_def)

section \<open>A request to one pool after the other\<close>

text \<open>
  What the walk over the pools needs of the buddy's answer: a served request takes one run of \<open>n\<close> free
  pages at a \<open>fine\<close> address and nothing else, a refused one takes nothing and the pool is starved of such runs.
\<close>

locale page_request =
  fixes request :: "buddy \<Rightarrow> nat option \<times> buddy" and n :: nat and starved :: "nat \<Rightarrow> nat set \<Rightarrow> bool"
    and fine :: "nat \<Rightarrow> bool"
  assumes served: "buddy_ok b \<Longrightarrow> request b = (Some base, b') \<Longrightarrow>
      buddy_ok b' \<and> bu_base b' = bu_base b \<and> bu_pages b' = bu_pages b \<and> fine base \<and>
      (\<exists>page. base = address b page \<and> run page n \<subseteq> free_set b \<and> free_set b' = free_set b - run page n)"
    and refused: "buddy_ok b \<Longrightarrow> request b = (None, b') \<Longrightarrow>
      buddy_ok b' \<and> bu_base b' = bu_base b \<and> bu_pages b' = bu_pages b \<and> free_set b' = free_set b \<and>
      starved (bu_base b) (free_set b)"
begin

lemma served_frames:
  assumes "buddy_ok (po_buddy p)" "request (po_buddy p) = (Some base, b')"
  shows "frames_of base n \<subseteq> pool_frames p" "pool_frames (p\<lparr>po_buddy := b'\<rparr>) = pool_frames p - frames_of base n"
    "bu_free b' + n = bu_free (po_buddy p)"
proof -
  from served [OF assms] obtain page where page: "base = address (po_buddy p) page" "run page n \<subseteq> free_set (po_buddy p)"
    "free_set b' = free_set (po_buddy p) - run page n" "buddy_ok b'" "bu_base b' = bu_base (po_buddy p)"
    by blast
  have same: "address b' = address (po_buddy p)"
    using page(5) by (simp add: address_def fun_eq_iff)
  show "frames_of base n \<subseteq> pool_frames p"
    unfolding page(1) address_run [symmetric] pool_frames_def using page(2) by blast
  show "pool_frames (p\<lparr>po_buddy := b'\<rparr>) = pool_frames p - frames_of base n"
    unfolding page(1) address_run [symmetric] pool_frames_def
    by (simp add: same page(3) image_set_diff [OF inj_address])
  have "finite (run page n)"
    by (simp add: run_def)
  then have "card (free_set b') = card (free_set (po_buddy p)) - n" "n \<le> card (free_set (po_buddy p))"
    using page(2,3) card_mono [OF finite_free_set [OF buddy_blocks [OF assms(1)]] page(2)]
    by (simp_all add: card_Diff_subset run_def)
  then show "bu_free b' + n = bu_free (po_buddy p)"
    using buddy_count [OF assms(1)] buddy_count [OF page(4)] by simp
qed

lemma refused_frames:
  assumes "buddy_ok (po_buddy p)" "request (po_buddy p) = (None, b')"
  shows "pool_frames (p\<lparr>po_buddy := b'\<rparr>) = pool_frames p" "bu_free b' = bu_free (po_buddy p)"
    "starved (bu_base (po_buddy p)) (free_set (po_buddy p))"
  using refused [OF assms] buddy_count [OF assms(1)] buddy_count [of b']
  by (auto simp: pool_frames_def address_def)

lemma try_pools_spec:
  assumes "pools_ok topo pools" "set order \<subseteq> {..< length pools}" "try_pools request order pools = (r, pools')"
  shows "pools_ok topo pools' \<and> length pools' = length pools \<and> pool_of topo pools' = pool_of topo pools \<and>
    map pool_place pools' = map pool_place pools \<and>
    (case r of
       None \<Rightarrow> pools_free pools' = pools_free pools \<and> pools_count pools' = pools_count pools \<and>
         (\<forall>i \<in> set order. starved (bu_base (po_buddy (pools ! i))) (free_set (po_buddy (pools ! i))))
     | Some base \<Rightarrow> frames_of base n \<subseteq> pools_free pools \<and> pools_free pools' = pools_free pools - frames_of base n \<and>
         pools_count pools' + n = pools_count pools \<and> base mod PAGE_SIZE = 0 \<and> fine base)"
  using assms
proof (induction order arbitrary: pools)
  case Nil
  then show ?case
    by auto
next
  case (Cons i order)
  have i: "i < length pools"
    using Cons.prems(2) by simp
  obtain q b where ask: "request (po_buddy (pools ! i)) = (q, b)"
    by fastforce
  note ok = pools_ok_buddy [OF Cons.prems(1) i]
  let ?pools = "replace_buddy i b pools"
  have sub: "pool_frames (pools ! i) \<subseteq> pools_free pools"
    using nth_mem [OF i] by (auto simp: pools_free_def)
  show ?case
  proof (cases q)
    case None
    note ref = refused_frames [OF ok ask [unfolded None]]
    have same: "buddy_ok b" "bu_base b = bu_base (po_buddy (pools ! i))" "bu_pages b = bu_pages (po_buddy (pools ! i))"
      "free_set b = free_set (po_buddy (pools ! i))"
      using refused [OF ok ask [unfolded None]] by blast+
    have ok1: "pools_ok topo ?pools"
      using pools_ok_replace [OF Cons.prems(1) i same(1-3)] ref(1) pools_ok_route [OF Cons.prems(1) i] by simp
    have "try_pools request order ?pools = (r, pools')"
      using Cons.prems(3) ask None by (simp add: replace_buddy_def)
    from Cons.IH [OF ok1 _ this] Cons.prems(2)
    have IH: "pools_ok topo pools' \<and> length pools' = length pools \<and> pool_of topo pools' = pool_of topo ?pools \<and>
      map pool_place pools' = map pool_place ?pools \<and>
      (case r of
         None \<Rightarrow> pools_free pools' = pools_free ?pools \<and> pools_count pools' = pools_count ?pools \<and>
           (\<forall>j \<in> set order. starved (bu_base (po_buddy (?pools ! j))) (free_set (po_buddy (?pools ! j))))
       | Some base \<Rightarrow> frames_of base n \<subseteq> pools_free ?pools \<and> pools_free pools' = pools_free ?pools - frames_of base n \<and>
           pools_count pools' + n = pools_count ?pools \<and> base mod PAGE_SIZE = 0 \<and> fine base)"
      by simp
    have free: "pools_free ?pools = pools_free pools"
      using pools_free_replace [OF Cons.prems(1) i, of b] ref(1) sub by auto
    have count: "pools_count ?pools = pools_count pools"
      using pools_count_replace [OF i, of b] ref(2) by simp
    have starve: "starved (bu_base (po_buddy (pools ! j))) (free_set (po_buddy (pools ! j)))"
      if "starved (bu_base (po_buddy (?pools ! j))) (free_set (po_buddy (?pools ! j)))" "j \<in> set order" for j
      using that Cons.prems(2) same by (cases "j = i") (auto simp: replace_buddy_nth)
    show ?thesis
      using IH ref(3) starve unfolding free count replace_buddy_places [OF same(2,3)] pool_of_replace [OF same(2,3)]
      by (cases r) auto
  next
    case (Some base)
    note srv = served_frames [OF ok ask [unfolded Some]]
    have same: "buddy_ok b" "bu_base b = bu_base (po_buddy (pools ! i))" "bu_pages b = bu_pages (po_buddy (pools ! i))"
      using served [OF ok ask [unfolded Some]] by blast+
    have res: "r = Some base" "pools' = ?pools"
      using Cons.prems(3) ask Some by (simp_all add: replace_buddy_def)
    have ok1: "pools_ok topo ?pools"
      using pools_ok_replace [OF Cons.prems(1) i same] srv(2) pools_ok_route [OF Cons.prems(1) i] by simp
    have other: "frames_of base n \<inter> (pools_free pools - pool_frames (pools ! i)) = {}"
      using srv(1) by auto
    have free: "pools_free ?pools = pools_free pools - frames_of base n"
      using pools_free_replace [OF Cons.prems(1) i, of b] srv(1,2) sub by auto
    have count: "pools_count ?pools + n = pools_count pools"
      using pools_count_replace [OF i, of b] srv(3) by linarith
    have "base mod PAGE_SIZE = 0" "fine base"
      using served [OF ok ask [unfolded Some]] ok by (auto simp: buddy_ok_def address_def mod_add_left_eq [symmetric])
    then show ?thesis
      unfolding res option.case using ok1 free count srv(1) sub replace_buddy_places [OF same(2,3)] pool_of_replace [OF same(2,3)] by auto
  qed
qed

end

interpretation one: page_request "buddy_alloc 0" 1 "\<lambda>_ free. free = {}" "\<lambda>_. True"
proof
  fix b base b'
  assume ok: "buddy_ok b" and take: "buddy_alloc 0 b = (Some base, b')"
  show "buddy_ok b' \<and> bu_base b' = bu_base b \<and> bu_pages b' = bu_pages b \<and> True \<and>
    (\<exists>page. base = address b page \<and> run page 1 \<subseteq> free_set b \<and> free_set b' = free_set b - run page 1)"
    using alloc_spec [OF ok take] by (auto simp: block_interval run_def)
next
  fix b b'
  assume ok: "buddy_ok b" and take: "buddy_alloc 0 b = (None, b')"
  have "free_set b = {}"
    using alloc_spec [OF ok take] by (auto simp: block_def)
  then show "buddy_ok b' \<and> bu_base b' = bu_base b \<and> bu_pages b' = bu_pages b \<and> free_set b' = free_set b \<and> free_set b = {}"
    using alloc_spec [OF ok take] free_set_cong [of b' b] by auto
qed

text \<open>No aligned block that could hold \<open>pages\<close> has its run end at or below the limit.\<close>

definition no_run :: "nat \<Rightarrow> nat \<Rightarrow> nat \<Rightarrow> nat set \<Rightarrow> bool" where
  "no_run pages lim base free \<longleftrightarrow>
     pages = 0 \<or> MAX_ORDER < order_for pages \<or>
     (\<forall>i. block (order_for pages) i \<subseteq> free \<longrightarrow> lim < base + i * 2 ^ order_for pages * PAGE_SIZE + pages * PAGE_SIZE)"

interpretation contiguous: page_request "alloc_contiguous n" n "no_run n lim" "\<lambda>_. True" for n lim
proof
  fix b base b'
  assume ok: "buddy_ok b" and take: "alloc_contiguous n b = (Some base, b')"
  show "buddy_ok b' \<and> bu_base b' = bu_base b \<and> bu_pages b' = bu_pages b \<and> True \<and>
    (\<exists>page. base = address b page \<and> run page n \<subseteq> free_set b \<and> free_set b' = free_set b - run page n)"
    using alloc_contiguous_spec [OF ok take] by auto
next
  fix b b'
  assume ok: "buddy_ok b" and take: "alloc_contiguous n b = (None, b')"
  show "buddy_ok b' \<and> bu_base b' = bu_base b \<and> bu_pages b' = bu_pages b \<and> free_set b' = free_set b \<and>
    no_run n lim (bu_base b) (free_set b)"
    using alloc_contiguous_spec [OF ok take] free_set_cong [of b' b] by (auto simp: no_run_def)
qed

interpretation below: page_request "alloc_contiguous_below n lim" n "no_run n lim" "\<lambda>base. base + n * PAGE_SIZE \<le> lim" for n lim
proof
  fix b base b'
  assume ok: "buddy_ok b" and take: "alloc_contiguous_below n lim b = (Some base, b')"
  show "buddy_ok b' \<and> bu_base b' = bu_base b \<and> bu_pages b' = bu_pages b \<and> base + n * PAGE_SIZE \<le> lim \<and>
    (\<exists>page. base = address b page \<and> run page n \<subseteq> free_set b \<and> free_set b' = free_set b - run page n)"
    using alloc_contiguous_below_spec [OF ok take] by auto
next
  fix b b'
  assume ok: "buddy_ok b" and take: "alloc_contiguous_below n lim b = (None, b')"
  show "buddy_ok b' \<and> bu_base b' = bu_base b \<and> bu_pages b' = bu_pages b \<and> free_set b' = free_set b \<and>
    no_run n lim (bu_base b) (free_set b)"
    using alloc_contiguous_below_spec [OF ok take] by (auto simp: no_run_def address_def)
qed

end
