(* ===== verification/Frame_Ops.thy ===== *)
theory Frame_Ops
  imports Frame_Pools
begin

text \<open>
  The operations of the frame allocator once the buddies serve it. \<open>frames_ok\<close> ties the three views
  together: the free count is the sum of the pools' counts, and a frame of the record is marked
  out exactly when it is not free. Under it the double-allocation check never fires, a hand-out
  moves exactly its frames from the pools to the record, and a free moves one frame back.
\<close>

section \<open>The three views agree\<close>

definition record_frame :: "frames \<Rightarrow> nat \<Rightarrow> nat" where
  "record_frame fa i = fa_owned_base fa + i * PAGE_SIZE"

definition record_ok :: "nat set \<Rightarrow> frames \<Rightarrow> bool" where
  "record_ok free fa \<longleftrightarrow> fa_owned_base fa mod PAGE_SIZE = 0 \<and>
     (case fa_owned fa of
        None \<Rightarrow> False
      | Some bits \<Rightarrow> fa_owned_frames fa \<le> 64 * length bits \<and>
          (\<forall>i < fa_owned_frames fa. bit_at bits i \<longleftrightarrow> record_frame fa i \<notin> free))"

definition frames_ok :: "topology option \<Rightarrow> frames \<Rightarrow> bool" where
  "frames_ok topo fa \<longleftrightarrow>
     fa_pools fa \<noteq> [] \<and> length (fa_pools fa) \<le> MAX_POOLS \<and> pools_ok topo (fa_pools fa) \<and>
     fa_free_count fa = pools_count (fa_pools fa) \<and>
     (\<forall>phys \<in> pools_free (fa_pools fa). record_index fa phys \<noteq> None) \<and>
     record_ok (pools_free (fa_pools fa)) fa"

abbreviation frames_free :: "frames \<Rightarrow> nat set" where
  "frames_free fa \<equiv> pools_free (fa_pools fa)"

lemma record_index_Some:
  assumes "fa_owned_base fa mod PAGE_SIZE = 0" "phys mod PAGE_SIZE = 0"
  shows "record_index fa phys = Some i \<longleftrightarrow> phys = record_frame fa i \<and> i < fa_owned_frames fa"
proof (cases "phys < fa_owned_base fa")
  case True
  then show ?thesis
    by (auto simp: record_index_def record_frame_def)
next
  case False
  have "(phys - fa_owned_base fa) mod PAGE_SIZE = 0"
    using assms False by (metis dvd_diff_nat mod_0_imp_dvd dvd_imp_mod_0)
  then obtain k where k: "phys - fa_owned_base fa = k * PAGE_SIZE"
    by (metis add.right_neutral div_mult_mod_eq)
  then have "phys = fa_owned_base fa + k * PAGE_SIZE"
    using False by linarith
  then show ?thesis
    by (auto simp: record_index_def record_frame_def Let_def)
qed

lemma record_index_fields:
  "fa_owned_base fa' = fa_owned_base fa \<Longrightarrow> fa_owned_frames fa' = fa_owned_frames fa \<Longrightarrow> record_index fa' = record_index fa"
  by (simp add: record_index_def fun_eq_iff)

lemma mark_owned_fields [simp]:
  "fa_pools (mark_owned base pages v fa) = fa_pools fa" "fa_free_count (mark_owned base pages v fa) = fa_free_count fa"
  "fa_owned_base (mark_owned base pages v fa) = fa_owned_base fa" "fa_owned_frames (mark_owned base pages v fa) = fa_owned_frames fa"
  "fa_double_allocations (mark_owned base pages v fa) = fa_double_allocations fa"
  "fa_refused_frees (mark_owned base pages v fa) = fa_refused_frees fa"
  "fa_lost_pages (mark_owned base pages v fa) = fa_lost_pages fa" "fa_retired_pages (mark_owned base pages v fa) = fa_retired_pages fa"
  by (simp_all add: mark_owned_def split: option.split)

lemma note_handout_fields [simp]:
  "fa_pools (note_handout base pages o1 fa) = fa_pools fa" "fa_free_count (note_handout base pages o1 fa) = fa_free_count fa"
  "fa_owned (note_handout base pages o1 fa) = fa_owned fa"
  "fa_owned_base (note_handout base pages o1 fa) = fa_owned_base fa" "fa_owned_frames (note_handout base pages o1 fa) = fa_owned_frames fa"
  "fa_double_allocations (note_handout base pages o1 fa) = fa_double_allocations fa"
  "fa_refused_frees (note_handout base pages o1 fa) = fa_refused_frees fa"
  "fa_lost_pages (note_handout base pages o1 fa) = fa_lost_pages fa" "fa_retired_pages (note_handout base pages o1 fa) = fa_retired_pages fa"
proof -
  define step where "step seq page fa = (case record_index fa (base + page * PAGE_SIZE) of
      None \<Rightarrow> fa
    | Some index \<Rightarrow> fa\<lparr>fa_owned_order := map_option (\<lambda>orders. orders[index := o1]) (fa_owned_order fa),
        fa_owned_seq := map_option (\<lambda>seqs. seqs[index := seq]) (fa_owned_seq fa)\<rparr>)" for seq page and fa :: frames
  have keep: "f (fold (step seq) ps fa) = f fa"
    if "\<And>page fa. f (step seq page fa) = f fa" for f :: "frames \<Rightarrow> 'x" and ps seq fa
    using that by (induction ps arbitrary: fa) simp_all
  have "note_handout base pages o1 fa =
      fold (step (fa_allocations fa + 1)) [0 ..< pages] (fa\<lparr>fa_allocations := fa_allocations fa + 1\<rparr>)"
    by (simp add: note_handout_def step_def [abs_def] Let_def)
  then show "fa_pools (note_handout base pages o1 fa) = fa_pools fa" "fa_free_count (note_handout base pages o1 fa) = fa_free_count fa"
    "fa_owned (note_handout base pages o1 fa) = fa_owned fa"
    "fa_owned_base (note_handout base pages o1 fa) = fa_owned_base fa" "fa_owned_frames (note_handout base pages o1 fa) = fa_owned_frames fa"
    "fa_double_allocations (note_handout base pages o1 fa) = fa_double_allocations fa"
    "fa_refused_frees (note_handout base pages o1 fa) = fa_refused_frees fa"
    "fa_lost_pages (note_handout base pages o1 fa) = fa_lost_pages fa" "fa_retired_pages (note_handout base pages o1 fa) = fa_retired_pages fa"
    by (simp_all add: keep step_def split: option.split)
qed

section \<open>Marking\<close>

lemma in_map_filter: "i \<in> set (List.map_filter f xs) \<longleftrightarrow> (\<exists>x \<in> set xs. f x = Some i)"
  by (induction xs) (auto simp: List.map_filter_simps split: option.splits)

lemma fold_skip: "fold (\<lambda>x bits. case f x of None \<Rightarrow> bits | Some i \<Rightarrow> bit_put v i bits) xs bits = bits_put v (List.map_filter f xs) bits"
  unfolding bits_put_def by (induction xs arbitrary: bits) (auto simp: List.map_filter_simps split: option.split)

lemma mark_owned_bits:
  assumes bits: "fa_owned fa = Some bits" "fa_owned_frames fa \<le> 64 * length bits"
    and aligned: "fa_owned_base fa mod PAGE_SIZE = 0" "base mod PAGE_SIZE = 0"
  obtains bits' where "fa_owned (mark_owned base pages v fa) = Some bits'" "length bits' = length bits"
    "\<And>i. i < fa_owned_frames fa \<Longrightarrow> bit_at bits' i \<longleftrightarrow> (if record_frame fa i \<in> frames_of base pages then v else bit_at bits i)"
proof -
  let ?is = "List.map_filter (\<lambda>page. record_index fa (base + page * PAGE_SIZE)) [0 ..< pages]"
  have page: "(base + page * PAGE_SIZE) mod PAGE_SIZE = 0" for page
    using aligned(2) by simp
  have member: "i \<in> set ?is \<longleftrightarrow> i < fa_owned_frames fa \<and> record_frame fa i \<in> frames_of base pages" for i
    unfolding in_map_filter record_index_Some [OF aligned(1) page] frames_of_def by (auto, metis)
  have range: "\<forall>i \<in> set ?is. i div 64 < length bits"
    using member bits(2) by (auto simp: less_mult_imp_div_less mult.commute)
  show ?thesis
  proof (rule that)
    show "fa_owned (mark_owned base pages v fa) = Some (bits_put v ?is bits)"
      by (simp add: mark_owned_def bits(1) fold_skip)
    show "bit_at (bits_put v ?is bits) i \<longleftrightarrow> (if record_frame fa i \<in> frames_of base pages then v else bit_at bits i)"
      if "i < fa_owned_frames fa" for i
      using bit_at_bits_put [OF range, of v i] member that by auto
  qed simp
qed

lemma record_ok_mark:
  assumes ok: "record_ok free fa" and base: "base mod PAGE_SIZE = 0"
  shows "record_ok (if v then free - frames_of base pages else free \<union> frames_of base pages) (mark_owned base pages v fa)"
proof -
  obtain bits where bits: "fa_owned fa = Some bits" "fa_owned_frames fa \<le> 64 * length bits" "fa_owned_base fa mod PAGE_SIZE = 0"
    "\<forall>i < fa_owned_frames fa. bit_at bits i \<longleftrightarrow> record_frame fa i \<notin> free"
    using ok by (auto simp: record_ok_def split: option.splits)
  obtain bits' where bits': "fa_owned (mark_owned base pages v fa) = Some bits'" "length bits' = length bits"
    "\<And>i. i < fa_owned_frames fa \<Longrightarrow> bit_at bits' i \<longleftrightarrow> (if record_frame fa i \<in> frames_of base pages then v else bit_at bits i)"
    using mark_owned_bits [OF bits(1,2,3) base] by blast
  have same: "record_frame (mark_owned base pages v fa) = record_frame fa"
    by (simp add: record_frame_def fun_eq_iff)
  show ?thesis
    unfolding record_ok_def same using bits bits' by auto
qed

lemma record_ok_bit:
  assumes "record_ok free fa" "fa_owned fa = Some bits" "i < fa_owned_frames fa"
  shows "bit_at bits i \<longleftrightarrow> record_frame fa i \<notin> free"
  using assms by (simp add: record_ok_def)

lemma check_not_owned_free:
  assumes ok: "record_ok free fa" and base: "base mod PAGE_SIZE = 0" and free: "frames_of base pages \<subseteq> free"
  shows "check_not_owned base pages fa"
proof -
  have aligned: "fa_owned_base fa mod PAGE_SIZE = 0"
    using ok by (simp add: record_ok_def)
  have "\<not> bit_at bits i"
    if bits: "fa_owned fa = Some bits" and page: "page < pages" "record_index fa (base + page * PAGE_SIZE) = Some i" for bits page i
  proof -
    have "(base + page * PAGE_SIZE) mod PAGE_SIZE = 0"
      using base by simp
    with page(2) have i: "record_frame fa i = base + page * PAGE_SIZE" "i < fa_owned_frames fa"
      using record_index_Some [OF aligned] by simp_all
    have "record_frame fa i \<in> free"
      unfolding i(1) using free page(1) by (auto simp: frames_of_def)
    with record_ok_bit [OF ok bits i(2)] show ?thesis
      by simp
  qed
  then show ?thesis
    by (auto simp: check_not_owned_def list_all_iff split: option.splits)
qed

lemma check_owned_free_one:
  assumes ok: "record_ok free fa"
  shows "check_owned_free phys 1 fa \<longleftrightarrow> (\<exists>i < fa_owned_frames fa. phys = record_frame fa i) \<and> phys \<notin> free"
proof -
  obtain bits where bits: "fa_owned fa = Some bits" "fa_owned_base fa mod PAGE_SIZE = 0"
    "\<forall>i < fa_owned_frames fa. bit_at bits i \<longleftrightarrow> record_frame fa i \<notin> free"
    using ok by (auto simp: record_ok_def split: option.splits)
  show ?thesis
  proof (cases "phys mod PAGE_SIZE = 0")
    case True
    then have "check_owned_free phys 1 fa \<longleftrightarrow> (\<exists>i. record_index fa phys = Some i \<and> bit_at bits i)"
      by (simp add: check_owned_free_def bits(1) split: option.split)
    also have "\<dots> \<longleftrightarrow> (\<exists>i < fa_owned_frames fa. phys = record_frame fa i \<and> phys \<notin> free)"
      unfolding record_index_Some [OF bits(2) True] using bits(3) by blast
    finally show ?thesis
      by blast
  next
    case False
    have "record_frame fa i mod PAGE_SIZE = 0" for i
      using bits(2) by (simp add: record_frame_def)
    with False bits(1) show ?thesis
      by (auto simp: check_owned_free_def)
  qed
qed

section \<open>Handing out\<close>

lemma record_ok_fields:
  assumes "fa_owned fa' = fa_owned fa" "fa_owned_base fa' = fa_owned_base fa" "fa_owned_frames fa' = fa_owned_frames fa"
  shows "record_ok free fa' = record_ok free fa"
  unfolding record_ok_def record_frame_def assms ..

lemma frames_ok_parts:
  assumes "frames_ok topo fa"
  shows "fa_pools fa \<noteq> []" "length (fa_pools fa) \<le> MAX_POOLS" "pools_ok topo (fa_pools fa)"
    "fa_free_count fa = pools_count (fa_pools fa)" "\<And>phys. phys \<in> frames_free fa \<Longrightarrow> record_index fa phys \<noteq> None"
    "record_ok (frames_free fa) fa"
  using assms unfolding frames_ok_def by blast+

text \<open>
  \<open>moved\<close> is what an operation may change: it keeps the invariant and the double-allocation count, and
  the free frames become \<open>free\<close>.
\<close>

definition moved :: "topology option \<Rightarrow> frames \<Rightarrow> nat set \<Rightarrow> frames \<Rightarrow> bool" where
  "moved topo fa free fa' \<longleftrightarrow> frames_ok topo fa' \<and> frames_free fa' = free \<and>
     fa_double_allocations fa' = fa_double_allocations fa \<and>
     fa_owned_base fa' = fa_owned_base fa \<and> fa_owned_frames fa' = fa_owned_frames fa \<and>
     pool_of topo (fa_pools fa') = pool_of topo (fa_pools fa) \<and> map pool_place (fa_pools fa') = map pool_place (fa_pools fa)"

lemma moved_refl: "frames_ok topo fa \<Longrightarrow> moved topo fa (frames_free fa) fa"
  by (simp add: moved_def)

lemma hand_out_moved:
  assumes ok: "frames_ok topo fa" and pools: "pools_ok topo pools" "length pools = length (fa_pools fa)"
      "pool_of topo pools = pool_of topo (fa_pools fa)" "map pool_place pools = map pool_place (fa_pools fa)"
    and took: "frames_of base n \<subseteq> frames_free fa" "pools_free pools = frames_free fa - frames_of base n"
      "pools_count pools + n = pools_count (fa_pools fa)" "base mod PAGE_SIZE = 0"
  obtains fa' where "hand_out base n order (fa\<lparr>fa_pools := pools\<rparr>) = (Some base, fa')"
    "moved topo fa (frames_free fa - frames_of base n) fa'"
proof -
  let ?fa = "fa\<lparr>fa_pools := pools\<rparr>"
  let ?fa1 = "note_handout base n order (?fa\<lparr>fa_free_count := fa_free_count ?fa - n\<rparr>)"
  let ?fa2 = "mark_owned base n True ?fa1"
  note P = frames_ok_parts [OF ok]
  have "record_ok (frames_free fa) ?fa"
    using P(6) record_ok_fields [of ?fa fa] by simp
  from check_not_owned_free [OF this took(4,1)]
  have out: "hand_out base n order ?fa = (Some base, ?fa2)"
    by (simp add: hand_out_def)
  have rec: "record_ok (frames_free fa) ?fa1"
    using P(6) record_ok_fields [of ?fa1 fa] by simp
  from record_ok_mark [OF rec took(4), of True n] have rec2: "record_ok (frames_free fa - frames_of base n) ?fa2"
    by simp
  have index: "record_index ?fa2 = record_index fa"
    by (rule record_index_fields) simp_all
  have "frames_ok topo ?fa2"
    unfolding frames_ok_def index using P pools took rec2 by auto
  then have "moved topo fa (frames_free fa - frames_of base n) ?fa2"
    using took(2) pools by (simp add: moved_def)
  with out that show ?thesis
    by blast
qed

lemma take_pools_spec:
  assumes req: "page_request request n starved fine" and ok: "frames_ok topo fa"
    and walk: "try_pools request (preference topo (fa_pools fa) want) (fa_pools fa) = (q, pools)"
  obtains (none) "q = None" "moved topo fa (frames_free fa) (fa\<lparr>fa_pools := pools\<rparr>)"
      "\<And>p. p \<in> set (fa_pools fa) \<Longrightarrow> starved (bu_base (po_buddy p)) (free_set (po_buddy p))"
    | (some) base fa' where "q = Some base" "hand_out base n order (fa\<lparr>fa_pools := pools\<rparr>) = (Some base, fa')"
      "moved topo fa (frames_free fa - frames_of base n) fa'" "frames_of base n \<subseteq> frames_free fa" "base mod PAGE_SIZE = 0" "fine base"
proof -
  note P = frames_ok_parts [OF ok]
  have order: "set (preference topo (fa_pools fa) want) = {..< length (fa_pools fa)}"
    using preference_pools [of topo "fa_pools fa" want] P(2) by (simp add: min_def)
  then have sub: "set (preference topo (fa_pools fa) want) \<subseteq> {..< length (fa_pools fa)}"
    by simp
  note spec = page_request.try_pools_spec [OF req P(3) sub walk]
  show ?thesis
  proof (cases q)
    case None
    from spec have T: "pools_ok topo pools" "length pools = length (fa_pools fa)"
      "pool_of topo pools = pool_of topo (fa_pools fa)" "map pool_place pools = map pool_place (fa_pools fa)"
      "pools_free pools = frames_free fa" "pools_count pools = pools_count (fa_pools fa)"
      "\<forall>i \<in> {..< length (fa_pools fa)}. starved (bu_base (po_buddy (fa_pools fa ! i))) (free_set (po_buddy (fa_pools fa ! i)))"
      unfolding None option.case order by - (elim conjE, assumption)+
    let ?fa = "fa\<lparr>fa_pools := pools\<rparr>"
    have "record_ok (frames_free fa) ?fa" "record_index ?fa = record_index fa"
      using P(6) record_ok_fields [of ?fa fa] record_index_fields [of ?fa fa] by simp_all
    then have "frames_ok topo ?fa"
      unfolding frames_ok_def using P T(1,2,5,6) by auto
    then have "moved topo fa (frames_free fa) ?fa"
      using T by (simp add: moved_def)
    moreover have "starved (bu_base (po_buddy p)) (free_set (po_buddy p))" if "p \<in> set (fa_pools fa)" for p
    proof -
      obtain i where "i < length (fa_pools fa)" "fa_pools fa ! i = p"
        using \<open>p \<in> set (fa_pools fa)\<close> by (auto simp: in_set_conv_nth)
      with bspec [OF T(7), of i] show ?thesis
        by simp
    qed
    ultimately show ?thesis
      by (rule none [OF None])
  next
    case (Some base)
    from spec have T: "pools_ok topo pools" "length pools = length (fa_pools fa)"
      "pool_of topo pools = pool_of topo (fa_pools fa)" "map pool_place pools = map pool_place (fa_pools fa)"
      "frames_of base n \<subseteq> frames_free fa" "pools_free pools = frames_free fa - frames_of base n"
      "pools_count pools + n = pools_count (fa_pools fa)" "base mod PAGE_SIZE = 0" "fine base"
      unfolding Some option.case by - (elim conjE, assumption)+
    obtain fa' where "hand_out base n order (fa\<lparr>fa_pools := pools\<rparr>) = (Some base, fa')"
      "moved topo fa (frames_free fa - frames_of base n) fa'"
      by (rule hand_out_moved [OF ok T(1-8)])
    then show ?thesis
      by (rule some [OF Some _ _ T(5,8,9)])
  qed
qed

lemma frames_of_one [simp]: "frames_of base 1 = {base}" "frames_of base (Suc 0) = {base}"
  by (auto simp: frames_of_def)

lemma take_one_spec:
  assumes ok: "frames_ok topo fa"
  obtains (none) fa' where "take_one_from topo want fa = (None, fa')" "moved topo fa (frames_free fa) fa'" "frames_free fa = {}"
    | (some) base fa' where "take_one_from topo want fa = (Some base, fa')" "base \<in> frames_free fa"
      "moved topo fa (frames_free fa - {base}) fa'"
proof -
  note P = frames_ok_parts [OF ok]
  obtain q pools where walk: "try_pools (buddy_alloc 0) (preference topo (fa_pools fa) want) (fa_pools fa) = (q, pools)"
    by fastforce
  show ?thesis
  proof (cases rule: take_pools_spec [OF one.page_request_axioms ok walk, where order = 0, case_names none some])
    case none
    then have "frames_free fa = {}"
      by (auto simp: pools_free_def pool_frames_def)
    moreover have "take_one_from topo want fa = (None, fa\<lparr>fa_pools := pools\<rparr>)"
      using P(1) walk none(1) by (simp add: take_one_from_def)
    ultimately show ?thesis
      using that(1) none(2) by blast
  next
    case (some base fa')
    have "take_one_from topo want fa = (Some base, fa')"
      using P(1) walk some(1,2) by (simp add: take_one_from_def)
    with that(2) some(3,4) show ?thesis
      by simp
  qed
qed

lemma take_contiguous_spec:
  assumes ok: "frames_ok topo fa"
  obtains (none) fa' where "take_contiguous_below topo n want lim fa = (None, fa')" "moved topo fa (frames_free fa) fa'"
      "\<And>p. p \<in> set (fa_pools fa) \<Longrightarrow> no_run n lim (bu_base (po_buddy p)) (free_set (po_buddy p))"
    | (some) base fa' where "take_contiguous_below topo n want lim fa = (Some base, fa')" "frames_of base n \<subseteq> frames_free fa"
      "moved topo fa (frames_free fa - frames_of base n) fa'" "base mod PAGE_SIZE = 0"
      "lim = U64_MAX \<or> base + n * PAGE_SIZE \<le> lim"
proof -
  note P = frames_ok_parts [OF ok]
  let ?request = "if lim = U64_MAX then alloc_contiguous n else alloc_contiguous_below n lim"
  have req: "page_request ?request n (no_run n lim) (\<lambda>base. lim = U64_MAX \<or> base + n * PAGE_SIZE \<le> lim)"
    using contiguous.page_request_axioms below.page_request_axioms by (cases "lim = U64_MAX") simp_all
  obtain q pools where walk: "try_pools ?request (preference topo (fa_pools fa) want) (fa_pools fa) = (q, pools)"
    by fastforce
  show ?thesis
  proof (cases rule: take_pools_spec [OF req ok walk, where order = "handout_order n", case_names none some])
    case none
    have "take_contiguous_below topo n want lim fa = (None, fa\<lparr>fa_pools := pools\<rparr>)"
      using P(1) walk none(1) by (simp add: take_contiguous_below_def)
    with that(1) none(2,3) show ?thesis
      by blast
  next
    case (some base fa')
    have "take_contiguous_below topo n want lim fa = (Some base, fa')"
      using P(1) walk some(1,2) by (simp add: take_contiguous_below_def)
    then show ?thesis
      by (rule that(2) [OF _ some(4,3,5,6)])
  qed
qed

section \<open>Giving one frame back\<close>

text \<open>
  What the record says of a frame: it lies in the record and is not free. That is all the record can
  tell. It starts with every bit set, so a frame in a hole of the memory map, which was never handed
  out, reads as out; and so does a frame whose holder has given it back and that someone else holds now.
\<close>

definition marked_out :: "frames \<Rightarrow> nat \<Rightarrow> bool" where
  "marked_out fa phys \<longleftrightarrow> (\<exists>i < fa_owned_frames fa. phys = record_frame fa i) \<and> phys \<notin> frames_free fa"

definition covered :: "topology option \<Rightarrow> frames \<Rightarrow> nat \<Rightarrow> bool" where
  "covered topo fa phys \<longleftrightarrow> (\<exists>i. pool_of topo (fa_pools fa) phys = Some i \<and> in_extent (po_buddy (fa_pools fa ! i)) phys)"

lemma in_extent_page:
  assumes ok: "buddy_ok b" and phys: "phys mod PAGE_SIZE = 0" "in_extent b phys"
  obtains page where "phys = address b page" "page < bu_pages b"
proof -
  have "bu_base b mod PAGE_SIZE = 0"
    using ok by (simp add: buddy_ok_def)
  then have "(phys - bu_base b) mod PAGE_SIZE = 0"
    using phys(1) by (metis dvd_diff_nat mod_0_imp_dvd dvd_imp_mod_0)
  then obtain k where "phys - bu_base b = k * PAGE_SIZE"
    by (metis add.right_neutral div_mult_mod_eq)
  then have k: "phys = bu_base b + k * PAGE_SIZE"
    using phys(2) le_add_diff_inverse [of "bu_base b" phys] by (simp add: in_extent_def)
  then have "k * PAGE_SIZE < bu_pages b * PAGE_SIZE"
    using phys(2) by (simp add: in_extent_def)
  with k that [of k] show ?thesis
    by (simp add: address_def)
qed

lemma free_span_outside:
  assumes "\<not> in_extent b phys"
  shows "free_span phys pages b = (0, b)"
proof (cases "phys < bu_base b")
  case False
  then have "bu_pages b * PAGE_SIZE \<le> phys - bu_base b"
    using assms by (simp add: in_extent_def)
  from div_le_mono [OF this, of PAGE_SIZE] have "bu_pages b \<le> (phys - bu_base b) div PAGE_SIZE"
    by simp
  then show ?thesis
    by (simp add: free_span_def Let_def)
qed (simp add: free_span_def)

lemma any_free_outside: "\<not> in_extent b phys \<Longrightarrow> \<not> any_free b phys pages"
  by (auto simp: any_free_def in_extent_def page_index_Some address_def split: option.splits)

lemma pool_one_freed:
  assumes ok: "buddy_ok (po_buddy p)" and page: "phys = address (po_buddy p) page" "page < bu_pages (po_buddy p)"
    and fresh: "phys \<notin> pool_frames p"
  obtains b where "free_span phys 1 (po_buddy p) = (1, b)" "buddy_ok b" "bu_base b = bu_base (po_buddy p)"
    "bu_pages b = bu_pages (po_buddy p)" "pool_frames (p\<lparr>po_buddy := b\<rparr>) = insert phys (pool_frames p)"
    "bu_free b = bu_free (po_buddy p) + 1" "\<not> any_free (po_buddy p) phys 1"
proof -
  obtain n b where span: "free_span (address (po_buddy p) page) 1 (po_buddy p) = (n, b)"
    by fastforce
  have pool: "{page ..< page + min 1 (bu_pages (po_buddy p) - page)} = {page}"
    using page(2) by auto
  have new: "page \<notin> free_set (po_buddy p)"
    using fresh page(1) by (auto simp: pool_frames_def)
  note spec = free_span_spec [OF ok page(2) span, unfolded pool]
  have "{page} - free_set (po_buddy p) = {page}"
    using new by auto
  then have n: "n = 1"
    using spec(3) by simp
  have "address b = address (po_buddy p)"
    using spec(4) by (simp add: address_def fun_eq_iff)
  then have "pool_frames (p\<lparr>po_buddy := b\<rparr>) = insert phys (pool_frames p)"
    using spec(2) page(1) by (simp add: pool_frames_def)
  moreover have "bu_free b = bu_free (po_buddy p) + 1"
    using buddy_count [OF ok] buddy_count [OF spec(1)] spec(2) new finite_free_set [OF buddy_blocks [OF ok]] by simp
  moreover have "\<not> any_free (po_buddy p) phys 1"
    using any_free_address [OF ok page(2)] new page(1) by (simp add: run_def)
  ultimately show ?thesis
    using that span spec(1,4,5) page(1) n by blast
qed

text \<open>A frame marked out whose pool covers it becomes free; one no pool covers stays out of circulation.\<close>

lemma replace_nonempty:
  assumes "pools \<noteq> []"
  shows "replace_buddy i b pools \<noteq> []"
  using assms by (simp add: replace_buddy_def)

lemma free_count_kept:
  assumes "fa_free_count fa = c"
  shows "fa\<lparr>fa_pools := ps, fa_free_count := c, fa_retired_pages := r, fa_lost_pages := l\<rparr>
    = fa\<lparr>fa_pools := ps, fa_retired_pages := r, fa_lost_pages := l\<rparr>"
  using assms by (cases fa) simp

lemma insert_covered:
  assumes ok: "frames_ok topo fa" and loan: "marked_out fa phys" and cov: "covered topo fa phys"
  shows "moved topo fa (insert phys (frames_free fa)) (fa_insert topo phys 1 fa) \<and>
    fa_lost_pages (fa_insert topo phys 1 fa) = fa_lost_pages fa \<and>
    fa_refused_frees (fa_insert topo phys 1 fa) = fa_refused_frees fa"
proof -
  note P = frames_ok_parts [OF ok]
  let ?pools = "fa_pools fa"
  obtain i where i: "pool_of topo ?pools phys = Some i" "in_extent (po_buddy (?pools ! i)) phys"
    using cov by (auto simp: covered_def)
  have less: "i < length ?pools"
    by (rule pool_of_less [OF P(1) i(1)])
  have check: "check_owned_free phys 1 fa"
    using loan check_owned_free_one [OF P(6)] by (simp add: marked_out_def)
  obtain k where k: "k < fa_owned_frames fa" "phys = record_frame fa k"
    using loan by (auto simp: marked_out_def)
  have base: "fa_owned_base fa mod PAGE_SIZE = 0"
    using P(6) by (simp add: record_ok_def)
  then have aligned: "phys mod PAGE_SIZE = 0"
    by (simp add: k(2) record_frame_def)
  have index: "record_index fa phys = Some k"
    using record_index_Some [OF base aligned] k by simp
  have fresh: "phys \<notin> pool_frames (?pools ! i)"
    using loan nth_mem [OF less] by (auto simp: marked_out_def pools_free_def)
  note buddy = pools_ok_buddy [OF P(3) less]
  obtain page where page: "phys = address (po_buddy (?pools ! i)) page" "page < bu_pages (po_buddy (?pools ! i))"
    by (rule in_extent_page [OF buddy aligned i(2)])
  obtain b where b: "free_span phys 1 (po_buddy (?pools ! i)) = (1, b)" "buddy_ok b"
      "bu_base b = bu_base (po_buddy (?pools ! i))" "bu_pages b = bu_pages (po_buddy (?pools ! i))"
      "pool_frames ((?pools ! i)\<lparr>po_buddy := b\<rparr>) = insert phys (pool_frames (?pools ! i))"
      "bu_free b = bu_free (po_buddy (?pools ! i)) + 1" "\<not> any_free (po_buddy (?pools ! i)) phys 1"
    by (rule pool_one_freed [OF buddy page fresh])
  let ?new = "replace_buddy i b ?pools"
  let ?fa1 = "mark_owned phys 1 False fa"
  let ?fa2 = "?fa1\<lparr>fa_pools := ?new, fa_free_count := fa_free_count ?fa1 + 1\<rparr>"
  have res: "fa_insert topo phys 1 fa = ?fa2"
    using P(1) check i(1) b(1,7) by (simp add: fa_insert_def insert_pools_def Let_def replace_buddy_def)
  have free: "pools_free ?new = insert phys (pools_free ?pools)"
    using pools_free_replace [OF P(3) less, of b] b(5) nth_mem [OF less] by (auto simp: pools_free_def)
  have pools: "pools_ok topo ?new"
    using pools_ok_replace [OF P(3) less b(2-4)] b(5) i(1) pools_ok_route [OF P(3) less] by auto
  have count: "pools_count ?new = pools_count ?pools + 1"
    using pools_count_replace [OF less, of b] b(6) by linarith
  have "record_ok (insert phys (pools_free ?pools)) ?fa1"
    using record_ok_mark [OF P(6) aligned, of False 1] by simp
  then have rec: "record_ok (insert phys (pools_free ?pools)) ?fa2"
    using record_ok_fields [of ?fa2 ?fa1] by simp
  have same: "record_index ?fa2 = record_index fa"
    by (rule record_index_fields) simp_all
  have "frames_ok topo ?fa2"
    unfolding frames_ok_def same using P pools count rec free index replace_nonempty [OF P(1)] by auto
  moreover note replace_buddy_places [OF b(3,4)]
  ultimately show ?thesis
    unfolding res using free pool_of_replace [OF b(3,4)] by (simp add: moved_def)
qed

lemma insert_uncovered:
  assumes ok: "frames_ok topo fa" and loan: "marked_out fa phys" and cov: "\<not> covered topo fa phys"
  shows "moved topo fa (frames_free fa) (fa_insert topo phys 1 fa) \<and>
    fa_lost_pages (fa_insert topo phys 1 fa) = fa_lost_pages fa + 1"
proof -
  note P = frames_ok_parts [OF ok]
  let ?pools = "fa_pools fa"
  have check: "check_owned_free phys 1 fa"
    using loan check_owned_free_one [OF P(6)] by (simp add: marked_out_def)
  have base: "fa_owned_base fa mod PAGE_SIZE = 0"
    using P(6) by (simp add: record_ok_def)
  then have aligned: "phys mod PAGE_SIZE = 0"
    using loan by (auto simp: marked_out_def record_frame_def)
  have out: "\<not> in_extent (po_buddy (?pools ! i)) phys" if "pool_of topo ?pools phys = Some i" for i
    using cov that by (simp add: covered_def)
  let ?fa1 = "mark_owned phys 1 False fa"
  let ?fa2 = "?fa1\<lparr>fa_pools := ?pools, fa_free_count := fa_free_count ?fa1,
      fa_retired_pages := fa_retired_pages ?fa1 + 1, fa_lost_pages := fa_lost_pages ?fa1 + 1\<rparr>"
  let ?fa3 = "mark_owned phys 1 True ?fa2"
  have res: "fa_insert topo phys 1 fa = ?fa3"
  proof (cases "pool_of topo ?pools phys")
    case None
    then show ?thesis
      using P(1) check by (simp add: fa_insert_def insert_pools_def Let_def free_count_kept)
  next
    case (Some i)
    have "?pools[i := (?pools ! i)\<lparr>po_buddy := po_buddy (?pools ! i)\<rparr>] = ?pools"
      by simp
    then show ?thesis
      using P(1) check Some free_span_outside [OF out [OF Some], of 1] any_free_outside [OF out [OF Some], of 1]
      by (simp add: fa_insert_def insert_pools_def Let_def free_count_kept)
  qed
  have "record_ok (insert phys (pools_free ?pools)) ?fa1"
    using record_ok_mark [OF P(6) aligned, of False 1] by simp
  then have "record_ok (insert phys (pools_free ?pools)) ?fa2"
    using record_ok_fields [of ?fa2 ?fa1] by simp
  from record_ok_mark [OF this aligned, of True 1] have "record_ok (insert phys (pools_free ?pools) - {phys}) ?fa3"
    by simp
  then have rec: "record_ok (pools_free ?pools) ?fa3"
    using loan by (simp add: marked_out_def)
  have same: "record_index ?fa3 = record_index fa"
    by (rule record_index_fields) simp_all
  have "frames_ok topo ?fa3"
    unfolding frames_ok_def same using P rec by auto
  then show ?thesis
    unfolding res by (simp add: moved_def)
qed

lemma insert_refused:
  assumes ok: "frames_ok topo fa" and loan: "\<not> marked_out fa phys"
  shows "fa_insert topo phys 1 fa = fa\<lparr>fa_refused_frees := fa_refused_frees fa + 1\<rparr>"
proof -
  note P = frames_ok_parts [OF ok]
  have "\<not> check_owned_free phys 1 fa"
    using loan check_owned_free_one [OF P(6)] by (simp add: marked_out_def)
  then show ?thesis
    using P(1) by (simp add: fa_insert_def insert_pools_def)
qed

text \<open>What is covered, and that a frame of the record is marked out once it is not free, survives every move.\<close>

lemma covered_place:
  assumes "map pool_place (fa_pools fa') = map pool_place (fa_pools fa)" "pool_of topo (fa_pools fa') = pool_of topo (fa_pools fa)" "fa_pools fa \<noteq> []"
  shows "covered topo fa' phys = covered topo fa phys"
proof -
  have len: "length (fa_pools fa') = length (fa_pools fa)"
    using map_eq_imp_length_eq [OF assms(1)] .
  have "in_extent (po_buddy (fa_pools fa' ! i)) phys = in_extent (po_buddy (fa_pools fa ! i)) phys" if "i < length (fa_pools fa)" for i
  proof -
    have "pool_place (fa_pools fa' ! i) = pool_place (fa_pools fa ! i)"
      using assms(1) that len by (metis nth_map)
    then show ?thesis
      by (simp add: pool_place_def in_extent_def)
  qed
  then show ?thesis
    unfolding covered_def assms(2) using pool_of_less [OF assms(3)] by blast
qed

lemma free_is_covered:
  assumes ok: "frames_ok topo fa" and free: "phys \<in> frames_free fa"
  shows "covered topo fa phys"
proof -
  note P = frames_ok_parts [OF ok]
  obtain i where i: "i < length (fa_pools fa)" "phys \<in> pool_frames (fa_pools fa ! i)"
    using free by (auto simp: pools_free_def in_set_conv_nth)
  let ?b = "po_buddy (fa_pools fa ! i)"
  obtain page where "phys = address ?b page" "page \<in> free_set ?b"
    using i(2) by (auto simp: pool_frames_def)
  moreover from this have "page < bu_pages ?b"
    using free_set_below [OF buddy_blocks [OF pools_ok_buddy [OF P(3) i(1)]]] by blast
  ultimately have "in_extent ?b phys"
    by (simp add: in_extent_def address_def)
  with pools_ok_route [OF P(3) i] show ?thesis
    by (auto simp: covered_def)
qed

lemma moved_trans: "moved topo fa free fa1 \<Longrightarrow> moved topo fa1 free' fa2 \<Longrightarrow> moved topo fa free' fa2"
  by (simp add: moved_def)

lemma moved_ok: "moved topo fa free fa' \<Longrightarrow> frames_ok topo fa'"
  by (simp add: moved_def)

lemma moved_covered: "frames_ok topo fa \<Longrightarrow> moved topo fa free fa' \<Longrightarrow> covered topo fa' phys = covered topo fa phys"
  using covered_place [of fa' fa topo phys] frames_ok_parts(1) by (simp add: moved_def)

lemma moved_marked_out: "moved topo fa free fa' \<Longrightarrow> marked_out fa' phys \<longleftrightarrow> (\<exists>i < fa_owned_frames fa. phys = record_frame fa i) \<and> phys \<notin> free"
  by (simp add: moved_def marked_out_def record_frame_def)

lemma free_in_record:
  assumes ok: "frames_ok topo fa" and free: "phys \<in> frames_free fa"
  shows "\<exists>i < fa_owned_frames fa. phys = record_frame fa i" "phys mod PAGE_SIZE = 0"
proof -
  note P = frames_ok_parts [OF ok]
  obtain i where i: "i < length (fa_pools fa)" "phys \<in> pool_frames (fa_pools fa ! i)"
    using free by (auto simp: pools_free_def in_set_conv_nth)
  then show aligned: "phys mod PAGE_SIZE = 0"
    using pools_ok_buddy [OF P(3) i(1)] by (auto simp: pool_frames_def address_def buddy_ok_def mod_add_left_eq [symmetric])
  have base: "fa_owned_base fa mod PAGE_SIZE = 0"
    using P(6) by (simp add: record_ok_def)
  show "\<exists>i < fa_owned_frames fa. phys = record_frame fa i"
    using P(5) [OF free] record_index_Some [OF base aligned] by blast
qed

end
