(* ===== verification/Frame_Properties.thy ===== *)
theory Frame_Properties
  imports Frame_Ops Buddy_Properties
begin

text \<open>
  What the frame allocator promises once the buddies serve it: a hand-out is exactly a run of free
  frames and is refused only for want of one, a frame that comes back is free again exactly when it
  is marked out and its pool covers it, and the pools are asked in the order of their distance. The
  witnesses use one pool of eight frames at \<open>0x1000\<close>, the first and the last of them marked out.
\<close>

section \<open>A sample allocator\<close>

definition sample_frames :: frames where
  "sample_frames = frames_new\<lparr>fa_pools := [\<lparr>po_node = None, po_buddy = sample_pool\<rparr>], fa_free_count := 6, fa_total_count := 6,
     fa_owned := Some [NOT 126], fa_owned_base := 4096, fa_owned_frames := 8\<rparr>"

lemma sample_free: "frames_free sample_frames = (\<lambda>page. 4096 + page * PAGE_SIZE) ` {1 ..< 7}"
  by (simp add: sample_frames_def pools_free_def pool_frames_def sample_pool_ok address_def image_def)

lemma sample_record: "record_frame sample_frames i \<in> frames_free sample_frames \<longleftrightarrow> 1 \<le> i \<and> i < 7"
  unfolding sample_free by (auto simp: record_frame_def sample_frames_def frames_new_def image_iff)

lemma sample_bit: "i < 8 \<Longrightarrow> bit_at [NOT 126] i \<longleftrightarrow> \<not> (1 \<le> i \<and> i < 7)"
proof -
  assume "i < 8"
  then have "i \<in> set [0 ..< 8]"
    by simp
  moreover have "\<forall>j \<in> set [0 ..< 8]. bit_at [NOT 126] j \<longleftrightarrow> \<not> (1 \<le> j \<and> j < 7)"
    by code_simp
  ultimately show ?thesis
    by blast
qed

lemma sample_frames_ok: "frames_ok None sample_frames"
proof -
  let ?fa = sample_frames
  have pools: "fa_pools ?fa = [\<lparr>po_node = None, po_buddy = sample_pool\<rparr>]"
    by (simp add: sample_frames_def)
  have six: "bu_free sample_pool = 6"
    using buddy_count [OF sample_pool_ok(1)] by (simp add: sample_pool_ok)
  have "pools_ok None (fa_pools ?fa)"
    using sample_pool_ok(1) unfolding pools pools_ok_def pool_of_def by simp
  moreover have "fa_free_count ?fa = pools_count (fa_pools ?fa)"
    unfolding pools by (simp add: pools_count_def six sample_frames_def)
  moreover have "record_index ?fa phys \<noteq> None" if "phys \<in> frames_free ?fa" for phys
    using that unfolding sample_free by (auto simp: record_index_def sample_frames_def Let_def)
  moreover have "record_ok (frames_free ?fa) ?fa"
    unfolding record_ok_def sample_record using sample_bit by (simp add: sample_frames_def PAGE_SIZE_def)
  ultimately show ?thesis
    by (simp add: frames_ok_def pools MAX_POOLS_def)
qed

section \<open>Hand-outs\<close>

text \<open>
  C12: A contiguous hand-out is exact. The frames handed out were all free, leave the free set, and end
  at or below the caller's limit; no other frame changes, the double-allocation check does not fire,
  and the free count and the ownership record agree with the pools again. A refusal changes no frame,
  and no pool then had an aligned free block whose run ends within the limit.
\<close>

theorem contiguous_frames_are_exact:
  assumes ok: "frames_ok topo fa" and take: "take_contiguous_below topo n want lim fa = (r, fa')"
  shows "frames_ok topo fa' \<and> fa_double_allocations fa' = fa_double_allocations fa \<and>
    (case r of
       Some base \<Rightarrow> base mod PAGE_SIZE = 0 \<and> frames_of base n \<subseteq> frames_free fa \<and>
         frames_free fa' = frames_free fa - frames_of base n \<and> (lim = U64_MAX \<or> base + n * PAGE_SIZE \<le> lim)
     | None \<Rightarrow> frames_free fa' = frames_free fa \<and>
         (\<forall>p \<in> set (fa_pools fa). no_run n lim (bu_base (po_buddy p)) (free_set (po_buddy p))))"
proof (cases rule: take_contiguous_spec [OF ok, of n want lim, case_names none some])
  case (none fa1)
  then show ?thesis
    using take by (simp add: moved_def)
next
  case (some base fa1)
  then show ?thesis
    using take by (simp add: moved_def)
qed

theorem contiguous_frames_are_exact_witness:
  "\<exists>r fa'. frames_ok None sample_frames \<and> take_contiguous_below None 2 None U64_MAX sample_frames = (r, fa') \<and>
    r \<noteq> None \<and> frames_ok None fa'"
proof -
  obtain r fa' where take: "take_contiguous_below None 2 None U64_MAX sample_frames = (r, fa')"
    by fastforce
  note exact = contiguous_frames_are_exact [OF sample_frames_ok take]
  have order: "order_for 2 = 1"
    by code_simp
  have "\<not> no_run 2 U64_MAX (bu_base sample_pool) (free_set sample_pool)"
    unfolding no_run_def order
    by (auto simp: sample_pool_ok block_interval MAX_ORDER_def PAGE_SIZE_def U64_MAX_def intro!: exI [of _ 1])
  then have "r \<noteq> None"
    using exact by (cases r) (auto simp: sample_frames_def)
  with exact take sample_frames_ok show ?thesis
    by blast
qed

text \<open>
  C34: A single frame is refused only when no frame is free. Whatever node is asked for, a frame is
  handed out as long as any pool has one; it was free and is free no longer, and nothing else changes.
\<close>

theorem one_frame_is_exact:
  assumes ok: "frames_ok topo fa" and take: "take_one_from topo want fa = (r, fa')"
  shows "frames_ok topo fa' \<and> fa_double_allocations fa' = fa_double_allocations fa \<and>
    (r = None \<longleftrightarrow> frames_free fa = {}) \<and> (\<forall>base. r = Some base \<longrightarrow> base \<in> frames_free fa) \<and>
    frames_free fa' = frames_free fa - set_option r"
proof (cases rule: take_one_spec [OF ok, of want, case_names none some])
  case (none fa1)
  then show ?thesis
    using take by (simp add: moved_def)
next
  case (some base fa1)
  then show ?thesis
    using take by (auto simp: moved_def)
qed

theorem one_frame_is_exact_witness:
  "\<exists>base fa'. frames_ok None sample_frames \<and> take_one_from None (Some 3) sample_frames = (Some base, fa') \<and>
    base \<in> frames_free sample_frames \<and> frames_free fa' = frames_free sample_frames - {base}"
proof -
  obtain r fa' where take: "take_one_from None (Some 3) sample_frames = (r, fa')"
    by fastforce
  have "frames_free sample_frames \<noteq> {}"
    by (simp add: sample_free)
  with one_frame_is_exact [OF sample_frames_ok take] sample_frames_ok take show ?thesis
    by (cases r) auto
qed

section \<open>Frees\<close>

text \<open>
  C35: A free is accepted exactly when the frame lies in the record and is not free. Then it is free
  again if the pool it routes to covers it, and otherwise it is counted as lost and stays marked, so
  it is never handed out; the invariant holds either way. Any other address (a frame that is already
  free, one outside the record, one that is not a frame's) is refused: the refusal is counted and
  nothing else changes. What is accepted is therefore more than what is out with the caller: a frame
  of a hole that was never handed out is accepted (and lost or, where a pool's extent covers the hole,
  added to it), and so is the second free of a frame that someone else has been given in between.
\<close>

theorem frees_are_exact:
  assumes ok: "frames_ok topo fa"
    and free: "fa_insert topo phys 1 fa = fa'"
  shows "(marked_out fa phys \<longrightarrow> frames_ok topo fa' \<and>
      (if covered topo fa phys then frames_free fa' = insert phys (frames_free fa) \<and> fa_lost_pages fa' = fa_lost_pages fa
       else frames_free fa' = frames_free fa \<and> fa_lost_pages fa' = fa_lost_pages fa + 1)) \<and>
    (\<not> marked_out fa phys \<longrightarrow> fa' = fa\<lparr>fa_refused_frees := fa_refused_frees fa + 1\<rparr>)"
  using insert_covered [OF ok, of phys] insert_uncovered [OF ok, of phys] insert_refused [OF ok, of phys]
  unfolding free by (cases "covered topo fa phys") (auto simp: moved_def)

theorem frees_are_exact_witness:
  "frames_ok None sample_frames \<and>
   frames_free (fa_insert None 4096 1 sample_frames) = insert 4096 (frames_free sample_frames) \<and>
   fa_insert None 8192 1 sample_frames = sample_frames\<lparr>fa_refused_frees := 1\<rparr>"
proof -
  have loan: "marked_out sample_frames 4096" "\<not> marked_out sample_frames 8192"
    unfolding marked_out_def sample_free
    by (auto simp: record_frame_def sample_frames_def PAGE_SIZE_def image_iff intro: exI [of _ 0])
  have "covered None sample_frames 4096"
    by (simp add: covered_def pool_of_def sample_frames_def in_extent_def sample_pool_ok PAGE_SIZE_def)
  with frees_are_exact [OF sample_frames_ok refl, of 4096] frees_are_exact [OF sample_frames_ok refl, of 8192] loan sample_frames_ok
  show ?thesis
    by (simp add: sample_frames_def frames_new_def)
qed

section \<open>Order of preference\<close>

text \<open>
  C40. The pools are asked nearest first. For a wanted node the walk visits every pool once, in ascending
  order of (another node, distance, node number), and memory no node owns last; so a pool of the wanted
  node, where there is one, is asked first.
\<close>

theorem preference_is_sorted:
  "let order = preference topo pools (Some want); n = min (length pools) MAX_POOLS in
     mset order = mset [0 ..< n] \<and> sorted (map (preference_key topo pools want) order) \<and>
     (\<forall>i < n. po_node (pools ! i) = Some want \<longrightarrow> po_node (pools ! hd order) = Some want)"
proof -
  let ?n = "min (length pools) MAX_POOLS"
  let ?key = "preference_key topo pools want"
  define order where "order = fold (sift ?key) [1 ..< ?n] [0 ..< ?n]"
  have pref: "preference topo pools (Some want) = order"
    unfolding preference_def Let_def option.case order_def ..
  have perm: "mset order = mset [0 ..< ?n]" and asc: "\<forall>a b. a < b \<longrightarrow> b < ?n \<longrightarrow> ?key (order ! a) \<le> ?key (order ! b)"
    using insertion_sorts [of ?n "[0 ..< ?n]" ?key] unfolding order_def by simp_all
  have len: "length order = ?n"
    using mset_eq_length [OF perm] by simp
  have sorted: "sorted (map ?key order)"
    using asc len by (simp add: sorted_iff_nth_mono_less)
  have "po_node (pools ! hd order) = Some want" if i: "i < ?n" "po_node (pools ! i) = Some want" for i
  proof -
    have "i \<in> set order"
      using mset_eq_setD [OF perm] i(1) by simp
    then obtain first rest where order: "order = first # rest" and "?key first \<le> ?key i"
      using sorted by (cases order) auto
    moreover have "\<not> fst (?key i)"
      using i(2) by (simp add: preference_key_def)
    ultimately have "\<not> fst (?key first)"
      by (auto simp: less_eq_prod_def)
    then show ?thesis
      by (simp add: order preference_key_def split: option.splits)
  qed
  with perm sorted show ?thesis
    unfolding pref Let_def by blast
qed

theorem preference_is_sorted_witness:
  "preference None (map (\<lambda>node. \<lparr>po_node = node, po_buddy = sample_empty\<rparr>) [None, Some 1, Some 2]) (Some 2) = [2, 1, 0] \<and>
   po_node (map (\<lambda>node. \<lparr>po_node = node, po_buddy = sample_empty\<rparr>) [None, Some 1, Some 2] !
     hd (preference None (map (\<lambda>node. \<lparr>po_node = node, po_buddy = sample_empty\<rparr>) [None, Some 1, Some 2]) (Some 2))) = Some 2"
proof -
  let ?pools = "map (\<lambda>node. \<lparr>po_node = node, po_buddy = sample_empty\<rparr>) [None, Some 1, Some 2]"
  have "(2 :: nat) < min (length ?pools) MAX_POOLS" "po_node (?pools ! 2) = Some 2"
    by (simp_all add: MAX_POOLS_def MAX_NODES_def)
  with preference_is_sorted [of None ?pools 2] have "po_node (?pools ! hd (preference None ?pools (Some 2))) = Some 2"
    unfolding Let_def by blast
  moreover have "preference None ?pools (Some 2) = [2, 1, 0]"
    by code_simp
  ultimately show ?thesis
    by blast
qed

end
