(* ===== verification/Hotplug.thy ===== *)
theory Hotplug
  imports Frames
begin

text \<open>
  Hotplugged memory (\<^verbatim>\<open>src/src/kernel/mem/hotplug/mod.rs\<close>): the table of regions, each with a bit per
  block (online) and a bit per frame (free). The state also holds the pages of the direct map the
  regions are mapped through. Whether the page tables take a page and whether a bitmap can be reserved
  are arguments of the calls that ask. Taking a block offline requests a shootdown and discards its
  answer, so the answer is no argument.

  Registering reads the table under one lock and places the region under a second; what other calls
  do to the table between the two is an argument. Taking blocks online and offline runs from its first
  lock to its end as one step here, although the source changes the direct map with no lock held:
  between the check and the mapping of an \<^verbatim>\<open>online\<close>, and after an \<^verbatim>\<open>offline\<close> has marked its
  blocks. Two calls on the same blocks that meet there are kept apart by the page tables, which refuse
  a page that is mapped, and not by the table modelled here.
\<close>

section \<open>Regions\<close>

definition MAX_REGIONS :: nat where "MAX_REGIONS = 4"
definition MAX_ADDRESS :: nat where "MAX_ADDRESS = 2 ^ 39"
definition MAX_BLOCKS :: nat where "MAX_BLOCKS = 32768"

datatype refusal =
    Unaligned | Overlap | TooHigh | TooMany | BlockRange | BlockState | Busy | Mapping | NoMemory | Unsupported

definition is_power_of_two :: "nat \<Rightarrow> bool" where
  "is_power_of_two n \<longleftrightarrow> list_ex (\<lambda>k. n = 2 ^ k) [0 ..< 64]"

definition check :: "nat \<Rightarrow> nat \<Rightarrow> nat \<Rightarrow> (nat \<times> nat) list \<Rightarrow> refusal + unit" where
  "check base len block_len taken =
     (if block_len < PAGE_SIZE \<or> \<not> is_power_of_two block_len \<or> len = 0 \<or> base mod block_len \<noteq> 0 \<or> len mod block_len \<noteq> 0
      then Inl Unaligned
      else if MAX_BLOCKS < len div block_len then Inl TooMany
      else
        (case checked_add base len of
           None \<Rightarrow> Inl TooHigh
         | Some stop \<Rightarrow>
             (if MAX_ADDRESS < stop then Inl TooHigh
              else if list_ex (\<lambda>(start, n). base < saturating_add start n \<and> start < stop) taken then Inl Overlap
              else Inr ())))"

record region =
  rg_base :: nat
  rg_pages :: nat
  rg_block_pages :: nat
  rg_online :: "bool list"
  rg_free :: "u64 list"
  rg_free_pages :: nat
  rg_online_pages :: nat
  rg_cursor :: nat

definition region_contains :: "region \<Rightarrow> nat \<Rightarrow> bool" where
  "region_contains r phys \<longleftrightarrow> rg_base r \<le> phys \<and> phys < rg_base r + rg_pages r * PAGE_SIZE"

definition region_bit :: "region \<Rightarrow> nat \<Rightarrow> bool" where
  "region_bit r frame = bit_at (rg_free r) frame"

definition region_set :: "nat \<Rightarrow> bool \<Rightarrow> region \<Rightarrow> region" where
  "region_set frame free r = r\<lparr>rg_free := bit_put free frame (rg_free r)\<rparr>"

definition block_of :: "region \<Rightarrow> nat \<Rightarrow> nat" where
  "block_of r frame = frame div rg_block_pages r"

record hotplug =
  hp_regions :: "region option list"
  hp_mapped :: "nat set"

definition hotplug_new :: hotplug where
  "hotplug_new = \<lparr>hp_regions = replicate MAX_REGIONS None, hp_mapped = {}\<rparr>"

definition region_at :: "hotplug \<Rightarrow> nat \<Rightarrow> region option" where
  "region_at hp index = (if index < length (hp_regions hp) then hp_regions hp ! index else None)"

definition put_region :: "nat \<Rightarrow> region \<Rightarrow> hotplug \<Rightarrow> hotplug" where
  "put_region index r hp = hp\<lparr>hp_regions := (hp_regions hp)[index := Some r]\<rparr>"

section \<open>Registering\<close>

definition held_of :: "region option \<Rightarrow> nat \<times> nat" where
  "held_of slot = (case slot of None \<Rightarrow> (0, 0) | Some r \<Rightarrow> (rg_base r, rg_pages r * PAGE_SIZE))"

definition same_region :: "nat \<Rightarrow> nat \<Rightarrow> nat \<Rightarrow> region option \<Rightarrow> bool" where
  "same_region base len block_len slot =
     (case slot of
        None \<Rightarrow> False
      | Some r \<Rightarrow> rg_base r = base \<and> rg_pages r * PAGE_SIZE = len \<and> rg_block_pages r * PAGE_SIZE = block_len)"

definition overlaps_region :: "nat \<Rightarrow> nat \<Rightarrow> region option \<Rightarrow> bool" where
  "overlaps_region base len slot =
     (case slot of
        None \<Rightarrow> False
      | Some other \<Rightarrow> base < rg_base other + rg_pages other * PAGE_SIZE \<and> rg_base other < base + len)"

definition region_new :: "nat \<Rightarrow> nat \<Rightarrow> nat \<Rightarrow> region" where
  "region_new base len block_len =
     (let pages = len div PAGE_SIZE in
      \<lparr>rg_base = base, rg_pages = pages, rg_block_pages = block_len div PAGE_SIZE,
       rg_online = replicate (len div block_len) False, rg_free = replicate ((pages + 63) div 64) 0,
       rg_free_pages = 0, rg_online_pages = 0, rg_cursor = 0\<rparr>)"

text \<open>
  \<open>elsewhere\<close> is what other calls do to the table while no lock is held and the bitmaps are made.
\<close>

definition register ::
  "bool \<Rightarrow> bool \<Rightarrow> (hotplug \<Rightarrow> hotplug) \<Rightarrow> nat \<Rightarrow> nat \<Rightarrow> nat \<Rightarrow> (nat \<times> nat) list \<Rightarrow> hotplug
     \<Rightarrow> (refusal + nat) \<times> hotplug" where
  "register x86_64 reserved elsewhere base len block_len taken hp =
     (if \<not> x86_64 then (Inl Unsupported, hp)
      else
        (case position (same_region base len block_len) (hp_regions hp) of
           Some at \<Rightarrow> (Inr at, hp)
         | None \<Rightarrow>
             (case check base len block_len taken of
                Inl e \<Rightarrow> (Inl e, hp)
              | Inr _ \<Rightarrow>
                  (case check base len block_len (map held_of (hp_regions hp)) of
                     Inl e \<Rightarrow> (Inl e, hp)
                   | Inr _ \<Rightarrow>
                       (let hp1 = elsewhere hp in
                        if \<not> reserved then (Inl NoMemory, hp1)
                        else if list_ex (overlaps_region base len) (hp_regions hp1) then (Inl Overlap, hp1)
                        else
                          (case position (\<lambda>slot. slot = None) (hp_regions hp1) of
                             None \<Rightarrow> (Inl TooMany, hp1)
                           | Some at \<Rightarrow> (Inr at, put_region at (region_new base len block_len) hp1)))))))"

section \<open>Blocks\<close>

text \<open>The caller's buffer takes as many blocks as fit.\<close>

definition states :: "nat \<Rightarrow> bool list \<Rightarrow> hotplug \<Rightarrow> (bool list \<times> nat) option" where
  "states index out hp =
     (case region_at hp index of
        None \<Rightarrow> None
      | Some r \<Rightarrow> Some (take (length out) (rg_online r) @ drop (length (rg_online r)) out, length (rg_online r)))"

definition block_span :: "nat \<Rightarrow> nat \<Rightarrow> nat \<Rightarrow> hotplug \<Rightarrow> refusal + (nat \<times> nat)" where
  "block_span index first n hp =
     (case region_at hp index of
        None \<Rightarrow> Inl BlockRange
      | Some r \<Rightarrow>
          (if n = 0 \<or> (case checked_add first n of None \<Rightarrow> True | Some stop \<Rightarrow> length (rg_online r) < stop)
           then Inl BlockRange
           else Inr (rg_base r + first * rg_block_pages r * PAGE_SIZE, n * rg_block_pages r)))"

definition unmap_range :: "nat \<Rightarrow> nat \<Rightarrow> nat set \<Rightarrow> nat set" where
  "unmap_range base pages mapped = fold (\<lambda>at mapped. mapped - {base + at * PAGE_SIZE}) [0 ..< pages] mapped"

fun map_range :: "(nat \<Rightarrow> bool) \<Rightarrow> nat \<Rightarrow> nat \<Rightarrow> nat \<Rightarrow> nat set \<Rightarrow> bool \<times> nat set" where
  "map_range try_map_page base at 0 mapped = (True, mapped)"
| "map_range try_map_page base at (Suc pages) mapped =
     (if \<not> try_map_page (base + at * PAGE_SIZE) then (False, unmap_range base at mapped)
      else map_range try_map_page base (Suc at) pages (insert (base + at * PAGE_SIZE) mapped))"

definition set_frames :: "nat \<Rightarrow> nat \<Rightarrow> bool \<Rightarrow> region \<Rightarrow> region" where
  "set_frames start pages free r = fold (\<lambda>frame. region_set frame free) [start ..< start + pages] r"

definition set_blocks :: "nat \<Rightarrow> nat \<Rightarrow> bool \<Rightarrow> region \<Rightarrow> region" where
  "set_blocks first n online r = r\<lparr>rg_online := fold (\<lambda>block bs. bs[block := online]) [first ..< first + n] (rg_online r)\<rparr>"

definition online :: "(nat \<Rightarrow> bool) \<Rightarrow> nat \<Rightarrow> nat \<Rightarrow> nat \<Rightarrow> hotplug \<Rightarrow> (refusal + unit) \<times> hotplug" where
  "online try_map_page index first n hp =
     (case block_span index first n hp of
        Inl e \<Rightarrow> (Inl e, hp)
      | Inr (base, pages) \<Rightarrow>
          (case region_at hp index of
             None \<Rightarrow> (Inl BlockRange, hp)
           | Some r \<Rightarrow>
               (if list_ex (\<lambda>block. rg_online r ! block) [first ..< first + n] then (Inl BlockState, hp)
                else
                  (case map_range try_map_page base 0 pages (hp_mapped hp) of
                     (False, mapped) \<Rightarrow> (Inl Mapping, hp\<lparr>hp_mapped := mapped\<rparr>)
                   | (True, mapped) \<Rightarrow>
                       (let start = (base - rg_base r) div PAGE_SIZE;
                            r1 = set_blocks first n True (set_frames start pages True r);
                            r2 = r1\<lparr>rg_free_pages := rg_free_pages r1 + pages, rg_online_pages := rg_online_pages r1 + pages\<rparr>
                        in (Inr (), put_region index r2 (hp\<lparr>hp_mapped := mapped\<rparr>)))))))"

definition offline :: "nat \<Rightarrow> nat \<Rightarrow> nat \<Rightarrow> hotplug \<Rightarrow> (refusal + unit) \<times> hotplug" where
  "offline index first n hp =
     (case block_span index first n hp of
        Inl e \<Rightarrow> (Inl e, hp)
      | Inr (base, pages) \<Rightarrow>
          (case region_at hp index of
             None \<Rightarrow> (Inl BlockRange, hp)
           | Some r \<Rightarrow>
               (if list_ex (\<lambda>block. \<not> rg_online r ! block) [first ..< first + n] then (Inl BlockState, hp)
                else
                  (let start = (base - rg_base r) div PAGE_SIZE in
                   if list_ex (\<lambda>frame. \<not> region_bit r frame) [start ..< start + pages] then (Inl Busy, hp)
                   else
                     (let r1 = set_blocks first n False (set_frames start pages False r);
                          r2 = r1\<lparr>rg_free_pages := rg_free_pages r1 - pages, rg_online_pages := rg_online_pages r1 - pages\<rparr>
                      in (Inr (), (put_region index r2 hp)\<lparr>hp_mapped := unmap_range base pages (hp_mapped hp)\<rparr>))))))"

section \<open>Frames\<close>

definition next_free :: "region \<Rightarrow> nat option" where
  "next_free r = find (region_bit r) (map (\<lambda>step. (rg_cursor r + step) mod rg_pages r) [0 ..< rg_pages r])"

fun take_from :: "region option list \<Rightarrow> nat option \<times> region option list" where
  "take_from [] = (None, [])"
| "take_from (slot # rest) =
     (case (case slot of None \<Rightarrow> None | Some r \<Rightarrow> if rg_free_pages r = 0 then None else map_option (Pair r) (next_free r)) of
        Some (r, frame) \<Rightarrow>
          (Some (rg_base r + frame * PAGE_SIZE),
           Some ((region_set frame False r)\<lparr>rg_free_pages := rg_free_pages r - 1, rg_cursor := frame + 1\<rparr>) # rest)
      | None \<Rightarrow> (case take_from rest of (got, rest') \<Rightarrow> (got, slot # rest')))"

definition hp_take :: "hotplug \<Rightarrow> nat option \<times> hotplug" where
  "hp_take hp = (case take_from (hp_regions hp) of (got, rs) \<Rightarrow> (got, hp\<lparr>hp_regions := rs\<rparr>))"

definition owner :: "nat \<Rightarrow> hotplug \<Rightarrow> nat option" where
  "owner phys hp = position (\<lambda>slot. case slot of None \<Rightarrow> False | Some r \<Rightarrow> region_contains r phys) (hp_regions hp)"

definition hp_give :: "nat \<Rightarrow> hotplug \<Rightarrow> bool \<times> hotplug" where
  "hp_give phys hp =
     (case owner phys hp of
        None \<Rightarrow> (False, hp)
      | Some index \<Rightarrow>
          (let r = the (hp_regions hp ! index); frame = (phys - rg_base r) div PAGE_SIZE in
           if \<not> rg_online r ! block_of r frame \<or> region_bit r frame then (True, hp)
           else (True, put_region index ((region_set frame True r)\<lparr>rg_free_pages := rg_free_pages r + 1\<rparr>) hp)))"

definition hp_is_free :: "nat \<Rightarrow> hotplug \<Rightarrow> bool option" where
  "hp_is_free phys hp =
     (case owner phys hp of
        None \<Rightarrow> None
      | Some index \<Rightarrow> (let r = the (hp_regions hp ! index) in Some (region_bit r ((phys - rg_base r) div PAGE_SIZE))))"

definition hp_totals :: "hotplug \<Rightarrow> nat \<times> nat" where
  "hp_totals hp =
     fold (\<lambda>slot (on, free). case slot of None \<Rightarrow> (on, free) | Some r \<Rightarrow> (on + rg_online_pages r, free + rg_free_pages r))
       (hp_regions hp) (0, 0)"

end
