(* ===== verification/Hotplug_Frames.thy ===== *)
theory Hotplug_Frames
  imports Hotplug Frame_Pools
begin

text \<open>
  The regions against two sets of frames: the free ones and those of blocks that are online. Under
  \<open>hotplug_ok\<close> the counters are the sizes of the sets, no two regions share an address, only frames of
  online blocks are free, and the direct map holds exactly the frames of online blocks.
\<close>

section \<open>One region\<close>

definition region_free :: "region \<Rightarrow> nat set" where
  "region_free r = {frame. frame < rg_pages r \<and> region_bit r frame}"

definition region_online :: "region \<Rightarrow> nat set" where
  "region_online r = {frame. frame < rg_pages r \<and> rg_online r ! block_of r frame}"

definition region_ok :: "region \<Rightarrow> bool" where
  "region_ok r \<longleftrightarrow> 0 < rg_block_pages r \<and> rg_pages r = length (rg_online r) * rg_block_pages r \<and>
     rg_pages r \<le> 64 * length (rg_free r) \<and> rg_base r mod PAGE_SIZE = 0 \<and>
     rg_base r + rg_pages r * PAGE_SIZE \<le> MAX_ADDRESS \<and>
     region_free r \<subseteq> region_online r \<and>
     rg_free_pages r = card (region_free r) \<and> rg_online_pages r = card (region_online r)"

definition same_place :: "region \<Rightarrow> region \<Rightarrow> bool" where
  "same_place r r' \<longleftrightarrow> rg_base r' = rg_base r \<and> rg_pages r' = rg_pages r \<and> rg_block_pages r' = rg_block_pages r \<and>
     length (rg_online r') = length (rg_online r) \<and> length (rg_free r') = length (rg_free r)"

lemma finite_region [simp]: "finite (region_free r)" "finite (region_online r)"
  by (simp_all add: region_free_def region_online_def)

lemma region_ok_frame: "region_ok r \<Longrightarrow> frame < rg_pages r \<Longrightarrow> frame div 64 < length (rg_free r)"
  by (simp add: region_ok_def less_mult_imp_div_less mult.commute)

lemma region_okI:
  assumes "region_ok r" "same_place r r'" "region_free r' \<subseteq> region_online r'"
    "rg_free_pages r' = card (region_free r')" "rg_online_pages r' = card (region_online r')"
  shows "region_ok r'"
  using assms unfolding region_ok_def same_place_def by auto

lemma region_free_set:
  assumes "region_ok r" "frame < rg_pages r"
  shows "region_free (region_set frame v r) = (if v then insert frame (region_free r) else region_free r - {frame})"
  using bit_at_put [OF region_ok_frame [OF assms], of v] assms(2)
  by (auto simp: region_free_def region_set_def region_bit_def)

lemma set_frames_bits: "set_frames start pages v r = r\<lparr>rg_free := bits_put v [start ..< start + pages] (rg_free r)\<rparr>"
proof -
  have "fold (\<lambda>frame. region_set frame v) fs r = r\<lparr>rg_free := bits_put v fs (rg_free r)\<rparr>" for fs r
    by (induction fs arbitrary: r) (simp_all add: region_set_def bits_put_def)
  then show ?thesis
    by (simp add: set_frames_def)
qed

lemma region_free_set_frames:
  assumes "region_ok r" "start + pages \<le> rg_pages r"
  shows "region_free (set_frames start pages v r) =
    (if v then region_free r \<union> {start ..< start + pages} else region_free r - {start ..< start + pages})"
proof -
  have "\<forall>i \<in> set [start ..< start + pages]. i div 64 < length (rg_free r)"
    using region_ok_frame [OF assms(1)] assms(2) by simp
  from bit_at_bits_put [OF this] show ?thesis
    using assms(2) by (auto simp: set_frames_bits region_free_def region_bit_def)
qed

lemma set_blocks_nth:
  "first + n \<le> length (rg_online r) \<Longrightarrow> k < length (rg_online r) \<Longrightarrow>
    rg_online (set_blocks first n v r) ! k = (if first \<le> k \<and> k < first + n then v else rg_online r ! k)"
proof -
  assume le: "first + n \<le> length (rg_online r)" "k < length (rg_online r)"
  have len: "length (fold (\<lambda>block bs. bs[block := v]) ks bs) = length bs" for ks and bs :: "bool list"
    by (induction ks arbitrary: bs) simp_all
  have "fold (\<lambda>block bs. bs[block := v]) [first ..< first + n] bs ! k = (if first \<le> k \<and> k < first + n then v else bs ! k)"
    if "first + n \<le> length bs" for bs
    using that
  proof (induction n)
    case (Suc n)
    then show ?case
      by (auto simp: nth_list_update len less_Suc_eq)
  qed auto
  from this [OF le(1)] show ?thesis
    by (simp add: set_blocks_def)
qed

lemma length_set_blocks [simp]: "length (rg_online (set_blocks first n v r)) = length (rg_online r)"
proof -
  have "length (fold (\<lambda>block bs. bs[block := v]) ks bs) = length bs" for ks and bs :: "bool list"
    by (induction ks arbitrary: bs) simp_all
  then show ?thesis
    by (simp add: set_blocks_def)
qed

lemma block_frames:
  assumes "(0 :: nat) < bp"
  shows "first \<le> frame div bp \<and> frame div bp < first + n \<longleftrightarrow> frame \<in> {first * bp ..< first * bp + n * bp}"
proof -
  have "frame div bp < first + n \<longleftrightarrow> frame < (first + n) * bp"
    using assms by (simp add: div_less_iff_less_mult)
  moreover have "first \<le> frame div bp \<longleftrightarrow> first * bp \<le> frame"
    using assms by (simp add: less_eq_div_iff_mult_less_eq)
  ultimately show ?thesis
    by (simp add: algebra_simps)
qed

lemma region_online_set_blocks:
  assumes ok: "region_ok r" and le: "first + n \<le> length (rg_online r)"
  shows "region_online (set_blocks first n v r) =
    (if v then region_online r \<union> {first * rg_block_pages r ..< first * rg_block_pages r + n * rg_block_pages r}
     else region_online r - {first * rg_block_pages r ..< first * rg_block_pages r + n * rg_block_pages r})"
proof -
  let ?bp = "rg_block_pages r"
  have bp: "0 < ?bp" "rg_pages r = length (rg_online r) * ?bp"
    using ok by (simp_all add: region_ok_def)
  have same: "rg_pages (set_blocks first n v r) = rg_pages r" "block_of (set_blocks first n v r) = block_of r"
    by (simp_all add: set_blocks_def block_of_def fun_eq_iff)
  have block: "block_of r frame < length (rg_online r)" if "frame < rg_pages r" for frame
    using that bp by (simp add: block_of_def div_less_iff_less_mult)
  have "(first + n) * ?bp \<le> rg_pages r"
    unfolding bp(2) by (rule mult_le_mono1 [OF le])
  then have inside: "frame < rg_pages r" if "frame \<in> {first * ?bp ..< first * ?bp + n * ?bp}" for frame
    using that by (simp add: algebra_simps)
  have nth: "rg_online (set_blocks first n v r) ! block_of r frame =
      (if frame \<in> {first * ?bp ..< first * ?bp + n * ?bp} then v else rg_online r ! block_of r frame)" if "frame < rg_pages r" for frame
    unfolding set_blocks_nth [OF le block [OF that]] by (simp only: block_of_def block_frames [OF bp(1)])
  show ?thesis
    unfolding region_online_def same using nth inside by (cases v) (auto split: if_splits)
qed

lemma rotation_covers: "(\<lambda>step. (cursor + step) mod n) ` {..< n} = {..< (n :: nat)}"
proof
  show "(\<lambda>step. (cursor + step) mod n) ` {..< n} \<subseteq> {..< n}"
    by (cases "n = 0") auto
  show "{..< n} \<subseteq> (\<lambda>step. (cursor + step) mod n) ` {..< n}"
  proof
    fix f
    assume f: "f \<in> {..< n}"
    let ?step = "(f + (n - cursor mod n)) mod n"
    have "(cursor + ?step) mod n = (cursor mod n + (f + (n - cursor mod n))) mod n"
      by (simp add: mod_add_left_eq mod_add_right_eq)
    also have "cursor mod n + (f + (n - cursor mod n)) = f + n"
      using mod_less_divisor [of n cursor] f by (simp only: lessThan_iff) linarith
    finally have "f = (cursor + ?step) mod n"
      using f by simp
    moreover have "?step \<in> {..< n}"
      using f by simp
    ultimately show "f \<in> (\<lambda>step. (cursor + step) mod n) ` {..< n}"
      by (rule image_eqI)
  qed
qed

lemma next_free_spec: "case next_free r of None \<Rightarrow> region_free r = {} | Some frame \<Rightarrow> frame \<in> region_free r"
proof -
  have cover: "set (map (\<lambda>step. (rg_cursor r + step) mod rg_pages r) [0 ..< rg_pages r]) = {..< rg_pages r}"
    using rotation_covers [of "rg_cursor r" "rg_pages r"] by (simp add: atLeast0LessThan)
  show ?thesis
  proof (cases "next_free r")
    case None
    then have "\<forall>frame \<in> {..< rg_pages r}. \<not> region_bit r frame"
      unfolding next_free_def find_None_iff cover [symmetric] by blast
    with None show ?thesis
      by (auto simp: region_free_def)
  next
    case (Some frame)
    then have "region_bit r frame" "frame \<in> {..< rg_pages r}"
      unfolding next_free_def cover [symmetric] find_Some_iff by (auto simp: in_set_conv_nth)
    with Some show ?thesis
      by (simp add: region_free_def)
  qed
qed

section \<open>All regions\<close>

definition live_region :: "hotplug \<Rightarrow> nat \<Rightarrow> region \<Rightarrow> bool" where
  "live_region hp i r \<longleftrightarrow> i < length (hp_regions hp) \<and> hp_regions hp ! i = Some r"

definition region_frame :: "region \<Rightarrow> nat \<Rightarrow> nat" where
  "region_frame r frame = rg_base r + frame * PAGE_SIZE"

definition frames_with :: "(region \<Rightarrow> nat set) \<Rightarrow> hotplug \<Rightarrow> nat set" where
  "frames_with part hp = {region_frame r frame | i r frame. live_region hp i r \<and> frame \<in> part r}"

abbreviation hot_free :: "hotplug \<Rightarrow> nat set" where
  "hot_free \<equiv> frames_with region_free"

abbreviation hot_online :: "hotplug \<Rightarrow> nat set" where
  "hot_online \<equiv> frames_with region_online"

definition apart :: "region \<Rightarrow> region \<Rightarrow> bool" where
  "apart r r' \<longleftrightarrow> rg_base r + rg_pages r * PAGE_SIZE \<le> rg_base r' \<or> rg_base r' + rg_pages r' * PAGE_SIZE \<le> rg_base r"

definition hotplug_ok :: "hotplug \<Rightarrow> bool" where
  "hotplug_ok hp \<longleftrightarrow>
     (\<forall>i r. live_region hp i r \<longrightarrow> region_ok r) \<and>
     (\<forall>i r j r'. live_region hp i r \<longrightarrow> live_region hp j r' \<longrightarrow> i \<noteq> j \<longrightarrow> apart r r') \<and>
     hp_mapped hp = hot_online hp"

lemma hotplug_ok_region: "hotplug_ok hp \<Longrightarrow> live_region hp i r \<Longrightarrow> region_ok r"
  unfolding hotplug_ok_def by blast

lemma region_frame_eq [simp]: "region_frame r frame = region_frame r frame' \<longleftrightarrow> frame = frame'"
  by (simp add: region_frame_def)

lemma region_frame_inside: "frame < rg_pages r \<Longrightarrow> region_contains r (region_frame r frame)"
  by (simp add: region_contains_def region_frame_def)

lemma region_free_inside: "frame \<in> region_free r \<Longrightarrow> frame < rg_pages r"
  by (simp add: region_free_def)

lemma region_online_inside: "frame \<in> region_online r \<Longrightarrow> frame < rg_pages r"
  by (simp add: region_online_def)

lemma live_region_unique: "live_region hp i r \<Longrightarrow> live_region hp i r' \<Longrightarrow> r = r'"
  by (simp add: live_region_def)

lemma one_owner:
  assumes "hotplug_ok hp" "live_region hp i r" "live_region hp j r'" "region_contains r phys" "region_contains r' phys"
  shows "i = j"
proof (rule ccontr)
  assume "i \<noteq> j"
  then have "apart r r'"
    using assms(1-3) unfolding hotplug_ok_def by blast
  with assms(4,5) show False
    by (auto simp: apart_def region_contains_def)
qed

lemma frame_in_region:
  assumes ok: "hotplug_ok hp" and live: "live_region hp i r" and frame: "frame < rg_pages r"
    and part: "\<And>s f. f \<in> part s \<Longrightarrow> f < rg_pages s"
  shows "region_frame r frame \<in> frames_with part hp \<longleftrightarrow> frame \<in> part r"
proof
  assume "region_frame r frame \<in> frames_with part hp"
  then obtain j s f where s: "live_region hp j s" "f \<in> part s" "region_frame r frame = region_frame s f"
    by (auto simp: frames_with_def)
  then have "region_contains s (region_frame r frame)"
    using region_frame_inside part by simp
  then have "i = j"
    by (rule one_owner [OF ok live s(1) region_frame_inside [OF frame]])
  with s live_region_unique [OF live] show "frame \<in> part r"
    by auto
next
  assume "frame \<in> part r"
  with live show "region_frame r frame \<in> frames_with part hp"
    by (auto simp: frames_with_def)
qed

lemma live_put_region:
  assumes "live_region hp i r"
  shows "live_region (put_region i r' hp) j s \<longleftrightarrow> (if j = i then s = r' else live_region hp j s)"
  using assms by (auto simp: live_region_def put_region_def nth_list_update)

lemma live_mapped [simp]: "live_region (hp\<lparr>hp_mapped := ms\<rparr>) = live_region hp"
  by (simp add: live_region_def fun_eq_iff)

lemma frames_with_mapped [simp]: "frames_with part (hp\<lparr>hp_mapped := ms\<rparr>) = frames_with part hp"
  by (simp add: frames_with_def)

text \<open>Replacing a region by one in the same place moves only its own frames.\<close>

lemma put_region_frames:
  assumes ok: "hotplug_ok hp" and live: "live_region hp i r" and place: "same_place r r'"
    and part: "\<And>s f. f \<in> part s \<Longrightarrow> f < rg_pages s"
  shows "frames_with part (put_region i r' hp) = (frames_with part hp - region_frame r ` part r) \<union> region_frame r ` part r'"
    (is "?l = ?r")
proof (intro set_eqI iffI)
  have frame: "region_frame r' = region_frame r"
    using place by (simp add: same_place_def region_frame_def fun_eq_iff)
  fix phys
  {
    assume "phys \<in> ?l"
    then obtain j s f where s: "live_region (put_region i r' hp) j s" "phys = region_frame s f" "f \<in> part s"
      by (auto simp: frames_with_def)
    show "phys \<in> ?r"
    proof (cases "j = i")
      case True
      with s show ?thesis
        by (simp add: live_put_region [OF live] frame)
    next
      case False
      then have live': "live_region hp j s"
        using s(1) by (simp add: live_put_region [OF live])
      have "phys \<notin> region_frame r ` part r"
      proof
        assume "phys \<in> region_frame r ` part r"
        then have "region_contains r phys"
          using region_frame_inside part by auto
        moreover have "region_contains s phys"
          using region_frame_inside part s by simp
        ultimately show False
          using one_owner [OF ok live' live] False by blast
      qed
      moreover have "phys \<in> frames_with part hp"
        unfolding frames_with_def using live' s by blast
      ultimately show ?thesis
        by blast
    qed
  next
    assume "phys \<in> ?r"
    then show "phys \<in> ?l"
    proof
      assume old: "phys \<in> frames_with part hp - region_frame r ` part r"
      then obtain j s f where s: "live_region hp j s" "phys = region_frame s f" "f \<in> part s"
        by (auto simp: frames_with_def)
      have "j \<noteq> i"
        using old s live_region_unique [OF live] by blast
      with s(1) have "live_region (put_region i r' hp) j s"
        by (simp add: live_put_region [OF live])
      with s(2,3) show ?thesis
        unfolding frames_with_def by blast
    next
      assume "phys \<in> region_frame r ` part r'"
      then obtain f where "phys = region_frame r' f" "f \<in> part r'"
        by (auto simp: frame)
      moreover have "live_region (put_region i r' hp) i r'"
        by (simp add: live_put_region [OF live])
      ultimately show ?thesis
        unfolding frames_with_def by blast
    qed
  }
qed

lemma put_region_ok:
  assumes ok: "hotplug_ok hp" and live: "live_region hp i r" and place: "same_place r r'" and new: "region_ok r'"
    and mapped: "ms = hot_online (put_region i r' hp)"
  shows "hotplug_ok ((put_region i r' hp)\<lparr>hp_mapped := ms\<rparr>)"
proof -
  have same: "rg_base r' = rg_base r" "rg_pages r' = rg_pages r"
    using place by (simp_all add: same_place_def)
  have old: "apart t t'" if "live_region hp a t" "live_region hp b t'" "a \<noteq> b" for a b t t'
    using ok that unfolding hotplug_ok_def by blast
  have "apart s s'" if two: "live_region (put_region i r' hp) j s" "live_region (put_region i r' hp) k s'" "j \<noteq> k" for j s k s'
  proof -
    consider "j = i" "s = r'" "live_region hp k s'" | "k = i" "s' = r'" "live_region hp j s" | "live_region hp j s" "live_region hp k s'"
      using two unfolding live_put_region [OF live] by (auto split: if_splits)
    then show ?thesis
    proof cases
      case 1
      with old [OF live 1(3)] two(3) same show ?thesis
        by (simp add: apart_def)
    next
      case 2
      with old [OF 2(3) live] two(3) same show ?thesis
        by (simp add: apart_def)
    next
      case 3
      then show ?thesis
        by (rule old [OF _ _ two(3)])
    qed
  qed
  moreover have "region_ok s" if "live_region (put_region i r' hp) j s" for j s
    using that new hotplug_ok_region [OF ok] unfolding live_put_region [OF live] by (auto split: if_splits)
  ultimately show ?thesis
    unfolding hotplug_ok_def using mapped by auto
qed

end
