(* ===== verification/Hotplug_Ops.thy ===== *)
theory Hotplug_Ops
  imports Hotplug_Frames
begin

text \<open>
  The operations on hotplugged memory over the sets of free and of online frames: a frame is taken and
  given back exactly, and blocks come online and go offline whole or not at all.
\<close>

section \<open>Taking and giving a frame\<close>

definition took_one :: "region option list \<Rightarrow> nat \<Rightarrow> region option list \<Rightarrow> bool" where
  "took_one rs phys rs' \<longleftrightarrow> (\<exists>i r frame. i < length rs \<and> rs ! i = Some r \<and> frame \<in> region_free r \<and> phys = region_frame r frame \<and>
     rs' = rs[i := Some ((region_set frame False r)\<lparr>rg_free_pages := rg_free_pages r - 1, rg_cursor := frame + 1\<rparr>)])"

lemma took_later: "took_one rest phys rs' \<Longrightarrow> took_one (slot # rest) phys (slot # rs')"
  unfolding took_one_def by (metis Suc_less_eq length_Cons list_update_code(3) nth_Cons_Suc)

lemma took_here:
  assumes "frame \<in> region_free r"
  shows "took_one (Some r # rest) (region_frame r frame)
    (Some ((region_set frame False r)\<lparr>rg_free_pages := rg_free_pages r - 1, rg_cursor := frame + 1\<rparr>) # rest)"
  unfolding took_one_def by (rule exI [of _ 0], rule exI [of _ r], rule exI [of _ frame]) (simp add: assms)

lemma take_from_spec:
  assumes "\<forall>r. Some r \<in> set rs \<longrightarrow> region_ok r"
  shows "case take_from rs of
      (None, rs') \<Rightarrow> rs' = rs \<and> (\<forall>r. Some r \<in> set rs \<longrightarrow> region_free r = {})
    | (Some phys, rs') \<Rightarrow> took_one rs phys rs'"
  using assms
proof (induction rs)
  case (Cons slot rest)
  obtain got rs' where rest: "take_from rest = (got, rs')"
    by fastforce
  have "\<forall>r. Some r \<in> set rest \<longrightarrow> region_ok r"
    using Cons.prems by simp
  from Cons.IH [OF this] have IH: "case got of None \<Rightarrow> rs' = rest \<and> (\<forall>r. Some r \<in> set rest \<longrightarrow> region_free r = {}) | Some phys \<Rightarrow> took_one rest phys rs'"
    unfolding rest by simp
  show ?case
  proof (cases "\<exists>r frame. slot = Some r \<and> rg_free_pages r \<noteq> 0 \<and> next_free r = Some frame")
    case True
    then obtain r frame where hit: "slot = Some r" "rg_free_pages r \<noteq> 0" "next_free r = Some frame"
      by blast
    have "frame \<in> region_free r"
      using next_free_spec [of r] hit(3) by simp
    note here = took_here [OF this, of rest]
    have "take_from (slot # rest) = (Some (region_frame r frame),
        Some ((region_set frame False r)\<lparr>rg_free_pages := rg_free_pages r - 1, rg_cursor := frame + 1\<rparr>) # rest)"
      using hit by (simp add: region_frame_def)
    with here hit(1) show ?thesis
      by simp
  next
    case False
    then have skip: "take_from (slot # rest) = (got, slot # rs')"
      using rest by (cases slot; cases "next_free (the slot)") simp_all
    have empty: "region_free r = {}" if "slot = Some r" for r
    proof -
      have "rg_free_pages r = card (region_free r)"
        using Cons.prems that unfolding region_ok_def by (metis list.set_intros(1))
      moreover have "rg_free_pages r = 0 \<or> next_free r = None"
        using False that by blast
      ultimately show ?thesis
        using next_free_spec [of r] by (auto simp: card_eq_0_iff)
    qed
    show ?thesis
    proof (cases got)
      case None
      with IH empty skip show ?thesis
        by auto
    next
      case (Some phys)
      then have "took_one (slot # rest) phys (slot # rs')"
        using IH by (simp add: took_later)
      with Some skip show ?thesis
        by simp
    qed
  qed
qed simp

text \<open>One frame of a region changes hands.\<close>

lemma region_bit_moved:
  assumes ok: "region_ok r" and frame: "frame \<in> region_online r" "v \<longleftrightarrow> frame \<notin> region_free r"
    and new: "r' = (region_set frame v r)\<lparr>rg_free_pages := (if v then rg_free_pages r + 1 else rg_free_pages r - 1), rg_cursor := c\<rparr>"
  shows "same_place r r'" "region_ok r'" "region_online r' = region_online r"
    "region_free r' = (if v then insert frame (region_free r) else region_free r - {frame})"
proof -
  have inside: "frame < rg_pages r"
    by (rule region_online_inside [OF frame(1)])
  show place: "same_place r r'"
    by (simp add: same_place_def new region_set_def)
  show on: "region_online r' = region_online r"
    by (simp add: region_online_def block_of_def new region_set_def)
  have "region_free r' = region_free (region_set frame v r)"
    by (simp add: region_free_def region_bit_def new region_set_def)
  then show free: "region_free r' = (if v then insert frame (region_free r) else region_free r - {frame})"
    by (simp add: region_free_set [OF ok inside])
  have counts: "rg_free_pages r = card (region_free r)" "rg_online_pages r = card (region_online r)" "region_free r \<subseteq> region_online r"
    using ok by (simp_all add: region_ok_def)
  have "rg_free_pages r' = (if v then rg_free_pages r + 1 else rg_free_pages r - 1)"
    by (simp add: new)
  then have "rg_free_pages r' = card (region_free r')"
    unfolding free counts(1) using frame(2) by (cases v) simp_all
  moreover have "rg_online_pages r' = card (region_online r')"
    unfolding on counts(2) [symmetric] by (simp add: new region_set_def)
  moreover have "region_free r' \<subseteq> region_online r'"
    unfolding on free using frame(1) counts(3) by auto
  ultimately show "region_ok r'"
    using region_okI [OF ok place] by blast
qed

lemma frame_moved:
  assumes ok: "hotplug_ok hp" and live: "live_region hp i r" and frame: "frame \<in> region_online r" "v \<longleftrightarrow> frame \<notin> region_free r"
    and new: "r' = (region_set frame v r)\<lparr>rg_free_pages := (if v then rg_free_pages r + 1 else rg_free_pages r - 1), rg_cursor := c\<rparr>"
  shows "hotplug_ok (put_region i r' hp)"
    "hot_free (put_region i r' hp) = (if v then insert (region_frame r frame) (hot_free hp) else hot_free hp - {region_frame r frame})"
proof -
  note moved = region_bit_moved [OF hotplug_ok_region [OF ok live] frame new]
  have sub: "region_frame r ` region_free r \<subseteq> hot_free hp" "region_frame r ` region_online r \<subseteq> hot_online hp"
    using live by (auto simp: frames_with_def)
  have free: "hot_free (put_region i r' hp) = (hot_free hp - region_frame r ` region_free r) \<union> region_frame r ` region_free r'"
    by (rule put_region_frames [OF ok live moved(1)]) (rule region_free_inside)
  have "hot_online (put_region i r' hp) = (hot_online hp - region_frame r ` region_online r) \<union> region_frame r ` region_online r"
    using put_region_frames [OF ok live moved(1), where part = region_online, OF region_online_inside] by (simp only: moved(3))
  then have "hot_online (put_region i r' hp) = hot_online hp"
    using sub(2) by (simp only: Diff_partition Un_commute)
  moreover have "hp_mapped hp = hot_online hp"
    using ok by (simp add: hotplug_ok_def)
  moreover have "(put_region i r' hp)\<lparr>hp_mapped := hp_mapped hp\<rparr> = put_region i r' hp"
    by (simp add: put_region_def)
  ultimately show "hotplug_ok (put_region i r' hp)"
    using put_region_ok [OF ok live moved(1,2), of "hp_mapped hp"] by simp
  have "inj (region_frame r)"
    by (simp add: inj_def)
  then have image: "region_frame r ` (if v then insert frame (region_free r) else region_free r - {frame}) =
      (if v then insert (region_frame r frame) (region_frame r ` region_free r) else region_frame r ` region_free r - {region_frame r frame})"
    by (simp add: image_set_diff)
  have mem: "region_frame r frame \<in> region_frame r ` region_free r \<longleftrightarrow> \<not> v"
    using frame(2) by auto
  have sets: "(H - I) \<union> (if v then insert x I else I - {x}) = (if v then insert x H else H - {x})"
    if "I \<subseteq> H" "x \<in> I \<longleftrightarrow> \<not> v" for H I :: "nat set" and x
    using that by auto
  show "hot_free (put_region i r' hp) = (if v then insert (region_frame r frame) (hot_free hp) else hot_free hp - {region_frame r frame})"
    unfolding free moved(4) image by (rule sets [OF sub(1) mem])
qed

lemma take_spec:
  assumes ok: "hotplug_ok hp"
  shows "case hp_take hp of
      (None, hp') \<Rightarrow> hp' = hp \<and> hot_free hp = {}
    | (Some phys, hp') \<Rightarrow> phys \<in> hot_free hp \<and> hot_free hp' = hot_free hp - {phys} \<and> hotplug_ok hp'"
proof -
  have all: "\<forall>r. Some r \<in> set (hp_regions hp) \<longrightarrow> region_ok r"
    using hotplug_ok_region [OF ok] by (auto simp: live_region_def in_set_conv_nth)
  obtain got rs where take: "take_from (hp_regions hp) = (got, rs)"
    by fastforce
  show ?thesis
  proof (cases got)
    case None
    then have same: "rs = hp_regions hp" and empty: "\<forall>r. Some r \<in> set (hp_regions hp) \<longrightarrow> region_free r = {}"
      using take_from_spec [OF all] take by simp_all
    have "region_free r = {}" if "live_region hp i r" for i r
      using that empty nth_mem [of i "hp_regions hp"] by (simp add: live_region_def)
    then have "hot_free hp = {}"
      by (auto simp: frames_with_def)
    then show ?thesis
      using take None same by (simp add: hp_take_def)
  next
    case (Some phys)
    then obtain i r frame where hit: "live_region hp i r" "frame \<in> region_free r" "phys = region_frame r frame"
      "rs = (hp_regions hp)[i := Some ((region_set frame False r)\<lparr>rg_free_pages := rg_free_pages r - 1, rg_cursor := frame + 1\<rparr>)]"
      using take_from_spec [OF all] take unfolding took_one_def live_region_def by auto
    have online: "frame \<in> region_online r"
      using hotplug_ok_region [OF ok hit(1)] hit(2) by (auto simp: region_ok_def)
    have "False \<longleftrightarrow> frame \<notin> region_free r"
      using hit(2) by simp
    note moved = frame_moved [OF ok hit(1) online this refl, where c = "frame + 1", simplified]
    have "hp_take hp = (Some phys, put_region i ((region_set frame False r)\<lparr>rg_free_pages := rg_free_pages r - 1, rg_cursor := frame + 1\<rparr>) hp)"
      using take Some hit(4) by (simp add: hp_take_def put_region_def)
    with moved hit(1-3) show ?thesis
      by (auto simp: frames_with_def)
  qed
qed

lemma owner_Some: "owner phys hp = Some i \<Longrightarrow> \<exists>r. live_region hp i r \<and> region_contains r phys"
  by (auto simp: owner_def live_region_def dest!: position_less split: option.splits)

lemma position_None: "position P xs = None \<longleftrightarrow> (\<forall>x \<in> set xs. \<not> P x)"
  by (induction xs) auto

lemma owner_None: "owner phys hp = None \<longleftrightarrow> (\<forall>i r. live_region hp i r \<longrightarrow> \<not> region_contains r phys)"
  unfolding owner_def position_None live_region_def
  by (fastforce simp: in_set_conv_nth split: option.splits)

definition frame_base :: "nat \<Rightarrow> nat" where
  "frame_base phys = phys - phys mod PAGE_SIZE"

lemma give_spec:
  assumes ok: "hotplug_ok hp"
  shows "case hp_give phys hp of
      (False, hp') \<Rightarrow> hp' = hp \<and> (\<forall>i r. live_region hp i r \<longrightarrow> \<not> region_contains r phys)
    | (True, hp') \<Rightarrow> (\<exists>i r. live_region hp i r \<and> region_contains r phys) \<and>
        (if frame_base phys \<in> hot_online hp - hot_free hp
         then hot_free hp' = insert (frame_base phys) (hot_free hp) \<and> hotplug_ok hp'
         else hp' = hp)"
proof (cases "owner phys hp")
  case None
  then show ?thesis
    using iffD1 [OF owner_None None] None by (simp add: hp_give_def)
next
  case (Some i)
  then obtain r where r: "live_region hp i r" "region_contains r phys"
    using owner_Some by blast
  let ?frame = "(phys - rg_base r) div PAGE_SIZE"
  have rok: "region_ok r"
    by (rule hotplug_ok_region [OF ok r(1)])
  have pick: "the (hp_regions hp ! i) = r"
    using r(1) by (simp add: live_region_def)
  have "phys - rg_base r < rg_pages r * PAGE_SIZE"
    using r(2) unfolding region_contains_def by linarith
  then have inside: "?frame < rg_pages r"
    by (simp add: div_less_iff_less_mult)
  have "rg_base r mod PAGE_SIZE = 0"
    using rok by (simp add: region_ok_def)
  then obtain k where k: "rg_base r = k * PAGE_SIZE"
    by (metis add.right_neutral div_mult_mod_eq)
  have sum: "phys = rg_base r + (phys - rg_base r)"
    using r(2) by (simp add: region_contains_def)
  have "phys mod PAGE_SIZE = (k * PAGE_SIZE + (phys - rg_base r)) mod PAGE_SIZE"
    using sum k by simp
  then have "(phys - rg_base r) mod PAGE_SIZE = phys mod PAGE_SIZE"
    by simp
  then have base: "frame_base phys = region_frame r ?frame"
    using sum div_mult_mod_eq [of "phys - rg_base r" PAGE_SIZE] unfolding frame_base_def region_frame_def by linarith
  have member: "frame_base phys \<in> hot_online hp \<longleftrightarrow> ?frame \<in> region_online r" "frame_base phys \<in> hot_free hp \<longleftrightarrow> ?frame \<in> region_free r"
    unfolding base by (rule frame_in_region [OF ok r(1) inside]; simp add: region_online_inside region_free_inside)+
  have test: "\<not> rg_online r ! block_of r ?frame \<or> region_bit r ?frame \<longleftrightarrow> \<not> (?frame \<in> region_online r - region_free r)"
    using inside by (auto simp: region_online_def region_free_def)
  show ?thesis
  proof (cases "?frame \<in> region_online r - region_free r")
    case False
    then show ?thesis
      using Some r unfolding hp_give_def by (simp only: option.case pick Let_def test member) (auto simp: member)
  next
    case True
    let ?new = "(region_set ?frame True r)\<lparr>rg_free_pages := rg_free_pages r + 1\<rparr>"
    have "rg_online r ! block_of r ?frame" "\<not> region_bit r ?frame"
      using test True by blast+
    then have "hp_give phys hp = (True, put_region i ?new hp)"
      using Some by (simp add: hp_give_def pick Let_def)
    moreover have "?new = (region_set ?frame True r)\<lparr>rg_free_pages := (if True then rg_free_pages r + 1 else rg_free_pages r - 1), rg_cursor := rg_cursor r\<rparr>"
      by (simp add: region_set_def)
    ultimately show ?thesis
      using frame_moved [OF ok r(1) _ _ \<open>?new = _\<close>] True r member base by auto
  qed
qed

section \<open>Blocks\<close>

lemma frames_of_Suc: "frames_of base (Suc n) = insert (base + n * PAGE_SIZE) (frames_of base n)"
  by (auto simp: frames_of_def less_Suc_eq)

lemma frames_of_0 [simp]: "frames_of base 0 = {}"
  by (simp add: frames_of_def)

lemma unmap_range_frames: "unmap_range base n mapped = mapped - frames_of base n"
  unfolding unmap_range_def by (induction n) (auto simp: frames_of_Suc)

lemma map_range_frames:
  assumes "M \<inter> frames_of base (at + n) = {}"
  shows "\<exists>ok. map_range try_map base at n (M \<union> frames_of base at) = (ok, if ok then M \<union> frames_of base (at + n) else M)"
  using assms
proof (induction n arbitrary: at)
  case (Suc n)
  have sub: "frames_of base at \<subseteq> frames_of base (at + Suc n)"
    by (auto simp: frames_of_def)
  show ?case
  proof (cases "try_map (base + at * PAGE_SIZE)")
    case True
    have "insert (base + at * PAGE_SIZE) (M \<union> frames_of base at) = M \<union> frames_of base (Suc at)"
      by (auto simp: frames_of_Suc)
    moreover have "M \<inter> frames_of base (Suc at + n) = {}"
      using Suc.prems by simp
    ultimately show ?thesis
      using Suc.IH [of "Suc at"] True by (simp only: map_range.simps simp_thms if_False if_True add_Suc_shift [symmetric])
  next
    case False
    have "(M \<union> frames_of base at) - frames_of base at = M"
      using sub Suc.prems by blast
    with False show ?thesis
      by (intro exI [of _ False]) (simp add: unmap_range_frames)
  qed
qed auto

definition block_frames_of :: "region \<Rightarrow> nat \<Rightarrow> nat \<Rightarrow> nat set" where
  "block_frames_of r first n = {first * rg_block_pages r ..< first * rg_block_pages r + n * rg_block_pages r}"

definition move_blocks :: "nat \<Rightarrow> nat \<Rightarrow> bool \<Rightarrow> region \<Rightarrow> region" where
  "move_blocks first n v r =
     (let pages = n * rg_block_pages r; r1 = set_blocks first n v (set_frames (first * rg_block_pages r) pages v r) in
      if v then r1\<lparr>rg_free_pages := rg_free_pages r1 + pages, rg_online_pages := rg_online_pages r1 + pages\<rparr>
      else r1\<lparr>rg_free_pages := rg_free_pages r1 - pages, rg_online_pages := rg_online_pages r1 - pages\<rparr>)"

lemma block_frames_inside:
  assumes "region_ok r" "first + n \<le> length (rg_online r)"
  shows "first * rg_block_pages r + n * rg_block_pages r \<le> rg_pages r"
proof -
  have "(first + n) * rg_block_pages r \<le> length (rg_online r) * rg_block_pages r"
    by (rule mult_le_mono1 [OF assms(2)])
  with assms(1) show ?thesis
    by (simp add: region_ok_def algebra_simps)
qed

lemma blocks_online:
  assumes ok: "region_ok r" and le: "first + n \<le> length (rg_online r)"
  shows "(\<forall>block \<in> {first ..< first + n}. rg_online r ! block) \<longleftrightarrow> block_frames_of r first n \<subseteq> region_online r"
    and "(\<forall>block \<in> {first ..< first + n}. \<not> rg_online r ! block) \<longleftrightarrow> block_frames_of r first n \<inter> region_online r = {}"
proof -
  let ?bp = "rg_block_pages r"
  have bp: "0 < ?bp"
    using ok by (simp add: region_ok_def)
  have member: "frame \<in> block_frames_of r first n \<longleftrightarrow> first \<le> block_of r frame \<and> block_of r frame < first + n" for frame
    unfolding block_frames_of_def block_of_def by (simp only: block_frames [OF bp])
  have inside: "frame < rg_pages r" if "frame \<in> block_frames_of r first n" for frame
    using that block_frames_inside [OF ok le] by (simp add: block_frames_of_def)
  have start: "block_of r (block * ?bp) = block" for block
    using bp by (simp add: block_of_def)
  have hits: "block * ?bp \<in> block_frames_of r first n" if "block \<in> {first ..< first + n}" for block
    using that by (simp add: member start)
  show "(\<forall>block \<in> {first ..< first + n}. rg_online r ! block) \<longleftrightarrow> block_frames_of r first n \<subseteq> region_online r"
  proof
    assume "block_frames_of r first n \<subseteq> region_online r"
    then show "\<forall>block \<in> {first ..< first + n}. rg_online r ! block"
      using hits start unfolding region_online_def by (metis (no_types, lifting) mem_Collect_eq subsetD)
  qed (use member inside in \<open>auto simp: region_online_def\<close>)
  show "(\<forall>block \<in> {first ..< first + n}. \<not> rg_online r ! block) \<longleftrightarrow> block_frames_of r first n \<inter> region_online r = {}"
  proof
    assume apart: "block_frames_of r first n \<inter> region_online r = {}"
    show "\<forall>block \<in> {first ..< first + n}. \<not> rg_online r ! block"
    proof
      fix block
      assume block: "block \<in> {first ..< first + n}"
      have "block * ?bp \<notin> region_online r"
        using hits [OF block] apart by blast
      with inside [OF hits [OF block]] show "\<not> rg_online r ! block"
        by (simp add: region_online_def start)
    qed
  qed (use member inside in \<open>auto simp: region_online_def\<close>)
qed

lemma move_blocks_fields:
  "rg_base (move_blocks first n v r) = rg_base r" "rg_pages (move_blocks first n v r) = rg_pages r"
  "rg_block_pages (move_blocks first n v r) = rg_block_pages r"
  "length (rg_online (move_blocks first n v r)) = length (rg_online r)" "length (rg_free (move_blocks first n v r)) = length (rg_free r)"
  "rg_free (move_blocks first n v r) = rg_free (set_frames (first * rg_block_pages r) (n * rg_block_pages r) v r)"
  "rg_online (move_blocks first n v r) = rg_online (set_blocks first n v r)"
  "rg_free_pages (move_blocks first n v r) = (if v then rg_free_pages r + n * rg_block_pages r else rg_free_pages r - n * rg_block_pages r)"
  "rg_online_pages (move_blocks first n v r) = (if v then rg_online_pages r + n * rg_block_pages r else rg_online_pages r - n * rg_block_pages r)"
proof -
  have "length (rg_online (set_blocks first n v r)) = length (rg_online r)"
    by simp
  then show "length (rg_online (move_blocks first n v r)) = length (rg_online r)"
    by (cases v) (simp_all add: move_blocks_def Let_def set_blocks_def set_frames_bits)
qed (simp_all add: move_blocks_def Let_def set_blocks_def set_frames_bits)

lemma move_blocks_spec:
  assumes ok: "region_ok r" and le: "first + n \<le> length (rg_online r)"
    and move: "if v then block_frames_of r first n \<inter> region_online r = {} else block_frames_of r first n \<subseteq> region_free r"
  shows "same_place r (move_blocks first n v r)" "region_ok (move_blocks first n v r)"
    "region_free (move_blocks first n v r) = (if v then region_free r \<union> block_frames_of r first n else region_free r - block_frames_of r first n)"
    "region_online (move_blocks first n v r) = (if v then region_online r \<union> block_frames_of r first n else region_online r - block_frames_of r first n)"
proof -
  let ?S = "block_frames_of r first n" and ?r = "move_blocks first n v r"
  note fields = move_blocks_fields [of first n v r]
  show place: "same_place r ?r"
    by (simp add: same_place_def fields(1-5))
  have "region_free ?r = region_free (set_frames (first * rg_block_pages r) (n * rg_block_pages r) v r)"
    by (simp add: region_free_def region_bit_def fields set_frames_bits)
  then show free: "region_free ?r = (if v then region_free r \<union> ?S else region_free r - ?S)"
    using region_free_set_frames [OF ok block_frames_inside [OF ok le], of v] by (simp add: block_frames_of_def)
  have "region_online ?r = region_online (set_blocks first n v r)"
    by (simp add: region_online_def block_of_def fields) (simp add: set_blocks_def)
  then show online: "region_online ?r = (if v then region_online r \<union> ?S else region_online r - ?S)"
    using region_online_set_blocks [OF ok le, of v] by (simp add: block_frames_of_def)
  have old: "region_free r \<subseteq> region_online r" "rg_free_pages r = card (region_free r)" "rg_online_pages r = card (region_online r)"
    using ok by (simp_all add: region_ok_def)
  have size: "finite ?S" "card ?S = n * rg_block_pages r"
    by (simp_all add: block_frames_of_def)
  have "card (region_free ?r) = rg_free_pages ?r \<and> card (region_online ?r) = rg_online_pages ?r"
  proof (cases v)
    case True
    then have "region_free r \<inter> ?S = {}" "region_online r \<inter> ?S = {}"
      using move old(1) by auto
    with True show ?thesis
      unfolding free online fields old(2,3) by (simp add: card_Un_disjoint size)
  next
    case False
    then have "?S \<subseteq> region_free r" "?S \<subseteq> region_online r"
      using move old(1) by auto
    with False show ?thesis
      unfolding free online fields old(2,3) by (simp add: card_Diff_subset size)
  qed
  moreover have "region_free ?r \<subseteq> region_online ?r"
    unfolding free online using old(1) by auto
  ultimately show "region_ok ?r"
    using region_okI [OF ok place] by simp
qed

lemma block_span_Inr:
  assumes "block_span index first n hp = Inr (base, pages)"
  obtains r where "live_region hp index r" "region_at hp index = Some r" "first + n \<le> length (rg_online r)" "0 < n"
    "base = region_frame r (first * rg_block_pages r)" "pages = n * rg_block_pages r"
  using assms by (auto simp: block_span_def region_at_def live_region_def region_frame_def checked_add_def
      split: option.splits if_splits)

lemma start_of_span: "(region_frame r k - rg_base r) div PAGE_SIZE = k"
  by (simp add: region_frame_def)

lemma frames_of_span: "frames_of (region_frame r (first * rg_block_pages r)) (n * rg_block_pages r) = region_frame r ` block_frames_of r first n"
proof -
  have "block_frames_of r first n = (\<lambda>k. first * rg_block_pages r + k) ` {..< n * rg_block_pages r}"
    by (simp add: block_frames_of_def image_add_atLeastLessThan lessThan_atLeast0 add.commute)
  then show ?thesis
    by (auto simp: frames_of_def region_frame_def image_iff algebra_simps)
qed

text \<open>The state after the blocks of a region have moved.\<close>

lemma put_moved_blocks:
  assumes ok: "hotplug_ok hp" and live: "live_region hp i r" and le: "first + n \<le> length (rg_online r)"
    and move: "if v then block_frames_of r first n \<inter> region_online r = {} else block_frames_of r first n \<subseteq> region_free r"
  defines "hp' \<equiv> put_region i (move_blocks first n v r) hp" and "S \<equiv> region_frame r ` block_frames_of r first n"
  shows "hot_free hp' = (if v then hot_free hp \<union> S else hot_free hp - S)"
    "hot_online hp' = (if v then hot_online hp \<union> S else hot_online hp - S)"
    "hotplug_ok (hp'\<lparr>hp_mapped := if v then hot_online hp \<union> S else hot_online hp - S\<rparr>)"
proof -
  note spec = move_blocks_spec [OF hotplug_ok_region [OF ok live] le move]
  have inj: "inj (region_frame r)"
    by (simp add: inj_def)
  have sets: "(H - I) \<union> (if v then I \<union> S else I - S) = (if v then H \<union> S else H - S)"
    if "I \<subseteq> H" "\<not> v \<Longrightarrow> S \<subseteq> I" for H I :: "nat set"
    using that by auto
  have image: "region_frame r ` (if v then A \<union> block_frames_of r first n else A - block_frames_of r first n) =
      (if v then region_frame r ` A \<union> S else region_frame r ` A - S)" for A
    unfolding S_def by (simp add: image_Un image_set_diff [OF inj])
  have sub: "region_frame r ` region_free r \<subseteq> hot_free hp" "region_frame r ` region_online r \<subseteq> hot_online hp"
    using live by (auto simp: frames_with_def)
  have inS: "S \<subseteq> region_frame r ` region_free r \<and> S \<subseteq> region_frame r ` region_online r" if "\<not> v"
    using move that hotplug_ok_region [OF ok live] unfolding S_def region_ok_def by auto
  have "hot_free hp' = (hot_free hp - region_frame r ` region_free r) \<union> region_frame r ` region_free (move_blocks first n v r)"
    unfolding hp'_def by (rule put_region_frames [OF ok live spec(1)]) (rule region_free_inside)
  then show "hot_free hp' = (if v then hot_free hp \<union> S else hot_free hp - S)"
    unfolding spec(3) image using sets [OF sub(1)] inS by simp
  have "hot_online hp' = (hot_online hp - region_frame r ` region_online r) \<union> region_frame r ` region_online (move_blocks first n v r)"
    unfolding hp'_def by (rule put_region_frames [OF ok live spec(1)]) (rule region_online_inside)
  then show online: "hot_online hp' = (if v then hot_online hp \<union> S else hot_online hp - S)"
    unfolding spec(4) image using sets [OF sub(2)] inS by simp
  show "hotplug_ok (hp'\<lparr>hp_mapped := if v then hot_online hp \<union> S else hot_online hp - S\<rparr>)"
    unfolding hp'_def by (rule put_region_ok [OF ok live spec(1,2)]) (rule online [unfolded hp'_def, symmetric])
qed

lemma block_frames_moved:
  assumes ok: "hotplug_ok hp" and live: "live_region hp i r" and le: "first + n \<le> length (rg_online r)"
    and part: "\<And>s f. f \<in> part s \<Longrightarrow> f < rg_pages s" and frame: "frame \<in> block_frames_of r first n"
  shows "region_frame r frame \<in> frames_with part hp \<longleftrightarrow> frame \<in> part r"
proof (rule frame_in_region [OF ok live])
  show "frame < rg_pages r"
    using frame block_frames_inside [OF hotplug_ok_region [OF ok live] le] by (simp add: block_frames_of_def)
qed (rule part)

lemma block_frames_free:
  assumes "hotplug_ok hp" "live_region hp i r" "first + n \<le> length (rg_online r)"
  shows "block_frames_of r first n \<subseteq> region_free r \<longleftrightarrow> region_frame r ` block_frames_of r first n \<subseteq> hot_free hp"
  using block_frames_moved [OF assms, where part = region_free] region_free_inside by blast

lemma block_frames_offline:
  assumes "hotplug_ok hp" "live_region hp i r" "first + n \<le> length (rg_online r)"
  shows "block_frames_of r first n \<inter> region_online r = {} \<longleftrightarrow> hot_online hp \<inter> region_frame r ` block_frames_of r first n = {}"
  using block_frames_moved [OF assms, where part = region_online] region_online_inside by blast

lemma online_spec:
  assumes ok: "hotplug_ok hp" and on: "online try_map index first n hp = (res, hp')"
  shows "case res of
      Inl _ \<Rightarrow> hp' = hp
    | Inr _ \<Rightarrow> \<exists>r. live_region hp index r \<and> first + n \<le> length (rg_online r) \<and> hotplug_ok hp' \<and>
        (let S = region_frame r ` block_frames_of r first n in
         S \<inter> hot_online hp = {} \<and> hot_online hp' = hot_online hp \<union> S \<and> hot_free hp' = hot_free hp \<union> S)"
proof (cases "block_span index first n hp")
  case (Inl e)
  with on show ?thesis
    by (auto simp: online_def)
next
  case (Inr span)
  obtain base pages where span: "span = (base, pages)"
    by fastforce
  obtain r where r: "live_region hp index r" "region_at hp index = Some r" "first + n \<le> length (rg_online r)" "0 < n"
    "base = region_frame r (first * rg_block_pages r)" "pages = n * rg_block_pages r"
    by (rule block_span_Inr [OF Inr [unfolded span]])
  let ?S = "region_frame r ` block_frames_of r first n"
  note rok = hotplug_ok_region [OF ok r(1)]
  have mapped: "hp_mapped hp = hot_online hp"
    using ok by (simp add: hotplug_ok_def)
  show ?thesis
  proof (cases "list_ex (\<lambda>block. rg_online r ! block) [first ..< first + n]")
    case True
    with on Inr span r(2) show ?thesis
      by (auto simp: online_def)
  next
    case False
    then have "\<forall>block \<in> {first ..< first + n}. \<not> rg_online r ! block"
      by (auto simp: list_ex_iff)
    then have off: "block_frames_of r first n \<inter> region_online r = {}"
      by (rule iffD1 [OF blocks_online(2) [OF rok r(3)]])
    then have apart: "hot_online hp \<inter> ?S = {}"
      by (rule iffD1 [OF block_frames_offline [OF ok r(1,3)]])
    have "hot_online hp \<inter> frames_of base (0 + pages) = {}"
      unfolding r(5,6) using apart frames_of_span by simp
    from map_range_frames [OF this, of try_map] obtain fine where
      map: "map_range try_map base 0 pages (hot_online hp) = (fine, if fine then hot_online hp \<union> ?S else hot_online hp)"
      using frames_of_span [of r first n] r(5,6) by auto
    show ?thesis
    proof (cases fine)
      case False
      have "hp\<lparr>hp_mapped := hot_online hp\<rparr> = hp"
        using mapped by simp
      with on Inr span r(2) \<open>\<not> list_ex _ _\<close> map False show ?thesis
        by (auto simp: online_def mapped)
    next
      case True
      have hp': "hp' = (put_region index (move_blocks first n True r) hp)\<lparr>hp_mapped := hot_online hp \<union> ?S\<rparr>" and res: "res = Inr ()"
        using on Inr span r(2) \<open>\<not> list_ex _ _\<close> map True
        by (auto simp: online_def mapped move_blocks_def Let_def r(5,6) start_of_span put_region_def)
      have "hotplug_ok hp' \<and> hot_online hp' = hot_online hp \<union> ?S \<and> hot_free hp' = hot_free hp \<union> ?S"
        using put_moved_blocks [OF ok r(1,3), of True] off unfolding hp' by simp
      with r(1,3) apart show ?thesis
        unfolding res Let_def by (intro sum.case(2) [THEN iffD2] exI [of _ r]) (simp add: Int_commute)
    qed
  qed
qed

lemma offline_spec:
  assumes ok: "hotplug_ok hp" and off: "offline index first n hp = (res, hp')"
  shows "case res of
      Inl e \<Rightarrow> hp' = hp \<and> (e = Busy \<longrightarrow> (\<exists>r. live_region hp index r \<and> \<not> region_frame r ` block_frames_of r first n \<subseteq> hot_free hp))
    | Inr _ \<Rightarrow> \<exists>r. live_region hp index r \<and> first + n \<le> length (rg_online r) \<and> hotplug_ok hp' \<and>
        (let S = region_frame r ` block_frames_of r first n in
         S \<subseteq> hot_free hp \<and> hot_online hp' = hot_online hp - S \<and> hot_free hp' = hot_free hp - S)"
proof (cases "block_span index first n hp")
  case (Inl e)
  then have "e \<noteq> Busy"
    by (auto simp: block_span_def split: option.splits if_splits)
  with off Inl show ?thesis
    by (auto simp: offline_def)
next
  case (Inr span)
  obtain base pages where span: "span = (base, pages)"
    by fastforce
  obtain r where r: "live_region hp index r" "region_at hp index = Some r" "first + n \<le> length (rg_online r)" "0 < n"
    "base = region_frame r (first * rg_block_pages r)" "pages = n * rg_block_pages r"
    by (rule block_span_Inr [OF Inr [unfolded span]])
  let ?S = "region_frame r ` block_frames_of r first n"
  let ?start = "first * rg_block_pages r"
  note rok = hotplug_ok_region [OF ok r(1)]
  have mapped: "hp_mapped hp = hot_online hp"
    using ok by (simp add: hotplug_ok_def)
  have bits: "list_ex (\<lambda>frame. \<not> region_bit r frame) [?start ..< ?start + pages] \<longleftrightarrow> \<not> block_frames_of r first n \<subseteq> region_free r"
    using block_frames_inside [OF rok r(3)] by (auto simp: list_ex_iff block_frames_of_def region_free_def r(6))
  have free: "block_frames_of r first n \<subseteq> region_free r \<longleftrightarrow> ?S \<subseteq> hot_free hp"
    by (rule block_frames_free [OF ok r(1,3)])
  show ?thesis
  proof (cases "list_ex (\<lambda>block. \<not> rg_online r ! block) [first ..< first + n]")
    case True
    with off Inr span r(2) show ?thesis
      by (auto simp: offline_def)
  next
    case online: False
    show ?thesis
    proof (cases "block_frames_of r first n \<subseteq> region_free r")
      case False
      then have "hp' = hp" "res = Inl Busy"
        using off Inr span r(2) online bits by (auto simp: offline_def Let_def r(5) start_of_span)
      moreover have "\<not> ?S \<subseteq> hot_free hp"
        using False free by simp
      ultimately show ?thesis
        using r(1) by auto
    next
      case True
      have hp': "hp' = (put_region index (move_blocks first n False r) hp)\<lparr>hp_mapped := hot_online hp - ?S\<rparr>" and res: "res = Inr ()"
        using off Inr span r(2) online True bits
        by (auto simp: offline_def mapped move_blocks_def Let_def r(5) r(6) start_of_span put_region_def unmap_range_frames frames_of_span)
      have "hotplug_ok hp' \<and> hot_online hp' = hot_online hp - ?S \<and> hot_free hp' = hot_free hp - ?S"
        using put_moved_blocks [OF ok r(1,3), of False] True unfolding hp' by simp
      with r(1,3) free True show ?thesis
        unfolding res Let_def by (intro sum.case(2) [THEN iffD2] exI [of _ r]) simp
    qed
  qed
qed

section \<open>Registering\<close>

lemma checked_region:
  assumes "check base len block_len taken = Inr ()"
  shows "region_ok (region_new base len block_len)" "rg_pages (region_new base len block_len) * PAGE_SIZE = len"
    "rg_block_pages (region_new base len block_len) * PAGE_SIZE = block_len"
    "region_free (region_new base len block_len) = {}" "region_online (region_new base len block_len) = {}"
    "(start, n) \<in> set taken \<Longrightarrow> saturating_add start n \<le> base \<or> base + len \<le> start"
proof -
  let ?r = "region_new base len block_len"
  have c: "PAGE_SIZE \<le> block_len" "is_power_of_two block_len" "len \<noteq> 0" "base mod block_len = 0" "len mod block_len = 0"
    "base + len \<le> MAX_ADDRESS" "\<not> list_ex (\<lambda>(start, n). base < saturating_add start n \<and> start < base + len) taken"
    using assms by (auto simp: check_def checked_add_def split: if_splits)
  obtain k where k: "block_len = 2 ^ k"
    using c(2) by (auto simp: is_power_of_two_def list_ex_iff)
  have "(2 :: nat) ^ 12 \<le> 2 ^ k"
    using c(1) by (simp add: k PAGE_SIZE_def)
  then have "12 \<le> k"
    by (rule power_le_imp_le_exp [rotated]) simp
  then obtain j where "k = 12 + j"
    using le_Suc_ex by blast
  then have bl: "block_len = 2 ^ j * PAGE_SIZE"
    by (simp add: k PAGE_SIZE_def power_add)
  obtain nb where nb: "len = nb * block_len"
    using c(5) by (metis add.right_neutral div_mult_mod_eq)
  have pages: "rg_pages ?r = nb * 2 ^ j" "rg_block_pages ?r = 2 ^ j" "length (rg_online ?r) = nb"
    by (simp_all add: region_new_def Let_def nb bl mult.assoc [symmetric])
  have bits: "\<not> region_bit ?r frame" if "frame < rg_pages ?r" for frame
  proof -
    have "frame div 64 < (rg_pages ?r + 63) div 64"
      using that by (simp add: div_less_iff_less_mult)
    then show ?thesis
      by (simp add: region_bit_def bit_at_bit region_new_def Let_def)
  qed
  then show free: "region_free ?r = {}"
    by (auto simp: region_free_def)
  have "\<not> rg_online ?r ! block_of ?r frame" if "frame < rg_pages ?r" for frame
  proof -
    have "block_of ?r frame < nb"
      using that by (simp add: block_of_def pages div_less_iff_less_mult)
    then show ?thesis
      using pages(3) by (simp add: region_new_def Let_def)
  qed
  then show online: "region_online ?r = {}"
    by (auto simp: region_online_def)
  show total: "rg_pages ?r * PAGE_SIZE = len" "rg_block_pages ?r * PAGE_SIZE = block_len"
    unfolding pages(1,2) by (simp_all add: nb bl)
  have counts: "rg_free_pages ?r = 0" "rg_online_pages ?r = 0" "rg_base ?r = base"
    by (simp_all add: region_new_def Let_def)
  have "rg_pages ?r \<le> 64 * length (rg_free ?r)"
    by (simp add: region_new_def Let_def)
  moreover have "base mod PAGE_SIZE = 0"
    using c(4) by (metis bl dvd_triv_right mod_0_imp_dvd dvd_trans dvd_imp_mod_0)
  moreover have "rg_pages ?r = length (rg_online ?r) * rg_block_pages ?r" "0 < rg_block_pages ?r"
    by (simp_all only: pages) simp
  ultimately show "region_ok ?r"
    unfolding region_ok_def free online counts total using c(6) by simp
  show "saturating_add start n \<le> base \<or> base + len \<le> start" if "(start, n) \<in> set taken"
    using c(7) that by (auto simp: list_ex_iff)
qed

lemma live_fresh:
  assumes "i < length (hp_regions hp)" "hp_regions hp ! i = None"
  shows "live_region (put_region i r hp) j s \<longleftrightarrow> (if j = i then s = r else live_region hp j s)"
  using assms by (auto simp: live_region_def put_region_def nth_list_update)

lemma fresh_region:
  assumes ok: "hotplug_ok hp" and i: "i < length (hp_regions hp)" "hp_regions hp ! i = None"
    and r: "region_ok r" "region_free r = {}" "region_online r = {}" "\<And>j s. live_region hp j s \<Longrightarrow> apart r s"
  shows "hotplug_ok (put_region i r hp)" "hot_free (put_region i r hp) = hot_free hp" "hot_online (put_region i r hp) = hot_online hp"
proof -
  note live = live_fresh [OF i]
  have none: "\<not> live_region hp i s" for s
    using i by (simp add: live_region_def)
  have frames: "frames_with part (put_region i r hp) = frames_with part hp" if "part r = {}" for part
    unfolding frames_with_def live using that none by (auto split: if_splits) metis+
  show "hot_free (put_region i r hp) = hot_free hp" "hot_online (put_region i r hp) = hot_online hp"
    using frames r(2,3) by auto
  have flip: "apart s r" if "live_region hp j s" for j s
    using r(4) [OF that] by (auto simp: apart_def)
  have "apart s t" if "live_region (put_region i r hp) j s" "live_region (put_region i r hp) k t" "j \<noteq> k" for j s k t
    using that r(4) flip ok unfolding live hotplug_ok_def by (auto split: if_splits)
  moreover have "region_ok s" if "live_region (put_region i r hp) j s" for j s
    using that r(1) hotplug_ok_region [OF ok] unfolding live by (auto split: if_splits)
  moreover have "hp_mapped (put_region i r hp) = hot_online (put_region i r hp)"
    using ok frames r(3) by (simp add: hotplug_ok_def put_region_def)
  ultimately show "hotplug_ok (put_region i r hp)"
    unfolding hotplug_ok_def by blast
qed

lemma hotplug_new_ok: "hotplug_ok hotplug_new" "hot_free hotplug_new = {}"
proof -
  have none: "\<not> live_region hotplug_new i r" for i r
    by (simp add: live_region_def hotplug_new_def)
  then show "hot_free hotplug_new = {}"
    by (simp add: frames_with_def)
  show "hotplug_ok hotplug_new"
    using none by (simp add: hotplug_ok_def frames_with_def) (simp add: hotplug_new_def)
qed

text \<open>
  What a range must be to become a region, told without the order of the checks: whole blocks of a
  power-of-two size inside the direct map, clear of what the caller named as taken and of the regions
  there are.
\<close>

definition may_be_region :: "nat \<Rightarrow> nat \<Rightarrow> nat \<Rightarrow> bool" where
  "may_be_region base len block_len \<longleftrightarrow> PAGE_SIZE \<le> block_len \<and> (\<exists>k < 64. block_len = 2 ^ k) \<and> 0 < len \<and>
     block_len dvd base \<and> block_len dvd len \<and> len div block_len \<le> MAX_BLOCKS \<and> base + len \<le> MAX_ADDRESS"

definition clear_of :: "nat \<Rightarrow> nat \<Rightarrow> (nat \<times> nat) list \<Rightarrow> bool" where
  "clear_of base len taken \<longleftrightarrow> (\<forall>(start, n) \<in> set taken. base + len \<le> start \<or> saturating_add start n \<le> base)"

definition clear_of_regions :: "nat \<Rightarrow> nat \<Rightarrow> hotplug \<Rightarrow> bool" where
  "clear_of_regions base len hp \<longleftrightarrow>
     (\<forall>i r. live_region hp i r \<longrightarrow> base + len \<le> rg_base r \<or> rg_base r + rg_pages r * PAGE_SIZE \<le> base)"

definition region_for :: "hotplug \<Rightarrow> nat \<Rightarrow> nat \<Rightarrow> nat \<Rightarrow> nat \<Rightarrow> bool" where
  "region_for hp i base len block_len \<longleftrightarrow>
     (\<exists>r. live_region hp i r \<and> rg_base r = base \<and> rg_pages r * PAGE_SIZE = len \<and> rg_block_pages r * PAGE_SIZE = block_len)"

lemma check_exact: "check base len block_len taken = Inr () \<longleftrightarrow> may_be_region base len block_len \<and> clear_of base len taken"
proof -
  have "is_power_of_two block_len \<longleftrightarrow> (\<exists>k < 64. block_len = 2 ^ k)"
    by (auto simp: is_power_of_two_def list_ex_iff)
  moreover have "clear_of base len taken \<longleftrightarrow> \<not> list_ex (\<lambda>(start, n). base < saturating_add start n \<and> start < base + len) taken"
    by (auto simp: clear_of_def list_ex_iff not_less)
  moreover have "MAX_ADDRESS \<le> U64_MAX"
    by (simp add: MAX_ADDRESS_def U64_MAX_def)
  ultimately show ?thesis
    by (auto simp: check_def may_be_region_def checked_add_def mod_eq_0_iff_dvd not_less not_le)
qed

lemma clear_of_held:
  assumes "hotplug_ok hp"
  shows "clear_of base len (map held_of (hp_regions hp)) \<longleftrightarrow> clear_of_regions base len hp"
proof -
  have exact: "saturating_add (rg_base r) (rg_pages r * PAGE_SIZE) = rg_base r + rg_pages r * PAGE_SIZE" if "live_region hp i r" for i r
  proof (rule saturating_add_exact)
    have "rg_base r + rg_pages r * PAGE_SIZE \<le> MAX_ADDRESS"
      using hotplug_ok_region [OF assms that] unfolding region_ok_def by blast
    then show "rg_base r + rg_pages r * PAGE_SIZE \<le> U64_MAX"
      by (simp add: MAX_ADDRESS_def U64_MAX_def)
  qed
  show ?thesis
  proof
    assume c: "clear_of base len (map held_of (hp_regions hp))"
    have "base + len \<le> rg_base r \<or> rg_base r + rg_pages r * PAGE_SIZE \<le> base" if "live_region hp i r" for i r
    proof -
      have "(rg_base r, rg_pages r * PAGE_SIZE) \<in> set (map held_of (hp_regions hp))"
        using that by (force simp: live_region_def held_of_def in_set_conv_nth)
      with c show ?thesis
        unfolding clear_of_def exact [OF that, symmetric] by blast
    qed
    then show "clear_of_regions base len hp"
      by (auto simp: clear_of_regions_def)
  next
    assume c: "clear_of_regions base len hp"
    have "base + len \<le> fst (held_of slot) \<or> saturating_add (fst (held_of slot)) (snd (held_of slot)) \<le> base"
      if "slot \<in> set (hp_regions hp)" for slot
    proof (cases slot)
      case (Some r)
      with that obtain i where "live_region hp i r"
        by (auto simp: live_region_def in_set_conv_nth)
      with c exact [OF this] Some show ?thesis
        by (auto simp: clear_of_regions_def held_of_def)
    qed (simp add: held_of_def)
    then show "clear_of base len (map held_of (hp_regions hp))"
      by (simp add: clear_of_def case_prod_beta)
  qed
qed

lemma clear_of_overlaps: "list_ex (overlaps_region base len) (hp_regions hp) \<longleftrightarrow> \<not> clear_of_regions base len hp"
  unfolding clear_of_regions_def live_region_def list_ex_iff
  by (fastforce simp: overlaps_region_def in_set_conv_nth not_le split: option.splits)

lemma same_region_for: "same_region base len block_len (hp_regions hp ! i) \<and> i < length (hp_regions hp) \<longleftrightarrow> region_for hp i base len block_len"
  by (auto simp: same_region_def region_for_def live_region_def split: option.splits)

lemma no_region_for:
  "position (same_region base len block_len) (hp_regions hp) = None \<longleftrightarrow> (\<nexists>i. region_for hp i base len block_len)"
  unfolding position_None same_region_for [symmetric] by (metis in_set_conv_nth)

text \<open>A range that passed the checks, placed in a slot that is free.\<close>

lemma placed_region:
  assumes ok: "hotplug_ok hp" and i: "i < length (hp_regions hp)" "hp_regions hp ! i = None"
    and range: "may_be_region base len block_len" and clear: "clear_of_regions base len hp"
  defines "hp' \<equiv> put_region i (region_new base len block_len) hp"
  shows "hotplug_ok hp' \<and> hot_free hp' = hot_free hp \<and> hot_online hp' = hot_online hp \<and> region_for hp' i base len block_len"
proof -
  let ?r = "region_new base len block_len"
  have "check base len block_len [] = Inr ()"
    using range by (simp add: check_exact clear_of_def)
  note new = checked_region [OF this]
  have base: "rg_base ?r = base"
    by (simp add: region_new_def Let_def)
  have apart: "apart ?r s" if "live_region hp j s" for j s
    using clear that by (auto simp: clear_of_regions_def apart_def base new(2))
  have fresh: "hotplug_ok hp'" "hot_free hp' = hot_free hp" "hot_online hp' = hot_online hp"
    unfolding hp'_def by (rule fresh_region [OF ok i new(1,4,5)]; erule apart)+
  have "live_region hp' i ?r"
    unfolding hp'_def by (simp add: live_fresh [OF i])
  with base new(2,3) have "region_for hp' i base len block_len"
    unfolding region_for_def by blast
  with fresh show ?thesis
    by simp
qed

end
