(* ===== verification/Hotplug_Properties.thy ===== *)
theory Hotplug_Properties
  imports Hotplug_Ops "HOL-Library.Code_Target_Nat"
begin

text \<open>
  What hotplugged memory promises. The witnesses use one region of eight frames at \<open>0x8000\<close> in two
  blocks of four, the first of them online.
\<close>

section \<open>A sample region\<close>

definition sample_region :: region where
  "sample_region = \<lparr>rg_base = 32768, rg_pages = 8, rg_block_pages = 4, rg_online = [True, False], rg_free = [14],
     rg_free_pages = 3, rg_online_pages = 4, rg_cursor = 1\<rparr>"

definition sample_plugged :: hotplug where
  "sample_plugged = \<lparr>hp_regions = [Some sample_region, None, None, None], hp_mapped = {32768, 36864, 40960, 45056}\<rparr>"

lemma region_sets_listed:
  "region_free r = set (filter (region_bit r) [0 ..< rg_pages r])"
  "region_online r = set (filter (\<lambda>frame. rg_online r ! block_of r frame) [0 ..< rg_pages r])"
  by (auto simp: region_free_def region_online_def)

lemma sample_region_bits: "region_free sample_region = {1, 2, 3}" "region_online sample_region = {0, 1, 2, 3}"
proof -
  have "filter (region_bit sample_region) [0 ..< rg_pages sample_region] = [1, 2, 3]"
    "filter (\<lambda>frame. rg_online sample_region ! block_of sample_region frame) [0 ..< rg_pages sample_region] = [0, 1, 2, 3]"
    by code_simp+
  then show "region_free sample_region = {1, 2, 3}" "region_online sample_region = {0, 1, 2, 3}"
    unfolding region_sets_listed by simp_all
qed

lemma sample_live: "live_region sample_plugged i r \<longleftrightarrow> i = 0 \<and> r = sample_region"
  unfolding live_region_def sample_plugged_def by (auto simp: nth_Cons' split: if_splits)

lemma sample_frames_with: "frames_with part sample_plugged = region_frame sample_region ` part sample_region"
  by (auto simp: frames_with_def sample_live)

lemma sample_plugged_ok: "hotplug_ok sample_plugged"
  and sample_plugged_free: "hot_free sample_plugged = {36864, 40960, 45056}"
proof -
  have "region_ok sample_region"
    unfolding region_ok_def sample_region_bits by (simp add: sample_region_def PAGE_SIZE_def MAX_ADDRESS_def)
  moreover have "hot_online sample_plugged = {32768, 36864, 40960, 45056}"
    unfolding sample_frames_with sample_region_bits by (simp add: region_frame_def sample_region_def PAGE_SIZE_def)
  ultimately show "hotplug_ok sample_plugged"
    unfolding hotplug_ok_def sample_live by (simp add: sample_plugged_def)
  show "hot_free sample_plugged = {36864, 40960, 45056}"
    unfolding sample_frames_with sample_region_bits by (simp add: region_frame_def sample_region_def PAGE_SIZE_def)
qed

section \<open>Properties\<close>

text \<open>
  C36: A plugged frame is taken and given back exactly. Taking answers a free frame, which is free no
  longer, and answers none only when no region has one. A frame given back is claimed exactly when it
  lies in a region; it becomes free if its block is online and it was not free, and otherwise nothing
  changes. Both keep the counters, the disjointness of the regions and the direct map.
\<close>

theorem plugged_frames_are_exact:
  assumes "hotplug_ok hp"
  shows "(case hp_take hp of
        (None, hp') \<Rightarrow> hp' = hp \<and> hot_free hp = {}
      | (Some phys, hp') \<Rightarrow> phys \<in> hot_free hp \<and> hot_free hp' = hot_free hp - {phys} \<and> hotplug_ok hp') \<and>
    (case hp_give phys hp of
        (False, hp') \<Rightarrow> hp' = hp \<and> (\<forall>i r. live_region hp i r \<longrightarrow> \<not> region_contains r phys)
      | (True, hp') \<Rightarrow> (\<exists>i r. live_region hp i r \<and> region_contains r phys) \<and>
          (if frame_base phys \<in> hot_online hp - hot_free hp
           then hot_free hp' = insert (frame_base phys) (hot_free hp) \<and> hotplug_ok hp'
           else hp' = hp))"
  by (rule conjI [OF take_spec [OF assms] give_spec [OF assms]])

theorem plugged_frames_are_exact_witness:
  "hotplug_ok sample_plugged \<and> fst (hp_take sample_plugged) \<noteq> None \<and> fst (hp_give 32768 sample_plugged) \<and>
   \<not> fst (hp_give 4096 sample_plugged)"
proof -
  note P = plugged_frames_are_exact [OF sample_plugged_ok]
  have inside: "region_contains sample_region 32768" "\<not> region_contains sample_region 4096"
    by (simp_all add: region_contains_def sample_region_def PAGE_SIZE_def)
  obtain got hp1 b2 hp2 b3 hp3 where ops: "hp_take sample_plugged = (got, hp1)" "hp_give 32768 sample_plugged = (b2, hp2)"
    "hp_give 4096 sample_plugged = (b3, hp3)"
    by (metis surj_pair)
  have "got \<noteq> None"
    using P sample_plugged_free unfolding ops(1) by (cases got) auto
  moreover have b2
    using P [of 32768] inside(1) unfolding ops(2) sample_live by (cases b2) auto
  moreover have "\<not> b3"
    using P [of 4096] inside(2) unfolding ops(3) sample_live by (cases b3) auto
  ultimately show ?thesis
    using ops sample_plugged_ok by simp
qed

text \<open>
  C15: Blocks come online and go offline whole or not at all. A refusal changes nothing, not even the
  direct map, whatever page the mapping failed at. Blocks that come online were offline, and exactly
  their frames become online, mapped and free. Blocks go offline only when every one of their frames
  is free, and the refusal \<open>Busy\<close> means that one is not.
\<close>

theorem blocks_move_whole:
  assumes "hotplug_ok hp"
  shows "(case online try_map_page index first n hp of
        (Inl _, hp') \<Rightarrow> hp' = hp
      | (Inr _, hp') \<Rightarrow> \<exists>r. live_region hp index r \<and> first + n \<le> length (rg_online r) \<and> hotplug_ok hp' \<and>
          (let S = region_frame r ` block_frames_of r first n in
           S \<inter> hot_online hp = {} \<and> hot_online hp' = hot_online hp \<union> S \<and> hot_free hp' = hot_free hp \<union> S)) \<and>
    (case offline index first n hp of
        (Inl e, hp') \<Rightarrow> hp' = hp \<and>
          (e = Busy \<longrightarrow> (\<exists>r. live_region hp index r \<and> \<not> region_frame r ` block_frames_of r first n \<subseteq> hot_free hp))
      | (Inr _, hp') \<Rightarrow> \<exists>r. live_region hp index r \<and> first + n \<le> length (rg_online r) \<and> hotplug_ok hp' \<and>
          (let S = region_frame r ` block_frames_of r first n in
           S \<subseteq> hot_free hp \<and> hot_online hp' = hot_online hp - S \<and> hot_free hp' = hot_free hp - S))"
proof -
  obtain res1 hp1 res2 hp2 where ops: "online try_map_page index first n hp = (res1, hp1)" "offline index first n hp = (res2, hp2)"
    by (metis surj_pair)
  show ?thesis
    using online_spec [OF assms ops(1)] offline_spec [OF assms ops(2)] unfolding ops by (cases res1; cases res2) simp_all
qed

theorem blocks_move_whole_witness:
  "hotplug_ok sample_plugged \<and> offline 0 0 1 sample_plugged = (Inl Busy, sample_plugged) \<and>
   online (\<lambda>phys. phys \<noteq> 57344) 0 1 1 sample_plugged = (Inl Mapping, sample_plugged)"
proof -
  have "fst (offline 0 0 1 sample_plugged) = Inl Busy" "fst (online (\<lambda>phys. phys \<noteq> 57344) 0 1 1 sample_plugged) = Inl Mapping"
    by code_simp+
  then obtain hp1 hp2 where ops: "offline 0 0 1 sample_plugged = (Inl Busy, hp1)"
    "online (\<lambda>phys. phys \<noteq> 57344) 0 1 1 sample_plugged = (Inl Mapping, hp2)"
    by (metis prod.collapse)
  with blocks_move_whole [OF sample_plugged_ok, where try_map_page = "\<lambda>phys. phys \<noteq> 57344" and index = 0 and first = 1 and n = 1] blocks_move_whole [OF sample_plugged_ok, where index = 0 and first = 0 and n = 1]
  show ?thesis
    using sample_plugged_ok by simp
qed

text \<open>
  C37: Regions never share an address, and registering decides exactly. The same range in the same
  blocks asked for again answers the index of the region there is and changes nothing. Any other range
  becomes a region exactly when it is whole blocks of a power-of-two size inside the direct map, lies
  over nothing the caller named as taken and over no region, neither when the call reads the table nor
  after whatever other calls did to it while the bitmaps were made, the bitmaps could be reserved and a
  slot is free. It is then the region of the slot answered, in no block of which anything is free or
  online. Every refusal leaves the table as the other calls left it, and each of them has its reason.
  From the empty table, every sequence of registrations keeps the regions disjoint and aligned.
\<close>

theorem regions_stay_apart:
  assumes "hotplug_ok hp" "hotplug_ok (elsewhere hp)"
    "register x86_64 reserved elsewhere base len block_len taken hp = (res, hp')"
  shows "hotplug_ok hotplug_new \<and> hotplug_ok hp' \<and>
    (if \<not> x86_64 then res = Inl Unsupported \<and> hp' = hp
     else if \<exists>i. region_for hp i base len block_len then (\<exists>i. res = Inr i \<and> region_for hp i base len block_len) \<and> hp' = hp
     else if \<not> (may_be_region base len block_len \<and> clear_of base len taken \<and> clear_of_regions base len hp)
     then (\<exists>e \<in> {Unaligned, TooMany, TooHigh, Overlap}. res = Inl e) \<and> hp' = hp
     else if \<not> reserved then res = Inl NoMemory \<and> hp' = elsewhere hp
     else if \<not> clear_of_regions base len (elsewhere hp) then res = Inl Overlap \<and> hp' = elsewhere hp
     else if None \<notin> set (hp_regions (elsewhere hp)) then res = Inl TooMany \<and> hp' = elsewhere hp
     else \<exists>i < length (hp_regions (elsewhere hp)). res = Inr i \<and> hp_regions (elsewhere hp) ! i = None \<and>
       hp' = put_region i (region_new base len block_len) (elsewhere hp) \<and> region_for hp' i base len block_len \<and>
       hot_free hp' = hot_free (elsewhere hp) \<and> hot_online hp' = hot_online (elsewhere hp))"
proof -
  let ?at = "position (same_region base len block_len) (hp_regions hp)"
  let ?hp = "elsewhere hp" let ?slot = "position (\<lambda>slot. slot = None) (hp_regions ?hp)"
  note reg = assms(3) [unfolded register_def Let_def clear_of_overlaps]
  consider "\<not> x86_64" | i where "x86_64" "?at = Some i"
    | "x86_64" "?at = None" "\<not> (may_be_region base len block_len \<and> clear_of base len taken \<and> clear_of_regions base len hp)"
    | "x86_64" "?at = None" "may_be_region base len block_len" "clear_of base len taken" "clear_of_regions base len hp"
    by (cases ?at) auto
  then show ?thesis
  proof cases
    case 1
    with reg assms(1) hotplug_new_ok(1) show ?thesis
      by simp
  next
    case (2 i)
    have "region_for hp i base len block_len"
      using position_less [OF 2(2)] same_region_for by blast
    with 2 reg assms(1) hotplug_new_ok(1) show ?thesis
      by auto
  next
    case 3
    have "check base len block_len taken \<noteq> Inr () \<or> check base len block_len (map held_of (hp_regions hp)) \<noteq> Inr ()"
      using 3(3) clear_of_held [OF assms(1)] by (auto simp: check_exact)
    moreover have "e \<in> {Unaligned, TooMany, TooHigh, Overlap}" if "check base len block_len ts = Inl e" for ts e
      using that by (auto simp: check_def split: option.splits if_splits)
    ultimately have "(\<exists>e \<in> {Unaligned, TooMany, TooHigh, Overlap}. res = Inl e) \<and> hp' = hp"
      using reg 3(1,2) by (auto split: sum.splits)
    with 3 assms(1) hotplug_new_ok(1) show ?thesis
      unfolding no_region_for by simp
  next
    case 4
    have checks: "check base len block_len taken = Inr ()" "check base len block_len (map held_of (hp_regions hp)) = Inr ()"
      using 4 clear_of_held [OF assms(1)] by (simp_all add: check_exact)
    note reg' = reg [unfolded checks 4(2) option.case sum.case]
    show ?thesis
    proof (cases "reserved \<and> clear_of_regions base len ?hp \<and> None \<in> set (hp_regions ?hp)")
      case True
      then obtain i where i: "?slot = Some i"
        using position_None [of "\<lambda>slot. slot = None" "hp_regions ?hp"] by (cases ?slot) auto
      note free = position_less [OF i]
      have r: "res = Inr i" "hp' = put_region i (region_new base len block_len) ?hp"
        using reg' 4(1) True i by simp_all
      from placed_region [OF assms(2) _ _ 4(3), of i] True free 4 r hotplug_new_ok(1) show ?thesis
        unfolding no_region_for by auto
    next
      case False
      then have "None \<notin> set (hp_regions ?hp) \<Longrightarrow> ?slot = None"
        unfolding position_None by metis
      with False reg' 4 assms(2) hotplug_new_ok(1) show ?thesis
        unfolding no_region_for by (auto split: if_splits)
    qed
  qed
qed

text \<open>The instance: two ranges beside the region there is, one of them placed by another call first.\<close>

definition sample_rival :: "hotplug \<Rightarrow> hotplug" where
  "sample_rival hp = put_region 1 (region_new 65536 4096 4096) hp"

lemma sample_range:
  assumes "base = 65536 \<or> base = 131072"
  shows "may_be_region base 8192 4096" "clear_of base 8192 [(0, 32768)]" "clear_of_regions base 8192 sample_plugged"
    "\<not> region_for sample_plugged i base 8192 4096"
proof -
  have "(4096 :: nat) = 2 ^ 12" "(12 :: nat) < 64"
    by simp_all
  then have "\<exists>k < 64. (4096 :: nat) = 2 ^ k"
    by blast
  then show "may_be_region base 8192 4096"
    using assms by (auto simp: may_be_region_def PAGE_SIZE_def MAX_BLOCKS_def MAX_ADDRESS_def)
  show "clear_of base 8192 [(0, 32768)]" "clear_of_regions base 8192 sample_plugged" "\<not> region_for sample_plugged i base 8192 4096"
    using assms by (auto simp: clear_of_def clear_of_regions_def region_for_def sample_live sample_region_def PAGE_SIZE_def U64_MAX_def)
qed

lemma sample_rival_ok: "hotplug_ok (sample_rival sample_plugged)"
proof -
  have "may_be_region 65536 4096 4096"
    using sample_range(1) [of 65536] by (auto simp: may_be_region_def MAX_BLOCKS_def MAX_ADDRESS_def)
  moreover have "clear_of_regions 65536 4096 sample_plugged"
    by (simp add: clear_of_regions_def sample_live sample_region_def PAGE_SIZE_def)
  ultimately show ?thesis
    unfolding sample_rival_def using placed_region [OF sample_plugged_ok, of 1] by (simp add: sample_plugged_def)
qed

theorem regions_stay_apart_witness:
  "\<exists>hp'. hotplug_ok sample_plugged \<and>
     register True True sample_rival 65536 8192 4096 [(0, 32768)] sample_plugged = (Inl Overlap, sample_rival sample_plugged) \<and>
     register True True sample_rival 131072 8192 4096 [(0, 32768)] sample_plugged = (Inr 2, hp') \<and>
     hotplug_ok hp' \<and> region_for hp' 2 131072 8192 4096"
proof -
  have "fst (register True True sample_rival 65536 8192 4096 [(0, 32768)] sample_plugged) = Inl Overlap"
    "fst (register True True sample_rival 131072 8192 4096 [(0, 32768)] sample_plugged) = Inr 2"
    by code_simp+
  then obtain hp1 hp2 where runs: "register True True sample_rival 65536 8192 4096 [(0, 32768)] sample_plugged = (Inl Overlap, hp1)"
    "register True True sample_rival 131072 8192 4096 [(0, 32768)] sample_plugged = (Inr 2, hp2)"
    by (metis prod.collapse)
  show ?thesis
    using regions_stay_apart [OF sample_plugged_ok sample_rival_ok runs(1)] regions_stay_apart [OF sample_plugged_ok sample_rival_ok runs(2)]
      runs sample_plugged_ok sample_range [of 65536] sample_range [of 131072]
    by (auto split: if_splits)
qed

end
