(* ===== verification/Memory.thy ===== *)
theory Memory
  imports Frames Hotplug
begin

text \<open>
  The services of the frame allocator (the functions of \<^verbatim>\<open>src/src/kernel/mem/frame/mod.rs\<close> outside the
  allocator itself): single frames, contiguous runs and sets of frames, program memory that may come
  from plugged regions, the balloon, and the retirement of frames that were mapped. The state joins
  the allocator, the plugged regions and the quarantine. Which answer the next TLB shootdowns give is
  an argument \<open>answers\<close>, numbered by a counter in the state, and the events of interest (a shootdown,
  a frame released, a page retired) are recorded in order.
\<close>

section \<open>State\<close>

datatype mem_event = Shootdown bool | Released nat | Retired nat

record memory =
  me_topology :: "topology option"
  me_frames :: frames
  me_plugged :: hotplug
  me_quarantine :: "nat list"
  me_shots :: nat
  me_log :: "mem_event list"

definition QUARANTINE_DRAIN :: nat where "QUARANTINE_DRAIN = 64"
definition QUARANTINE_CAPACITY :: nat where "QUARANTINE_CAPACITY = 512"

definition shootdown :: "(nat \<Rightarrow> bool) \<Rightarrow> memory \<Rightarrow> bool \<times> memory" where
  "shootdown answers me =
     (let b = answers (me_shots me) in (b, me\<lparr>me_shots := Suc (me_shots me), me_log := me_log me @ [Shootdown b]\<rparr>))"

section \<open>Allocating\<close>

definition allocate :: "node_id option \<Rightarrow> memory \<Rightarrow> nat option \<times> memory" where
  "allocate local_node me =
     (case take_one_from (me_topology me) local_node (me_frames me) of (got, fa) \<Rightarrow> (got, me\<lparr>me_frames := fa\<rparr>))"

definition allocate_preferred :: "node_id \<Rightarrow> memory \<Rightarrow> nat option \<times> memory" where
  "allocate_preferred node me =
     (case take_one_from (me_topology me) (Some node) (me_frames me) of (got, fa) \<Rightarrow> (got, me\<lparr>me_frames := fa\<rparr>))"

definition plugged_take :: "memory \<Rightarrow> nat option \<times> memory" where
  "plugged_take me = (case hp_take (me_plugged me) of (got, hp) \<Rightarrow> (got, me\<lparr>me_plugged := hp\<rparr>))"

definition boot_totals :: "memory \<Rightarrow> nat \<times> nat" where
  "boot_totals me = (fa_total_count (me_frames me), fa_free_count (me_frames me))"

definition kernel_reserve :: "nat \<Rightarrow> nat" where
  "kernel_reserve pages = max (pages div 32) 4096"

text \<open>\<^verbatim>\<open>or_else\<close>: the second source is asked when the first has nothing.\<close>

definition or_else :: "(memory \<Rightarrow> nat option \<times> memory) \<Rightarrow> (memory \<Rightarrow> nat option \<times> memory) \<Rightarrow> memory \<Rightarrow> nat option \<times> memory" where
  "or_else first second me = (case first me of (Some phys, me1) \<Rightarrow> (Some phys, me1) | (None, me1) \<Rightarrow> second me1)"

definition allocate_movable :: "node_id option \<Rightarrow> memory \<Rightarrow> nat option \<times> memory" where
  "allocate_movable local_node me =
     (case boot_totals me of
        (pages, free) \<Rightarrow>
          if kernel_reserve pages < free then or_else (allocate local_node) plugged_take me
          else or_else plugged_take (allocate local_node) me)"

definition allocate_contiguous_below :: "node_id option \<Rightarrow> nat \<Rightarrow> nat \<Rightarrow> memory \<Rightarrow> nat option \<times> memory" where
  "allocate_contiguous_below local_node pages lim me =
     (if pages = 0 then (None, me)
      else (case take_contiguous_below (me_topology me) pages local_node lim (me_frames me) of
              (got, fa) \<Rightarrow> (got, me\<lparr>me_frames := fa\<rparr>)))"

definition allocate_contiguous :: "node_id option \<Rightarrow> nat \<Rightarrow> memory \<Rightarrow> nat option \<times> memory" where
  "allocate_contiguous local_node pages me =
     (if pages = 0 then (None, me)
      else (case take_contiguous_from (me_topology me) pages local_node (me_frames me) of
              (got, fa) \<Rightarrow> (got, me\<lparr>me_frames := fa\<rparr>)))"

section \<open>Giving back\<close>

definition deallocate :: "nat \<Rightarrow> memory \<Rightarrow> memory" where
  "deallocate phys me =
     (let me1 = me\<lparr>me_log := me_log me @ [Released phys]\<rparr> in
      case hp_give phys (me_plugged me1) of
        (True, hp) \<Rightarrow> me1\<lparr>me_plugged := hp\<rparr>
      | (False, hp) \<Rightarrow> me1\<lparr>me_frames := fa_insert (me_topology me1) phys 1 (me_frames me1)\<rparr>)"

definition free_pages :: "nat list \<Rightarrow> memory \<Rightarrow> memory" where
  "free_pages frames me = fold deallocate frames me"

definition pages_for :: "nat \<Rightarrow> nat" where
  "pages_for bytes = max ((bytes + (PAGE_SIZE - 1)) div PAGE_SIZE) 1"

text \<open>The loop of \<^verbatim>\<open>allocate_pages_with\<close>; the first failure gives back what it had taken.\<close>

fun take_pages :: "(memory \<Rightarrow> nat option \<times> memory) \<Rightarrow> nat \<Rightarrow> nat list \<Rightarrow> memory \<Rightarrow> nat list option \<times> memory" where
  "take_pages alloc 0 frames me = (Some frames, me)"
| "take_pages alloc (Suc pages) frames me =
     (case alloc me of
        (Some phys, me1) \<Rightarrow> take_pages alloc pages (frames @ [phys]) me1
      | (None, me1) \<Rightarrow> (None, free_pages frames me1))"

definition allocate_pages_with :: "bool \<Rightarrow> nat \<Rightarrow> (memory \<Rightarrow> nat option \<times> memory) \<Rightarrow> memory \<Rightarrow> nat list option \<times> memory" where
  "allocate_pages_with reserved pages alloc me =
     (if \<not> reserved then (None, me)
      else (case take_pages alloc pages [] me of (got, me1) \<Rightarrow> (map_option sort got, me1)))"

definition allocate_pages :: "bool \<Rightarrow> node_id option \<Rightarrow> nat \<Rightarrow> memory \<Rightarrow> nat list option \<times> memory" where
  "allocate_pages reserved local_node pages me = allocate_pages_with reserved pages (allocate local_node) me"

definition allocate_pages_movable :: "bool \<Rightarrow> node_id option \<Rightarrow> nat \<Rightarrow> memory \<Rightarrow> nat list option \<times> memory" where
  "allocate_pages_movable reserved local_node pages me = allocate_pages_with reserved pages (allocate_movable local_node) me"

section \<open>Retiring mapped frames\<close>

definition note_retired_pages :: "nat \<Rightarrow> nat \<Rightarrow> memory \<Rightarrow> memory" where
  "note_retired_pages base pages me =
     (let fa = me_frames me in
      me\<lparr>me_frames := mark_owned base pages True
           (fa\<lparr>fa_retired_pages := fa_retired_pages fa + pages, fa_lost_pages := fa_lost_pages fa + pages\<rparr>),
         me_log := me_log me @ [Retired base]\<rparr>)"

definition push :: "nat \<Rightarrow> nat list \<Rightarrow> bool \<times> nat list" where
  "push phys q = (if length q = QUARANTINE_CAPACITY then (False, q) else (True, q @ [phys]))"

definition take_into :: "nat \<Rightarrow> nat list \<Rightarrow> nat list \<times> nat list" where
  "take_into out q = (let n = min (length q) out in (drop (length q - n) q, take (length q - n) q))"

lemma take_into_shorter: "take_into out q = (batch, q') \<Longrightarrow> batch \<noteq> [] \<Longrightarrow> length q' < length q"
  by (auto simp: take_into_def Let_def)

lemma deallocate_quarantine [simp]: "me_quarantine (deallocate phys me) = me_quarantine me"
  by (simp add: deallocate_def Let_def split: prod.split bool.split)

lemma free_pages_quarantine [simp]: "me_quarantine (free_pages frames me) = me_quarantine me"
  unfolding free_pages_def by (induction frames arbitrary: me) simp_all

text \<open>The drain empties the queue in batches of 64 and never holds it across a release.\<close>

function drain_loop :: "memory \<Rightarrow> memory" where
  "drain_loop me =
     (case take_into 64 (me_quarantine me) of
        (batch, q) \<Rightarrow> if batch = [] then me else drain_loop (free_pages batch (me\<lparr>me_quarantine := q\<rparr>)))"
  by pat_completeness auto
termination
  by (relation "measure (\<lambda>me. length (me_quarantine me))") (auto dest: take_into_shorter [OF sym])

declare drain_loop.simps [simp del]

definition drain_quarantine :: "(nat \<Rightarrow> bool) \<Rightarrow> memory \<Rightarrow> memory" where
  "drain_quarantine answers me =
     (if me_quarantine me = [] then me
      else (case shootdown answers me of (False, me1) \<Rightarrow> me1 | (True, me1) \<Rightarrow> drain_loop me1))"

text \<open>One frame of the loop in \<^verbatim>\<open>retire\<close>; \<open>unqueued\<close> is the part of the small batch that is used.\<close>

definition retire_one :: "(nat \<Rightarrow> bool) \<Rightarrow> nat \<Rightarrow> nat list \<times> memory \<Rightarrow> nat list \<times> memory" where
  "retire_one answers phys s =
     (case s of
        (unqueued, me) \<Rightarrow>
          (case push phys (me_quarantine me) of
             (True, q) \<Rightarrow> (unqueued, me\<lparr>me_quarantine := q\<rparr>)
           | (False, _) \<Rightarrow>
               (let me1 = drain_quarantine answers me in
                case push phys (me_quarantine me1) of
                  (True, q) \<Rightarrow> (unqueued, me1\<lparr>me_quarantine := q\<rparr>)
                | (False, _) \<Rightarrow>
                    (if length unqueued < 8 then (unqueued @ [phys], me1)
                     else
                       (case shootdown answers me1 of
                          (True, me2) \<Rightarrow> (unqueued, deallocate phys me2)
                        | (False, me2) \<Rightarrow> (unqueued, note_retired_pages phys 1 me2))))))"

definition retire :: "(nat \<Rightarrow> bool) \<Rightarrow> nat list \<Rightarrow> memory \<Rightarrow> memory" where
  "retire answers frames me =
     (if frames = [] then me
      else
        (case (if QUARANTINE_CAPACITY < length frames then shootdown answers me else (False, me)) of
           (True, me1) \<Rightarrow> fold deallocate frames me1
         | (False, me1) \<Rightarrow>
             (case fold (retire_one answers) frames ([], me1) of
                (unqueued, me2) \<Rightarrow>
                  (let drain = (QUARANTINE_DRAIN \<le> length (me_quarantine me2)) in
                   if unqueued \<noteq> [] then
                     (case shootdown answers me2 of
                        (True, me3) \<Rightarrow> drain_quarantine answers (fold deallocate unqueued me3)
                      | (False, me3) \<Rightarrow>
                          (let me4 = fold (\<lambda>phys. note_retired_pages phys 1) unqueued me3 in
                           if drain then drain_quarantine answers me4 else me4))
                   else if drain then drain_quarantine answers me2 else me2))))"

section \<open>Counts and the balloon\<close>

definition totals :: "memory \<Rightarrow> nat \<times> nat" where
  "totals me =
     (case (boot_totals me, hp_totals (me_plugged me)) of
        ((pages, free), (plugged, plugged_free)) \<Rightarrow> (pages + plugged, free + plugged_free))"

definition is_free :: "nat \<Rightarrow> memory \<Rightarrow> bool" where
  "is_free phys me =
     (case hp_is_free phys (me_plugged me) of
        Some free \<Rightarrow> free
      | None \<Rightarrow>
          (let fa = me_frames me in
           if fa_pools fa \<noteq> [] then
             (case pool_of (me_topology me) (fa_pools fa) phys of
                None \<Rightarrow> False
              | Some i \<Rightarrow> is_free_page (po_buddy (fa_pools fa ! i)) phys)
           else list_ex (\<lambda>r. fr_base r \<le> phys \<and> phys < fr_base r + fr_pages r * PAGE_SIZE) (runs fa)))"

definition free_count :: "memory \<Rightarrow> nat" where
  "free_count me = fa_free_count (me_frames me) + snd (hp_totals (me_plugged me))"

definition balloon_floor :: "nat \<Rightarrow> nat" where
  "balloon_floor pages = max (pages div 16) 8192"

definition balloon_room :: "nat \<Rightarrow> nat \<Rightarrow> nat \<Rightarrow> nat" where
  "balloon_room free pages want = min (free - balloon_floor pages) want"

definition balloon_take :: "node_id option \<Rightarrow> memory \<Rightarrow> nat option \<times> memory" where
  "balloon_take local_node me =
     (case boot_totals me of
        (pages, free) \<Rightarrow>
          if balloon_room free pages 1 = 0 then (None, me)
          else
            (case allocate local_node me of
               (None, me1) \<Rightarrow> (None, me1)
             | (Some frame, me1) \<Rightarrow>
                 (Some frame, me1\<lparr>me_frames := (me_frames me1)\<lparr>fa_ballooned := (fa_ballooned (me_frames me1) + 1) mod (U64_MAX + 1)\<rparr>\<rparr>)))"

definition balloon_return :: "nat \<Rightarrow> memory \<Rightarrow> memory" where
  "balloon_return phys me =
     (let me1 = deallocate phys me in
      me1\<lparr>me_frames := (me_frames me1)\<lparr>fa_ballooned := (fa_ballooned (me_frames me1) + U64_MAX) mod (U64_MAX + 1)\<rparr>\<rparr>)"

end
