(* ===== verification/Memory_Ops.thy ===== *)
theory Memory_Ops
  imports Memory Frame_Ops Hotplug_Ops
begin

text \<open>
  The frame services over two sets: the frames that are free (\<open>all_free\<close>, in a boot pool or a plugged
  region) and the frames that have a place to go back to (\<open>home\<close>). An allocation takes one frame out
  of the first set and a release puts it back, whichever of the two stores it belongs to. The
  interface between the multi-frame allocation and the single-frame sources it is handed is the
  locale \<open>frame_source\<close>.
\<close>

section \<open>The joint invariant\<close>

definition boot_home :: "memory \<Rightarrow> nat set" where
  "boot_home me = {phys. (\<exists>i < fa_owned_frames (me_frames me). phys = record_frame (me_frames me) i) \<and>
     covered (me_topology me) (me_frames me) phys}"

definition home :: "memory \<Rightarrow> nat set" where
  "home me = boot_home me \<union> hot_online (me_plugged me)"

definition all_free :: "memory \<Rightarrow> nat set" where
  "all_free me = frames_free (me_frames me) \<union> hot_free (me_plugged me)"

definition memory_ok :: "memory \<Rightarrow> bool" where
  "memory_ok me \<longleftrightarrow> frames_ok (me_topology me) (me_frames me) \<and> hotplug_ok (me_plugged me) \<and>
     (\<forall>i < fa_owned_frames (me_frames me). owner (record_frame (me_frames me) i) (me_plugged me) = None)"

lemma memory_okD:
  assumes "memory_ok me"
  shows "frames_ok (me_topology me) (me_frames me)" "hotplug_ok (me_plugged me)"
    "\<And>i. i < fa_owned_frames (me_frames me) \<Longrightarrow> owner (record_frame (me_frames me) i) (me_plugged me) = None"
  using assms by (simp_all add: memory_ok_def)

section \<open>Places of the regions\<close>

definition places :: "hotplug \<Rightarrow> (nat \<times> nat) option list" where
  "places hp = map (map_option (\<lambda>r. (rg_base r, rg_pages r))) (hp_regions hp)"

lemma owner_by_place:
  "owner phys hp = position (\<lambda>place. case place of None \<Rightarrow> False | Some (b, n) \<Rightarrow> b \<le> phys \<and> phys < b + n * PAGE_SIZE) (places hp)"
  unfolding owner_def
proof (rule position_map)
  show "length (hp_regions hp) = length (places hp)"
    by (simp add: places_def)
  show "(case hp_regions hp ! i of None \<Rightarrow> False | Some r \<Rightarrow> region_contains r phys) =
      (case places hp ! i of None \<Rightarrow> False | Some (b, n) \<Rightarrow> b \<le> phys \<and> phys < b + n * PAGE_SIZE)"
    if "i < length (hp_regions hp)" for i
    using that by (cases "hp_regions hp ! i") (simp_all add: places_def region_contains_def)
qed

lemma owner_places: "places hp' = places hp \<Longrightarrow> owner phys hp' = owner phys hp"
  by (simp add: owner_by_place)

lemma take_from_places: "map (map_option (\<lambda>r. (rg_base r, rg_pages r))) (snd (take_from rs)) = map (map_option (\<lambda>r. (rg_base r, rg_pages r))) rs"
proof (induction rs)
  case (Cons slot rest)
  obtain got rs' where rest: "take_from rest = (got, rs')"
    by fastforce
  show ?case
  proof (cases "\<exists>r frame. slot = Some r \<and> rg_free_pages r \<noteq> 0 \<and> next_free r = Some frame")
    case True
    then show ?thesis
      by (auto simp: region_set_def)
  next
    case False
    then have "take_from (slot # rest) = (got, slot # rs')"
      using rest by (cases slot; cases "next_free (the slot)") simp_all
    with Cons rest show ?thesis
      by simp
  qed
qed simp

lemma hp_take_places: "hp_take hp = (got, hp') \<Longrightarrow> places hp' = places hp \<and> hp_mapped hp' = hp_mapped hp"
  using take_from_places [of "hp_regions hp"] by (auto simp: hp_take_def places_def split: prod.splits)

lemma hp_give_places: "hp_give phys hp = (b, hp') \<Longrightarrow> places hp' = places hp \<and> hp_mapped hp' = hp_mapped hp"
proof (cases "owner phys hp")
  case (Some i)
  moreover assume "hp_give phys hp = (b, hp')"
  moreover obtain r where r: "live_region hp i r"
    using owner_Some [OF Some] by blast
  moreover have "map_option (\<lambda>r. (rg_base r, rg_pages r)) (hp_regions hp ! i) = Some (rg_base r, rg_pages r)" "i < length (hp_regions hp)"
    using r by (simp_all add: live_region_def)
  ultimately show ?thesis
    by (auto simp: hp_give_def Let_def live_region_def put_region_def places_def region_set_def map_update list_update_same_conv split: if_splits)
qed (simp add: hp_give_def)

lemma online_kept: "hotplug_ok hp \<Longrightarrow> hotplug_ok hp' \<Longrightarrow> hp_mapped hp' = hp_mapped hp \<Longrightarrow> hot_online hp' = hot_online hp"
  by (simp add: hotplug_ok_def)

section \<open>Single frames\<close>

text \<open>What an allocation or a release leaves as it was.\<close>

definition settled :: "memory \<Rightarrow> nat set \<Rightarrow> memory \<Rightarrow> bool" where
  "settled me free me' \<longleftrightarrow> memory_ok me' \<and> all_free me' = free \<and> home me' = home me \<and> me_topology me' = me_topology me \<and>
     me_quarantine me' = me_quarantine me \<and>
     fa_double_allocations (me_frames me') = fa_double_allocations (me_frames me)"

lemma settled_compose: "settled me free me1 \<Longrightarrow> settled me1 free' me2 \<Longrightarrow> settled me free' me2"
  by (simp add: settled_def)

lemma settled_refl: "memory_ok me \<Longrightarrow> settled me (all_free me) me"
  by (simp add: settled_def)

lemma settled_ok: "settled me free me' \<Longrightarrow> memory_ok me'"
  by (simp add: settled_def)

lemma frames_moved_settled:
  assumes ok: "memory_ok me" and moved: "moved (me_topology me) (me_frames me) free fa"
  shows "settled me (free \<union> hot_free (me_plugged me)) (me\<lparr>me_frames := fa\<rparr>)"
proof -
  note P = memory_okD [OF ok]
  have dims: "fa_owned_frames fa = fa_owned_frames (me_frames me)" "record_frame fa = record_frame (me_frames me)"
    using moved by (simp_all add: moved_def record_frame_def fun_eq_iff)
  have "boot_home (me\<lparr>me_frames := fa\<rparr>) = boot_home me"
    unfolding boot_home_def using moved_covered [OF P(1) moved] by (simp add: dims)
  then show ?thesis
    using P moved unfolding settled_def memory_ok_def home_def all_free_def by (simp add: dims) (simp add: moved_def)
qed

lemma plugged_moved_settled:
  assumes ok: "memory_ok me" and hp: "hotplug_ok hp" "places hp = places (me_plugged me)" "hp_mapped hp = hp_mapped (me_plugged me)"
  shows "settled me (frames_free (me_frames me) \<union> hot_free hp) (me\<lparr>me_plugged := hp\<rparr>)"
proof -
  note P = memory_okD [OF ok]
  have "boot_home (me\<lparr>me_plugged := hp\<rparr>) = boot_home me"
    by (simp add: boot_home_def)
  then show ?thesis
    using P hp online_kept [OF P(2) hp(1,3)] owner_places [OF hp(2)]
    unfolding settled_def memory_ok_def home_def all_free_def by simp
qed

lemma stores_apart:
  assumes ok: "memory_ok me"
  shows "boot_home me \<inter> hot_online (me_plugged me) = {}" "frames_free (me_frames me) \<subseteq> boot_home me"
    "hot_free (me_plugged me) \<subseteq> hot_online (me_plugged me)"
proof -
  note P = memory_okD [OF ok]
  have owned: "owner phys (me_plugged me) \<noteq> None" if "phys \<in> hot_online (me_plugged me)" for phys
    using that region_frame_inside region_online_inside unfolding owner_None by (fastforce simp: frames_with_def)
  show "boot_home me \<inter> hot_online (me_plugged me) = {}"
  proof (rule ccontr)
    assume "boot_home me \<inter> hot_online (me_plugged me) \<noteq> {}"
    then obtain i where "i < fa_owned_frames (me_frames me)" "record_frame (me_frames me) i \<in> hot_online (me_plugged me)"
      by (auto simp: boot_home_def)
    with owned P(3) show False
      by blast
  qed
  show "frames_free (me_frames me) \<subseteq> boot_home me"
    using free_in_record(1) [OF P(1)] free_is_covered [OF P(1)] by (auto simp: boot_home_def)
  show "hot_free (me_plugged me) \<subseteq> hot_online (me_plugged me)"
    using hotplug_ok_region [OF P(2)] unfolding frames_with_def region_ok_def by blast
qed

lemma all_free_home: "memory_ok me \<Longrightarrow> all_free me \<subseteq> home me"
  using stores_apart [of me] by (auto simp: all_free_def home_def)

lemma plugged_take_spec:
  assumes ok: "memory_ok me" and take: "plugged_take me = (got, me')"
  shows "settled me (all_free me - set_option got) me' \<and> set_option got \<subseteq> hot_free (me_plugged me) \<and>
    (got = None \<longrightarrow> hot_free (me_plugged me) = {}) \<and> me_frames me' = me_frames me \<and>
    hot_free (me_plugged me') = hot_free (me_plugged me) - set_option got"
proof -
  note P = memory_okD [OF ok]
  obtain hp where hp: "hp_take (me_plugged me) = (got, hp)" "me' = me\<lparr>me_plugged := hp\<rparr>"
    using take by (auto simp: plugged_take_def split: prod.splits)
  have "hotplug_ok hp \<and> hot_free hp = hot_free (me_plugged me) - set_option got \<and> set_option got \<subseteq> hot_free (me_plugged me) \<and>
    (got = None \<longrightarrow> hot_free (me_plugged me) = {})"
    using take_spec [OF P(2)] P(2) unfolding hp(1) by (cases got) simp_all
  then have spec: "hotplug_ok hp" "hot_free hp = hot_free (me_plugged me) - set_option got" "set_option got \<subseteq> hot_free (me_plugged me)"
    "got = None \<longrightarrow> hot_free (me_plugged me) = {}"
    by blast+
  have "frames_free (me_frames me) \<union> hot_free hp = all_free me - set_option got"
    unfolding spec(2) all_free_def using spec(3) stores_apart [OF ok] by blast
  with plugged_moved_settled [OF ok spec(1)] hp_take_places [OF hp(1)] spec hp(2) show ?thesis
    by simp
qed

lemma allocate_spec:
  assumes ok: "memory_ok me" and take: "allocate want me = (got, me')"
  shows "settled me (all_free me - set_option got) me' \<and> set_option got \<subseteq> frames_free (me_frames me) \<and>
    (got = None \<longrightarrow> frames_free (me_frames me) = {}) \<and> me_plugged me' = me_plugged me \<and>
    frames_free (me_frames me') = frames_free (me_frames me) - set_option got"
proof -
  note P = memory_okD [OF ok]
  obtain fa where fa: "take_one_from (me_topology me) want (me_frames me) = (got, fa)" "me' = me\<lparr>me_frames := fa\<rparr>"
    using take by (auto simp: allocate_def split: prod.splits)
  have spec: "moved (me_topology me) (me_frames me) (frames_free (me_frames me) - set_option got) fa \<and>
    set_option got \<subseteq> frames_free (me_frames me) \<and> (got = None \<longrightarrow> frames_free (me_frames me) = {})"
  proof (cases rule: take_one_spec [OF P(1), of want, case_names none some])
    case (none fa1)
    with fa(1) show ?thesis
      by simp
  next
    case (some base fa1)
    with fa(1) show ?thesis
      by auto
  qed
  have "frames_free (me_frames me) - set_option got \<union> hot_free (me_plugged me) = all_free me - set_option got"
    unfolding all_free_def using spec stores_apart [OF ok] by blast
  with frames_moved_settled [OF ok conjunct1 [OF spec]] spec fa(2) show ?thesis
    by (simp add: moved_def)
qed

text \<open>A release: what is freed is the frame of a region the address lies in, or the boot frame itself.\<close>

definition released :: "memory \<Rightarrow> nat \<Rightarrow> nat set" where
  "released me phys = (if owner phys (me_plugged me) = None then {phys} \<inter> boot_home me else {frame_base phys} \<inter> hot_online (me_plugged me))"

lemma settled_log [simp]: "settled (me\<lparr>me_log := l\<rparr>) free me' = settled me free me'"
  "memory_ok (me\<lparr>me_log := l\<rparr>) = memory_ok me" "all_free (me\<lparr>me_log := l\<rparr>) = all_free me"
  by (simp_all add: settled_def memory_ok_def home_def boot_home_def all_free_def)

lemma settled_counters:
  assumes ok: "memory_ok me" and fa: "fa_pools fa = fa_pools (me_frames me)" "fa_owned fa = fa_owned (me_frames me)"
    "fa_owned_base fa = fa_owned_base (me_frames me)" "fa_owned_frames fa = fa_owned_frames (me_frames me)"
    "fa_free_count fa = fa_free_count (me_frames me)" "fa_double_allocations fa = fa_double_allocations (me_frames me)"
  shows "settled me (all_free me) (me\<lparr>me_frames := fa\<rparr>)"
proof -
  note P = memory_okD [OF ok]
  have "record_index fa = record_index (me_frames me)"
    by (rule record_index_fields [OF fa(3,4)])
  then have "frames_ok (me_topology me) fa"
    using P(1) record_ok_fields [OF fa(2-4)] unfolding frames_ok_def fa(1,5) by simp
  then have "moved (me_topology me) (me_frames me) (frames_free (me_frames me)) fa"
    by (simp add: moved_def fa)
  from frames_moved_settled [OF ok this] show ?thesis
    by (simp add: all_free_def)
qed

lemma deallocate_spec:
  assumes ok: "memory_ok me"
  shows "settled me (all_free me \<union> released me phys) (deallocate phys me)"
proof -
  note P = memory_okD [OF ok]
  obtain b hp where give: "hp_give phys (me_plugged me) = (b, hp)"
    by fastforce
  show ?thesis
  proof (cases b)
    case True
    then have give': "hp_give phys (me_plugged me) = (True, hp)"
      using give by simp
    have own: "owner phys (me_plugged me) \<noteq> None"
      using give_spec [OF P(2), of phys] unfolding give' owner_None by auto
    have hp: "hotplug_ok hp" "hot_free hp = hot_free (me_plugged me) \<union> released me phys"
      using give_spec [OF P(2), of phys] P(2) stores_apart(3) [OF ok] own unfolding give' released_def by (auto split: if_splits)
    have "deallocate phys me = (me\<lparr>me_log := me_log me @ [Released phys]\<rparr>)\<lparr>me_plugged := hp\<rparr>"
      using give' by (simp add: deallocate_def Let_def)
    moreover have "settled (me\<lparr>me_log := me_log me @ [Released phys]\<rparr>) (frames_free (me_frames me) \<union> hot_free hp)
        ((me\<lparr>me_log := me_log me @ [Released phys]\<rparr>)\<lparr>me_plugged := hp\<rparr>)"
      using plugged_moved_settled [of "me\<lparr>me_log := me_log me @ [Released phys]\<rparr>" hp] ok hp(1) hp_give_places [OF give'] by simp
    ultimately show ?thesis
      by (simp add: hp(2) all_free_def Un_assoc)
  next
    case False
    let ?me = "me\<lparr>me_log := me_log me @ [Released phys]\<rparr>"
    have give': "hp_give phys (me_plugged me) = (False, hp)"
      using give False by simp
    have own: "owner phys (me_plugged me) = None"
      using give_spec [OF P(2), of phys] unfolding give' owner_None by auto
    have step: "deallocate phys me = ?me\<lparr>me_frames := fa_insert (me_topology me) phys 1 (me_frames me)\<rparr>"
      using give' by (simp add: deallocate_def Let_def)
    have rel: "released me phys = {phys} \<inter> boot_home me"
      by (simp add: released_def own)
    have ok': "memory_ok ?me"
      using ok by simp
    show ?thesis
    proof (cases "marked_out (me_frames me) phys")
      case loan: True
      have iff: "phys \<in> boot_home me \<longleftrightarrow> covered (me_topology me) (me_frames me) phys"
        using loan by (simp add: boot_home_def marked_out_def)
      show ?thesis
      proof (cases "covered (me_topology me) (me_frames me) phys")
        case True
        have set: "insert phys (frames_free (me_frames me)) \<union> hot_free (me_plugged me) = all_free me \<union> released me phys"
          using True iff by (simp add: rel all_free_def)
        have "settled ?me (insert phys (frames_free (me_frames me)) \<union> hot_free (me_plugged me)) (deallocate phys me)"
          unfolding step using frames_moved_settled [OF ok', of "insert phys (frames_free (me_frames me))"] insert_covered [OF P(1) loan True]
          by simp
        then show ?thesis
          unfolding set by simp
      next
        case False
        have set: "frames_free (me_frames me) \<union> hot_free (me_plugged me) = all_free me \<union> released me phys"
          using False iff by (simp add: rel all_free_def)
        have "settled ?me (frames_free (me_frames me) \<union> hot_free (me_plugged me)) (deallocate phys me)"
          unfolding step using frames_moved_settled [OF ok', of "frames_free (me_frames me)"] insert_uncovered [OF P(1) loan False]
          by simp
        then show ?thesis
          unfolding set by simp
      qed
    next
      case False
      have "all_free me \<union> released me phys = all_free me"
        using False by (auto simp: rel boot_home_def marked_out_def all_free_def)
      moreover have "settled ?me (all_free me) (deallocate phys me)"
        unfolding step insert_refused [OF P(1) False]
        using settled_counters [OF ok', of "(me_frames me)\<lparr>fa_refused_frees := fa_refused_frees (me_frames me) + 1\<rparr>"] by simp
      ultimately show ?thesis
        by simp
    qed
  qed
qed

section \<open>Sets of frames\<close>

lemma released_home:
  assumes ok: "memory_ok me" and home: "phys \<in> home me"
  shows "released me phys = {phys}"
proof (cases "phys \<in> boot_home me")
  case True
  then obtain i where "i < fa_owned_frames (me_frames me)" "phys = record_frame (me_frames me) i"
    by (auto simp: boot_home_def)
  with memory_okD(3) [OF ok] True show ?thesis
    by (simp add: released_def)
next
  case False
  then obtain i r frame where r: "live_region (me_plugged me) i r" "frame \<in> region_online r" "phys = region_frame r frame"
    using home by (auto simp: home_def frames_with_def)
  have "region_contains r phys"
    using region_frame_inside region_online_inside r by simp
  then have "owner phys (me_plugged me) \<noteq> None"
    using r(1) unfolding owner_None by blast
  moreover have "phys mod PAGE_SIZE = 0"
    using hotplug_ok_region [OF memory_okD(2) [OF ok] r(1)] by (simp add: r(3) region_frame_def region_ok_def)
  moreover have "phys \<in> hot_online (me_plugged me)"
    using home False by (simp add: home_def)
  ultimately show ?thesis
    by (auto simp: released_def frame_base_def)
qed

lemma free_pages_spec:
  assumes "memory_ok me" "set frames \<subseteq> home me" "set frames \<inter> all_free me = {}" "distinct frames"
  shows "settled me (all_free me \<union> set frames) (free_pages frames me)"
  using assms
proof (induction frames arbitrary: me)
  case Nil
  then show ?case
    by (simp add: free_pages_def settled_refl)
next
  case (Cons phys frames)
  have rel: "released me phys = {phys}"
    using released_home [OF Cons.prems(1)] Cons.prems(2) by simp
  have first: "settled me (all_free me \<union> {phys}) (deallocate phys me)"
    using deallocate_spec [OF Cons.prems(1), of phys] rel by simp
  have rest: "settled (deallocate phys me) (all_free (deallocate phys me) \<union> set frames) (free_pages frames (deallocate phys me))"
  proof (rule Cons.IH)
    show "memory_ok (deallocate phys me)"
      by (rule settled_ok [OF first])
    show "set frames \<subseteq> home (deallocate phys me)" "set frames \<inter> all_free (deallocate phys me) = {}" "distinct frames"
      using first Cons.prems by (auto simp: settled_def)
  qed
  have "all_free (deallocate phys me) \<union> set frames = all_free me \<union> set (phys # frames)"
    using first by (simp add: settled_def)
  with settled_compose [OF first rest] show ?case
    by (simp add: free_pages_def)
qed

text \<open>
  The contract of a source of single frames: what it hands out was free and is then out, it leaves
  everything else, and it fails only when the frames it may serve are used up.
\<close>

locale frame_source =
  fixes alloc :: "memory \<Rightarrow> nat option \<times> memory" and serves_from :: "memory \<Rightarrow> nat set"
  assumes alloc_exact: "memory_ok me \<Longrightarrow> alloc me = (got, me') \<Longrightarrow>
      settled me (all_free me - set_option got) me' \<and> set_option got \<subseteq> serves_from me"
    and serves_free: "memory_ok me \<Longrightarrow> serves_from me \<subseteq> all_free me"
    and starves: "memory_ok me \<Longrightarrow> alloc me = (None, me') \<Longrightarrow> serves_from me = {}"
    and serves_rest: "memory_ok me \<Longrightarrow> alloc me = (Some phys, me') \<Longrightarrow> serves_from me' = serves_from me - {phys}"
begin

lemma take_pages_spec:
  assumes "memory_ok me" "take_pages alloc n frames me = (got, me')" "distinct frames" "set frames \<subseteq> home me - all_free me"
  shows "case got of
      Some out \<Rightarrow> \<exists>new. out = frames @ new \<and> length new = n \<and> distinct out \<and> set new \<subseteq> serves_from me \<and>
        settled me (all_free me - set new) me'
    | None \<Rightarrow> settled me (all_free me \<union> set frames) me' \<and> finite (serves_from me) \<and> card (serves_from me) < n"
  using assms
proof (induction n arbitrary: frames me)
  case 0
  then show ?case
    by (auto intro: settled_refl)
next
  case (Suc n)
  obtain q me1 where step: "alloc me = (q, me1)"
    by fastforce
  note one = alloc_exact [OF Suc.prems(1) step]
  show ?case
  proof (cases q)
    case None
    then have same: "settled me (all_free me) me1"
      using one by simp
    have "got = None" "me' = free_pages frames me1"
      using Suc.prems(2) step None by simp_all
    moreover have "settled me1 (all_free me1 \<union> set frames) (free_pages frames me1)"
      using free_pages_spec [of me1 frames] same Suc.prems(3,4) by (auto simp: settled_def)
    moreover have "all_free me1 = all_free me"
      using same by (simp add: settled_def)
    ultimately show ?thesis
      using settled_compose [OF same] starves [OF Suc.prems(1) step [unfolded None]] by simp
  next
    case (Some phys)
    have after: "settled me (all_free me - {phys}) me1" "phys \<in> serves_from me" "serves_from me1 = serves_from me - {phys}"
      using one serves_rest [OF Suc.prems(1)] step Some by auto
    have in_free: "phys \<in> all_free me"
      using serves_free [OF Suc.prems(1)] after(2) by blast
    have ok1: "memory_ok me1"
      by (rule settled_ok [OF after(1)])
    have dist: "distinct (frames @ [phys])"
      using Suc.prems(3,4) in_free by auto
    have owned: "set (frames @ [phys]) \<subseteq> home me1 - all_free me1"
      using Suc.prems(4) all_free_home [OF Suc.prems(1)] in_free after(1) by (auto simp: settled_def)
    have walk: "take_pages alloc n (frames @ [phys]) me1 = (got, me')"
      using Suc.prems(2) step Some by simp
    note IH = Suc.IH [OF ok1 walk dist owned]
    show ?thesis
    proof (cases got)
      case None
      have "settled me1 (all_free me1 \<union> set (frames @ [phys])) me'" "finite (serves_from me1)" "card (serves_from me1) < n"
        using IH None by simp_all
      moreover have "all_free me1 \<union> set (frames @ [phys]) = all_free me \<union> set frames"
        using after(1) in_free by (auto simp: settled_def)
      ultimately show ?thesis
        using settled_compose [OF after(1)] None after(2,3) by (auto simp: card_Diff_singleton_if)
    next
      case (Some out)
      then obtain new where new: "out = (frames @ [phys]) @ new" "length new = n" "distinct out" "set new \<subseteq> serves_from me1"
          "settled me1 (all_free me1 - set new) me'"
        using IH by auto
      have "all_free me1 - set new = all_free me - set (phys # new)"
        using after(1) by (auto simp: settled_def)
      then have "settled me (all_free me - set (phys # new)) me'"
        using settled_compose [OF after(1) new(5)] by simp
      with new after Some show ?thesis
        by (auto intro!: exI [of _ "phys # new"])
    qed
  qed
qed

lemma allocate_pages_with_spec:
  assumes ok: "memory_ok me" and alloc: "allocate_pages_with reserved n alloc me = (got, me')"
  shows "case got of
      Some out \<Rightarrow> length out = n \<and> sorted out \<and> distinct out \<and> set out \<subseteq> serves_from me \<and> settled me (all_free me - set out) me'
    | None \<Rightarrow> settled me (all_free me) me' \<and> (\<not> reserved \<or> card (serves_from me) < n)"
proof (cases reserved)
  case True
  obtain q where walk: "take_pages alloc n [] me = (q, me')" "got = map_option sort q"
    using alloc True by (auto simp: allocate_pages_with_def split: prod.splits)
  show ?thesis
    using take_pages_spec [OF ok walk(1)] unfolding walk(2) by (cases q) auto
next
  case False
  with alloc ok show ?thesis
    by (auto simp: allocate_pages_with_def settled_refl)
qed

end

interpretation boot: frame_source "allocate want" "\<lambda>me. frames_free (me_frames me)" for want
proof
  fix me got me'
  assume "memory_ok me" "allocate want me = (got, me')"
  from allocate_spec [OF this]
  show "settled me (all_free me - set_option got) me' \<and> set_option got \<subseteq> frames_free (me_frames me)"
    by blast
next
  fix me
  show "frames_free (me_frames me) \<subseteq> all_free me"
    by (simp add: all_free_def)
next
  fix me me'
  assume "memory_ok me" "allocate want me = (None, me')"
  from allocate_spec [OF this] show "frames_free (me_frames me) = {}"
    by blast
next
  fix me phys me'
  assume "memory_ok me" "allocate want me = (Some phys, me')"
  from allocate_spec [OF this] show "frames_free (me_frames me') = frames_free (me_frames me) - {phys}"
    by simp
qed

lemma allocate_movable_spec:
  assumes ok: "memory_ok me" and take: "allocate_movable want me = (got, me')"
  shows "settled me (all_free me - set_option got) me' \<and> set_option got \<subseteq> all_free me \<and> (got = None \<longrightarrow> all_free me = {})"
proof (cases "kernel_reserve (fa_total_count (me_frames me)) < fa_free_count (me_frames me)")
  case True
  obtain q me1 where first: "allocate want me = (q, me1)"
    by fastforce
  note one = allocate_spec [OF ok first]
  show ?thesis
  proof (cases q)
    case None
    then have "plugged_take me1 = (got, me')"
      using take first True by (simp add: allocate_movable_def boot_totals_def or_else_def)
    from plugged_take_spec [OF settled_ok [OF conjunct1 [OF one]] this] show ?thesis
      using one None by (auto simp: settled_def all_free_def)
  next
    case (Some phys)
    then have "got = q" "me' = me1"
      using take first True by (simp_all add: allocate_movable_def boot_totals_def or_else_def)
    then show ?thesis
      using one Some by (auto simp: all_free_def)
  qed
next
  case False
  obtain q me1 where first: "plugged_take me = (q, me1)"
    by fastforce
  note one = plugged_take_spec [OF ok first]
  show ?thesis
  proof (cases q)
    case None
    then have "allocate want me1 = (got, me')"
      using take first False by (simp add: allocate_movable_def boot_totals_def or_else_def)
    from allocate_spec [OF settled_ok [OF conjunct1 [OF one]] this] show ?thesis
      using one None by (auto simp: settled_def all_free_def)
  next
    case (Some phys)
    then have "got = q" "me' = me1"
      using take first False by (simp_all add: allocate_movable_def boot_totals_def or_else_def)
    then show ?thesis
      using one Some by (auto simp: all_free_def)
  qed
qed

interpretation movable: frame_source "allocate_movable want" all_free for want
proof
  fix me got me'
  assume "memory_ok me" "allocate_movable want me = (got, me')"
  from allocate_movable_spec [OF this]
  show "settled me (all_free me - set_option got) me' \<and> set_option got \<subseteq> all_free me"
    by blast
next
  fix me me'
  assume "memory_ok me" "allocate_movable want me = (None, me')"
  from allocate_movable_spec [OF this] show "all_free me = {}"
    by blast
next
  fix me phys me'
  assume "memory_ok me" "allocate_movable want me = (Some phys, me')"
  from allocate_movable_spec [OF this] show "all_free me' = all_free me - {phys}"
    by (simp add: settled_def)
qed simp

end
