(* ===== verification/Memory_Retire.thy ===== *)
theory Memory_Retire
  imports Memory_Ops "HOL-Library.Multiset"
begin

text \<open>
  The retirement of frames that were mapped. Every path through \<^verbatim>\<open>retire\<close> and the drain of the quarantine
  is described by one relation, \<open>did\<close>: the events it adds to the log, the frames it still owes
  afterwards, and that no release comes before a completed shootdown. The relation composes, so each
  branch of the code is a chain of its steps.
\<close>

section \<open>What a log says\<close>

fun released_of :: "mem_event list \<Rightarrow> nat list" where
  "released_of [] = []"
| "released_of (Released phys # l) = phys # released_of l"
| "released_of (Shootdown _ # l) = released_of l"
| "released_of (Retired _ # l) = released_of l"

fun retired_of :: "mem_event list \<Rightarrow> nat list" where
  "retired_of [] = []"
| "retired_of (Retired phys # l) = phys # retired_of l"
| "retired_of (Shootdown _ # l) = retired_of l"
| "retired_of (Released _ # l) = retired_of l"

text \<open>No release before a completed shootdown; \<open>seen\<close> says whether one has completed already.\<close>

fun shot_first :: "bool \<Rightarrow> mem_event list \<Rightarrow> bool" where
  "shot_first seen [] \<longleftrightarrow> True"
| "shot_first seen (Shootdown b # l) \<longleftrightarrow> shot_first (seen \<or> b) l"
| "shot_first seen (Released _ # l) \<longleftrightarrow> seen \<and> shot_first seen l"
| "shot_first seen (Retired _ # l) \<longleftrightarrow> shot_first seen l"

lemma released_of_append [simp]: "released_of (l @ l') = released_of l @ released_of l'"
  by (induction l rule: released_of.induct) simp_all

lemma retired_of_append [simp]: "retired_of (l @ l') = retired_of l @ retired_of l'"
  by (induction l rule: retired_of.induct) simp_all

lemma shot_first_append: "shot_first seen (l @ l') \<longleftrightarrow> shot_first seen l \<and> shot_first (seen \<or> Shootdown True \<in> set l) l'"
  by (induction seen l rule: shot_first.induct) auto

lemma shot_first_mono: "shot_first False l \<Longrightarrow> shot_first seen l"
proof -
  have "shot_first s l \<Longrightarrow> s \<longrightarrow> t \<Longrightarrow> shot_first t l" for s t
    by (induction s l arbitrary: t rule: shot_first.induct) auto
  then show "shot_first False l \<Longrightarrow> shot_first seen l"
    by blast
qed

lemma shot_first_split: "shot_first False (l @ Released phys # l') \<Longrightarrow> Shootdown True \<in> set l"
  by (simp add: shot_first_append)

section \<open>Steps of a retirement\<close>

text \<open>The frames in \<open>M\<close> are out: each once, none free, all with a place to go back to.\<close>

definition owed :: "memory \<Rightarrow> nat multiset \<Rightarrow> bool" where
  "owed me M \<longleftrightarrow> memory_ok me \<and> (\<forall>phys. count M phys \<le> 1) \<and> set_mset M \<subseteq> home me - all_free me"

definition did :: "bool \<Rightarrow> memory \<Rightarrow> nat multiset \<Rightarrow> memory \<Rightarrow> nat multiset \<Rightarrow> mem_event list \<Rightarrow> bool" where
  "did seen me M me' M' L \<longleftrightarrow> me_log me' = me_log me @ L \<and> shot_first seen L \<and>
     M = M' + mset (released_of L) + mset (retired_of L) \<and>
     (owed me M \<longrightarrow> owed me' M' \<and> all_free me' = all_free me \<union> set (released_of L) \<and> home me' = home me \<and>
       fa_double_allocations (me_frames me') = fa_double_allocations (me_frames me))"

lemma did_refl: "did seen me M me M []"
  by (simp add: did_def)

lemma did_trans:
  assumes "did seen me M me1 M1 L1" "did (seen \<or> Shootdown True \<in> set L1) me1 M1 me2 M2 L2"
  shows "did seen me M me2 M2 (L1 @ L2)"
  using assms unfolding did_def by (auto simp: shot_first_append ac_simps)

lemma did_mono: "did False me M me' M' L \<Longrightarrow> did seen me M me' M' L"
  using shot_first_mono by (auto simp: did_def)

text \<open>Frames that take no part stay out.\<close>

lemma did_frame:
  assumes did: "did seen me M me' M' L"
  shows "did seen me (M + N) me' (M' + N) L"
proof -
  have "owed me' (M' + N)" if owed: "owed me (M + N)" and step: "owed me M \<Longrightarrow> owed me' M' \<and> all_free me' = all_free me \<union> set (released_of L) \<and> home me' = home me"
  proof -
    have parts: "M + N = (M' + N) + (mset (released_of L) + mset (retired_of L))"
      using did by (simp add: did_def ac_simps)
    have once: "count (M + N) phys \<le> 1" "count (M + N) phys = count (M' + N) phys + (count (mset (released_of L)) phys + count (mset (retired_of L)) phys)" for phys
      using owed parts unfolding owed_def by (simp_all only: count_union)
    have "owed me M"
      using owed unfolding owed_def by (auto intro: le_trans [OF le_add1])
    note after = step [OF this]
    have "count (M' + N) phys \<le> 1" for phys
      using once [of phys] by linarith
    moreover have "phys \<in> home me' - all_free me'" if "phys \<in># M' + N" for phys
    proof -
      have "0 < count (M' + N) phys"
        using that by simp
      then have "count (mset (released_of L)) phys = 0"
        using once [of phys] by linarith
      moreover have "phys \<in># M + N"
        using that unfolding parts by simp
      ultimately show ?thesis
        using after owed unfolding owed_def by (auto simp: count_eq_zero_iff)
    qed
    ultimately show ?thesis
      using after unfolding owed_def by blast
  qed
  moreover have "owed me M" if "owed me (M + N)"
    using that unfolding owed_def by (auto intro: le_trans [OF le_add1])
  ultimately show ?thesis
    using did unfolding did_def by (simp add: ac_simps)
qed

lemma memory_parts [simp]:
  "memory_ok (me\<lparr>me_quarantine := q\<rparr>) = memory_ok me" "home (me\<lparr>me_quarantine := q\<rparr>) = home me"
  "all_free (me\<lparr>me_quarantine := q\<rparr>) = all_free me"
  "memory_ok (me\<lparr>me_shots := n\<rparr>) = memory_ok me" "home (me\<lparr>me_shots := n\<rparr>) = home me"
  "all_free (me\<lparr>me_shots := n\<rparr>) = all_free me" "home (me\<lparr>me_log := l\<rparr>) = home me"
  by (simp_all add: memory_ok_def home_def boot_home_def all_free_def)

lemma did_queue: "did seen me M (me\<lparr>me_quarantine := q\<rparr>) M []"
  by (simp add: did_def owed_def)

lemma did_shootdown: "shootdown answers me = (b, me') \<Longrightarrow> did seen me M me' M [Shootdown b]"
  by (auto simp: did_def shootdown_def Let_def owed_def)

lemma deallocate_log [simp]: "me_log (deallocate phys me) = me_log me @ [Released phys]"
  by (simp add: deallocate_def Let_def split: prod.split bool.split)

lemma did_release: "did True me (add_mset phys M) (deallocate phys me) M [Released phys]"
proof -
  have "owed (deallocate phys me) M \<and> all_free (deallocate phys me) = insert phys (all_free me) \<and> home (deallocate phys me) = home me \<and>
      fa_double_allocations (me_frames (deallocate phys me)) = fa_double_allocations (me_frames me)"
    if owed: "owed me (add_mset phys M)"
  proof -
    have ok: "memory_ok me" "phys \<in> home me" "phys \<notin> all_free me" "set_mset M \<subseteq> home me - all_free me"
      using owed by (auto simp: owed_def)
    have once: "count M q \<le> 1" for q
      using owed unfolding owed_def by (metis count_add_mset le_SucI Suc_le_mono order.trans nle_le)
    have "count (add_mset phys M) phys \<le> 1"
      using owed by (simp only: owed_def)
    then have out: "phys \<notin># M"
      by (simp add: count_eq_zero_iff)
    have "settled me (insert phys (all_free me)) (deallocate phys me)"
      using deallocate_spec [OF ok(1), of phys] released_home [OF ok(1,2)] by simp
    then show ?thesis
      using ok(4) once out by (auto simp: owed_def settled_def)
  qed
  then show ?thesis
    by (simp add: did_def)
qed

lemma retired_settled:
  assumes ok: "memory_ok me" and phys: "phys \<in> home me" "phys \<notin> all_free me"
  shows "settled me (all_free me) (note_retired_pages phys 1 me)"
proof -
  note P = memory_okD [OF ok]
  let ?fa = "(me_frames me)\<lparr>fa_retired_pages := fa_retired_pages (me_frames me) + 1, fa_lost_pages := fa_lost_pages (me_frames me) + 1\<rparr>"
  have aligned: "phys mod PAGE_SIZE = 0"
  proof (cases "phys \<in> boot_home me")
    case True
    with frames_ok_parts(6) [OF P(1)] show ?thesis
      by (auto simp: boot_home_def record_frame_def record_ok_def)
  next
    case False
    then obtain i r frame where "live_region (me_plugged me) i r" "phys = region_frame r frame"
      using phys(1) by (auto simp: home_def frames_with_def)
    with hotplug_ok_region [OF P(2)] show ?thesis
      by (auto simp: region_frame_def region_ok_def)
  qed
  have "record_ok (frames_free (me_frames me)) ?fa"
    using frames_ok_parts(6) [OF P(1)] record_ok_fields [of ?fa "me_frames me"] by simp
  from record_ok_mark [OF this aligned, of True 1]
  have rec: "record_ok (frames_free (me_frames me)) (mark_owned phys 1 True ?fa)"
    using phys(2) by (simp add: all_free_def)
  have "record_index (mark_owned phys 1 True ?fa) = record_index (me_frames me)"
    by (rule record_index_fields) simp_all
  then have "frames_ok (me_topology me) (mark_owned phys 1 True ?fa)"
    using frames_ok_parts [OF P(1)] rec unfolding frames_ok_def by simp
  then have "moved (me_topology me) (me_frames me) (frames_free (me_frames me)) (mark_owned phys 1 True ?fa)"
    by (simp add: moved_def)
  from frames_moved_settled [OF ok this] show ?thesis
    by (simp add: note_retired_pages_def Let_def settled_def all_free_def)
qed

lemma note_retired_log [simp]: "me_log (note_retired_pages phys n me) = me_log me @ [Retired phys]"
  "me_quarantine (note_retired_pages phys n me) = me_quarantine me"
  by (simp_all add: note_retired_pages_def Let_def)

lemma did_retire: "did seen me (add_mset phys M) (note_retired_pages phys 1 me) M [Retired phys]"
proof -
  have "owed (note_retired_pages phys 1 me) M \<and> all_free (note_retired_pages phys 1 me) = all_free me \<and>
      home (note_retired_pages phys 1 me) = home me \<and>
      fa_double_allocations (me_frames (note_retired_pages phys 1 me)) = fa_double_allocations (me_frames me)" if owed: "owed me (add_mset phys M)"
  proof -
    have ok: "memory_ok me" "phys \<in> home me" "phys \<notin> all_free me" "set_mset M \<subseteq> home me - all_free me"
      using owed by (auto simp: owed_def)
    have "count M q \<le> 1" for q
      using owed unfolding owed_def by (metis count_add_mset le_SucI Suc_le_mono order.trans nle_le)
    then show ?thesis
      using ok(4) retired_settled [OF ok(1-3)] by (auto simp: owed_def settled_def)
  qed
  then show ?thesis
    by (simp add: did_def)
qed

lemma did_releases: "did True me (mset frames + M) (fold deallocate frames me) M (map Released frames)"
proof (induction frames arbitrary: me)
  case Nil
  then show ?case
    by (simp add: did_refl)
next
  case (Cons phys frames)
  have "did True me (mset (phys # frames) + M) (deallocate phys me) (mset frames + M) [Released phys]"
    using did_release [of me phys "mset frames + M"] by simp
  moreover have "did (True \<or> Shootdown True \<in> set [Released phys]) (deallocate phys me) (mset frames + M)
      (fold deallocate frames (deallocate phys me)) M (map Released frames)"
    using Cons.IH by simp
  ultimately show ?case
    using did_trans by fastforce
qed

lemma did_retires: "did seen me (mset frames + M) (fold (\<lambda>phys. note_retired_pages phys 1) frames me) M (map Retired frames)"
proof (induction frames arbitrary: me seen)
  case Nil
  then show ?case
    by (simp add: did_refl)
next
  case (Cons phys frames)
  have "did seen me (mset (phys # frames) + M) (note_retired_pages phys 1 me) (mset frames + M) [Retired phys]"
    using did_retire [of seen me phys "mset frames + M"] by simp
  from did_trans [OF this Cons.IH] show ?case
    by simp
qed

lemma fold_deallocate_quarantine [simp]: "me_quarantine (fold deallocate frames me) = me_quarantine me"
  using free_pages_quarantine [of frames me] by (simp add: free_pages_def)

lemma fold_retired_quarantine [simp]: "me_quarantine (fold (\<lambda>phys. note_retired_pages phys n) frames me) = me_quarantine me"
  by (induction frames arbitrary: me) simp_all

section \<open>The drain\<close>

lemma take_into_parts: "take_into out q = (batch, q') \<Longrightarrow> q = q' @ batch"
  by (auto simp: take_into_def Let_def)

lemma take_into_empty: "0 < out \<Longrightarrow> take_into out q = ([], q') \<Longrightarrow> q = []"
  by (cases q) (auto simp: take_into_def Let_def)

lemma drain_loop_did:
  "me_quarantine (drain_loop me) = [] \<and>
   (\<exists>order. mset order = mset (me_quarantine me) \<and>
      did True me (mset (me_quarantine me) + M) (drain_loop me) M (map Released order))"
proof (induction me rule: drain_loop.induct)
  case (1 me)
  obtain batch q where into: "take_into 64 (me_quarantine me) = (batch, q)"
    by fastforce
  show ?case
  proof (cases "batch = []")
    case True
    then have "me_quarantine me = []" "drain_loop me = me"
      using into take_into_empty [of 64] drain_loop.simps [of me] by auto
    then show ?thesis
      by (auto simp: did_refl intro!: exI [of _ "[]"])
  next
    case False
    let ?me = "me\<lparr>me_quarantine := q\<rparr>"
    let ?next = "free_pages batch ?me"
    have step: "drain_loop me = drain_loop ?next"
      using into False drain_loop.simps [of me] by simp
    have q: "me_quarantine ?next = q" "me_quarantine me = q @ batch"
      using take_into_parts [OF into] by simp_all
    obtain order where order: "mset order = mset q" "did True ?next (mset q + M) (drain_loop ?next) M (map Released order)"
      and empty: "me_quarantine (drain_loop ?next) = []"
      using "1.IH" [OF into [symmetric] False] unfolding q(1) by blast
    have "did True me (mset batch + (mset q + M)) ?me (mset batch + (mset q + M)) []"
      by (rule did_queue)
    moreover have "did True ?me (mset batch + (mset q + M)) ?next (mset q + M) (map Released batch)"
      unfolding free_pages_def by (rule did_releases)
    ultimately have "did True me (mset batch + (mset q + M)) ?next (mset q + M) ([] @ map Released batch)"
      using did_trans by fastforce
    from did_trans [OF this] order(2)
    have "did True me (mset batch + (mset q + M)) (drain_loop ?next) M (map Released (batch @ order))"
      by fastforce
    moreover have "mset batch + (mset q + M) = mset (me_quarantine me) + M" "mset (batch @ order) = mset (me_quarantine me)"
      using q(2) order(1) by (simp_all add: ac_simps)
    ultimately show ?thesis
      unfolding step using empty by metis
  qed
qed

lemma drain_quarantine_did:
  "\<exists>L. did False me (mset (me_quarantine me) + M) (drain_quarantine answers me) (mset (me_quarantine (drain_quarantine answers me)) + M) L"
proof (cases "me_quarantine me = []")
  case True
  then show ?thesis
    using did_refl by (auto simp: drain_quarantine_def)
next
  case False
  obtain b me1 where shot: "shootdown answers me = (b, me1)"
    by fastforce
  have q: "me_quarantine me1 = me_quarantine me"
    using shot by (auto simp: shootdown_def Let_def)
  note first = did_shootdown [OF shot, of False "mset (me_quarantine me) + M"]
  show ?thesis
  proof (cases b)
    case False
    then have "drain_quarantine answers me = me1"
      using shot \<open>me_quarantine me \<noteq> []\<close> by (simp add: drain_quarantine_def)
    with first q show ?thesis
      by auto
  next
    case True
    then have res: "drain_quarantine answers me = drain_loop me1"
      using shot \<open>me_quarantine me \<noteq> []\<close> by (simp add: drain_quarantine_def)
    obtain order where "did True me1 (mset (me_quarantine me) + M) (drain_loop me1) M (map Released order)"
      and empty: "me_quarantine (drain_loop me1) = []"
      using drain_loop_did [of me1 M] unfolding q by blast
    with did_trans [OF first] True have "did False me (mset (me_quarantine me) + M) (drain_loop me1) M ([Shootdown b] @ map Released order)"
      by simp
    then show ?thesis
      unfolding res empty by auto
  qed
qed

section \<open>Retirement\<close>

lemma push_parts: "push phys q = (b, q') \<Longrightarrow> if b then mset q' = add_mset phys (mset q) else q' = q"
  by (auto simp: push_def split: if_splits)

lemma retire_one_did:
  assumes one: "retire_one answers phys (unqueued, me) = (unqueued', me')"
  shows "\<exists>L. did False me (add_mset phys (mset unqueued + mset (me_quarantine me) + M)) me' (mset unqueued' + mset (me_quarantine me') + M) L"
proof -
  obtain b q where push: "push phys (me_quarantine me) = (b, q)"
    by fastforce
  show ?thesis
  proof (cases b)
    case True
    then have "unqueued' = unqueued" "me' = me\<lparr>me_quarantine := q\<rparr>"
      using one push by (simp_all add: retire_one_def)
    moreover have "mset q = add_mset phys (mset (me_quarantine me))"
      using push_parts [OF push] True by simp
    ultimately show ?thesis
      using did_queue [of False me "add_mset phys (mset unqueued + mset (me_quarantine me) + M)" q] by auto
  next
    case False
    let ?me1 = "drain_quarantine answers me"
    obtain L where L: "did False me (mset (me_quarantine me) + add_mset phys (mset unqueued + M)) ?me1
        (mset (me_quarantine ?me1) + add_mset phys (mset unqueued + M)) L"
      using drain_quarantine_did by blast
    have ms: "mset (me_quarantine me) + add_mset phys (mset unqueued + M) = add_mset phys (mset unqueued + mset (me_quarantine me) + M)"
      by (simp add: ac_simps)
    note L = L [unfolded ms]
    let ?M1 = "mset (me_quarantine ?me1) + add_mset phys (mset unqueued + M)"
    have join: "\<exists>L. did False me (add_mset phys (mset unqueued + mset (me_quarantine me) + M)) me' M' L"
      if "did False ?me1 ?M1 me' M' L'" for M' L'
      using did_trans [OF L did_mono [OF that]] by blast
    obtain b1 q1 where push1: "push phys (me_quarantine ?me1) = (b1, q1)"
      by fastforce
    show ?thesis
    proof (cases b1)
      case True
      then have "unqueued' = unqueued" "me' = ?me1\<lparr>me_quarantine := q1\<rparr>"
        using one push push1 \<open>\<not> b\<close> by (simp_all add: retire_one_def)
      moreover have "mset q1 = add_mset phys (mset (me_quarantine ?me1))"
        using push_parts [OF push1] True by simp
      ultimately show ?thesis
        using join [of "?M1" "[]"] did_queue [of False ?me1 ?M1 q1] by (simp add: ac_simps)
    next
      case full: False
      show ?thesis
      proof (cases "length unqueued < 8")
        case True
        then have "unqueued' = unqueued @ [phys]" "me' = ?me1"
          using one push push1 \<open>\<not> b\<close> full by (simp_all add: retire_one_def)
        then show ?thesis
          using join [of "?M1" "[]"] did_refl [of False ?me1 ?M1] by (simp add: ac_simps)
      next
        case False
        obtain b2 me2 where shot: "shootdown answers ?me1 = (b2, me2)"
          by fastforce
        have q2: "me_quarantine me2 = me_quarantine ?me1"
          using shot by (auto simp: shootdown_def Let_def)
        let ?rest = "mset unqueued + mset (me_quarantine ?me1) + M"
        have M1: "?M1 = add_mset phys ?rest"
          by (simp add: ac_simps)
        note first = did_shootdown [OF shot, of False ?M1]
        show ?thesis
        proof (cases b2)
          case True
          then have res: "unqueued' = unqueued" "me' = deallocate phys me2"
            using one push push1 \<open>\<not> b\<close> full False shot by (simp_all add: retire_one_def)
          have "did False ?me1 ?M1 me' ?rest ([Shootdown b2] @ [Released phys])"
            using did_trans [OF first, of me' ?rest "[Released phys]"] did_release [of me2 phys ?rest] True res(2) unfolding M1 by simp
          from join [OF this] show ?thesis
            by (simp add: res q2)
        next
          case no: False
          then have res: "unqueued' = unqueued" "me' = note_retired_pages phys 1 me2"
            using one push push1 \<open>\<not> b\<close> full False shot by (simp_all add: retire_one_def)
          have "did False ?me1 ?M1 me' ?rest ([Shootdown b2] @ [Retired phys])"
            using did_trans [OF first, of me' ?rest "[Retired phys]"] did_retire [of _ me2 phys ?rest] res(2) unfolding M1 by simp
          from join [OF this] show ?thesis
            by (simp add: res q2)
        qed
      qed
    qed
  qed
qed

lemma retire_fold_did:
  assumes "fold (retire_one answers) frames (unqueued, me) = (unqueued', me')"
  shows "\<exists>L. did False me (mset frames + (mset unqueued + mset (me_quarantine me))) me' (mset unqueued' + mset (me_quarantine me')) L"
  using assms
proof (induction frames arbitrary: unqueued me)
  case Nil
  then show ?case
    using did_refl by auto
next
  case (Cons phys frames)
  obtain u1 me1 where step: "retire_one answers phys (unqueued, me) = (u1, me1)"
    by fastforce
  obtain L1 where L1: "did False me (add_mset phys (mset unqueued + mset (me_quarantine me) + mset frames)) me1
      (mset u1 + mset (me_quarantine me1) + mset frames) L1"
    using retire_one_did [OF step] by blast
  obtain L2 where L2: "did False me1 (mset frames + (mset u1 + mset (me_quarantine me1))) me' (mset unqueued' + mset (me_quarantine me')) L2"
    using Cons.IH [of u1 me1] Cons.prems step by auto
  have "mset u1 + mset (me_quarantine me1) + mset frames = mset frames + (mset u1 + mset (me_quarantine me1))"
    "add_mset phys (mset unqueued + mset (me_quarantine me) + mset frames) = mset (phys # frames) + (mset unqueued + mset (me_quarantine me))"
    by (simp_all add: ac_simps)
  with did_trans [OF L1 did_mono, of me'] L2 show ?case
    by metis
qed

lemma retire_did: "\<exists>L. did False me (mset frames + mset (me_quarantine me)) (retire answers frames me) (mset (me_quarantine (retire answers frames me))) L"
proof (cases "frames = []")
  case True
  then show ?thesis
    using did_refl by (auto simp: retire_def)
next
  case False
  define probe where "probe = (if QUARANTINE_CAPACITY < length frames then shootdown answers me else (False, me))"
  obtain b me1 where start: "probe = (b, me1)"
    by fastforce
  let ?M = "mset frames + mset (me_quarantine me)"
  have q1: "me_quarantine me1 = me_quarantine me"
    using start by (auto simp: probe_def shootdown_def Let_def split: if_splits)
  obtain L1 where L1: "did False me ?M me1 ?M L1" "b \<Longrightarrow> Shootdown True \<in> set L1"
  proof (cases "QUARANTINE_CAPACITY < length frames")
    case True
    then have "shootdown answers me = (b, me1)"
      using start by (simp add: probe_def)
    from did_shootdown [OF this, of False ?M] that show ?thesis
      by simp
  next
    case False
    then have "me1 = me" "\<not> b"
      using start by (simp_all add: probe_def)
    then show ?thesis
      using that did_refl by blast
  qed
  have go: "retire answers frames me = (case (b, me1) of
      (True, me1) \<Rightarrow> fold deallocate frames me1
    | (False, me1) \<Rightarrow>
        (case fold (retire_one answers) frames ([], me1) of
           (unqueued, me2) \<Rightarrow>
             (let drain = (QUARANTINE_DRAIN \<le> length (me_quarantine me2)) in
              if unqueued \<noteq> [] then
                (case shootdown answers me2 of
                   (True, me3) \<Rightarrow> drain_quarantine answers (fold deallocate unqueued me3)
                 | (False, me3) \<Rightarrow>
                     (let me4 = fold (\<lambda>phys. note_retired_pages phys 1) unqueued me3 in
                      if drain then drain_quarantine answers me4 else me4))
              else if drain then drain_quarantine answers me2 else me2)))"
    unfolding retire_def start [symmetric] probe_def using False by simp
  show ?thesis
  proof (cases b)
    case True
    have "did True me1 ?M (fold deallocate frames me1) (mset (me_quarantine me)) (map Released frames)"
      by (rule did_releases)
    with did_trans [OF L1(1)] L1(2) [OF True] True go q1 show ?thesis
      by fastforce
  next
    case False
    obtain unqueued me2 where walk: "fold (retire_one answers) frames ([], me1) = (unqueued, me2)"
      by fastforce
    obtain L2 where L2: "did False me1 ?M me2 (mset unqueued + mset (me_quarantine me2)) L2"
      using retire_fold_did [OF walk] q1 by auto
    let ?M2 = "mset unqueued + mset (me_quarantine me2)"
    have drained: "\<exists>L. did False me3 (mset (me_quarantine me3)) (if c then drain_quarantine answers me3 else me3)
        (mset (me_quarantine (if c then drain_quarantine answers me3 else me3))) L" for me3 c
      using drain_quarantine_did [of me3 "{#}" answers] did_refl [of False me3] by auto
    have join: "\<exists>L. did False me ?M me4 M4 L" if "did False me2 ?M2 me4 M4 L4" for me4 M4 L4
      using did_trans [OF did_trans [OF L1(1) did_mono [OF L2]] did_mono [OF that]] by blast
    show ?thesis
    proof (cases "unqueued = []")
      case True
      let ?c = "QUARANTINE_DRAIN \<le> length (me_quarantine me2)"
      have "retire answers frames me = (if ?c then drain_quarantine answers me2 else me2)"
        using go False walk True by (simp add: Let_def)
      then show ?thesis
        using drained [of me2 ?c] join True by auto
    next
      case some: False
      obtain b3 me3 where shot: "shootdown answers me2 = (b3, me3)"
        by fastforce
      have q3: "me_quarantine me3 = me_quarantine me2"
        using shot by (auto simp: shootdown_def Let_def)
      note first = did_shootdown [OF shot, of False ?M2]
      let ?me4 = "if b3 then fold deallocate unqueued me3 else fold (\<lambda>phys. note_retired_pages phys 1) unqueued me3"
      let ?c = "b3 \<or> QUARANTINE_DRAIN \<le> length (me_quarantine me2)"
      have "did (False \<or> Shootdown True \<in> set [Shootdown b3]) me3 ?M2 ?me4 (mset (me_quarantine me2))
          (if b3 then map Released unqueued else map Retired unqueued)"
        using did_releases [of me3 unqueued "mset (me_quarantine me2)"] did_retires [of _ me3 unqueued "mset (me_quarantine me2)"] by simp
      note second = did_trans [OF first this]
      have q4: "me_quarantine ?me4 = me_quarantine me2"
        by (simp add: q3)
      obtain L5 where "did False ?me4 (mset (me_quarantine me2)) (if ?c then drain_quarantine answers ?me4 else ?me4)
          (mset (me_quarantine (if ?c then drain_quarantine answers ?me4 else ?me4))) L5"
        using drained [of ?me4 ?c] unfolding q4 by blast
      note join [OF did_trans [OF second did_mono [OF this]]]
      moreover have "retire answers frames me = (if ?c then drain_quarantine answers ?me4 else ?me4)"
        using go False walk some shot by (cases b3) (simp_all add: Let_def)
      ultimately show ?thesis
        by simp
    qed
  qed
qed

end
