(* ===== verification/Memory_Properties.thy ===== *)
theory Memory_Properties
  imports Memory_Retire Frame_Properties
begin

text \<open>
  What the frame services promise together: a frame has one owner at a time over any run of
  allocations, releases and retirements, a set of frames is handed out whole or not at all, and a
  mapped frame is released only after a shootdown has completed.
\<close>

section \<open>Contiguous runs\<close>

lemma allocate_contiguous_below_spec:
  assumes ok: "memory_ok me" and take: "allocate_contiguous_below want n lim me = (got, me')"
  shows "case got of
      None \<Rightarrow> settled me (all_free me) me'
    | Some base \<Rightarrow> frames_of base n \<subseteq> all_free me \<and> settled me (all_free me - frames_of base n) me'"
proof (cases "n = 0")
  case True
  with take ok show ?thesis
    by (auto simp: allocate_contiguous_below_def settled_refl)
next
  case False
  note P = memory_okD [OF ok]
  obtain fa where fa: "take_contiguous_below (me_topology me) n want lim (me_frames me) = (got, fa)" "me' = me\<lparr>me_frames := fa\<rparr>"
    using take False by (auto simp: allocate_contiguous_below_def split: prod.splits)
  show ?thesis
  proof (cases rule: take_contiguous_spec [OF P(1), of n want lim, case_names none some])
    case (none fa1)
    then have "got = None" "fa = fa1"
      using fa(1) by simp_all
    with frames_moved_settled [OF ok none(2)] fa(2) show ?thesis
      by (simp add: all_free_def)
  next
    case (some base fa1)
    then have got: "got = Some base" "fa = fa1"
      using fa(1) by simp_all
    have "frames_free (me_frames me) - frames_of base n \<union> hot_free (me_plugged me) = all_free me - frames_of base n"
      unfolding all_free_def using some(2) stores_apart [OF ok] by blast
    with frames_moved_settled [OF ok some(3)] fa(2) got some(2) show ?thesis
      by (auto simp: all_free_def)
  qed
qed

section \<open>Runs of the services\<close>

definition frame_list :: "nat \<Rightarrow> nat \<Rightarrow> nat list" where
  "frame_list base n = map (\<lambda>k. base + k * PAGE_SIZE) [0 ..< n]"

lemma frame_list_set: "set (frame_list base n) = frames_of base n" "distinct (frame_list base n)"
  by (auto simp: frame_list_def frames_of_def distinct_map inj_on_def)

text \<open>
  A state and the frames that are out, in any order. The caller of a release or a retirement owns the
  frames it names; every other request is open to anybody.
\<close>

inductive mem_step :: "memory \<times> nat multiset \<Rightarrow> memory \<times> nat multiset \<Rightarrow> bool" where
  step_allocate: "allocate want me = (got, me') \<Longrightarrow> mem_step (me, out) (me', out + mset (case got of None \<Rightarrow> [] | Some phys \<Rightarrow> [phys]))"
| step_movable: "allocate_movable want me = (got, me') \<Longrightarrow> mem_step (me, out) (me', out + mset (case got of None \<Rightarrow> [] | Some phys \<Rightarrow> [phys]))"
| step_contiguous: "allocate_contiguous_below want n lim me = (got, me') \<Longrightarrow>
    mem_step (me, out) (me', out + mset (case got of None \<Rightarrow> [] | Some base \<Rightarrow> frame_list base n))"
| step_pages: "allocate_pages reserved want n me = (got, me') \<Longrightarrow> mem_step (me, out) (me', out + mset (case got of None \<Rightarrow> [] | Some l \<Rightarrow> l))"
| step_pages_movable: "allocate_pages_movable reserved want n me = (got, me') \<Longrightarrow>
    mem_step (me, out) (me', out + mset (case got of None \<Rightarrow> [] | Some l \<Rightarrow> l))"
| step_deallocate: "phys \<in># out \<Longrightarrow> mem_step (me, out) (deallocate phys me, out - {#phys#})"
| step_retire: "mset frames \<subseteq># out \<Longrightarrow> mem_step (me, out) (retire answers frames me, out - mset frames)"
| step_drain: "mem_step (me, out) (drain_quarantine answers me, out)"

definition sound :: "nat \<Rightarrow> memory \<times> nat multiset \<Rightarrow> bool" where
  "sound doubles s \<longleftrightarrow> owed (fst s) (snd s + mset (me_quarantine (fst s))) \<and> fa_double_allocations (me_frames (fst s)) = doubles"

lemma sound_handed_out:
  assumes sound: "sound d (me, out)" and settled: "settled me (all_free me - set l) me'" and l: "set l \<subseteq> all_free me" "distinct l"
  shows "sound d (me', out + mset l)"
proof -
  let ?M = "out + mset (me_quarantine me)"
  have owed: "owed me ?M"
    using sound by (simp add: sound_def)
  have old: "phys \<notin># ?M" if "phys \<in> set l" for phys
    using owed that l(1) unfolding owed_def by blast
  have "count (?M + mset l) phys \<le> 1" for phys
  proof (cases "phys \<in> set l")
    case True
    then have "count ?M phys = 0"
      using old by (simp only: count_eq_zero_iff) simp
    moreover have "count (mset l) phys \<le> 1"
      using l(2) by (simp add: distinct_count_atmost_1)
    ultimately show ?thesis
      unfolding count_union by linarith
  next
    case False
    then have "count (mset l) phys = 0"
      by (simp add: count_eq_zero_iff)
    moreover have "count ?M phys \<le> 1"
      using owed unfolding owed_def by blast
    ultimately show ?thesis
      unfolding count_union by linarith
  qed
  moreover have "set_mset (?M + mset l) \<subseteq> home me' - all_free me'"
    using owed settled l(1) all_free_home [of me] unfolding owed_def settled_def by auto
  moreover have "?M + mset l = out + mset l + mset (me_quarantine me')"
    using settled by (simp add: settled_def ac_simps)
  ultimately show ?thesis
    using sound settled unfolding sound_def owed_def settled_def by simp
qed

lemma sound_did:
  assumes sound: "sound d (me, out)" and did: "did seen me (out + mset (me_quarantine me)) me' (out' + mset (me_quarantine me')) L"
  shows "sound d (me', out')"
  using assms unfolding sound_def did_def by simp

lemma sound_ok: "sound d (me, out) \<Longrightarrow> memory_ok me"
  by (simp add: sound_def owed_def)

text \<open>What each request hands out, in the form the runs need it.\<close>

lemma one_served:
  assumes "memory_ok me" "allocate want me = (got, me')"
  shows "settled me (all_free me - set (case got of None \<Rightarrow> [] | Some phys \<Rightarrow> [phys])) me' \<and>
    set (case got of None \<Rightarrow> [] | Some phys \<Rightarrow> [phys]) \<subseteq> all_free me \<and> distinct (case got of None \<Rightarrow> [] | Some phys \<Rightarrow> [phys])"
  using allocate_spec [OF assms] by (cases got) (auto simp: all_free_def)

lemma movable_served:
  assumes "memory_ok me" "allocate_movable want me = (got, me')"
  shows "settled me (all_free me - set (case got of None \<Rightarrow> [] | Some phys \<Rightarrow> [phys])) me' \<and>
    set (case got of None \<Rightarrow> [] | Some phys \<Rightarrow> [phys]) \<subseteq> all_free me \<and> distinct (case got of None \<Rightarrow> [] | Some phys \<Rightarrow> [phys])"
  using allocate_movable_spec [OF assms] by (cases got) auto

lemma contiguous_served:
  assumes "memory_ok me" "allocate_contiguous_below want n lim me = (got, me')"
  shows "settled me (all_free me - set (case got of None \<Rightarrow> [] | Some base \<Rightarrow> frame_list base n)) me' \<and>
    set (case got of None \<Rightarrow> [] | Some base \<Rightarrow> frame_list base n) \<subseteq> all_free me \<and>
    distinct (case got of None \<Rightarrow> [] | Some base \<Rightarrow> frame_list base n)"
  using allocate_contiguous_below_spec [OF assms] by (cases got) (simp_all add: frame_list_set)

lemma pages_served:
  assumes "memory_ok me" "allocate_pages reserved want n me = (got, me')"
  shows "settled me (all_free me - set (case got of None \<Rightarrow> [] | Some l \<Rightarrow> l)) me' \<and>
    set (case got of None \<Rightarrow> [] | Some l \<Rightarrow> l) \<subseteq> all_free me \<and> distinct (case got of None \<Rightarrow> [] | Some l \<Rightarrow> l)"
  using boot.allocate_pages_with_spec [OF assms(1) assms(2) [unfolded allocate_pages_def]]
  by (cases got) (auto simp: all_free_def)

lemma pages_movable_served:
  assumes "memory_ok me" "allocate_pages_movable reserved want n me = (got, me')"
  shows "settled me (all_free me - set (case got of None \<Rightarrow> [] | Some l \<Rightarrow> l)) me' \<and>
    set (case got of None \<Rightarrow> [] | Some l \<Rightarrow> l) \<subseteq> all_free me \<and> distinct (case got of None \<Rightarrow> [] | Some l \<Rightarrow> l)"
  using movable.allocate_pages_with_spec [OF assms(1) assms(2) [unfolded allocate_pages_movable_def]]
  by (cases got) auto

lemma deallocated_sound:
  assumes "phys \<in># out" "sound d (me, out)"
  shows "sound d (deallocate phys me, out - {#phys#})"
proof -
  let ?Q = "mset (me_quarantine me)"
  have "add_mset phys ((out - {#phys#}) + ?Q) = out + ?Q"
    using assms(1) by (metis insert_DiffM union_mset_add_mset_left)
  with did_release [of me phys "(out - {#phys#}) + ?Q"]
  have "did True me (out + ?Q) (deallocate phys me) ((out - {#phys#}) + mset (me_quarantine (deallocate phys me))) [Released phys]"
    by (simp only: deallocate_quarantine)
  then show ?thesis
    by (rule sound_did [OF assms(2)])
qed

lemma retired_sound:
  assumes "mset frames \<subseteq># out" "sound d (me, out)"
  shows "sound d (retire answers frames me, out - mset frames)"
proof -
  let ?rest = "out - mset frames" and ?me = "retire answers frames me"
  obtain L where "did False me (mset frames + mset (me_quarantine me)) ?me (mset (me_quarantine ?me)) L"
    using retire_did by blast
  from did_frame [OF this, of ?rest]
  have "did False me (mset frames + mset (me_quarantine me) + ?rest) ?me (mset (me_quarantine ?me) + ?rest) L" .
  moreover have "mset frames + mset (me_quarantine me) + ?rest = (mset frames + ?rest) + mset (me_quarantine me)"
    by (simp only: ac_simps)
  moreover have "mset frames + ?rest = out"
    using assms(1) by (rule subset_mset.add_diff_inverse)
  ultimately have "did False me (out + mset (me_quarantine me)) ?me (?rest + mset (me_quarantine ?me)) L"
    by (simp only: add.commute [of "mset (me_quarantine ?me)"])
  then show ?thesis
    by (rule sound_did [OF assms(2)])
qed

lemma drained_sound:
  assumes "sound d (me, out)"
  shows "sound d (drain_quarantine answers me, out)"
proof -
  obtain L where "did False me (mset (me_quarantine me) + out) (drain_quarantine answers me) (mset (me_quarantine (drain_quarantine answers me)) + out) L"
    using drain_quarantine_did by blast
  then have "did False me (out + mset (me_quarantine me)) (drain_quarantine answers me) (out + mset (me_quarantine (drain_quarantine answers me))) L"
    by (simp only: add.commute)
  then show ?thesis
    by (rule sound_did [OF assms])
qed

lemma sound_step:
  assumes "mem_step s s'" "sound d s"
  shows "sound d s'"
  using assms
proof (induction rule: mem_step.induct)
  case (step_allocate want me got me' out)
  show ?case
    by (rule sound_handed_out) (use one_served [OF sound_ok [OF step_allocate.prems] step_allocate.hyps] step_allocate.prems in blast)+
next
  case (step_movable want me got me' out)
  show ?case
    by (rule sound_handed_out) (use movable_served [OF sound_ok [OF step_movable.prems] step_movable.hyps] step_movable.prems in blast)+
next
  case (step_contiguous want n lim me got me' out)
  show ?case
    by (rule sound_handed_out) (use contiguous_served [OF sound_ok [OF step_contiguous.prems] step_contiguous.hyps] step_contiguous.prems in blast)+
next
  case (step_pages reserved want n me got me' out)
  show ?case
    by (rule sound_handed_out) (use pages_served [OF sound_ok [OF step_pages.prems] step_pages.hyps] step_pages.prems in blast)+
next
  case (step_pages_movable reserved want n me got me' out)
  show ?case
    by (rule sound_handed_out) (use pages_movable_served [OF sound_ok [OF step_pages_movable.prems] step_pages_movable.hyps] step_pages_movable.prems in blast)+
qed (simp_all only: deallocated_sound retired_sound drained_sound)

section \<open>Properties\<close>

text \<open>
  C3: No frame has two owners. Over any sequence of requests (single frames, program memory, contiguous
  runs, sets of frames), releases, retirements and drains by callers that give back only what is out,
  the frames that are out and those in quarantine are pairwise different and none of them is free;
  the joint invariant of the pools, the ownership record and the plugged regions holds, and the
  double-allocation detector has not fired.
\<close>

theorem no_frame_has_two_owners:
  assumes "mem_step\<^sup>*\<^sup>* (me, {#}) (me', out)" "memory_ok me" "me_quarantine me = []"
  shows "memory_ok me' \<and> (\<forall>phys. count (out + mset (me_quarantine me')) phys \<le> 1) \<and>
    set_mset (out + mset (me_quarantine me')) \<inter> all_free me' = {} \<and>
    fa_double_allocations (me_frames me') = fa_double_allocations (me_frames me)"
proof -
  let ?d = "fa_double_allocations (me_frames me)"
  have "sound ?d (me, {#})"
    using assms(2,3) by (simp add: sound_def owed_def)
  from run_invariant [where P = "sound ?d", OF assms(1) this sound_step] have "sound ?d (me', out)" .
  then show ?thesis
    unfolding sound_def owed_def by auto
qed

definition sample_memory :: memory where
  "sample_memory = \<lparr>me_topology = None, me_frames = sample_frames, me_plugged = hotplug_new, me_quarantine = [], me_shots = 0, me_log = []\<rparr>"

lemma sample_memory_ok: "memory_ok sample_memory" "all_free sample_memory = frames_free sample_frames" "me_quarantine sample_memory = []"
proof -
  have none: "\<not> live_region hotplug_new i r" for i r
    by (simp add: live_region_def hotplug_new_def)
  then show "memory_ok sample_memory"
    using sample_frames_ok hotplug_new_ok(1) owner_None [of _ hotplug_new] by (simp add: memory_ok_def sample_memory_def)
  show "all_free sample_memory = frames_free sample_frames" "me_quarantine sample_memory = []"
    using hotplug_new_ok(2) by (simp_all add: all_free_def sample_memory_def)
qed

lemma sample_allocate: "\<exists>phys me'. allocate None sample_memory = (Some phys, me')"
proof -
  obtain got me' where take: "allocate None sample_memory = (got, me')"
    by fastforce
  have "frames_free (me_frames sample_memory) \<noteq> {}"
    by (simp add: sample_memory_def sample_free)
  with allocate_spec [OF sample_memory_ok(1) take] take show ?thesis
    by (cases got) auto
qed

theorem no_frame_has_two_owners_witness:
  "\<exists>phys me'. mem_step\<^sup>*\<^sup>* (sample_memory, {#}) (me', {#phys#}) \<and> memory_ok sample_memory \<and> phys \<notin> all_free me'"
proof -
  obtain phys me' where take: "allocate None sample_memory = (Some phys, me')"
    using sample_allocate by blast
  have run: "mem_step\<^sup>*\<^sup>* (sample_memory, {#}) (me', {#phys#})"
    using step_allocate [OF take, of "{#}"] by simp
  from no_frame_has_two_owners [OF run sample_memory_ok(1,3)] run sample_memory_ok(1) show ?thesis
    by auto
qed

text \<open>
  C7: A mapped frame is released only after a completed shootdown. However the shootdowns of a
  retirement are answered, every frame it releases is released after one that completed in the same
  call; every frame that was given to it or lay in the quarantine is released once, or retired once
  for good, or still in the quarantine, and none is dropped; and exactly the released ones are free.
\<close>

theorem retirement_waits_for_the_shootdown:
  assumes "owed me (mset frames + mset (me_quarantine me))"
  shows "\<exists>L. let me' = retire answers frames me in
    me_log me' = me_log me @ L \<and>
    (\<forall>l phys l'. L = l @ Released phys # l' \<longrightarrow> Shootdown True \<in> set l) \<and>
    mset frames + mset (me_quarantine me) = mset (me_quarantine me') + mset (released_of L) + mset (retired_of L) \<and>
    memory_ok me' \<and> all_free me' = all_free me \<union> set (released_of L)"
proof -
  obtain L where did: "did False me (mset frames + mset (me_quarantine me)) (retire answers frames me)
      (mset (me_quarantine (retire answers frames me))) L"
    using retire_did by blast
  then have first: "\<forall>l phys l'. L = l @ Released phys # l' \<longrightarrow> Shootdown True \<in> set l"
    unfolding did_def using shot_first_split by blast
  note parts = did [unfolded did_def]
  have after: "owed (retire answers frames me) (mset (me_quarantine (retire answers frames me)))"
    "all_free (retire answers frames me) = all_free me \<union> set (released_of L)"
    using parts assms by blast+
  show ?thesis
    unfolding Let_def using parts first after unfolding owed_def by blast
qed

theorem retirement_waits_for_the_shootdown_witness:
  "\<exists>phys me1. allocate None sample_memory = (Some phys, me1) \<and> owed me1 (mset [phys] + mset (me_quarantine me1)) \<and>
    memory_ok (retire (\<lambda>_. False) [phys] me1)"
proof -
  obtain phys me1 where take: "allocate None sample_memory = (Some phys, me1)"
    using sample_allocate by blast
  have "sound 0 (sample_memory, {#})"
    using sample_memory_ok by (simp add: sound_def owed_def) (simp add: sample_memory_def sample_frames_def frames_new_def)
  from sound_step [OF step_allocate [OF take] this] have owed: "owed me1 (mset [phys] + mset (me_quarantine me1))"
    by (simp add: sound_def)
  from retirement_waits_for_the_shootdown [OF owed, of "\<lambda>_. False"] take owed show ?thesis
    by (auto simp: Let_def)
qed

text \<open>
  C18: The drain ends with an empty queue. When the shootdown is answered, the loop that takes batches
  of 64 out of the quarantine returns, for a queue of any length, with nothing queued and with every
  queued frame released exactly once; when it is not, the queue is as it was and nothing is released.
\<close>

theorem drain_empties_the_quarantine:
  assumes "me_quarantine me \<noteq> []"
  shows "if answers (me_shots me)
    then me_quarantine (drain_quarantine answers me) = [] \<and>
      (\<exists>order. mset order = mset (me_quarantine me) \<and>
         me_log (drain_quarantine answers me) = me_log me @ Shootdown True # map Released order)
    else drain_quarantine answers me = me\<lparr>me_shots := Suc (me_shots me), me_log := me_log me @ [Shootdown False]\<rparr>"
proof (cases "answers (me_shots me)")
  case True
  let ?me = "me\<lparr>me_shots := Suc (me_shots me), me_log := me_log me @ [Shootdown True]\<rparr>"
  have run: "drain_quarantine answers me = drain_loop ?me"
    using assms True by (simp add: drain_quarantine_def shootdown_def Let_def)
  obtain order where "mset order = mset (me_quarantine me)" "me_log (drain_loop ?me) = me_log ?me @ map Released order"
    and "me_quarantine (drain_loop ?me) = []"
    using drain_loop_did [of ?me "{#}"] unfolding did_def by auto
  with True show ?thesis
    unfolding run by auto
next
  case False
  with assms show ?thesis
    by (simp add: drain_quarantine_def shootdown_def Let_def)
qed

theorem drain_empties_the_quarantine_witness:
  "me_quarantine (sample_memory\<lparr>me_quarantine := [4096, 32768]\<rparr>) \<noteq> [] \<and>
   me_quarantine (drain_quarantine (\<lambda>_. True) (sample_memory\<lparr>me_quarantine := [4096, 32768]\<rparr>)) = []"
  using drain_empties_the_quarantine [of "sample_memory\<lparr>me_quarantine := [4096, 32768]\<rparr>" "\<lambda>_. True"] by simp

text \<open>
  C19: A set of frames is handed out whole or not at all. A success is exactly the number asked for, in
  ascending order without repetition, all of them free before and out afterwards; a failure has given
  everything back, and happens only when the bookkeeping cannot be reserved or fewer frames than asked
  for are free: in the boot pools for the kernel, in the boot pools and the plugged regions together
  for a program.
\<close>

theorem page_sets_are_all_or_nothing:
  assumes ok: "memory_ok me"
    and kernel: "allocate_pages reserved local_node n me = (got, me1)"
    and program: "allocate_pages_movable reserved local_node n me = (got', me2)"
  shows "(case got of
      Some l \<Rightarrow> length l = n \<and> sorted l \<and> distinct l \<and> set l \<subseteq> all_free me \<and> all_free me1 = all_free me - set l
    | None \<Rightarrow> all_free me1 = all_free me \<and> (\<not> reserved \<or> card (frames_free (me_frames me)) < n)) \<and>
    (case got' of
      Some l \<Rightarrow> length l = n \<and> sorted l \<and> distinct l \<and> set l \<subseteq> all_free me \<and> all_free me2 = all_free me - set l
    | None \<Rightarrow> all_free me2 = all_free me \<and> (\<not> reserved \<or> card (all_free me) < n)) \<and> memory_ok me1 \<and> memory_ok me2"
proof -
  have "frames_free (me_frames me) \<subseteq> all_free me"
    by (simp add: all_free_def)
  with boot.allocate_pages_with_spec [OF ok kernel [unfolded allocate_pages_def]]
    movable.allocate_pages_with_spec [OF ok program [unfolded allocate_pages_movable_def]]
  show ?thesis
    by (cases got; cases got') (auto simp: settled_def)
qed

theorem page_sets_are_all_or_nothing_witness:
  "\<exists>l me1 me2. memory_ok sample_memory \<and> allocate_pages True None 6 sample_memory = (Some l, me1) \<and> all_free me1 = {} \<and>
    allocate_pages_movable True None 7 sample_memory = (None, me2) \<and> all_free me2 = all_free sample_memory"
proof -
  have six: "card (all_free sample_memory) = 6" "finite (all_free sample_memory)" "frames_free (me_frames sample_memory) = all_free sample_memory"
    unfolding sample_memory_ok(2) by (simp_all add: sample_free card_image inj_on_def) (simp add: sample_memory_def sample_free)
  obtain got1 me1 got2 me2 got3 me3 got4 me4 where ops: "allocate_pages True None 6 sample_memory = (got1, me1)"
    "allocate_pages_movable True None 7 sample_memory = (got2, me2)"
    "allocate_pages_movable True None 6 sample_memory = (got3, me3)" "allocate_pages True None 7 sample_memory = (got4, me4)"
    by (metis surj_pair)
  note whole = page_sets_are_all_or_nothing [OF sample_memory_ok(1) ops(1,3)]
  note none = page_sets_are_all_or_nothing [OF sample_memory_ok(1) ops(4,2)]
  obtain l where l: "got1 = Some l" "length l = 6" "distinct l" "set l \<subseteq> all_free sample_memory" "all_free me1 = all_free sample_memory - set l"
    using whole six by (cases got1) auto
  have "card (set l) = 6"
    using l(2,3) by (simp add: distinct_card)
  then have "set l = all_free sample_memory"
    using card_subset_eq [OF six(2) l(4)] six(1) by simp
  moreover have "got2 = None"
  proof (rule ccontr)
    assume "got2 \<noteq> None"
    then obtain m where "length m = 7" "distinct m" "set m \<subseteq> all_free sample_memory"
      using none by auto
    with card_mono [OF six(2), of "set m"] six(1) show False
      by (simp add: distinct_card)
  qed
  ultimately show ?thesis
    using l(1,5) ops(1,2) none sample_memory_ok(1) by auto
qed

end
