(* ===== verification/Tlb.thy ===== *)
theory Tlb
  imports Kernel_Prelude
begin

text \<open>
  The cross-core TLB shootdown (\<^verbatim>\<open>src/src/kernel/mem/tlb.rs\<close>) as it interleaves on the cores. Every load,
  store and read-modify-write of the shared generations is a step of its own; a core runs the body of
  \<^verbatim>\<open>shootdown\<close> (\<open>shot_step\<close>) and, on top of it or of anything else, a stack of calls of \<^verbatim>\<open>service_pending\<close>
  (\<open>service_step\<close>), since the wake interrupt may arrive inside one. A label names the core that moves,
  so a schedule is a list of labels and a run of the machine is a function of its schedule.

  What the protocol is for is part of the state: the frames some page table maps, and for each core
  the frames its translation buffer holds. A core may fill its buffer from a mapping at any moment, an
  unmap invalidates the buffer of the core that does it, and a flush empties the buffer.
\<close>

section \<open>State\<close>

definition MAX_CPUS :: nat where "MAX_CPUS = 64"
definition SPIN_LIMIT :: nat where "SPIN_LIMIT = 200000000"

text \<open>Where a call of \<^verbatim>\<open>service_pending\<close> is: what it read, what it is about to do.\<close>

datatype service = Enter | Wanted nat | Flush nat | Acknowledge nat

text \<open>
  Where a call of \<^verbatim>\<open>shootdown\<close> is. The numbers are the generation, the number of targets, the spins, the
  core the loop has reached, and the acknowledgements counted so far.
\<close>

datatype shot =
    Resting | Started | Claiming | Numbering
  | Publishing nat nat nat | Notifying nat nat nat
  | Polling nat nat nat nat nat
  | Releasing bool | Answered bool

record core =
  co_shot :: shot
  co_service :: "service list"
  co_held :: "nat set"
  co_serviced :: nat

record tlb =
  tl_cores :: "core list"
  tl_request :: nat
  tl_pending :: "nat list"
  tl_ack :: "nat list"
  tl_in_flight :: bool
  tl_reported :: bool
  tl_wakes :: "nat list"
  tl_mapped :: "nat set"

definition core_new :: core where
  "core_new = \<lparr>co_shot = Resting, co_service = [], co_held = {}, co_serviced = 0\<rparr>"

definition tlb_new :: "nat \<Rightarrow> tlb" where
  "tlb_new cpus = \<lparr>tl_cores = replicate cpus core_new, tl_request = 0, tl_pending = replicate MAX_CPUS 0,
     tl_ack = replicate MAX_CPUS 0, tl_in_flight = False, tl_reported = False, tl_wakes = [], tl_mapped = {}\<rparr>"

definition cpu_count :: "tlb \<Rightarrow> nat" where
  "cpu_count t = length (tl_cores t)"

definition put_core :: "nat \<Rightarrow> core \<Rightarrow> tlb \<Rightarrow> tlb" where
  "put_core me co t = t\<lparr>tl_cores := (tl_cores t)[me := co]\<rparr>"

definition go :: "nat \<Rightarrow> shot \<Rightarrow> tlb \<Rightarrow> tlb" where
  "go me s t = put_core me ((tl_cores t ! me)\<lparr>co_shot := s\<rparr>) t"

definition call_service :: "nat \<Rightarrow> tlb \<Rightarrow> tlb" where
  "call_service me t = put_core me ((tl_cores t ! me)\<lparr>co_service := Enter # co_service (tl_cores t ! me)\<rparr>) t"

section \<open>Answering a request\<close>

definition service_step :: "nat \<Rightarrow> tlb \<Rightarrow> tlb" where
  "service_step me t =
     (let co = tl_cores t ! me in
      case co_service co of
        [] \<Rightarrow> t
      | Enter # rest \<Rightarrow>
          (if MAX_CPUS \<le> me then put_core me (co\<lparr>co_service := rest\<rparr>) t
           else put_core me (co\<lparr>co_service := Wanted (tl_pending t ! me) # rest, co_serviced := co_serviced co + 1\<rparr>) t)
      | Wanted wanted # rest \<Rightarrow>
          put_core me (co\<lparr>co_service := (if tl_ack t ! me < wanted then Flush wanted # rest else rest)\<rparr>) t
      | Flush wanted # rest \<Rightarrow> put_core me (co\<lparr>co_service := Acknowledge wanted # rest, co_held := {}\<rparr>) t
      | Acknowledge wanted # rest \<Rightarrow>
          (put_core me (co\<lparr>co_service := rest\<rparr>) t)\<lparr>tl_ack := (tl_ack t)[me := max (tl_ack t ! me) wanted]\<rparr>)"

section \<open>Making a request\<close>

definition covers_every_core :: "nat \<Rightarrow> bool" where
  "covers_every_core cpus \<longleftrightarrow> cpus \<le> MAX_CPUS"

definition acknowledged :: "nat \<Rightarrow> nat \<Rightarrow> nat \<Rightarrow> nat list \<Rightarrow> nat" where
  "acknowledged cpus me generation ack =
     length (filter (\<lambda>cpu. generation \<le> ack ! cpu) (filter (\<lambda>cpu. cpu \<noteq> me) [0 ..< min cpus MAX_CPUS]))"

definition shot_step :: "nat \<Rightarrow> tlb \<Rightarrow> tlb" where
  "shot_step me t =
     (let cpus = cpu_count t in
      case co_shot (tl_cores t ! me) of
        Resting \<Rightarrow> t
      | Started \<Rightarrow>
          (if cpus \<le> 1 then go me (Answered True) t
           else if \<not> covers_every_core cpus then go me (Answered False) (t\<lparr>tl_reported := True\<rparr>)
           else go me Claiming t)
      | Claiming \<Rightarrow>
          (if tl_in_flight t then call_service me t
           else go me Numbering (t\<lparr>tl_in_flight := True\<rparr>))
      | Numbering \<Rightarrow>
          (let generation = (tl_request t + 1) mod (U64_MAX + 1)
           in go me (Publishing generation 0 0) (t\<lparr>tl_request := generation\<rparr>))
      | Publishing generation targets cpu \<Rightarrow>
          (if cpu < min cpus MAX_CPUS then
             (if cpu = me then go me (Publishing generation targets (cpu + 1)) t
              else go me (Publishing generation (targets + 1) (cpu + 1)) (t\<lparr>tl_pending := (tl_pending t)[cpu := generation]\<rparr>))
           else go me (Notifying generation targets 0) t)
      | Notifying generation targets cpu \<Rightarrow>
          (if cpu < min cpus MAX_CPUS then
             (if cpu = me then go me (Notifying generation targets (cpu + 1)) t
              else go me (Notifying generation targets (cpu + 1)) (t\<lparr>tl_wakes := tl_wakes t @ [cpu]\<rparr>))
           else go me (Polling generation targets 0 0 0) t)
      | Polling generation targets spins cpu n \<Rightarrow>
          (if cpu < min cpus MAX_CPUS then
             go me (Polling generation targets spins (cpu + 1) (if cpu \<noteq> me \<and> generation \<le> tl_ack t ! cpu then n + 1 else n)) t
           else if n = targets then go me (Releasing True) t
           else if SPIN_LIMIT < spins + 1 then go me (Releasing False) (call_service me t)
           else go me (Polling generation targets (spins + 1) 0 0) (call_service me t))
      | Releasing complete \<Rightarrow> go me (Answered complete) (t\<lparr>tl_in_flight := False\<rparr>)
      | Answered _ \<Rightarrow> t)"

section \<open>Schedules\<close>

datatype label =
    Call nat | Shot nat | Interrupt nat | Serve nat
  | FillEntry nat nat | MapFrame nat | UnmapFrame nat nat

definition at_rest :: "shot \<Rightarrow> bool" where
  "at_rest s \<longleftrightarrow> (case s of Resting \<Rightarrow> True | Answered _ \<Rightarrow> True | _ \<Rightarrow> False)"

fun tlb_exec :: "label \<Rightarrow> tlb \<Rightarrow> tlb option" where
  "tlb_exec (Call me) t =
     (if me < cpu_count t \<and> co_service (tl_cores t ! me) = [] \<and> at_rest (co_shot (tl_cores t ! me))
      then Some (go me Started t) else None)"
| "tlb_exec (Shot me) t =
     (if me < cpu_count t \<and> co_service (tl_cores t ! me) = [] \<and> \<not> at_rest (co_shot (tl_cores t ! me))
      then Some (shot_step me t) else None)"
| "tlb_exec (Interrupt me) t = (if me < cpu_count t then Some (call_service me t) else None)"
| "tlb_exec (Serve me) t =
     (if me < cpu_count t \<and> co_service (tl_cores t ! me) \<noteq> [] then Some (service_step me t) else None)"
| "tlb_exec (FillEntry me phys) t =
     (if me < cpu_count t \<and> phys \<in> tl_mapped t
      then Some (put_core me ((tl_cores t ! me)\<lparr>co_held := insert phys (co_held (tl_cores t ! me))\<rparr>) t) else None)"
| "tlb_exec (MapFrame phys) t = Some (t\<lparr>tl_mapped := insert phys (tl_mapped t)\<rparr>)"
| "tlb_exec (UnmapFrame me phys) t =
     (if me < cpu_count t
      then Some ((put_core me ((tl_cores t ! me)\<lparr>co_held := co_held (tl_cores t ! me) - {phys}\<rparr>) t)\<lparr>tl_mapped := tl_mapped t - {phys}\<rparr>)
      else None)"

fun tlb_run :: "label list \<Rightarrow> tlb \<Rightarrow> tlb option" where
  "tlb_run [] t = Some t"
| "tlb_run (l # ls) t = (case tlb_exec l t of None \<Rightarrow> None | Some t' \<Rightarrow> tlb_run ls t')"

lemma tlb_run_append: "tlb_run (ls @ ls') t = (case tlb_run ls t of None \<Rightarrow> None | Some t' \<Rightarrow> tlb_run ls' t')"
  by (induction ls arbitrary: t) (simp_all split: option.split)

end
