(* ===== verification/Tlb_Steps.thy ===== *)
theory Tlb_Steps
  imports Tlb
begin

text \<open>
  The invariants of the shootdown: no generation in use is larger than the last one handed out, and,
  for one frame that stays unmapped, the cores that have answered a generation no longer hold it. Each
  primitive update has one lemma per invariant, and a step is a chain of them.
\<close>

section \<open>Updates\<close>

named_theorems tlb_updates

lemma put_core_simps [simp, tlb_updates]:
  "cpu_count (put_core me co t) = cpu_count t"
  "tl_request (put_core me co t) = tl_request t" "tl_pending (put_core me co t) = tl_pending t"
  "tl_ack (put_core me co t) = tl_ack t" "tl_mapped (put_core me co t) = tl_mapped t"
  "tl_in_flight (put_core me co t) = tl_in_flight t"
  "c < cpu_count t \<Longrightarrow> tl_cores (put_core me co t) ! c = (if c = me then co else tl_cores t ! c)"
  by (simp_all add: put_core_def cpu_count_def nth_list_update)

lemma go_simps [simp, tlb_updates]:
  "cpu_count (go me s t) = cpu_count t"
  "tl_request (go me s t) = tl_request t" "tl_pending (go me s t) = tl_pending t"
  "tl_ack (go me s t) = tl_ack t" "tl_mapped (go me s t) = tl_mapped t" "tl_in_flight (go me s t) = tl_in_flight t"
  "c < cpu_count t \<Longrightarrow> tl_cores (go me s t) ! c = (if c = me then (tl_cores t ! me)\<lparr>co_shot := s\<rparr> else tl_cores t ! c)"
  by (simp_all add: go_def)

lemma call_service_simps [simp, tlb_updates]:
  "cpu_count (call_service me t) = cpu_count t"
  "tl_request (call_service me t) = tl_request t" "tl_pending (call_service me t) = tl_pending t"
  "tl_ack (call_service me t) = tl_ack t" "tl_mapped (call_service me t) = tl_mapped t"
  "tl_in_flight (call_service me t) = tl_in_flight t"
  "c < cpu_count t \<Longrightarrow> tl_cores (call_service me t) ! c =
     (if c = me then (tl_cores t ! me)\<lparr>co_service := Enter # co_service (tl_cores t ! me)\<rparr> else tl_cores t ! c)"
  by (simp_all add: call_service_def)

lemma field_cpu_count [simp]:
  "cpu_count (t\<lparr>tl_request := r\<rparr>) = cpu_count t" "cpu_count (t\<lparr>tl_pending := ps\<rparr>) = cpu_count t"
  "cpu_count (t\<lparr>tl_ack := as\<rparr>) = cpu_count t" "cpu_count (t\<lparr>tl_in_flight := b\<rparr>) = cpu_count t"
  "cpu_count (t\<lparr>tl_reported := b\<rparr>) = cpu_count t" "cpu_count (t\<lparr>tl_wakes := ws\<rparr>) = cpu_count t"
  "cpu_count (t\<lparr>tl_mapped := ms\<rparr>) = cpu_count t"
  by (simp_all add: cpu_count_def)

section \<open>Generations\<close>

fun wanted_of :: "service \<Rightarrow> nat" where
  "wanted_of Enter = 0" | "wanted_of (Wanted w) = w" | "wanted_of (Flush w) = w" | "wanted_of (Acknowledge w) = w"

fun generation_of :: "shot \<Rightarrow> nat" where
  "generation_of (Publishing g _ _) = g" | "generation_of (Notifying g _ _) = g" | "generation_of (Polling g _ _ _ _) = g"
| "generation_of _ = 0"

definition core_ok :: "nat \<Rightarrow> core \<Rightarrow> bool" where
  "core_ok r co \<longleftrightarrow> (\<forall>f \<in> set (co_service co). wanted_of f \<le> r) \<and> generation_of (co_shot co) \<le> r"

definition tlb_ok :: "tlb \<Rightarrow> bool" where
  "tlb_ok t \<longleftrightarrow> length (tl_pending t) = MAX_CPUS \<and> length (tl_ack t) = MAX_CPUS \<and>
     (\<forall>c < MAX_CPUS. tl_pending t ! c \<le> tl_request t \<and> tl_ack t ! c \<le> tl_request t) \<and>
     (\<forall>c < cpu_count t. core_ok (tl_request t) (tl_cores t ! c))"

lemma tlb_new_ok: "tlb_ok (tlb_new cpus)"
  by (simp add: tlb_ok_def tlb_new_def core_new_def core_ok_def cpu_count_def)

lemma ok_put: "tlb_ok t \<Longrightarrow> core_ok (tl_request t) co \<Longrightarrow> tlb_ok (put_core me co t)"
  by (simp add: tlb_ok_def)

lemma ok_core: "tlb_ok t \<Longrightarrow> me < cpu_count t \<Longrightarrow> core_ok (tl_request t) (tl_cores t ! me)"
  by (simp add: tlb_ok_def)

lemma ok_go: "tlb_ok t \<Longrightarrow> me < cpu_count t \<Longrightarrow> generation_of s \<le> tl_request t \<Longrightarrow> tlb_ok (go me s t)"
  unfolding go_def by (rule ok_put) (use ok_core in \<open>auto simp: core_ok_def\<close>)

lemma ok_call: "tlb_ok t \<Longrightarrow> me < cpu_count t \<Longrightarrow> tlb_ok (call_service me t)"
  unfolding call_service_def by (rule ok_put) (use ok_core in \<open>auto simp: core_ok_def\<close>)

lemma ok_fields:
  "tlb_ok t \<Longrightarrow> tlb_ok (t\<lparr>tl_in_flight := b\<rparr>)" "tlb_ok t \<Longrightarrow> tlb_ok (t\<lparr>tl_reported := b\<rparr>)"
  "tlb_ok t \<Longrightarrow> tlb_ok (t\<lparr>tl_wakes := ws\<rparr>)" "tlb_ok t \<Longrightarrow> tlb_ok (t\<lparr>tl_mapped := ms\<rparr>)"
  by (simp_all add: tlb_ok_def)

lemma ok_request:
  assumes "tlb_ok t" "tl_request t \<le> r"
  shows "tlb_ok (t\<lparr>tl_request := r\<rparr>)"
proof -
  have "core_ok r co" if "core_ok (tl_request t) co" for co
    using that assms(2) by (auto simp: core_ok_def intro: le_trans)
  with assms show ?thesis
    by (auto simp: tlb_ok_def intro: le_trans)
qed

lemma update_bounded: "c < length xs \<Longrightarrow> xs ! c \<le> r \<Longrightarrow> g \<le> r \<Longrightarrow> xs[k := g] ! c \<le> (r :: nat)"
  by (cases "k = c") simp_all

lemma ok_pending: "tlb_ok t \<Longrightarrow> g \<le> tl_request t \<Longrightarrow> tlb_ok (t\<lparr>tl_pending := (tl_pending t)[cpu := g]\<rparr>)"
  by (auto simp: tlb_ok_def intro: update_bounded)

lemma ok_ack: "tlb_ok t \<Longrightarrow> g \<le> tl_request t \<Longrightarrow> tlb_ok (t\<lparr>tl_ack := (tl_ack t)[cpu := g]\<rparr>)"
  by (auto simp: tlb_ok_def intro: update_bounded)

lemma ok_shot_step:
  assumes ok: "tlb_ok t" and me: "me < cpu_count t" and room: "tl_request t < U64_MAX"
  shows "tlb_ok (shot_step me t)"
proof -
  have gen: "generation_of (co_shot (tl_cores t ! me)) \<le> tl_request t"
    using ok_core [OF ok me] by (simp add: core_ok_def)
  show ?thesis
  proof (cases "co_shot (tl_cores t ! me)")
    case Numbering
    have "tlb_ok (t\<lparr>tl_request := tl_request t + 1\<rparr>)"
      by (rule ok_request [OF ok]) simp
    then have "tlb_ok (go me (Publishing (tl_request t + 1) 0 0) (t\<lparr>tl_request := tl_request t + 1\<rparr>))"
      using me by (intro ok_go) simp_all
    with Numbering room show ?thesis
      by (simp add: shot_step_def Let_def)
  next
    case (Publishing g k cpu)
    with gen have "tlb_ok (t\<lparr>tl_pending := (tl_pending t)[cpu := g]\<rparr>)"
      by (simp add: ok_pending [OF ok])
    with Publishing ok me gen show ?thesis
      by (simp add: shot_step_def Let_def ok_go)
  qed (use ok me gen in \<open>simp_all add: shot_step_def Let_def ok_go ok_call ok_fields\<close>)
qed

lemma ok_service_step:
  assumes ok: "tlb_ok t" and me: "me < cpu_count t"
  shows "tlb_ok (service_step me t)"
proof (cases "co_service (tl_cores t ! me)")
  case Nil
  with ok show ?thesis
    by (simp add: service_step_def)
next
  case (Cons f rest)
  have core: "wanted_of f \<le> tl_request t" "\<forall>f \<in> set rest. wanted_of f \<le> tl_request t" "generation_of (co_shot (tl_cores t ! me)) \<le> tl_request t"
    using ok_core [OF ok me] Cons by (simp_all add: core_ok_def)
  have pending: "me < MAX_CPUS \<Longrightarrow> tl_pending t ! me \<le> tl_request t"
    using ok by (simp add: tlb_ok_def)
  show ?thesis
  proof (cases f)
    case (Acknowledge w)
    have put: "tlb_ok (put_core me ((tl_cores t ! me)\<lparr>co_service := rest\<rparr>) t)"
      using core by (intro ok_put [OF ok]) (simp add: core_ok_def)
    show ?thesis
    proof (cases "me < MAX_CPUS")
      case True
      then have "max (tl_ack t ! me) w \<le> tl_request t"
        using ok core(1) Acknowledge by (simp add: tlb_ok_def)
      with ok_ack [OF put, of "max (tl_ack t ! me) w" me] Cons Acknowledge show ?thesis
        by (simp add: service_step_def Let_def)
    next
      case False
      then have "(tl_ack t)[me := x] = tl_ack t" for x
        using ok by (simp add: tlb_ok_def list_update_beyond)
      with put Cons Acknowledge show ?thesis
        by (simp add: service_step_def Let_def tlb_ok_def)
    qed
  qed (use Cons core pending ok in \<open>auto simp: service_step_def Let_def core_ok_def intro!: ok_put\<close>)
qed

lemma ok_exec:
  assumes ok: "tlb_ok t" and exec: "tlb_exec l t = Some t'" and room: "tl_request t < U64_MAX"
  shows "tlb_ok t'"
proof (cases l)
  case (FillEntry me phys)
  with exec ok ok_core [OF ok, of me] show ?thesis
    by (auto simp: core_ok_def intro!: ok_put split: if_splits)
next
  case (UnmapFrame me phys)
  with exec ok ok_core [OF ok, of me] show ?thesis
    by (auto simp: core_ok_def intro!: ok_put ok_fields split: if_splits)
qed (use exec ok room in \<open>auto intro: ok_go ok_shot_step ok_call ok_service_step ok_fields split: if_splits\<close>)

lemma exec_request:
  assumes "tlb_exec l t = Some t'"
  shows "tl_request t' \<le> tl_request t + 1"
  using assms
  by (cases l) (auto simp: shot_step_def service_step_def Let_def split: if_splits shot.splits list.splits service.splits)

lemma exec_cpu_count:
  assumes "tlb_exec l t = Some t'"
  shows "cpu_count t' = cpu_count t"
  using assms
  by (cases l) (auto simp: shot_step_def service_step_def Let_def split: if_splits shot.splits list.splits service.splits)

section \<open>One frame that stays unmapped\<close>

definition holds :: "tlb \<Rightarrow> nat \<Rightarrow> nat \<Rightarrow> bool" where
  "holds t c phys \<longleftrightarrow> phys \<in> co_held (tl_cores t ! c)"

definition flushed :: "nat \<Rightarrow> nat \<Rightarrow> tlb \<Rightarrow> nat \<Rightarrow> bool" where
  "flushed g me t c \<longleftrightarrow> c = me \<or> c < MAX_CPUS \<and> g \<le> tl_ack t ! c \<or>
     (\<exists>w. Acknowledge w \<in> set (co_service (tl_cores t ! c)) \<and> g \<le> w)"

definition cover :: "nat \<Rightarrow> nat \<Rightarrow> nat \<Rightarrow> tlb \<Rightarrow> bool" where
  "cover g phys me t \<longleftrightarrow> phys \<notin> tl_mapped t \<and> (\<forall>c < cpu_count t. flushed g me t c \<longrightarrow> \<not> holds t c phys)"

definition clean :: "nat \<Rightarrow> tlb \<Rightarrow> bool" where
  "clean phys t \<longleftrightarrow> phys \<notin> tl_mapped t \<and> (\<forall>c < cpu_count t. \<not> holds t c phys)"

lemma exec_mapped:
  assumes "tlb_exec l t = Some t'" "phys \<notin> tl_mapped t" "l \<noteq> MapFrame phys"
  shows "phys \<notin> tl_mapped t'"
  using assms
  by (cases l) (auto simp: shot_step_def service_step_def Let_def split: if_splits shot.splits list.splits service.splits)

lemma shot_step_held:
  assumes "me < cpu_count t" "c < cpu_count t"
  shows "co_held (tl_cores (shot_step me t) ! c) = co_held (tl_cores t ! c)"
  using assms by (cases "c = me"; cases "co_shot (tl_cores t ! me)") (simp_all add: shot_step_def Let_def)

lemma service_step_held:
  assumes "me < cpu_count t" "c < cpu_count t"
  shows "co_held (tl_cores (service_step me t) ! c) \<subseteq> co_held (tl_cores t ! c)"
  using assms
  by (cases "c = me"; cases "co_service (tl_cores t ! me)"; cases "hd (co_service (tl_cores t ! me))") (simp_all add: service_step_def Let_def)

lemma exec_holds:
  assumes "tlb_exec l t = Some t'" "phys \<notin> tl_mapped t" "c < cpu_count t" "holds t' c phys"
  shows "holds t c phys"
proof (cases l)
  case (Shot me)
  with assms shot_step_held [of me t c] show ?thesis
    by (auto simp: holds_def split: if_splits)
next
  case (Serve me)
  with assms service_step_held show ?thesis
    by (auto simp: holds_def split: if_splits)
next
  case (Call me)
  with assms show ?thesis
    by (cases "c = me") (auto simp: holds_def split: if_splits)
next
  case (Interrupt me)
  with assms show ?thesis
    by (cases "c = me") (auto simp: holds_def split: if_splits)
next
  case (FillEntry me q)
  with assms show ?thesis
    by (cases "c = me") (auto simp: holds_def split: if_splits)
next
  case (MapFrame q)
  with assms show ?thesis
    by (auto simp: holds_def)
next
  case (UnmapFrame me q)
  with assms show ?thesis
    by (cases "c = me") (auto simp: holds_def split: if_splits)
qed

lemma exec_clean:
  assumes "clean phys t" "tlb_exec l t = Some t'" "l \<noteq> MapFrame phys"
  shows "clean phys t'"
  using assms exec_mapped exec_holds exec_cpu_count [OF assms(2)] unfolding clean_def by metis

lemma shot_step_service:
  assumes "me < cpu_count t" "c < cpu_count t"
  shows "Acknowledge w \<in> set (co_service (tl_cores (shot_step me t) ! c)) \<Longrightarrow> Acknowledge w \<in> set (co_service (tl_cores t ! c))"
    and "tl_ack (shot_step me t) = tl_ack t"
proof -
  assume "Acknowledge w \<in> set (co_service (tl_cores (shot_step me t) ! c))"
  then show "Acknowledge w \<in> set (co_service (tl_cores t ! c))"
    using assms by (cases "c = me"; cases "co_shot (tl_cores t ! me)") (simp_all add: shot_step_def Let_def split: if_splits)
next
  show "tl_ack (shot_step me t) = tl_ack t"
    by (cases "co_shot (tl_cores t ! me)") (simp_all add: shot_step_def Let_def)
qed

lemma flushed_service_step:
  assumes ok: "tlb_ok t" and me: "me < cpu_count t" "c < cpu_count t" and now: "flushed g who (service_step me t) c"
  shows "flushed g who t c \<or> \<not> holds (service_step me t) c phys"
proof (cases "co_service (tl_cores t ! me)")
  case Nil
  with now show ?thesis
    by (simp add: service_step_def)
next
  case (Cons f rest)
  show ?thesis
  proof (cases "c = me")
    case False
    with now Cons me show ?thesis
      by (cases f) (auto simp: flushed_def service_step_def Let_def split: if_splits)
  next
    case True
    have old: "length (tl_ack t) = MAX_CPUS"
      using ok by (simp add: tlb_ok_def)
    show ?thesis
      using now Cons me True old by (cases f) (auto simp: flushed_def holds_def service_step_def Let_def le_max_iff_disj split: if_splits)
  qed
qed

lemma exec_flushed:
  assumes "tlb_ok t" "tlb_exec l t = Some t'" "c < cpu_count t" "flushed g me t' c"
  shows "flushed g me t c \<or> \<not> holds t' c phys"
proof (cases l)
  case (Shot x)
  with assms shot_step_service [of x t c] show ?thesis
    by (auto simp: flushed_def split: if_splits)
next
  case (Serve x)
  with assms flushed_service_step [of t x c g me phys] show ?thesis
    by (auto split: if_splits)
qed (use assms in \<open>auto simp: flushed_def split: if_splits\<close>)

lemma exec_cover:
  assumes ok: "tlb_ok t" and cover: "cover g phys me t" and exec: "tlb_exec l t = Some t'" and l: "l \<noteq> MapFrame phys"
  shows "cover g phys me t'"
proof -
  have un: "phys \<notin> tl_mapped t"
    using cover by (simp add: cover_def)
  have "\<not> holds t' c phys" if c: "c < cpu_count t" and f: "flushed g me t' c" for c
    using exec_flushed [OF ok exec c f, of phys] exec_holds [OF exec un c] cover c unfolding cover_def by blast
  then show ?thesis
    using exec_mapped [OF exec un l] exec_cpu_count [OF exec] by (simp add: cover_def)
qed

lemma cover_start:
  assumes ok: "tlb_ok t" and un: "phys \<notin> tl_mapped t" "\<not> holds t me phys" and g: "tl_request t < g"
  shows "cover g phys me t"
proof -
  have "c = me" if c: "c < cpu_count t" and f: "flushed g me t c" for c
  proof (rule ccontr)
    assume "c \<noteq> me"
    then consider (ack) "c < MAX_CPUS" "g \<le> tl_ack t ! c" | (frame) w where "Acknowledge w \<in> set (co_service (tl_cores t ! c))" "g \<le> w"
      using f by (auto simp: flushed_def)
    then show False
    proof cases
      case ack
      with ok g show False
        by (auto simp: tlb_ok_def dest: le_trans)
    next
      case frame
      then have "wanted_of (Acknowledge w) \<le> tl_request t"
        using ok_core [OF ok c] unfolding core_ok_def by blast
      with frame(2) g show False
        by simp
    qed
  qed
  with un show ?thesis
    by (auto simp: cover_def)
qed

lemma exec_ack:
  assumes ok: "tlb_ok t" and exec: "tlb_exec l t = Some t'"
  shows "tl_ack t ! c \<le> tl_ack t' ! c"
proof (cases l)
  case (Shot me)
  with exec shot_step_service(2) [of me t me] show ?thesis
    by (auto split: if_splits)
next
  case (Serve me)
  with exec show ?thesis
    by (cases "me < length (tl_ack t)")
      (auto simp: service_step_def Let_def nth_list_update list_update_beyond split: if_splits list.splits service.splits)
qed (use exec in \<open>auto split: if_splits\<close>)

lemma exec_shot_other:
  assumes "tlb_exec l t = Some t'" "me < cpu_count t" "l \<noteq> Call me" "l \<noteq> Shot me"
  shows "co_shot (tl_cores t' ! me) = co_shot (tl_cores t ! me)"
  using assms
  by (cases l) (auto simp: shot_step_def service_step_def Let_def split: if_splits shot.splits list.splits service.splits)

end
