(* ===== verification/Tlb_Properties.thy ===== *)
theory Tlb_Properties
  imports Tlb_Steps "HOL-Library.Code_Target_Nat"
begin

text \<open>
  What a shootdown promises over every schedule of the cores: an answer of true means that no core
  holds a translation of a frame that was unmapped when the call began and that the caller's own core
  had invalidated.
\<close>

section \<open>Counting the answers\<close>

definition others :: "nat \<Rightarrow> nat \<Rightarrow> nat" where
  "others me m = length (filter (\<lambda>c. c \<noteq> me) [0 ..< m])"

definition answers_to :: "nat \<Rightarrow> nat \<Rightarrow> nat list \<Rightarrow> nat \<Rightarrow> nat" where
  "answers_to me g ack m = length (filter (\<lambda>c. c \<noteq> me \<and> g \<le> ack ! c) [0 ..< m])"

lemma others_Suc [simp]: "others me (Suc m) = (if m = me then others me m else others me m + 1)" "others me 0 = 0"
  by (simp_all add: others_def)

lemma answers_to_Suc [simp]:
  "answers_to me g ack (Suc m) = (if m \<noteq> me \<and> g \<le> ack ! m then answers_to me g ack m + 1 else answers_to me g ack m)"
  "answers_to me g ack 0 = 0"
  by (simp_all add: answers_to_def)

lemma answers_to_le: "answers_to me g ack m \<le> others me m"
  by (induction m) auto

lemma answers_to_mono:
  assumes "\<forall>c. ack ! c \<le> ack' ! c"
  shows "answers_to me g ack m \<le> answers_to me g ack' m"
proof (induction m)
  case (Suc m)
  have "g \<le> ack ! m \<Longrightarrow> g \<le> ack' ! m"
    using assms le_trans by blast
  with Suc show ?case
    by auto
qed simp

lemma answers_to_all:
  assumes "others me m \<le> answers_to me g ack m" "c < m" "c \<noteq> me"
  shows "g \<le> ack ! c"
  using assms
proof (induction m)
  case (Suc m)
  with answers_to_le [of me g ack m] show ?case
    by (cases "c = m") (auto split: if_splits)
qed simp

lemma acknowledged_answers: "acknowledged cpus me g ack = answers_to me g ack (min cpus MAX_CPUS)"
  by (simp add: acknowledged_def answers_to_def conj_commute)

section \<open>One call of the shootdown\<close>

fun phase_ok :: "nat \<Rightarrow> nat \<Rightarrow> tlb \<Rightarrow> shot \<Rightarrow> bool" where
  "phase_ok phys me t Resting \<longleftrightarrow> False"
| "phase_ok phys me t Started \<longleftrightarrow> True"
| "phase_ok phys me t Claiming \<longleftrightarrow> cpu_count t \<le> MAX_CPUS"
| "phase_ok phys me t Numbering \<longleftrightarrow> cpu_count t \<le> MAX_CPUS"
| "phase_ok phys me t (Publishing g k cpu) \<longleftrightarrow>
     cpu_count t \<le> MAX_CPUS \<and> cover g phys me t \<and> cpu \<le> cpu_count t \<and> k = others me cpu"
| "phase_ok phys me t (Notifying g k cpu) \<longleftrightarrow>
     cpu_count t \<le> MAX_CPUS \<and> cover g phys me t \<and> k = others me (cpu_count t)"
| "phase_ok phys me t (Polling g k spins cpu n) \<longleftrightarrow>
     cpu_count t \<le> MAX_CPUS \<and> cover g phys me t \<and> cpu \<le> cpu_count t \<and> k = others me (cpu_count t) \<and>
     n \<le> answers_to me g (tl_ack t) cpu"
| "phase_ok phys me t (Releasing b) \<longleftrightarrow> (b \<longrightarrow> clean phys t)"
| "phase_ok phys me t (Answered b) \<longleftrightarrow> (b \<longrightarrow> clean phys t)"

definition watch :: "nat \<Rightarrow> nat \<Rightarrow> tlb \<Rightarrow> bool" where
  "watch phys me t \<longleftrightarrow> me < cpu_count t \<and> phys \<notin> tl_mapped t \<and> \<not> holds t me phys \<and> phase_ok phys me t (co_shot (tl_cores t ! me))"

lemma watch_other:
  assumes ok: "tlb_ok t" and watch: "watch phys me t" and exec: "tlb_exec l t = Some t'"
    and l: "l \<noteq> MapFrame phys" "l \<noteq> Call me" "l \<noteq> Shot me"
  shows "watch phys me t'"
proof -
  have me: "me < cpu_count t" and un: "phys \<notin> tl_mapped t" "\<not> holds t me phys"
    using watch by (simp_all add: watch_def)
  note kept = exec_cpu_count [OF exec] exec_mapped [OF exec un(1) l(1)] exec_shot_other [OF exec me l(2,3)]
  have "\<not> holds t' me phys"
    using exec_holds [OF exec un(1) me] un(2) by blast
  moreover have "answers_to me g (tl_ack t) cpu \<le> answers_to me g (tl_ack t') cpu" for g cpu
    using exec_ack [OF ok exec] by (intro answers_to_mono) blast
  ultimately show ?thesis
    using watch me kept exec_cover [OF ok _ exec l(1)] exec_clean [OF _ exec l(1)] unfolding watch_def
    by (cases "co_shot (tl_cores t ! me)") (auto intro: le_trans)
qed

lemma all_answered:
  assumes ok: "tlb_ok t" and cover: "cover g phys me t" and cpus: "cpu_count t \<le> MAX_CPUS"
    and all: "others me (cpu_count t) \<le> answers_to me g (tl_ack t) (cpu_count t)"
  shows "clean phys t"
proof -
  have "flushed g me t c" if "c < cpu_count t" for c
    using answers_to_all [OF all that] that cpus by (auto simp: flushed_def)
  with cover show ?thesis
    by (simp add: cover_def clean_def)
qed

lemma go_holds [simp]: "me < cpu_count t \<Longrightarrow> c < cpu_count t \<Longrightarrow> holds (go me s t) c phys = holds t c phys"
  by (simp add: holds_def)

lemma field_holds [simp]:
  "holds (t\<lparr>tl_in_flight := b\<rparr>) c phys = holds t c phys" "holds (t\<lparr>tl_request := r\<rparr>) c phys = holds t c phys"
  "holds (t\<lparr>tl_pending := ps\<rparr>) c phys = holds t c phys" "holds (t\<lparr>tl_wakes := ws\<rparr>) c phys = holds t c phys"
  "holds (t\<lparr>tl_reported := b\<rparr>) c phys = holds t c phys"
  "c < cpu_count t \<Longrightarrow> holds (call_service me t) c phys = holds t c phys"
  by (simp_all add: holds_def)

lemma go_flushed [simp]: "me < cpu_count t \<Longrightarrow> c < cpu_count t \<Longrightarrow> flushed g who (go me s t) c = flushed g who t c"
  by (simp add: flushed_def)

lemma field_flushed [simp]:
  "flushed g who (t\<lparr>tl_request := r\<rparr>) c = flushed g who t c" "flushed g who (t\<lparr>tl_pending := ps\<rparr>) c = flushed g who t c"
  "flushed g who (t\<lparr>tl_wakes := ws\<rparr>) c = flushed g who t c"
  "c < cpu_count t \<Longrightarrow> flushed g who (call_service me t) c = flushed g who t c"
  by (simp_all add: flushed_def)

lemma go_clean [simp]: "me < cpu_count t \<Longrightarrow> clean phys (go me s t) = clean phys t"
  unfolding clean_def by (simp cong: all_cong1 imp_cong)

lemma go_cover [simp]: "me < cpu_count t \<Longrightarrow> cover g phys who (go me s t) = cover g phys who t"
  unfolding cover_def by (simp cong: all_cong1 imp_cong)

lemma field_clean [simp]:
  "clean phys (t\<lparr>tl_in_flight := b\<rparr>) = clean phys t" "clean phys (call_service me t) = clean phys t"
  unfolding clean_def by (simp_all cong: all_cong1 imp_cong)

lemma field_cover [simp]:
  "cover g phys who (t\<lparr>tl_request := r\<rparr>) = cover g phys who t" "cover g phys who (t\<lparr>tl_pending := ps\<rparr>) = cover g phys who t"
  "cover g phys who (t\<lparr>tl_wakes := ws\<rparr>) = cover g phys who t" "cover g phys who (call_service me t) = cover g phys who t"
  unfolding cover_def by (simp_all cong: all_cong1 imp_cong)

lemma single_core_clean:
  assumes "watch phys me t" "cpu_count t \<le> 1"
  shows "clean phys t"
proof -
  have "c = me" if "c < cpu_count t" for c
    using assms that by (simp add: watch_def)
  with assms(1) show ?thesis
    by (auto simp: watch_def clean_def)
qed

lemma go_phase: "phase_ok phys me (go me s t) s' = phase_ok phys me t s'" if "me < cpu_count t"
  using that by (cases s') simp_all

text \<open>A step of the call leads to the phase it enters, in a state whose fields it has changed.\<close>

lemma watch_go:
  assumes "me < cpu_count t" "phys \<notin> tl_mapped t" "\<not> holds t me phys" "phase_ok phys me t s"
  shows "watch phys me (go me s t)"
  using assms by (simp add: watch_def go_phase)

lemma watch_shot:
  assumes ok: "tlb_ok t" and watch: "watch phys me t" and room: "tl_request t < U64_MAX"
  shows "watch phys me (shot_step me t)"
proof -
  have me: "me < cpu_count t" and un: "phys \<notin> tl_mapped t" "\<not> holds t me phys" and at: "phase_ok phys me t (co_shot (tl_cores t ! me))"
    using watch by (simp_all add: watch_def)
  show ?thesis
  proof (cases "co_shot (tl_cores t ! me)")
    case Resting
    with at show ?thesis
      by simp
  next
    case Started
    with me un single_core_clean [OF watch] show ?thesis
      by (simp add: shot_step_def Let_def watch_go covers_every_core_def)
  next
    case Claiming
    with me un at watch show ?thesis
      by (simp add: shot_step_def Let_def watch_go watch_def [of _ _ "call_service me t"])
  next
    case Numbering
    have "cover (Suc (tl_request t)) phys me t"
      by (rule cover_start [OF ok un]) simp
    with Numbering at me un room show ?thesis
      by (simp add: shot_step_def Let_def watch_go)
  next
    case (Publishing g k cpu)
    with me un at show ?thesis
      by (cases "cpu < cpu_count t") (simp_all add: shot_step_def Let_def watch_go)
  next
    case (Notifying g k cpu)
    with me un at show ?thesis
      by (simp add: shot_step_def Let_def watch_go)
  next
    case (Polling g k spins cpu n)
    show ?thesis
    proof (cases "cpu < cpu_count t")
      case True
      with Polling me un at show ?thesis
        by (simp add: shot_step_def Let_def watch_go)
    next
      case False
      with Polling at have parts: "cover g phys me t" "cpu_count t \<le> MAX_CPUS"
        and "n = k \<Longrightarrow> others me (cpu_count t) \<le> answers_to me g (tl_ack t) (cpu_count t)"
        by auto
      from all_answered [OF ok parts this(3)] False Polling me un at show ?thesis
        by (simp add: shot_step_def Let_def watch_go)
    qed
  next
    case (Releasing b)
    with me un at show ?thesis
      by (simp add: shot_step_def Let_def watch_go)
  next
    case (Answered b)
    with watch show ?thesis
      by (simp add: shot_step_def Let_def)
  qed
qed

lemma watch_run:
  assumes "tlb_run ls t = Some t'" "tlb_ok t" "watch phys me t" "Call me \<notin> set ls" "MapFrame phys \<notin> set ls"
    "tl_request t + length ls \<le> U64_MAX"
  shows "watch phys me t' \<and> tlb_ok t'"
  using assms
proof (induction ls arbitrary: t)
  case (Cons l ls)
  then obtain t1 where one: "tlb_exec l t = Some t1" "tlb_run ls t1 = Some t'"
    by (auto split: option.splits)
  have room: "tl_request t < U64_MAX" "tl_request t1 + length ls \<le> U64_MAX"
    using Cons.prems(6) exec_request [OF one(1)] by simp_all
  have "watch phys me t1"
  proof (cases "l = Shot me")
    case True
    with one(1) have "t1 = shot_step me t"
      by (simp split: if_splits)
    with watch_shot [OF Cons.prems(2,3) room(1)] show ?thesis
      by simp
  next
    case False
    show ?thesis
      by (rule watch_other [OF Cons.prems(2,3) one(1) _ _ False]) (use Cons.prems(4,5) in auto)
  qed
  with Cons.IH [OF one(2) ok_exec [OF Cons.prems(2) one(1) room(1)]] Cons.prems(4,5) room(2) show ?case
    by simp
qed simp

lemma ok_run:
  assumes "tlb_run ls t = Some t'" "tlb_ok t" "tl_request t + length ls \<le> U64_MAX"
  shows "tlb_ok t'"
  using assms
proof (induction ls arbitrary: t)
  case (Cons l ls)
  then obtain t1 where one: "tlb_exec l t = Some t1" "tlb_run ls t1 = Some t'"
    by (auto split: option.splits)
  have "tl_request t < U64_MAX" "tl_request t1 + length ls \<le> U64_MAX"
    using Cons.prems(3) exec_request [OF one(1)] by simp_all
  with Cons.IH [OF one(2) ok_exec [OF Cons.prems(2) one(1)]] show ?case
    by simp
qed simp

section \<open>Property\<close>

text \<open>
  C6: A completed shootdown reaches every core. Take any state the protocol keeps consistent in which a
  core has just called \<^verbatim>\<open>shootdown\<close>, and a frame that is unmapped and that the calling core does not
  hold. However the loads, stores, flushes, interrupts and other requests of the cores interleave from
  there, if the call answers true then no online core holds a translation of the frame, provided that
  nobody maps it meanwhile and the request counter has room for the steps taken.
\<close>

theorem completed_shootdown_reaches_every_core:
  assumes "tlb_ok t" "me < cpu_count t" "co_shot (tl_cores t ! me) = Started"
    and "phys \<notin> tl_mapped t" "phys \<notin> co_held (tl_cores t ! me)"
    and "tlb_run ls t = Some t'" "Call me \<notin> set ls" "MapFrame phys \<notin> set ls" "tl_request t + length ls \<le> U64_MAX"
    and "co_shot (tl_cores t' ! me) = Answered True"
  shows "tlb_ok t' \<and> (\<forall>c < cpu_count t'. phys \<notin> co_held (tl_cores t' ! c))"
proof -
  have "watch phys me t"
    using assms(2-5) by (simp add: watch_def holds_def)
  from watch_run [OF assms(6,1) this assms(7-9)] assms(10) show ?thesis
    by (auto simp: watch_def clean_def holds_def)
qed

text \<open>
  Two cores: core 1 fills its buffer from a mapping that core 0 takes down, and core 0 shoots down while
  core 1 answers the interrupt.
\<close>

definition sample_unmapped :: tlb where
  "sample_unmapped = the (tlb_run [MapFrame 4096, FillEntry 1 4096, UnmapFrame 0 4096, Call 0] (tlb_new 2))"

definition sample_answers :: "label list" where
  "sample_answers = replicate 10 (Shot 0) @ [Interrupt 1] @ replicate 4 (Serve 1) @ replicate 3 (Shot 0)"

lemma sample_unmapped_ok: "tlb_ok sample_unmapped"
proof -
  let ?ls = "[MapFrame 4096, FillEntry 1 4096, UnmapFrame 0 4096, Call 0]"
  have "tlb_run ?ls (tlb_new 2) = Some sample_unmapped"
    by code_simp
  moreover have "tl_request (tlb_new 2) + length ?ls \<le> U64_MAX"
    by (simp add: tlb_new_def U64_MAX_def)
  ultimately show ?thesis
    using ok_run [OF _ tlb_new_ok] by blast
qed

theorem completed_shootdown_reaches_every_core_witness:
  "\<exists>t'. 4096 \<in> co_held (tl_cores sample_unmapped ! 1) \<and> tlb_run sample_answers sample_unmapped = Some t' \<and>
     co_shot (tl_cores t' ! 0) = Answered True \<and> (\<forall>c < 2. 4096 \<notin> co_held (tl_cores t' ! c))"
proof -
  obtain t' where run: "tlb_run sample_answers sample_unmapped = Some t'"
    and "co_shot (tl_cores t' ! 0) = Answered True \<and> cpu_count t' = 2"
  proof
    show "tlb_run sample_answers sample_unmapped = Some (the (tlb_run sample_answers sample_unmapped))"
      by code_simp
    show "co_shot (tl_cores (the (tlb_run sample_answers sample_unmapped)) ! 0) = Answered True \<and>
        cpu_count (the (tlb_run sample_answers sample_unmapped)) = 2"
      by code_simp
  qed
  moreover have "0 < cpu_count sample_unmapped" "co_shot (tl_cores sample_unmapped ! 0) = Started"
    "4096 \<notin> tl_mapped sample_unmapped" "4096 \<notin> co_held (tl_cores sample_unmapped ! 0)"
    "4096 \<in> co_held (tl_cores sample_unmapped ! 1)" "Call 0 \<notin> set sample_answers" "MapFrame 4096 \<notin> set sample_answers"
    "tl_request sample_unmapped + length sample_answers \<le> U64_MAX"
    by code_simp+
  ultimately show ?thesis
    using completed_shootdown_reaches_every_core [OF sample_unmapped_ok _ _ _ _ run] by auto
qed

end
