(* ===== verification/Drains.thy ===== *)
theory Drains
  imports Tlb_Properties Memory "HOL-Library.Code_Target_Nat"
begin

text \<open>
  The drain of the quarantine (\<^verbatim>\<open>drain_quarantine\<close> in \<^verbatim>\<open>src/src/kernel/mem/frame/mod.rs\<close>) as it interleaves
  with the other cores. The queue is behind a lock that a drain takes once to look and once per batch,
  and never holds across the shootdown or a release, so other cores retire frames and drain in between.
  The shootdown inside it is the one of \<open>Tlb\<close>, step by step. A frame in the queue or in a batch belongs
  to the quarantine: nobody maps it.
\<close>

section \<open>State\<close>

datatype drain = NoDrain | Checking | Shooting | Taking | Freeing "nat list"

record drains =
  dr_tlb :: tlb
  dr_queue :: "nat list"
  dr_cores :: "drain list"
  dr_released :: "nat list"

definition drains_new :: "nat \<Rightarrow> drains" where
  "drains_new cpus = \<lparr>dr_tlb = tlb_new cpus, dr_queue = [], dr_cores = replicate cpus NoDrain, dr_released = []\<rparr>"

definition to_drain :: "nat \<Rightarrow> drain \<Rightarrow> drains \<Rightarrow> drains" where
  "to_drain me s d = d\<lparr>dr_cores := (dr_cores d)[me := s]\<rparr>"

fun batch_of :: "drain \<Rightarrow> nat list" where
  "batch_of (Freeing batch) = batch"
| "batch_of _ = []"

definition quarantined :: "drains \<Rightarrow> nat \<Rightarrow> bool" where
  "quarantined d phys \<longleftrightarrow> phys \<in> set (dr_queue d) \<or> list_ex (\<lambda>s. phys \<in> set (batch_of s)) (dr_cores d)"

section \<open>Steps\<close>

definition drain_step :: "nat \<Rightarrow> drains \<Rightarrow> drains option" where
  "drain_step me d =
     (case dr_cores d ! me of
        NoDrain \<Rightarrow> None
      | Checking \<Rightarrow>
          (if dr_queue d = [] then Some (to_drain me NoDrain d)
           else map_option (\<lambda>t. (to_drain me Shooting d)\<lparr>dr_tlb := t\<rparr>) (tlb_exec (Call me) (dr_tlb d)))
      | Shooting \<Rightarrow>
          (case co_shot (tl_cores (dr_tlb d) ! me) of
             Answered True \<Rightarrow> Some (to_drain me Taking d)
           | Answered False \<Rightarrow> Some (to_drain me NoDrain d)
           | _ \<Rightarrow> None)
      | Taking \<Rightarrow>
          (case take_into 64 (dr_queue d) of
             (batch, q) \<Rightarrow>
               if batch = [] then Some (to_drain me NoDrain d)
               else Some ((to_drain me (Freeing batch) d)\<lparr>dr_queue := q\<rparr>))
      | Freeing [] \<Rightarrow> Some (to_drain me Taking d)
      | Freeing (phys # batch) \<Rightarrow> Some ((to_drain me (Freeing batch) d)\<lparr>dr_released := dr_released d @ [phys]\<rparr>))"

datatype act = Machine label | Retire nat nat | Drain nat | DrainStep nat

definition in_thread :: "nat \<Rightarrow> drains \<Rightarrow> bool" where
  "in_thread me d \<longleftrightarrow> me < cpu_count (dr_tlb d) \<and> me < length (dr_cores d) \<and> co_service (tl_cores (dr_tlb d) ! me) = []"

definition machine_allowed :: "label \<Rightarrow> drains \<Rightarrow> bool" where
  "machine_allowed l d \<longleftrightarrow>
     (case l of
        Call me \<Rightarrow> me < length (dr_cores d) \<and> dr_cores d ! me = NoDrain
      | MapFrame phys \<Rightarrow> \<not> quarantined d phys
      | _ \<Rightarrow> True)"

fun drains_exec :: "act \<Rightarrow> drains \<Rightarrow> drains option" where
  "drains_exec (Machine l) d =
     (if machine_allowed l d then map_option (\<lambda>t. d\<lparr>dr_tlb := t\<rparr>) (tlb_exec l (dr_tlb d)) else None)"
| "drains_exec (Retire me phys) d =
     (if in_thread me d \<and> dr_cores d ! me = NoDrain \<and> phys \<notin> tl_mapped (dr_tlb d) \<and> \<not> quarantined d phys
      then (case push phys (dr_queue d) of (True, q) \<Rightarrow> Some (d\<lparr>dr_queue := q\<rparr>) | (False, _) \<Rightarrow> None)
      else None)"
| "drains_exec (Drain me) d =
     (if in_thread me d \<and> dr_cores d ! me = NoDrain \<and> at_rest (co_shot (tl_cores (dr_tlb d) ! me))
      then Some (to_drain me Checking d) else None)"
| "drains_exec (DrainStep me) d = (if in_thread me d then drain_step me d else None)"

fun drains_run :: "act list \<Rightarrow> drains \<Rightarrow> drains option" where
  "drains_run [] d = Some d"
| "drains_run (a # acts) d = (case drains_exec a d of None \<Rightarrow> None | Some d' \<Rightarrow> drains_run acts d')"

lemma to_drain_simps [simp]:
  "dr_tlb (to_drain me s d) = dr_tlb d" "dr_queue (to_drain me s d) = dr_queue d" "dr_released (to_drain me s d) = dr_released d"
  "length (dr_cores (to_drain me s d)) = length (dr_cores d)"
  "c < length (dr_cores d) \<Longrightarrow> dr_cores (to_drain me s d) ! c = (if c = me then s else dr_cores d ! c)"
  by (simp_all add: to_drain_def nth_list_update)

end
