(* ===== verification/Drain_Properties.thy ===== *)
theory Drain_Properties
  imports Drains
begin

text \<open>
  What a drain guarantees when other cores run beside it, and where its guarantee ends. A frame that was
  queued when the drain began, and that the draining core itself no longer holds, is held by no core
  when the drain releases it. Two schedules show that both conditions are needed.
\<close>

section \<open>One queued frame\<close>

fun drain_ok :: "nat \<Rightarrow> nat \<Rightarrow> tlb \<Rightarrow> drain \<Rightarrow> bool" where
  "drain_ok phys me t NoDrain \<longleftrightarrow> True"
| "drain_ok phys me t Checking \<longleftrightarrow> phys \<notin> tl_mapped t \<and> \<not> holds t me phys"
| "drain_ok phys me t Shooting \<longleftrightarrow> watch phys me t"
| "drain_ok phys me t Taking \<longleftrightarrow> clean phys t"
| "drain_ok phys me t (Freeing batch) \<longleftrightarrow> clean phys t"

definition follows :: "nat \<Rightarrow> nat \<Rightarrow> drains \<Rightarrow> bool" where
  "follows phys me d \<longleftrightarrow> tlb_ok (dr_tlb d) \<and> length (dr_cores d) = cpu_count (dr_tlb d) \<and> me < cpu_count (dr_tlb d) \<and>
     (quarantined d phys \<longrightarrow> drain_ok phys me (dr_tlb d) (dr_cores d ! me))"

lemma machine_drain_ok:
  assumes ok: "tlb_ok t" and me: "me < cpu_count t" and before: "drain_ok phys me t s" and exec: "tlb_exec l t = Some t'"
    and l: "l \<noteq> MapFrame phys" "s \<noteq> NoDrain \<Longrightarrow> l \<noteq> Call me" and room: "tl_request t < U64_MAX"
  shows "drain_ok phys me t' s"
proof (cases s)
  case NoDrain
  then show ?thesis
    by simp
next
  case Checking
  with before exec_mapped [OF exec _ l(1)] exec_holds [OF exec _ me] show ?thesis
    by auto
next
  case Shooting
  then have watch: "watch phys me t" and call: "l \<noteq> Call me"
    using before l(2) by simp_all
  show ?thesis
  proof (cases "l = Shot me")
    case True
    with exec have "t' = shot_step me t"
      by (simp split: if_splits)
    with watch_shot [OF ok watch room] Shooting show ?thesis
      by simp
  next
    case False
    with watch_other [OF ok watch exec l(1) call] Shooting show ?thesis
      by simp
  qed
qed (use before exec_clean [OF _ exec l(1)] in auto)

lemma to_drain_quarantined:
  assumes "quarantined (to_drain me s d) phys" "set (batch_of s) \<subseteq> set (batch_of (dr_cores d ! me)) \<union> set (dr_queue d)" "me < length (dr_cores d)"
  shows "quarantined d phys"
proof (cases "phys \<in> set (dr_queue d)")
  case False
  then obtain c where "c < length (dr_cores d)" "phys \<in> set (batch_of (dr_cores (to_drain me s d) ! c))"
    using assms(1) by (auto simp: quarantined_def list_ex_length)
  then have "\<exists>c < length (dr_cores d). phys \<in> set (batch_of (dr_cores d ! c))"
    using assms(2,3) False by (auto split: if_splits)
  then show ?thesis
    by (auto simp: quarantined_def list_ex_length)
qed (simp add: quarantined_def)

lemma take_into_set: "take_into n q = (batch, q') \<Longrightarrow> set batch \<subseteq> set q \<and> set q' \<subseteq> set q"
  by (auto simp: take_into_def Let_def dest: in_set_takeD in_set_dropD)

lemma drain_step_quarantined:
  assumes "drain_step c d = Some d'" "c < length (dr_cores d)" "quarantined d' phys"
  shows "quarantined d phys"
proof -
  have shrink: "quarantined (e\<lparr>dr_queue := q\<rparr>) phys \<Longrightarrow> set q \<subseteq> set (dr_queue e) \<Longrightarrow> quarantined e phys" for e q
    by (auto simp: quarantined_def)
  have same: "quarantined (e\<lparr>dr_tlb := t\<rparr>) phys = quarantined e phys" "quarantined (e\<lparr>dr_released := r\<rparr>) phys = quarantined e phys" for e t r
    by (simp_all add: quarantined_def)
  note low = to_drain_quarantined [OF _ _ assms(2)]
  show ?thesis
  proof (cases "dr_cores d ! c")
    case Taking
    obtain batch q where take: "take_into 64 (dr_queue d) = (batch, q)"
      by fastforce
    with Taking assms(1) have "d' = to_drain c NoDrain d \<or> d' = (to_drain c (Freeing batch) d)\<lparr>dr_queue := q\<rparr>"
      by (auto simp: drain_step_def split: if_splits)
    then have "quarantined (to_drain c NoDrain d) phys \<or> quarantined (to_drain c (Freeing batch) d) phys"
      using assms(3) shrink [where e = "to_drain c (Freeing batch) d" and q = q] take_into_set [OF take] by auto
    with low [of NoDrain phys] low [of "Freeing batch" phys] take_into_set [OF take] show ?thesis
      by auto
  next
    case (Freeing batch)
    with assms(1,3) have "\<exists>s. quarantined (to_drain c s d) phys \<and> set (batch_of s) \<subseteq> set batch"
      by (cases batch) (auto simp: drain_step_def same)
    with low Freeing show ?thesis
      by auto
  qed (use assms(1,3) low in \<open>auto simp: drain_step_def same split: if_splits shot.splits bool.splits\<close>)
qed

lemma drain_step_other:
  assumes "drain_step c d = Some d'" "c < length (dr_cores d)" "me < length (dr_cores d)" "c \<noteq> me"
  shows "dr_cores d' ! me = dr_cores d ! me \<and> length (dr_cores d') = length (dr_cores d)"
  using assms
  by (auto simp: drain_step_def split: drain.splits if_splits shot.splits bool.splits list.splits prod.splits)

lemma drain_step_tlb:
  assumes "drain_step c d = Some d'"
  shows "dr_tlb d' = dr_tlb d \<or> tlb_exec (Call c) (dr_tlb d) = Some (dr_tlb d') \<and> dr_cores d ! c = Checking"
  using assms
  by (auto simp del: tlb_exec.simps simp: drain_step_def split: drain.splits if_splits shot.splits bool.splits list.splits prod.splits)

lemma drains_request:
  assumes "drains_exec a d = Some d'"
  shows "tl_request (dr_tlb d') \<le> tl_request (dr_tlb d) + 1"
proof (cases a)
  case (Machine l)
  with assms exec_request show ?thesis
    by (auto split: if_splits)
next
  case (DrainStep c)
  with assms drain_step_tlb [of c d d'] exec_request [of "Call c" "dr_tlb d" "dr_tlb d'"] show ?thesis
    by (auto simp del: tlb_exec.simps split: if_splits)
qed (use assms in \<open>auto simp: push_def split: if_splits\<close>)

lemma drain_step_me:
  assumes step: "drain_step me d = Some d'" and follows: "follows phys me d" and old: "quarantined d phys"
    and queue: "dr_cores d ! me = Checking \<Longrightarrow> in_thread me d"
  shows "drain_ok phys me (dr_tlb d') (dr_cores d' ! me)"
proof -
  have me: "me < cpu_count (dr_tlb d)" "me < length (dr_cores d)" and before: "drain_ok phys me (dr_tlb d) (dr_cores d ! me)"
    using follows old by (simp_all add: follows_def)
  show ?thesis
  proof (cases "dr_cores d ! me")
    case Checking
    show ?thesis
    proof (cases "dr_queue d = []")
      case True
      with Checking step me show ?thesis
        by (auto simp: drain_step_def)
    next
      case False
      with Checking step have "dr_tlb d' = go me Started (dr_tlb d)" "dr_cores d' ! me = Shooting"
        using me by (auto simp: drain_step_def split: if_splits)
      moreover have "watch phys me (go me Started (dr_tlb d))"
        using before Checking me by (intro watch_go) simp_all
      ultimately show ?thesis
        by simp
    qed
  next
    case Shooting
    with before step me show ?thesis
      by (auto simp: drain_step_def watch_def split: shot.splits bool.splits)
  next
    case Taking
    with before step me show ?thesis
      by (auto simp: drain_step_def split: if_splits prod.splits)
  next
    case (Freeing batch)
    with before step me show ?thesis
      by (cases batch) (auto simp: drain_step_def)
  qed (use step in \<open>simp add: drain_step_def\<close>)
qed

lemma follows_exec:
  assumes follows: "follows phys me d" and exec: "drains_exec a d = Some d'" and room: "tl_request (dr_tlb d) < U64_MAX"
    and a: "\<forall>c. a \<noteq> Retire c phys" "a \<noteq> Drain me"
  shows "follows phys me d'"
proof -
  have ok: "tlb_ok (dr_tlb d)" and len: "length (dr_cores d) = cpu_count (dr_tlb d)" and me: "me < cpu_count (dr_tlb d)"
    and inv: "quarantined d phys \<Longrightarrow> drain_ok phys me (dr_tlb d) (dr_cores d ! me)"
    using follows by (auto simp: follows_def)
  show ?thesis
  proof (cases a)
    case (Machine l)
    then obtain t where t: "tlb_exec l (dr_tlb d) = Some t" "d' = d\<lparr>dr_tlb := t\<rparr>" and allowed: "machine_allowed l d"
      using exec by (auto split: if_splits)
    have "drain_ok phys me t (dr_cores d ! me)" if old: "quarantined d phys"
    proof (rule machine_drain_ok [OF ok me inv [OF old] t(1) _ _ room])
      show "l \<noteq> MapFrame phys" "dr_cores d ! me \<noteq> NoDrain \<Longrightarrow> l \<noteq> Call me"
        using allowed old by (auto simp: machine_allowed_def)
    qed
    then show ?thesis
      using t(2) ok_exec [OF ok t(1) room] exec_cpu_count [OF t(1)] len me by (auto simp: follows_def quarantined_def)
  next
    case (Retire c q)
    then have "q \<noteq> phys" "d' = d\<lparr>dr_queue := dr_queue d @ [q]\<rparr>"
      using exec a(1) by (auto simp: push_def split: if_splits)
    with follows show ?thesis
      by (auto simp: follows_def quarantined_def)
  next
    case (Drain c)
    with exec a(2) have c: "c \<noteq> me" "c < length (dr_cores d)" "dr_cores d ! c = NoDrain" "d' = to_drain c Checking d"
      by (auto simp: in_thread_def split: if_splits)
    have "quarantined d phys" if "quarantined d' phys"
      using that to_drain_quarantined [of c Checking d phys] c(2,4) by simp
    with c follows len me show ?thesis
      by (auto simp: follows_def)
  next
    case (DrainStep c)
    with exec have step: "drain_step c d = Some d'" and c: "c < length (dr_cores d)" and thread: "in_thread c d"
      by (auto simp: in_thread_def split: if_splits)
    note old = drain_step_quarantined [OF step c]
    have tlb: "tlb_ok (dr_tlb d') \<and> cpu_count (dr_tlb d') = cpu_count (dr_tlb d)"
      using drain_step_tlb [OF step] ok ok_exec [OF ok _ room] exec_cpu_count by metis
    show ?thesis
    proof (cases "c = me")
      case True
      have "length (dr_cores d') = length (dr_cores d)"
        using step by (auto simp del: tlb_exec.simps simp: drain_step_def split: drain.splits if_splits shot.splits bool.splits list.splits prod.splits)
      with True tlb len me drain_step_me [OF step [unfolded True] follows] old thread show ?thesis
        by (auto simp: follows_def)
    next
      case False
      have "drain_ok phys me (dr_tlb d') (dr_cores d ! me)" if now: "quarantined d' phys"
        using drain_step_tlb [OF step] machine_drain_ok [OF ok me inv [OF old [OF now]] _ _ _ room, of "Call c" "dr_tlb d'"] inv [OF old [OF now]] False
        by auto
      with drain_step_other [OF step c] len me tlb False show ?thesis
        by (auto simp: follows_def)
    qed
  qed
qed

lemma follows_run:
  assumes "drains_run acts d = Some d'" "follows phys me d" "tl_request (dr_tlb d) + length acts \<le> U64_MAX"
    "\<forall>c. Retire c phys \<notin> set acts" "Drain me \<notin> set acts"
  shows "follows phys me d'"
  using assms
proof (induction acts arbitrary: d)
  case (Cons a acts)
  then obtain d1 where one: "drains_exec a d = Some d1" "drains_run acts d1 = Some d'"
    by (auto split: option.splits)
  have room: "tl_request (dr_tlb d) < U64_MAX" "tl_request (dr_tlb d1) \<le> tl_request (dr_tlb d) + 1"
    using Cons.prems(3) drains_request [OF one(1)] by simp_all
  have "follows phys me d1"
    by (rule follows_exec [OF Cons.prems(2) one(1) room(1)]) (use Cons.prems(4,5) in auto)
  with Cons.IH [OF one(2)] Cons.prems(3,4,5) room(2) show ?case
    by auto
qed simp

section \<open>Properties\<close>

text \<open>
  C8: A drain releases what was queued only when no core holds it. Let a core begin a drain with a frame
  in the queue that is unmapped and that this core does not hold, and let the cores run in any order:
  requests, interrupts, mappings, retirements of other frames and drains by other cores. When the drain
  comes to release the frame, no core holds a translation of it.
\<close>

theorem drained_frames_are_held_by_no_core:
  assumes "tlb_ok (dr_tlb d)" "length (dr_cores d) = cpu_count (dr_tlb d)" "me < cpu_count (dr_tlb d)"
    and "dr_cores d ! me = Checking" "phys \<in> set (dr_queue d)"
    and "phys \<notin> tl_mapped (dr_tlb d)" "phys \<notin> co_held (tl_cores (dr_tlb d) ! me)"
    and "drains_run acts d = Some d'" "\<forall>c. Retire c phys \<notin> set acts" "Drain me \<notin> set acts"
    and "tl_request (dr_tlb d) + length acts \<le> U64_MAX"
    and "dr_cores d' ! me = Freeing (phys # batch)"
  shows "\<forall>c < cpu_count (dr_tlb d'). phys \<notin> co_held (tl_cores (dr_tlb d') ! c)"
proof -
  have "follows phys me d"
    using assms(1-7) by (simp add: follows_def holds_def)
  then have "follows phys me d'"
    by (rule follows_run [OF assms(8) _ assms(11,9,10)])
  moreover have "quarantined d' phys"
    using assms(12) calculation by (auto simp: quarantined_def follows_def list_ex_length)
  ultimately show ?thesis
    using assms(12) by (auto simp: follows_def clean_def holds_def)
qed

definition sample_drain :: drains where
  "sample_drain = the (drains_run [Machine (MapFrame 4096), Machine (FillEntry 1 4096), Machine (UnmapFrame 0 4096),
     Retire 0 4096, Drain 0] (drains_new 2))"

definition sample_drained :: "act list" where
  "sample_drained = DrainStep 0 # map Machine sample_answers @ [DrainStep 0, DrainStep 0]"

lemma sample_drain_tlb_ok: "tlb_ok (dr_tlb sample_drain)"
proof -
  let ?ls = "[MapFrame 4096, FillEntry 1 4096, UnmapFrame 0 4096]"
  have "tlb_run ?ls (tlb_new 2) = Some (dr_tlb sample_drain)"
    by code_simp
  moreover have "tl_request (tlb_new 2) + length ?ls \<le> U64_MAX"
    by (simp add: tlb_new_def U64_MAX_def)
  ultimately show ?thesis
    using ok_run [OF _ tlb_new_ok] by blast
qed

theorem drained_frames_are_held_by_no_core_witness:
  "\<exists>d'. drains_run sample_drained sample_drain = Some d' \<and> dr_cores d' ! 0 = Freeing [4096] \<and>
     4096 \<in> co_held (tl_cores (dr_tlb sample_drain) ! 1) \<and> (\<forall>c < 2. 4096 \<notin> co_held (tl_cores (dr_tlb d') ! c))"
proof -
  obtain d' where run: "drains_run sample_drained sample_drain = Some d'"
    and "dr_cores d' ! 0 = Freeing [4096]" "cpu_count (dr_tlb d') = 2"
  proof
    show "drains_run sample_drained sample_drain = Some (the (drains_run sample_drained sample_drain))"
      by code_simp
    show "dr_cores (the (drains_run sample_drained sample_drain)) ! 0 = Freeing [4096]"
      "cpu_count (dr_tlb (the (drains_run sample_drained sample_drain))) = 2"
      by code_simp+
  qed
  moreover have "length (dr_cores sample_drain) = cpu_count (dr_tlb sample_drain)" "0 < cpu_count (dr_tlb sample_drain)"
    "dr_cores sample_drain ! 0 = Checking" "4096 \<in> set (dr_queue sample_drain)" "4096 \<notin> tl_mapped (dr_tlb sample_drain)"
    "4096 \<notin> co_held (tl_cores (dr_tlb sample_drain) ! 0)" "4096 \<in> co_held (tl_cores (dr_tlb sample_drain) ! 1)"
    "Drain 0 \<notin> set sample_drained" "tl_request (dr_tlb sample_drain) + length sample_drained \<le> U64_MAX"
    by code_simp+
  moreover have "\<forall>c. Retire c 4096 \<notin> set sample_drained"
    by (simp add: sample_drained_def image_iff)
  ultimately show ?thesis
    using drained_frames_are_held_by_no_core [OF sample_drain_tlb_ok _ _ _ _ _ _ run] by auto
qed

text \<open>The schedules: a frame the draining core holds, and a frame retired after the answer.\<close>

definition own_core_schedule :: "act list" where
  "own_core_schedule =
     [Machine (MapFrame 4096), Machine (FillEntry 0 4096), Machine (UnmapFrame 1 4096), Retire 1 4096, Drain 0, DrainStep 0] @
     map Machine sample_answers @ [DrainStep 0, DrainStep 0, DrainStep 0]"

definition late_push_schedule :: "act list" where
  "late_push_schedule =
     [Machine (MapFrame 4096), Machine (MapFrame 8192), Machine (UnmapFrame 0 4096), Retire 0 4096, Drain 0, DrainStep 0] @
     map Machine (replicate 11 (Shot 0) @ [Interrupt 1] @ replicate 4 (Serve 1) @ [Interrupt 2] @ replicate 4 (Serve 2) @
       replicate 5 (Shot 0) @ [FillEntry 2 8192, UnmapFrame 1 8192]) @
     [Retire 1 8192, DrainStep 0, DrainStep 0, DrainStep 0, DrainStep 0]"

text \<open>
  Both conditions are needed. On two cores, a frame that core 1 unmaps and retires is released by a
  drain on core 0 after a completed shootdown while core 0 still holds it: the shootdown flushes every
  core but the one that asks, and the unmap invalidated only core 1. On three cores, a frame that core 1
  retires after the shootdown of core 0 has answered is taken by the same drain's loop and released
  while core 2 holds it, although core 0 does not.
\<close>

lemma drain_can_release_a_held_frame:
  "(\<exists>d. drains_run own_core_schedule (drains_new 2) = Some d \<and> co_shot (tl_cores (dr_tlb d) ! 0) = Answered True \<and>
      4096 \<in> set (dr_released d) \<and> 4096 \<in> co_held (tl_cores (dr_tlb d) ! 0)) \<and>
   (\<exists>d. drains_run late_push_schedule (drains_new 3) = Some d \<and> co_shot (tl_cores (dr_tlb d) ! 0) = Answered True \<and>
      8192 \<in> set (dr_released d) \<and> 8192 \<in> co_held (tl_cores (dr_tlb d) ! 2) \<and> 8192 \<notin> co_held (tl_cores (dr_tlb d) ! 0))"
proof (intro conjI exI)
  show "drains_run own_core_schedule (drains_new 2) = Some (the (drains_run own_core_schedule (drains_new 2)))"
    "co_shot (tl_cores (dr_tlb (the (drains_run own_core_schedule (drains_new 2)))) ! 0) = Answered True"
    "4096 \<in> set (dr_released (the (drains_run own_core_schedule (drains_new 2))))"
    "4096 \<in> co_held (tl_cores (dr_tlb (the (drains_run own_core_schedule (drains_new 2)))) ! 0)"
    by code_simp+
  show "drains_run late_push_schedule (drains_new 3) = Some (the (drains_run late_push_schedule (drains_new 3)))"
    "co_shot (tl_cores (dr_tlb (the (drains_run late_push_schedule (drains_new 3)))) ! 0) = Answered True"
    "8192 \<in> set (dr_released (the (drains_run late_push_schedule (drains_new 3))))"
    "8192 \<in> co_held (tl_cores (dr_tlb (the (drains_run late_push_schedule (drains_new 3)))) ! 2)"
    "8192 \<notin> co_held (tl_cores (dr_tlb (the (drains_run late_push_schedule (drains_new 3)))) ! 0)"
    by code_simp+
qed

end
