(* ===== verification/Va_Pool.thy ===== *)
theory Va_Pool
  imports Kernel_Prelude "HOL-Library.Code_Target_Nat"
begin

text \<open>
  The allocator of a window of virtual addresses (\<^verbatim>\<open>src/src/kernel/mem/vapool.rs\<close>): a bump cursor and a
  sorted list of released ranges, coalesced on every release. An answer of 0 is the failure of the
  source; whether the list can take one more entry is an argument of the release.
\<close>

definition VA_PAGE :: nat where "VA_PAGE = 4096"

record va_pool =
  va_next :: nat
  va_end :: nat
  va_free :: "(nat \<times> nat) list"

definition va_new :: "nat \<Rightarrow> nat \<Rightarrow> va_pool" where
  "va_new base stop = \<lparr>va_next = base, va_end = stop, va_free = []\<rparr>"

definition checked_next_multiple_of :: "nat \<Rightarrow> nat \<Rightarrow> nat option" where
  "checked_next_multiple_of n m = (if n mod m = 0 then Some n else checked_add n (m - n mod m))"

text \<open>The first-fit search; the answer is the list with the range taken out of it.\<close>

fun first_fit :: "nat \<Rightarrow> (nat \<times> nat) list \<Rightarrow> (nat \<times> (nat \<times> nat) list) option" where
  "first_fit len [] = None"
| "first_fit len ((base, flen) # rest) =
     (if len \<le> flen then Some (base, if flen = len then rest else (base + len, flen - len) # rest)
      else map_option (\<lambda>(b, rest'). (b, (base, flen) # rest')) (first_fit len rest))"

definition va_alloc :: "nat \<Rightarrow> va_pool \<Rightarrow> nat \<times> va_pool" where
  "va_alloc len p =
     (case checked_next_multiple_of len VA_PAGE of
        None \<Rightarrow> (0, p)
      | Some len \<Rightarrow>
          (if len = 0 then (0, p)
           else
             (case first_fit len (va_free p) of
                Some (base, free) \<Rightarrow> (base, p\<lparr>va_free := free\<rparr>)
              | None \<Rightarrow>
                  (case checked_add (va_next p) len of
                     None \<Rightarrow> (0, p)
                   | Some after \<Rightarrow>
                       (if va_end p < after then (0, p)
                        else (va_next p, p\<lparr>va_next := va_next p + len\<rparr>))))))"

definition insert_position :: "nat \<Rightarrow> (nat \<times> nat) list \<Rightarrow> nat" where
  "insert_position base free = partition_point (\<lambda>(b, _). b < base) free"

definition removed :: "nat \<Rightarrow> (nat \<times> nat) list \<Rightarrow> (nat \<times> nat) list" where
  "removed i xs = take i xs @ drop (Suc i) xs"

definition merge_right :: "nat \<Rightarrow> nat \<Rightarrow> (nat \<times> nat) list \<Rightarrow> nat \<times> (nat \<times> nat) list" where
  "merge_right base len free =
     (let pos = insert_position base free in
      if pos < length free \<and> base + len = fst (free ! pos) then (len + snd (free ! pos), removed pos free) else (len, free))"

definition merge_left :: "nat \<Rightarrow> nat \<Rightarrow> nat \<Rightarrow> (nat \<times> nat) list \<Rightarrow> nat \<times> nat \<times> (nat \<times> nat) list" where
  "merge_left pos base len free =
     (if 0 < pos \<and> fst (free ! (pos - 1)) + snd (free ! (pos - 1)) = base
      then (fst (free ! (pos - 1)), len + snd (free ! (pos - 1)), removed (pos - 1) free)
      else (base, len, free))"

definition va_release :: "bool \<Rightarrow> nat \<Rightarrow> nat \<Rightarrow> va_pool \<Rightarrow> va_pool" where
  "va_release reserved base len p =
     (case checked_next_multiple_of len VA_PAGE of
        None \<Rightarrow> p
      | Some len \<Rightarrow>
          (if checked_add base len = None \<or> len = 0 then p
           else
             (case merge_right base len (va_free p) of
                (len, free) \<Rightarrow>
                  (case merge_left (insert_position base (va_free p)) base len free of
                     (base, len, free) \<Rightarrow>
                       (if base + len = va_next p then p\<lparr>va_next := base, va_free := free\<rparr>
                        else if \<not> reserved then p\<lparr>va_free := free\<rparr>
                        else
                          (let pos = insert_position base free
                           in p\<lparr>va_free := take pos free @ (base, len) # drop pos free\<rparr>))))))"

section \<open>Available addresses\<close>

definition covers :: "nat \<times> nat \<Rightarrow> nat set" where
  "covers r = {fst r ..< fst r + snd r}"

definition available :: "va_pool \<Rightarrow> nat set" where
  "available p = (\<Union>r \<in> set (va_free p). covers r) \<union> {va_next p ..< va_end p}"

definition before :: "nat \<times> nat \<Rightarrow> nat \<times> nat \<Rightarrow> bool" where
  "before r r' \<longleftrightarrow> fst r + snd r < fst r'"

definition va_ok :: "nat \<Rightarrow> va_pool \<Rightarrow> bool" where
  "va_ok base p \<longleftrightarrow> 0 < base \<and> va_next p \<le> va_end p \<and> va_end p \<le> U64_MAX \<and> base mod VA_PAGE = 0 \<and> base \<le> va_next p \<and>
     va_next p mod VA_PAGE = 0 \<and> sorted_wrt before (va_free p) \<and>
     (\<forall>r \<in> set (va_free p). 0 < snd r \<and> base \<le> fst r \<and> fst r + snd r < va_next p \<and> fst r mod VA_PAGE = 0 \<and> snd r mod VA_PAGE = 0)"

lemma va_new_ok:
  "0 < base \<Longrightarrow> base \<le> stop \<Longrightarrow> stop \<le> U64_MAX \<Longrightarrow> base mod VA_PAGE = 0 \<Longrightarrow> va_ok base (va_new base stop)"
  "available (va_new base stop) = {base ..< stop}"
  by (simp_all add: va_ok_def va_new_def available_def)

lemma rounded:
  assumes "checked_next_multiple_of n m = Some k" "0 < m"
  shows "n \<le> k \<and> k < n + m \<and> k mod m = 0"
proof (cases "n mod m = 0")
  case False
  have parts: "m * (n div m) + n mod m = n" "n mod m < m"
    using assms(2) by simp_all
  have k: "k = n + (m - n mod m)"
    using assms(1) False by (simp add: checked_next_multiple_of_def)
  then have "k = m * (n div m + 1)"
    using parts unfolding distrib_left by linarith
  then have "k mod m = 0"
    by (simp only: mod_mult_self1_is_0)
  with k parts False show ?thesis
    by linarith
qed (use assms in \<open>auto simp: checked_next_multiple_of_def\<close>)

section \<open>Allocating\<close>

lemma first_fit_None: "first_fit len fs = None \<Longrightarrow> r \<in> set fs \<Longrightarrow> snd r < len"
  by (induction len fs rule: first_fit.induct) (auto split: if_splits)

text \<open>The range found is cut off the front of one entry.\<close>

lemma first_fit_Some:
  assumes "first_fit len fs = Some (b, fs')"
  shows "\<exists>L flen R. fs = L @ (b, flen) # R \<and> len \<le> flen \<and> fs' = L @ (if flen = len then R else (b + len, flen - len) # R)"
  using assms
proof (induction len fs arbitrary: fs' rule: first_fit.induct)
  case (2 len base flen rest)
  show ?case
  proof (cases "len \<le> flen")
    case True
    with 2(2) show ?thesis
      by (intro exI [of _ "[]"]) auto
  next
    case False
    with 2(2) obtain r where r: "first_fit len rest = Some (b, r)" "fs' = (base, flen) # r"
      by auto
    from 2(1) [OF False r(1)] obtain L fl R where
      "rest = L @ (b, fl) # R" "len \<le> fl" "r = L @ (if fl = len then R else (b + len, fl - len) # R)"
      by blast
    with r(2) show ?thesis
      by (intro exI [of _ "(base, flen) # L"]) auto
  qed
qed simp

end
