(* ===== verification/Va_Pool_Properties.thy ===== *)
theory Va_Pool_Properties
  imports Va_Pool
begin

text \<open>
  What the address allocator promises: the free list stays sorted, disjoint and fully coalesced below the
  cursor, a request takes exactly the range it answers out of the available addresses, a release puts
  exactly its range back, and so no two ranges that are out ever overlap.
\<close>

lemma VA_PAGE_pos [simp]: "0 < VA_PAGE"
  by (simp add: VA_PAGE_def)

section \<open>Allocating\<close>

definition pieces :: "(nat \<times> nat) list \<Rightarrow> nat set" where
  "pieces fs = (\<Union>r \<in> set fs. covers r)"

lemma pieces_simps [simp]: "pieces [] = {}" "pieces (r # fs) = covers r \<union> pieces fs" "pieces (fs @ fs') = pieces fs \<union> pieces fs'"
  by (auto simp: pieces_def)

lemma available_pieces: "available p = pieces (va_free p) \<union> {va_next p ..< va_end p}"
  by (simp add: available_def pieces_def)

lemma piece_apart:
  assumes "va_ok base p" "va_free p = L @ r # R"
  shows "covers r \<inter> (pieces L \<union> pieces R \<union> {va_next p ..< va_end p}) = {}"
proof -
  have "covers r \<inter> covers r' = {}" if "r' \<in> set L \<union> set R" for r'
    using assms that by (auto simp: va_ok_def sorted_wrt_append before_def covers_def)
  moreover have "covers r \<inter> {va_next p ..< va_end p} = {}"
    using assms by (auto simp: va_ok_def covers_def)
  ultimately show ?thesis
    by (auto simp: pieces_def)
qed

lemma first_fit_available:
  assumes ok: "va_ok base p" and fit: "first_fit k (va_free p) = Some (b, fs)" and k: "0 < k" "k mod VA_PAGE = 0"
  shows "va_ok base (p\<lparr>va_free := fs\<rparr>) \<and> {b ..< b + k} \<subseteq> available p \<and>
    available (p\<lparr>va_free := fs\<rparr>) = available p - {b ..< b + k} \<and> base \<le> b \<and> b mod VA_PAGE = 0 \<and> b + k \<le> va_next p"
proof -
  obtain L fl R where fs: "va_free p = L @ (b, fl) # R" "k \<le> fl" "fs = L @ (if fl = k then R else (b + k, fl - k) # R)"
    using first_fit_Some [OF fit] by blast
  let ?rest = "pieces L \<union> pieces R \<union> {va_next p ..< va_end p}"
  have entry: "0 < fl" "base \<le> b" "b + fl < va_next p" "b mod VA_PAGE = 0" "fl mod VA_PAGE = 0"
    using ok fs(1) by (auto simp: va_ok_def)
  have all: "available p = {b ..< b + fl} \<union> ?rest" "available (p\<lparr>va_free := fs\<rparr>) = {b + k ..< b + fl} \<union> ?rest"
    using fs by (auto simp: available_pieces covers_def)
  have "{b ..< b + fl} \<inter> ?rest = {}"
    using piece_apart [OF ok fs(1)] by (simp add: covers_def)
  moreover have "{b ..< b + k} \<subseteq> {b ..< b + fl}" "{b + k ..< b + fl} = {b ..< b + fl} - {b ..< b + k}"
    using fs(2) by auto
  ultimately have "available (p\<lparr>va_free := fs\<rparr>) = available p - {b ..< b + k}" "{b ..< b + k} \<subseteq> available p"
    unfolding all by blast+
  moreover have "(fl - k) mod VA_PAGE = 0"
    using fs(2) k(2) entry(5) by (metis dvd_diff_nat mod_0_imp_dvd mod_eq_0_iff_dvd)
  moreover have "(b + k) mod VA_PAGE = 0"
    using k(2) entry(4) by (simp add: mod_eq_0_iff_dvd)
  ultimately show ?thesis
    using ok fs entry k by (auto simp: va_ok_def sorted_wrt_append before_def)
qed

lemma va_alloc_spec:
  assumes ok: "va_ok base p" and alloc: "va_alloc len p = (b, p')"
  shows "va_ok base p' \<and> va_end p' = va_end p \<and>
    (if b = 0
     then p' = p \<and> (\<forall>k. checked_next_multiple_of len VA_PAGE = Some k \<longrightarrow>
            k = 0 \<or> (\<forall>r \<in> set (va_free p). snd r < k) \<and> va_end p - va_next p < k)
     else \<exists>k. checked_next_multiple_of len VA_PAGE = Some k \<and> 0 < k \<and> {b ..< b + k} \<subseteq> available p \<and>
            available p' = available p - {b ..< b + k} \<and> base \<le> b \<and> b mod VA_PAGE = 0 \<and> b + k \<le> va_next p')"
proof (cases "checked_next_multiple_of len VA_PAGE")
  case None
  with alloc ok show ?thesis
    by (simp add: va_alloc_def)
next
  case (Some k)
  have k: "k mod VA_PAGE = 0"
    using rounded [OF Some] by simp
  have base: "0 < base" "base \<le> va_next p" "va_next p \<le> va_end p" "va_end p \<le> U64_MAX" "va_next p mod VA_PAGE = 0"
    using ok by (simp_all add: va_ok_def)
  consider (zero) "k = 0" | (fit) x where "0 < k" "first_fit k (va_free p) = Some x" | (bump) "0 < k" "first_fit k (va_free p) = None"
    by (cases "first_fit k (va_free p)") auto
  then show ?thesis
  proof cases
    case zero
    with alloc ok Some show ?thesis
      by (simp add: va_alloc_def)
  next
    case (fit x)
    obtain c fs where x: "x = (c, fs)"
      by fastforce
    from first_fit_available [OF ok fit(2) [unfolded x] fit(1) k] fit alloc Some base x show ?thesis
      by (auto simp: va_alloc_def)
  next
    case bump
    note small = first_fit_None [OF bump(2)]
    show ?thesis
    proof (cases "va_next p + k \<le> va_end p")
      case True
      then have eq: "b = va_next p" "p' = p\<lparr>va_next := va_next p + k\<rparr>"
        using alloc Some bump base by (auto simp: va_alloc_def checked_add_def)
      have "(va_next p + k) mod VA_PAGE = 0"
        using k base(5) by (simp add: mod_eq_0_iff_dvd)
      with ok True have ok': "va_ok base p'"
        unfolding eq va_ok_def by (auto intro: less_le_trans)
      have low: "pieces (va_free p) \<subseteq> {..< va_next p}"
        using ok by (auto simp: va_ok_def pieces_def covers_def)
      have "available p' = available p - {b ..< b + k}"
        unfolding available_pieces eq using low True by (auto)
      moreover have "{b ..< b + k} \<subseteq> available p"
        unfolding available_pieces eq using True by auto
      ultimately show ?thesis
        using ok' Some bump(1) base eq by auto
    next
      case False
      then have "b = 0" "p' = p"
        using alloc Some bump base by (auto simp: va_alloc_def checked_add_def split: if_splits)
      with ok Some small False base show ?thesis
        by auto
    qed
  qed
qed

section \<open>Releasing\<close>

text \<open>What every entry of the list satisfies.\<close>

definition entry_ok :: "nat \<Rightarrow> nat \<Rightarrow> nat \<times> nat \<Rightarrow> bool" where
  "entry_ok base stop r \<longleftrightarrow> 0 < snd r \<and> base \<le> fst r \<and> fst r + snd r < stop \<and> fst r mod VA_PAGE = 0 \<and> snd r mod VA_PAGE = 0"

lemma removed_at: "removed (length L) (L @ r # R) = L @ R"
  by (simp add: removed_def)

lemma insert_position_split:
  assumes "\<forall>r \<in> set L. fst r < b" "\<forall>r \<in> set R. b \<le> fst r"
  shows "insert_position b (L @ R) = length L"
proof -
  have "takeWhile (\<lambda>(c, _). c < b) (L @ R) = L @ takeWhile (\<lambda>(c, _). c < b) R"
    by (rule takeWhile_append2) (use assms(1) in auto)
  moreover have "takeWhile (\<lambda>(c, _). c < b) R = []"
    using assms(2) by (cases R) auto
  ultimately show ?thesis
    by (simp add: insert_position_def partition_point_def)
qed

lemma merge_right_spec:
  assumes L: "\<forall>r \<in> set L. fst r < b" and R: "sorted_wrt before R" "\<forall>r \<in> set R. entry_ok base stop r \<and> b + k \<le> fst r"
    and k: "0 < k" "b + k \<le> stop" "k mod VA_PAGE = 0"
  obtains k2 R2 where "merge_right b k (L @ R) = (k2, L @ R2)" "k \<le> k2" "b + k2 \<le> stop" "k2 mod VA_PAGE = 0"
    "set R2 \<subseteq> set R" "sorted_wrt before R2" "\<forall>r \<in> set R2. b + k2 < fst r" "{b ..< b + k} \<union> pieces R = {b ..< b + k2} \<union> pieces R2"
proof -
  have pos: "insert_position b (L @ R) = length L"
    by (rule insert_position_split [OF L]) (use R(2) k(1) in auto)
  show thesis
  proof (cases "\<exists>len R'. R = (b + k, len) # R'")
    case True
    then obtain len R' where R': "R = (b + k, len) # R'"
      by blast
    then have len: "0 < len" "b + k + len < stop" "len mod VA_PAGE = 0"
      using R(2) by (simp_all add: entry_ok_def)
    show thesis
    proof (rule that [of "k + len" R'])
      show "merge_right b k (L @ R) = (k + len, L @ R')"
        using pos R' by (simp add: merge_right_def Let_def removed_at)
      show "\<forall>r \<in> set R'. b + (k + len) < fst r"
        using R(1) R' by (auto simp: before_def)
      show "{b ..< b + k} \<union> pieces R = {b ..< b + (k + len)} \<union> pieces R'"
        using R' by (auto simp: covers_def)
      show "(k + len) mod VA_PAGE = 0"
        using k(3) len(3) by (simp add: mod_eq_0_iff_dvd)
    qed (use R R' k len in auto)
  next
    case False
    then have far: "b + k < fst (hd R)" if "R \<noteq> []"
      using that R(2) by (cases R) (auto intro: le_neq_implies_less)
    have "\<forall>r \<in> set R. b + k < fst r"
      using far R(1) by (cases R) (auto simp: before_def)
    moreover have "merge_right b k (L @ R) = (k, L @ R)"
      using pos far by (cases R) (auto simp: merge_right_def Let_def)
    ultimately show thesis
      using that [of k R] R k by auto
  qed
qed

lemma merge_left_spec:
  assumes L: "sorted_wrt before L" "\<forall>r \<in> set L. entry_ok base stop r \<and> fst r + snd r \<le> b"
    and b: "base \<le> b" "b mod VA_PAGE = 0" "0 < k" "k mod VA_PAGE = 0"
  obtains b2 k2 L2 where "merge_left (length L) b k (L @ R) = (b2, k2, L2 @ R)" "b2 + k2 = b + k" "base \<le> b2" "0 < k2"
    "b2 mod VA_PAGE = 0" "k2 mod VA_PAGE = 0" "set L2 \<subseteq> set L" "sorted_wrt before L2" "\<forall>r \<in> set L2. fst r + snd r < b2"
    "pieces L \<union> {b ..< b + k} = pieces L2 \<union> {b2 ..< b2 + k2}"
proof (cases "\<exists>L' c. L = L' @ [(c, b - c)] \<and> c \<le> b")
  case True
  then obtain L' c where L': "L = L' @ [(c, b - c)]" "c \<le> b"
    by blast
  then have c: "0 < b - c" "base \<le> c" "c mod VA_PAGE = 0" "(b - c) mod VA_PAGE = 0"
    using L(2) by (simp_all add: entry_ok_def)
  show thesis
  proof (rule that [of c "k + (b - c)" L'])
    show "merge_left (length L) b k (L @ R) = (c, k + (b - c), L' @ R)"
      using L' removed_at [of L' "(c, b - c)" R] by (simp add: merge_left_def nth_append)
    show "\<forall>r \<in> set L'. fst r + snd r < c"
      using L(1) L' by (auto simp: sorted_wrt_append before_def)
    show "pieces L \<union> {b ..< b + k} = pieces L' \<union> {c ..< c + (k + (b - c))}"
      using L' by (auto simp: covers_def)
    show "(k + (b - c)) mod VA_PAGE = 0"
      using b(4) c(4) by (simp add: mod_eq_0_iff_dvd)
  qed (use L L' b c in \<open>auto simp: sorted_wrt_append\<close>)
next
  case False
  have near: "fst (last L) + snd (last L) < b" if "L \<noteq> []"
  proof (rule ccontr)
    assume "\<not> fst (last L) + snd (last L) < b"
    moreover have "fst (last L) + snd (last L) \<le> b"
      using L(2) last_in_set [OF that] by blast
    ultimately have sum: "fst (last L) + snd (last L) = b"
      by simp
    then have "last L = (fst (last L), b - fst (last L))"
      by (metis add_diff_cancel_left' prod.collapse)
    then have "L = butlast L @ [(fst (last L), b - fst (last L))]"
      using append_butlast_last_id [OF that] by argo
    moreover have "fst (last L) \<le> b"
      using sum by simp
    ultimately show False
      using False by blast
  qed
  have "\<forall>r \<in> set L. fst r + snd r < b"
  proof (cases "L = []")
    case False
    have sorted: "sorted_wrt before (butlast L @ [last L])"
      using L(1) False by simp
    have "fst r + snd r < b" if "r \<in> set (butlast L)" for r
    proof -
      have "fst r + snd r < fst (last L)"
        using sorted that by (auto simp: sorted_wrt_append before_def)
      with near [OF False] show ?thesis
        by linarith
    qed
    moreover have "set L = insert (last L) (set (butlast L))"
      using False by (metis append_butlast_last_id list.simps(15) set_append set_empty sup.commute insert_is_Un list.set(1))
    ultimately show ?thesis
      using near [OF False] by auto
  qed simp
  moreover have "merge_left (length L) b k (L @ R) = (b, k, L @ R)"
    using near by (cases "L = []") (auto simp: merge_left_def nth_append last_conv_nth)
  ultimately show thesis
    using that [of b k L] L b by auto
qed

text \<open>The list around a range that is out: what lies below it and what lies above.\<close>

lemma around:
  assumes ok: "va_ok base p" and r: "0 < k" "{b ..< b + k} \<inter> available p = {}"
  obtains L R where "va_free p = L @ R" "sorted_wrt before L" "sorted_wrt before R"
    "\<forall>r \<in> set L. entry_ok base (va_next p) r \<and> fst r + snd r \<le> b" "\<forall>r \<in> set R. entry_ok base (va_next p) r \<and> b + k \<le> fst r"
    "insert_position b (va_free p) = length L"
proof -
  define L where "L = takeWhile (\<lambda>(c, _). c < b) (va_free p)"
  define R where "R = dropWhile (\<lambda>(c, _). c < b) (va_free p)"
  have fs: "va_free p = L @ R"
    by (simp add: L_def R_def)
  have entries: "\<forall>r \<in> set L \<union> set R. entry_ok base (va_next p) r" and sorted: "sorted_wrt before L" "sorted_wrt before R"
    using ok fs by (auto simp: va_ok_def entry_ok_def sorted_wrt_append)
  have out: "b + k \<le> fst x \<or> fst x + snd x \<le> b" if "x \<in> set L \<union> set R" for x
  proof (rule ccontr)
    assume "\<not> (b + k \<le> fst x \<or> fst x + snd x \<le> b)"
    then have "max b (fst x) \<in> {b ..< b + k} \<inter> covers x"
      using r(1) entries that by (auto simp: covers_def entry_ok_def)
    moreover have "covers x \<subseteq> available p"
      using that fs by (auto simp: available_def)
    ultimately show False
      using r(2) by blast
  qed
  have "fst x < b" if "x \<in> set L" for x
    using set_takeWhileD [of x "\<lambda>(c, _). c < b" "va_free p"] that by (auto simp: L_def)
  then have below: "fst x + snd x \<le> b" if "x \<in> set L" for x
    using out [of x] that by fastforce
  have far: "b \<le> fst x" if "x \<in> set R" for x
  proof -
    have "b \<le> fst (hd R)"
      using hd_dropWhile [of "\<lambda>(c, _). c < b" "va_free p"] that by (fastforce simp: R_def)
    moreover have "fst (hd R) \<le> fst x"
      using sorted(2) that by (cases R) (auto simp: before_def)
    ultimately show ?thesis
      by simp
  qed
  have above: "b + k \<le> fst x" if "x \<in> set R" for x
  proof -
    have "0 < snd x"
      using entries that by (auto simp: entry_ok_def)
    with out [of x] far [OF that] that show ?thesis
      by auto
  qed
  show thesis
    using that [OF fs sorted] below above entries by (auto simp: insert_position_def partition_point_def L_def)
qed

text \<open>The release with both merges done.\<close>

lemma release_form:
  assumes ok: "va_ok base p" and k: "checked_next_multiple_of len VA_PAGE = Some k" "0 < k"
    and r: "base \<le> b" "b + k \<le> va_next p" "b mod VA_PAGE = 0" "{b ..< b + k} \<inter> available p = {}"
  obtains L R c n where
    "va_release reserved b len p =
       (if c + n = va_next p then p\<lparr>va_next := c, va_free := L @ R\<rparr>
        else if \<not> reserved then p\<lparr>va_free := L @ R\<rparr> else p\<lparr>va_free := L @ (c, n) # R\<rparr>)"
    "set L \<union> set R \<subseteq> set (va_free p)" "sorted_wrt before L" "sorted_wrt before R" "\<forall>r \<in> set L. fst r + snd r < c"
    "\<forall>r \<in> set R. c + n < fst r" "base \<le> c" "0 < n" "c + n \<le> va_next p" "c mod VA_PAGE = 0" "n mod VA_PAGE = 0"
    "pieces (va_free p) \<union> {b ..< b + k} = pieces L \<union> {c ..< c + n} \<union> pieces R"
proof -
  obtain L R where fs: "va_free p = L @ R" and sorted: "sorted_wrt before L" "sorted_wrt before R"
    and low: "\<forall>r \<in> set L. entry_ok base (va_next p) r \<and> fst r + snd r \<le> b"
    and high: "\<forall>r \<in> set R. entry_ok base (va_next p) r \<and> b + k \<le> fst r" and pos: "insert_position b (va_free p) = length L"
    using around [OF ok k(2) r(4)] by blast
  have kmod: "k mod VA_PAGE = 0"
    using rounded [OF k(1)] by simp
  have below: "\<forall>r \<in> set L. fst r < b"
    using low by (fastforce simp: entry_ok_def)
  obtain k2 R2 where right: "merge_right b k (L @ R) = (k2, L @ R2)" "k \<le> k2" "b + k2 \<le> va_next p" "k2 mod VA_PAGE = 0"
    "set R2 \<subseteq> set R" "sorted_wrt before R2" "\<forall>r \<in> set R2. b + k2 < fst r" "{b ..< b + k} \<union> pieces R = {b ..< b + k2} \<union> pieces R2"
    by (rule merge_right_spec [OF below sorted(2) high k(2) r(2) kmod])
  have "0 < k2"
    using right(2) k(2) by simp
  obtain c n L2 where left: "merge_left (length L) b k2 (L @ R2) = (c, n, L2 @ R2)" "c + n = b + k2" "base \<le> c" "0 < n"
    "c mod VA_PAGE = 0" "n mod VA_PAGE = 0" "set L2 \<subseteq> set L" "sorted_wrt before L2" "\<forall>r \<in> set L2. fst r + snd r < c"
    "pieces L \<union> {b ..< b + k2} = pieces L2 \<union> {c ..< c + n}"
    by (rule merge_left_spec [OF sorted(1) low r(1,3) \<open>0 < k2\<close> right(4)])
  have point: "insert_position c (L2 @ R2) = length L2"
    by (rule insert_position_split) (use left(2,9) right(7) in fastforce)+
  have "b + k \<le> U64_MAX"
    using ok r(2) by (simp add: va_ok_def)
  then have form: "va_release reserved b len p =
       (if c + n = va_next p then p\<lparr>va_next := c, va_free := L2 @ R2\<rparr>
        else if \<not> reserved then p\<lparr>va_free := L2 @ R2\<rparr> else p\<lparr>va_free := L2 @ (c, n) # R2\<rparr>)"
    using k right(1) left(1) point pos fs by (simp add: va_release_def Let_def checked_add_def)
  have "pieces (va_free p) \<union> {b ..< b + k} = pieces L2 \<union> {c ..< c + n} \<union> pieces R2"
    unfolding fs pieces_simps using right(8) left(10) by blast
  moreover have "set L2 \<union> set R2 \<subseteq> set (va_free p)" "\<forall>r \<in> set R2. c + n < fst r" "c + n \<le> va_next p"
    using left(2,7) right(3,5,7) fs by auto
  ultimately show thesis
    by (intro that [OF form _ left(8) right(6) left(9) _ left(3,4) _ left(5,6)])
qed

lemma va_release_spec:
  assumes ok: "va_ok base p" and k: "checked_next_multiple_of len VA_PAGE = Some k" "0 < k"
    and r: "base \<le> b" "b + k \<le> va_next p" "b mod VA_PAGE = 0" "{b ..< b + k} \<inter> available p = {}"
  shows "va_ok base (va_release reserved b len p) \<and> va_end (va_release reserved b len p) = va_end p \<and>
    available (va_release reserved b len p) \<subseteq> available p \<union> {b ..< b + k} \<and>
    (reserved \<longrightarrow> available (va_release reserved b len p) = available p \<union> {b ..< b + k})"
proof -
  obtain L R c n where form: "va_release reserved b len p =
       (if c + n = va_next p then p\<lparr>va_next := c, va_free := L @ R\<rparr>
        else if \<not> reserved then p\<lparr>va_free := L @ R\<rparr> else p\<lparr>va_free := L @ (c, n) # R\<rparr>)"
    and old: "set L \<union> set R \<subseteq> set (va_free p)" and sorted: "sorted_wrt before L" "sorted_wrt before R"
    and gaps: "\<forall>r \<in> set L. fst r + snd r < c" "\<forall>r \<in> set R. c + n < fst r"
    and c: "base \<le> c" "0 < n" "c + n \<le> va_next p" "c mod VA_PAGE = 0" "n mod VA_PAGE = 0"
    and pieces: "pieces (va_free p) \<union> {b ..< b + k} = pieces L \<union> {c ..< c + n} \<union> pieces R"
    by (rule release_form [OF ok k r])
  have fixed: "0 < base" "va_next p \<le> va_end p" "va_end p \<le> U64_MAX" "base mod VA_PAGE = 0" "va_next p mod VA_PAGE = 0"
    and entries: "\<forall>r \<in> set L \<union> set R. 0 < snd r \<and> base \<le> fst r \<and> fst r + snd r < va_next p \<and> fst r mod VA_PAGE = 0 \<and> snd r mod VA_PAGE = 0"
    using ok old by (auto simp: va_ok_def)
  have LR: "sorted_wrt before (L @ R)" "sorted_wrt before (L @ (c, n) # R)"
    using sorted gaps by (fastforce simp: sorted_wrt_append before_def)+
  have all: "available p \<union> {b ..< b + k} = pieces L \<union> {c ..< c + n} \<union> pieces R \<union> {va_next p ..< va_end p}"
    unfolding available_pieces using pieces by blast
  show ?thesis
  proof (cases "c + n = va_next p")
    case True
    have "R = []"
      using gaps(2) entries True by (cases R) fastforce+
    moreover have "{c ..< va_end p} = {c ..< c + n} \<union> {va_next p ..< va_end p}"
      using True fixed(2) c(2) by auto
    ultimately show ?thesis
      unfolding all using form True fixed c entries gaps(1) sorted
      by (auto simp: va_ok_def available_pieces)
  next
    case False
    then have "c + n < va_next p"
      using c(3) by simp
    with False form fixed c entries LR show ?thesis
      unfolding all by (auto simp: va_ok_def available_pieces covers_def)
  qed
qed

section \<open>Runs\<close>

text \<open>A pool and the ranges that are out. A release names a range that is out, by any length that rounds to its own.\<close>

inductive va_step :: "va_pool \<times> (nat \<times> nat) list \<Rightarrow> va_pool \<times> (nat \<times> nat) list \<Rightarrow> bool" where
  va_granted: "va_alloc len p = (b, p') \<Longrightarrow> b \<noteq> 0 \<Longrightarrow> checked_next_multiple_of len VA_PAGE = Some k \<Longrightarrow>
    va_step (p, live) (p', (b, k) # live)"
| va_refused: "va_alloc len p = (0, p') \<Longrightarrow> va_step (p, live) (p', live)"
| va_released: "checked_next_multiple_of len VA_PAGE = Some k \<Longrightarrow>
    va_step (p, live @ (b, k) # live') (va_release reserved b len p, live @ live')"

definition apart :: "nat \<times> nat \<Rightarrow> nat \<times> nat \<Rightarrow> bool" where
  "apart r r' \<longleftrightarrow> covers r \<inter> covers r' = {}"

definition lent :: "nat \<Rightarrow> va_pool \<Rightarrow> nat \<times> nat \<Rightarrow> bool" where
  "lent base p r \<longleftrightarrow> 0 < snd r \<and> base \<le> fst r \<and> fst r + snd r \<le> va_end p \<and> fst r mod VA_PAGE = 0 \<and> snd r mod VA_PAGE = 0 \<and>
     covers r \<inter> available p = {}"

definition va_sound :: "nat \<Rightarrow> nat \<Rightarrow> va_pool \<times> (nat \<times> nat) list \<Rightarrow> bool" where
  "va_sound base stop s \<longleftrightarrow> va_ok base (fst s) \<and> va_end (fst s) = stop \<and> sorted_wrt apart (snd s) \<and>
     (\<forall>r \<in> set (snd s). lent base (fst s) r)"

lemma lent_below:
  assumes "va_ok base p" "lent base p r"
  shows "fst r + snd r \<le> va_next p"
proof (rule ccontr)
  assume "\<not> fst r + snd r \<le> va_next p"
  moreover have r: "0 < snd r" "fst r + snd r \<le> va_end p"
    using assms(2) by (simp_all add: lent_def)
  ultimately have "fst r + snd r - 1 \<in> covers r" "fst r + snd r - 1 \<in> available p"
    unfolding available_pieces covers_def by (simp_all add: le_diff_conv2) linarith+
  with assms(2) show False
    by (auto simp: lent_def)
qed

lemma va_sound_step:
  assumes "va_step s s'" "va_sound base stop s"
  shows "va_sound base stop s'"
  using assms
proof (induction rule: va_step.induct)
  case (va_granted len p b p' k live)
  have ok: "va_ok base p"
    using va_granted.prems by (simp add: va_sound_def)
  note spec = va_alloc_spec [OF ok va_granted.hyps(1)]
  then have new: "va_ok base p'" "va_end p' = va_end p" "0 < k" "{b ..< b + k} \<subseteq> available p" "available p' = available p - {b ..< b + k}"
    "base \<le> b" "b mod VA_PAGE = 0" "b + k \<le> va_next p'"
    using va_granted.hyps(2,3) by auto
  have "b + k \<le> va_end p'"
    using new(1,8) by (auto simp: va_ok_def)
  moreover have "k mod VA_PAGE = 0"
    using rounded [OF va_granted.hyps(3)] by simp
  ultimately have "lent base p' (b, k)"
    using new by (auto simp: lent_def covers_def)
  moreover have "apart (b, k) r \<and> lent base p' r" if "r \<in> set live" for r
  proof -
    have r: "lent base p r"
      using va_granted.prems that by (simp add: va_sound_def)
    have "covers (b, k) \<subseteq> available p" "available p' \<subseteq> available p"
      using new(4,5) by (auto simp: covers_def)
    then have "covers (b, k) \<inter> covers r = {}" "covers r \<inter> available p' = {}"
      using r unfolding lent_def by blast+
    with r new(2) show ?thesis
      by (simp add: lent_def apart_def)
  qed
  ultimately show ?case
    using va_granted.prems new(1,2) by (simp add: va_sound_def)
next
  case (va_refused len p p' live)
  have "va_ok base p"
    using va_refused.prems by (simp add: va_sound_def)
  from va_alloc_spec [OF this va_refused.hyps] have "p' = p"
    by simp
  with va_refused.prems show ?case
    by simp
next
  case (va_released len k p live b live' reserved)
  have ok: "va_ok base p" and lent: "lent base p (b, k)" and others: "\<forall>r \<in> set live \<union> set live'. lent base p r \<and> apart r (b, k)"
    and rest: "sorted_wrt apart (live @ live')"
    using va_released.prems by (auto simp: va_sound_def sorted_wrt_append apart_def)
  have range: "0 < k" "base \<le> b" "b + k \<le> va_next p" "b mod VA_PAGE = 0" "{b ..< b + k} \<inter> available p = {}"
    using lent lent_below [OF ok lent] by (simp_all add: lent_def covers_def)
  note spec = va_release_spec [OF ok va_released.hyps range, of reserved]
  have "lent base (va_release reserved b len p) r" if "r \<in> set live \<union> set live'" for r
  proof -
    have r: "lent base p r" "covers r \<inter> covers (b, k) = {}"
      using others that by (auto simp: apart_def)
    have "available (va_release reserved b len p) \<subseteq> available p \<union> covers (b, k)"
      using spec by (simp add: covers_def)
    then have "covers r \<inter> available (va_release reserved b len p) = {}"
      using r unfolding lent_def by blast
    with r(1) spec show ?thesis
      by (simp add: lent_def)
  qed
  with spec rest va_released.prems show ?case
    by (simp add: va_sound_def)
qed

section \<open>Property\<close>

text \<open>
  C20: No two address ranges overlap. Over any sequence of requests, granted or refused, and releases of
  ranges that are out, with the list growing or failing to, every range that is out lies page-aligned
  inside the window, apart from every other one and from everything the pool could still hand out.
\<close>

theorem address_ranges_never_overlap:
  assumes "0 < base" "base \<le> stop" "stop \<le> U64_MAX" "base mod VA_PAGE = 0"
    and "va_step\<^sup>*\<^sup>* (va_new base stop, []) (p, live)"
  shows "sorted_wrt (\<lambda>r r'. covers r \<inter> covers r' = {}) live \<and>
    (\<forall>r \<in> set live. covers r \<subseteq> {base ..< stop} \<and> fst r mod VA_PAGE = 0 \<and> covers r \<inter> available p = {})"
proof -
  have "va_sound base stop (va_new base stop, [])"
    using va_new_ok(1) [OF assms(1-4)] by (simp add: va_sound_def) (simp add: va_new_def)
  from run_invariant [where P = "va_sound base stop", OF assms(5) this va_sound_step] have "va_sound base stop (p, live)" .
  then have "sorted_wrt apart live" "\<forall>r \<in> set live. lent base p r" "va_end p = stop"
    by (simp_all add: va_sound_def)
  then show ?thesis
    unfolding apart_def by (auto simp: lent_def covers_def)
qed

theorem address_ranges_never_overlap_witness:
  "\<exists>p. va_step\<^sup>*\<^sup>* (va_new 4096 65536, []) (p, [(4096, 8192), (12288, 4096)]) \<and> covers (4096, 8192) \<inter> covers (12288, 4096) = {}"
proof -
  let ?p0 = "va_new 4096 65536"
  let ?p1 = "snd (va_alloc 5000 ?p0)"
  let ?p2 = "snd (va_alloc 1 ?p1)"
  let ?p3 = "va_release True 4096 8192 ?p2"
  let ?p4 = "snd (va_alloc 8192 ?p3)"
  have "va_step (?p0, []) (?p1, [(4096, 8192)])"
    by (rule va_granted [of 5000]) code_simp+
  moreover have "va_step (?p1, [(4096, 8192)]) (?p2, [(12288, 4096), (4096, 8192)])"
    by (rule va_granted [of 1]) code_simp+
  moreover have "va_step (?p2, [(12288, 4096)] @ (4096, 8192) # []) (?p3, [(12288, 4096)] @ [])"
    by (rule va_released) code_simp
  moreover have "va_step (?p3, [(12288, 4096)]) (?p4, [(4096, 8192), (12288, 4096)])"
    by (rule va_granted [of 8192]) code_simp+
  ultimately have run: "va_step\<^sup>*\<^sup>* (?p0, []) (?p4, [(4096, 8192), (12288, 4096)])"
    by (simp add: converse_rtranclp_into_rtranclp)
  have "(0 :: nat) < 4096" "(4096 :: nat) \<le> 65536" "65536 \<le> U64_MAX" "4096 mod VA_PAGE = 0"
    by (simp_all add: U64_MAX_def VA_PAGE_def)
  from address_ranges_never_overlap [OF this run] run show ?thesis
    by auto
qed

end
