(* ===== verification/Spec2Isabelle.thy ===== *)
theory Spec2Isabelle
  imports Handle_Properties Channel_Properties Ipc_Properties Buddy_Properties Topology_Properties
    Acpi_Properties Frame_Properties Hotplug_Properties Memory_Properties Drain_Properties
    Va_Pool_Properties
begin

text \<open>
  LiberSystem is an operating system around a capability microkernel. A process names kernel objects by
  handles of its own table; a channel carries bytes and handles between processes; domains bound what a
  subtree of processes may hold; the memory core hands out physical frames, takes them back after every
  core has forgotten them, and learns from the firmware where memory and processors are. This
  development models those parts and shows what they promise to each other. Paths are relative to
  \<^verbatim>\<open>src/src\<close>.

  \<^bold>\<open>The parts and their theories.\<close>

  \<^item> \<open>Kernel_Prelude\<close>: the machine integers and the checked and saturating arithmetic of the Rust library,
    \<^verbatim>\<open>partition_point\<close>, counting over lists, and the collections of rewriting rules. \<open>Word_Bitmap\<close>: one bit
    per index in a vector of 64-bit words, shared by two components.

  \<^item> \<open>Objects\<close> (\<^verbatim>\<open>kernel/object/{rights,mod}.rs\<close> and the capability half of \<^verbatim>\<open>kernel/object/handle/mod.rs\<close>):
    rights, object headers with their revocation generation, capabilities.

  \<^item> \<open>Domains\<close> (\<^verbatim>\<open>kernel/object/domain/mod.rs\<close>): the counters, and charging a domain with all its
    ancestors. The locale \<open>quota_ledger\<close> is the contract the handle table and the channels rely on, and
    \<open>ledger\<close> its interpretation on the walks of the source.

  \<^item> \<open>Handles\<close> (\<^verbatim>\<open>kernel/object/handle/mod.rs\<close>): the slots, the free list and the booked slots of a table,
    one definition per method. \<open>Handle_Invariants\<close>, \<open>Handle_Booking\<close> and \<open>Handle_Ledger\<close> give the effect of each
    operation on the invariant, on the space of capabilities and on the quota; \<open>Handle_Steps\<close> closes them
    over every sequence of operations; \<open>Handle_Properties\<close> states that a closed handle never names anything
    again, that a duplicate adds no right, that revocation is immediate, that the quota is exact, that a
    booking is all or nothing and that closing the table ends every handle it had.

  \<^item> \<open>Channels\<close> (\<^verbatim>\<open>kernel/object/channel/mod.rs\<close>): a store of endpoints; each operation is one step because
    the source decides it under one lock. \<open>Channel_Steps\<close>, \<open>Channel_Ledger\<close> and \<open>Channel_Wakes\<close> treat every
    interleaving of senders and receivers and the drop of an endpoint; \<open>Channel_Properties\<close>: delivery
    exactly once, in order while one receive at a time is in progress, the bound on the queue, the exact
    accounting of bytes in transit, no lost wake-up.

  \<^item> \<open>User_Memory\<close> and \<open>Ipc\<close> (\<^verbatim>\<open>kernel/syscall/mod.rs\<close>, \<^verbatim>\<open>kernel/arch/x86_64/usercopy.rs\<close>): the checks and
    copies at the user boundary and the whole handlers of the handle and channel calls over the state of
    the kernel. \<open>Ipc_Steps\<close> and \<open>Ipc_Runs\<close> show that every handler is a sequence of table and channel steps,
    \<open>Ipc_Transfers\<close> holds the contract of a transfer (locale \<open>transfer_space\<close>), \<open>Ipc_Authority\<close> the
    confinement of capabilities, \<open>Ipc_Outcomes\<close> what each outcome leaves behind, and \<open>Ipc_Properties\<close> states
    them for every sequence of calls of any processes and of drops of endpoints nothing references.

  \<^item> \<open>Buddy\<close> (\<^verbatim>\<open>buddy/src/lib.rs\<close>): the buddy allocator over packed bitmaps. \<open>Buddy_Bits\<close> refines the words to
    a set of blocks, \<open>Buddy_Blocks\<close> the blocks to a set of free pages, \<open>Buddy_Ops\<close> and \<open>Buddy_Requests\<close> give
    each operation over that set, \<open>Buddy_Properties\<close> states exactness and that what the allocator records and
    answers next depends on the free pages alone, not on the calls that led to them.

  \<^item> \<open>Topology\<close> and \<open>Acpi\<close> (\<^verbatim>\<open>topology/src/lib.rs\<close>, \<^verbatim>\<open>topology/src/acpi.rs\<close>): the tables of nodes, ranges and
    distances, built from records, and the decoders that read the records out of the bytes of the firmware.
    Their properties: the table answers for each address what the records say; the decoders are total on
    every list of bytes, take the entries in order up to the first that does not fit, and read back what a
    table was built from.

  \<^item> \<open>Frames\<close> (\<^verbatim>\<open>kernel/mem/frame/mod.rs\<close>, the allocator under its lock): one buddy per node, the table of
    runs, the ownership record. \<open>Frame_Pools\<close> lifts a request to the walk over the pools (locale
    \<open>page_request\<close>, interpreted for one frame, for a run and for a run below a limit); \<open>Frame_Ops\<close> ties
    the three views together; \<open>Frame_Properties\<close> states that hand-outs are exact, that the walk asks the
    wanted node first and then the others by distance, and which frees are accepted:
    those of every frame of the record that is not free, which is more than the frames that were handed out.

  \<^item> \<open>Hotplug\<close> (\<^verbatim>\<open>kernel/mem/hotplug/mod.rs\<close>): regions, blocks that go online and offline, their frames.
    \<open>Hotplug_Frames\<close> and \<open>Hotplug_Ops\<close> refine it to two sets of frames; \<open>Hotplug_Properties\<close> states that
    blocks move whole, and which ranges become a region whatever other calls do meanwhile.

  \<^item> \<open>Memory\<close> (\<^verbatim>\<open>kernel/mem/frame/mod.rs\<close>, the functions over the allocator): single frames, runs, sets of
    frames, program memory, the balloon, retirement and the quarantine. \<open>Memory_Ops\<close> (locale \<open>frame_source\<close>,
    interpreted for both sources of single frames) and \<open>Memory_Retire\<close> carry \<open>Memory_Properties\<close>: no frame
    has two owners over any sequence of calls, and a mapped frame is released only after a completed
    shootdown.

  \<^item> \<open>Tlb\<close> (\<^verbatim>\<open>kernel/mem/tlb.rs\<close>, \<^verbatim>\<open>kernel/smp/mod.rs\<close>) and \<open>Drains\<close> (\<^verbatim>\<open>drain_quarantine\<close> of
    \<^verbatim>\<open>kernel/mem/frame/mod.rs\<close>): the shootdown and the drain as they interleave on the cores, one step per
    access to shared memory. \<open>Tlb_Steps\<close> holds the invariants; \<open>Tlb_Properties\<close> and \<open>Drain_Properties\<close> say what
    a completed shootdown and a drain guarantee, and by two schedules where the guarantee of a drain ends.

  \<^item> \<open>Va_Pool\<close> (\<^verbatim>\<open>kernel/mem/vapool.rs\<close>): the allocator of address windows; \<open>Va_Pool_Properties\<close> states that
    ranges that are out never overlap.

  \<^bold>\<open>How the code corresponds to the definitions.\<close> A struct is a record, an enum a datatype, a method a
  function of the same name that takes the state and returns the new one; a prefix (\<open>ht_\<close>, \<open>va_\<close>, \<open>hp_\<close>,
  \<open>fa_\<close>) keeps names apart. Errors are values: an option or a sum, one branch per early return. A panic is
  the value None. Bitmap words and the fields that wrap keep their width; other integers are natural
  numbers with the bound of their type written into the operations that check it. Code outside the
  source, such as the heap's answer to a reservation, the page tables or the answers of other cores, is an
  argument of the definitions that ask, and a theorem quantifies over all of it.

  \<^bold>\<open>Bounds and fuel.\<close> No function of the model runs on an arbitrary fuel. A loop is a recursion over what it
  consumes: the slots of a table, the orders and words of a bitmap, the pages of a span, the bytes of a
  table, the ancestors of a domain (which descend in their identity). The loop of a drain ends because each
  round shortens the queue. In the interleaving models a run is a function of its schedule, and each
  statement is about every schedule of every length.

  \<^bold>\<open>Concurrency.\<close> What the source does under one lock is one step. Where it uses bare atomics (the
  shootdown) each access is a step and accesses interleave sequentially; the weaker orders the hardware
  allows are not modelled. The counters of a domain are compare-and-swap loops and take effect in the swap
  that succeeds. A handler of a system call takes several locks one after the other and runs to its end
  here, with two exceptions written into the definitions: what other processors do to the channels, and to
  the messages their receives have in hand, between the look and the take of a receive (\<open>cl_other\<close>), and
  what other calls do to the table of regions between the two locks of a registration. What a handler is
  made of are single steps of a table or a channel (\<open>kstep\<close> of \<open>Ipc_Steps\<close>), each of which keeps the
  invariants and the accounts by itself. An endpoint is dropped by whichever thread gives up its last
  reference; references that threads hold for the length of a call are not in the state, so the drop is
  a step of its own, allowed once nothing in the kernel names the endpoint. Taking a block of plugged
  memory online or offline is one step, although the source changes the direct map outside the lock. A
  thread always makes the call: the error the handlers answer without one does not occur.

  \<^bold>\<open>What is not modelled.\<close> The scheduler, threads and timers; address spaces and page tables, whose effect
  enters as parameters; the kernel heap; the other object types (memory objects, DMA buffers, interrupts,
  port ranges, wait sets, process groups) and their system calls; the architecture code, interrupt entry
  and context switches; device and firmware access, the IOMMU and power management; the ELF and package
  loaders; the boot loader; everything in user space. They are machine code, device protocols or
  components whose contracts do not meet the ones above.
\<close>

end
